(* ===== verification/Stcp_Prelude.thy ===== *)
theory Stcp_Prelude
  imports Main "HOL-Library.Word"
begin

unbundle bit_operations_syntax

text \<open>
  The vocabulary the component theories share: what a C call can do (return, wait on a
  condition, or end the process), a heap of objects addressed by allocation number, the two
  host byte orders, and generic facts on lists and words.

  A C function that touches shared state is a program: a function from the state to an
  outcome. \<open>Done a s\<close> is a return with value \<open>a\<close> in state \<open>s\<close>; \<open>Blocked s\<close> is a thread that
  waits (a condition variable, a mutex, a join) with the shared state being \<open>s\<close>;
  \<open>Abort f\<close> is the end of the process at a failed assertion or at an undefined access. The
  repository's Makefile never sets NDEBUG, so every assert of the source is live.
\<close>

named_theorems run_simps \<open>equations that execute the program combinators\<close>
named_theorems heap_simps \<open>reads after allocation, writes and frees\<close>
named_theorems keeps_intros \<open>introduction rules for invariant preservation\<close>

type_synonym byte = "8 word"

section \<open>Outcomes of a C call\<close>

datatype fault =
    Assertion string nat      \<comment> \<open>a failed assert: source file and line\<close>
  | Null_pointer string nat   \<comment> \<open>a dereference of NULL\<close>
  | Dangling string nat       \<comment> \<open>an access through a freed object\<close>
  | Out_of_bounds string nat  \<comment> \<open>an access outside a buffer\<close>
  | Indeterminate string nat  \<comment> \<open>a use of a variable that was never set\<close>
  | Exit string nat           \<comment> \<open>a call of exit\<close>

datatype ('s, 'a) outcome = Done 'a 's | Blocked 's | Abort fault

type_synonym ('s, 'a) prog = "'s \<Rightarrow> ('s, 'a) outcome"

definition ret :: "'a \<Rightarrow> ('s, 'a) prog" where
  "ret a = (\<lambda>s. Done a s)"

definition bind :: "('s, 'a) prog \<Rightarrow> ('a \<Rightarrow> ('s, 'b) prog) \<Rightarrow> ('s, 'b) prog" where
  "bind m f = (\<lambda>s. case m s of Done a s' \<Rightarrow> f a s' | Blocked s' \<Rightarrow> Blocked s' | Abort e \<Rightarrow> Abort e)"

definition abort :: "fault \<Rightarrow> ('s, 'a) prog" where
  "abort e = (\<lambda>s. Abort e)"

definition block :: "('s, 'a) prog" where
  "block = (\<lambda>s. Blocked s)"

definition assert_at :: "string \<Rightarrow> nat \<Rightarrow> bool \<Rightarrow> ('s, unit) prog" where
  "assert_at file line b = (if b then ret () else abort (Assertion file line))"

definition gets :: "('s \<Rightarrow> 'a) \<Rightarrow> ('s, 'a) prog" where
  "gets f = (\<lambda>s. Done (f s) s)"

definition modify :: "('s \<Rightarrow> 's) \<Rightarrow> ('s, unit) prog" where
  "modify f = (\<lambda>s. Done () (f s))"

definition the_or :: "fault \<Rightarrow> 'a option \<Rightarrow> ('s, 'a) prog" where
  "the_or e x = (case x of None \<Rightarrow> abort e | Some a \<Rightarrow> ret a)"

text \<open>Running a program that works on a part of the state: a field of an object.\<close>

definition zoom :: "('s \<Rightarrow> 't) \<Rightarrow> ('t \<Rightarrow> 's \<Rightarrow> 's) \<Rightarrow> ('t, 'a) prog \<Rightarrow> ('s, 'a) prog" where
  "zoom get put m = (\<lambda>s. case m (get s) of
      Done a t \<Rightarrow> Done a (put t s)
    | Blocked t \<Rightarrow> Blocked (put t s)
    | Abort e \<Rightarrow> Abort e)"

lemma ret_run [run_simps]: "ret a s = Done a s"
  by (simp add: ret_def)

lemma abort_run [run_simps]: "abort e s = Abort e"
  by (simp add: abort_def)

lemma block_run [run_simps]: "block s = Blocked s"
  by (simp add: block_def)

lemma assert_at_run [run_simps]:
  "assert_at file line b s = (if b then Done () s else Abort (Assertion file line))"
  by (simp add: assert_at_def ret_def abort_def)

lemma gets_run [run_simps]: "gets f s = Done (f s) s"
  by (simp add: gets_def)

lemma modify_run [run_simps]: "modify f s = Done () (f s)"
  by (simp add: modify_def)

lemma the_or_run [run_simps]:
  "the_or e x s = (case x of None \<Rightarrow> Abort e | Some a \<Rightarrow> Done a s)"
  by (simp add: the_or_def ret_def abort_def split: option.split)

lemma bind_run [run_simps]:
  "bind m f s = (case m s of Done a s' \<Rightarrow> f a s' | Blocked s' \<Rightarrow> Blocked s' | Abort e \<Rightarrow> Abort e)"
  by (simp add: bind_def)

lemma bind_Done_iff:
  "bind m f s = Done b t \<longleftrightarrow> (\<exists>a s'. m s = Done a s' \<and> f a s' = Done b t)"
  by (auto simp: bind_def split: outcome.splits)

lemma bind_assoc: "bind (bind m f) g = bind m (\<lambda>a. bind (f a) g)"
  by (auto simp: bind_def split: outcome.splits)

lemma bind_ret [simp]: "bind (ret a) f = f a"
  by (simp add: bind_def ret_def)

lemma ret_bind [simp]: "bind m ret = m"
  by (auto simp: bind_def ret_def split: outcome.splits)

subsection \<open>Loops\<close>

text \<open>
  The loops of threads and of the two programs may run for ever. \<open>iterate n body l\<close> is such a loop
  watched for at most \<open>n\<close> rounds: \<open>l\<close> holds the local variables, a round goes on (\<open>Inl l'\<close>) or
  leaves with a value (\<open>Inr a\<close>). The value is \<open>None\<close> when the rounds are used up; \<open>None\<close> in a
  round is an inner loop that is still running. A loop that ends has one value for all large bounds.
\<close>

fun iterate :: "nat \<Rightarrow> ('l \<Rightarrow> ('s, ('l + 'a) option) prog) \<Rightarrow> 'l \<Rightarrow> ('s, 'a option) prog" where
  "iterate 0 body l = ret None"
| "iterate (Suc n) body l = bind (body l) (\<lambda>x. case x of
     None \<Rightarrow> ret None
   | Some (Inl l') \<Rightarrow> iterate n body l'
   | Some (Inr a) \<Rightarrow> ret (Some a))"

lemma iterate_more: "iterate n body l s = Done (Some a) s' \<Longrightarrow> n \<le> m \<Longrightarrow> iterate m body l s = Done (Some a) s'"
proof (induction n arbitrary: m l s)
  case 0
  then show ?case by (simp add: run_simps)
next
  case (Suc n)
  from Suc.prems(2) obtain k where m: "m = Suc k" "n \<le> k" by (cases m) auto
  from Suc.prems(1) Suc.IH [OF _ m(2)] show ?case
    by (auto simp: m run_simps split: outcome.splits option.splits sum.splits)
qed

subsection \<open>Invariant preservation\<close>

text \<open>
  \<open>keeps I m\<close>: wherever \<open>m\<close> starts in a state with \<open>I\<close>, a return and a wait leave \<open>I\<close> true.
  The rules follow the combinators, so a handler's preservation proof follows its text.
\<close>

definition keeps :: "('s \<Rightarrow> bool) \<Rightarrow> ('s, 'a) prog \<Rightarrow> bool" where
  "keeps I m \<longleftrightarrow> (\<forall>s. I s \<longrightarrow> (case m s of Done a s' \<Rightarrow> I s' | Blocked s' \<Rightarrow> I s' | Abort e \<Rightarrow> True))"

lemma keepsI:
  assumes "\<And>s a s'. I s \<Longrightarrow> m s = Done a s' \<Longrightarrow> I s'"
    and "\<And>s s'. I s \<Longrightarrow> m s = Blocked s' \<Longrightarrow> I s'"
  shows "keeps I m"
  unfolding keeps_def
proof (intro allI impI)
  fix s assume I: "I s"
  show "case m s of Done a s' \<Rightarrow> I s' | Blocked s' \<Rightarrow> I s' | Abort e \<Rightarrow> True"
  proof (cases "m s")
    case (Done a s')
    from assms(1) [OF I Done] Done show ?thesis by simp
  next
    case (Blocked s')
    from assms(2) [OF I Blocked] Blocked show ?thesis by simp
  qed simp
qed

lemma keeps_Done: "keeps I m \<Longrightarrow> I s \<Longrightarrow> m s = Done a s' \<Longrightarrow> I s'"
  unfolding keeps_def by (drule spec [of _ s]) simp

lemma keeps_Blocked: "keeps I m \<Longrightarrow> I s \<Longrightarrow> m s = Blocked s' \<Longrightarrow> I s'"
  unfolding keeps_def by (drule spec [of _ s]) simp

lemma keeps_ret [keeps_intros]: "keeps I (ret a)"
  and keeps_abort [keeps_intros]: "keeps I (abort e)"
  and keeps_block [keeps_intros]: "keeps I block"
  and keeps_assert_at [keeps_intros]: "keeps I (assert_at file line b)"
  and keeps_gets [keeps_intros]: "keeps I (gets f)"
  and keeps_the_or [keeps_intros]: "keeps I (the_or e x)"
  by (auto simp: keeps_def run_simps split: option.splits)

lemma keeps_modify: "(\<And>s. I s \<Longrightarrow> I (f s)) \<Longrightarrow> keeps I (modify f)"
  by (simp add: keeps_def run_simps)

lemma keeps_bind [keeps_intros]: "keeps I m \<Longrightarrow> (\<And>a. keeps I (f a)) \<Longrightarrow> keeps I (bind m f)"
  by (rule keepsI) (auto simp: run_simps split: outcome.split_asm dest: keeps_Done keeps_Blocked)

lemma keeps_if [keeps_intros]: "(b \<Longrightarrow> keeps I m) \<Longrightarrow> (\<not> b \<Longrightarrow> keeps I n) \<Longrightarrow> keeps I (if b then m else n)"
  by simp

lemma keeps_option [keeps_intros]:
  "(x = None \<Longrightarrow> keeps I m) \<Longrightarrow> (\<And>a. x = Some a \<Longrightarrow> keeps I (f a)) \<Longrightarrow>
   keeps I (case x of None \<Rightarrow> m | Some a \<Rightarrow> f a)"
  by (cases x) simp_all

lemma keeps_iterate [keeps_intros]: "(\<And>l. keeps I (body l)) \<Longrightarrow> keeps I (iterate n body l)"
  by (induction n arbitrary: l) (auto intro!: keeps_intros split: option.split sum.split)

section \<open>Heaps\<close>

text \<open>
  Objects obtained from malloc and calloc live in a heap: the address of an object is the
  number of allocations made before it, a freed object is \<open>None\<close>. No address is used twice, so
  an access through a freed or foreign pointer is visible as \<open>None\<close>.
\<close>

type_synonym 'a heap = "'a option list"
type_synonym ptr = nat

definition hload :: "'a heap \<Rightarrow> ptr \<Rightarrow> 'a option" where
  "hload h p = (if p < length h then h ! p else None)"

definition hstore :: "'a heap \<Rightarrow> ptr \<Rightarrow> 'a \<Rightarrow> 'a heap" where
  "hstore h p x = h[p := Some x]"

definition hfree :: "'a heap \<Rightarrow> ptr \<Rightarrow> 'a heap" where
  "hfree h p = h[p := None]"

definition halloc :: "'a heap \<Rightarrow> 'a \<Rightarrow> ptr \<times> 'a heap" where
  "halloc h x = (length h, h @ [Some x])"

lemma hload_bound: "hload h p = Some x \<Longrightarrow> p < length h"
  by (simp add: hload_def split: if_splits)

lemma hload_append [heap_simps]:
  "hload (h @ [Some x]) p = (if p = length h then Some x else hload h p)"
  by (simp add: hload_def nth_append)

lemma hload_hstore [heap_simps]:
  "hload (hstore h p x) q = (if q = p \<and> p < length h then Some x else hload h q)"
  by (simp add: hload_def hstore_def)

lemma hload_hfree [heap_simps]:
  "hload (hfree h p) q = (if q = p then None else hload h q)"
  by (auto simp: hload_def hfree_def nth_list_update)

lemma hstore_hstore [heap_simps]: "hstore (hstore h p x) p y = hstore h p y"
  and hfree_hstore [heap_simps]: "hfree (hstore h p x) p = hfree h p"
  by (simp_all add: hstore_def hfree_def)

lemma hstore_same: "hload h p = Some c \<Longrightarrow> hstore h p c = h"
  by (auto simp: hload_def hstore_def list_update_same_conv split: if_splits)

lemma hload_Nil [heap_simps]: "hload [] p = None"
  by (simp add: hload_def)

lemma length_hstore [simp]: "length (hstore h p x) = length h"
  by (simp add: hstore_def)

lemma length_hfree [simp]: "length (hfree h p) = length h"
  by (simp add: hfree_def)

text \<open>The number of live objects bounds every traversal that frees what it visits.\<close>

definition live :: "'a heap \<Rightarrow> nat" where
  "live h = length (filter (\<lambda>x. x \<noteq> None) h)"

lemma live_split:
  assumes "hload h p = Some x"
  shows "live h = Suc (live (take p h @ drop (Suc p) h))"
    and "live (hfree h p) = live (take p h @ drop (Suc p) h)"
    and "live (hstore h p y) = Suc (live (take p h @ drop (Suc p) h))"
proof -
  from assms have p: "p < length h" and x: "h ! p = Some x"
    by (simp_all add: hload_def split: if_splits)
  have "live h = live (take p h @ Some x # drop (Suc p) h)"
    using id_take_nth_drop [OF p] x by simp
  then show "live h = Suc (live (take p h @ drop (Suc p) h))" by (simp add: live_def)
  show "live (hfree h p) = live (take p h @ drop (Suc p) h)"
    "live (hstore h p y) = Suc (live (take p h @ drop (Suc p) h))"
    using p by (simp_all add: live_def hfree_def hstore_def upd_conv_take_nth_drop)
qed

lemma live_hfree: "hload h p = Some x \<Longrightarrow> Suc (live (hfree h p)) = live h"
  by (simp add: live_split)

lemma live_hstore: "hload h p = Some x \<Longrightarrow> live (hstore h p y) = live h"
  by (simp add: live_split)

lemma live_append [simp]: "live (h @ [Some x]) = Suc (live h)" and live_Nil [simp]: "live [] = 0"
  by (simp_all add: live_def)

section \<open>Byte order\<close>

text \<open>
  16 and 32 bit objects in memory, on either host byte order. The addresses and ports the code
  handles are raw: the host's reading of bytes that stand in network order.
\<close>

datatype endian = Little | Big

fun store16 :: "endian \<Rightarrow> 16 word \<Rightarrow> byte list" where
  "store16 Little w = [ucast w, ucast (drop_bit 8 w)]"
| "store16 Big w = [ucast (drop_bit 8 w), ucast w]"

fun load16 :: "endian \<Rightarrow> byte \<Rightarrow> byte \<Rightarrow> 16 word" where
  "load16 Little a b = ucast a + 256 * ucast b"
| "load16 Big a b = 256 * ucast a + ucast b"

fun store32 :: "endian \<Rightarrow> 32 word \<Rightarrow> byte list" where
  "store32 Little w = [ucast w, ucast (drop_bit 8 w), ucast (drop_bit 16 w), ucast (drop_bit 24 w)]"
| "store32 Big w = [ucast (drop_bit 24 w), ucast (drop_bit 16 w), ucast (drop_bit 8 w), ucast w]"

definition swap16 :: "16 word \<Rightarrow> 16 word" where
  "swap16 w = 256 * w + drop_bit 8 w"

fun htons :: "endian \<Rightarrow> 16 word \<Rightarrow> 16 word" where
  "htons Little w = swap16 w"
| "htons Big w = w"

abbreviation ntohs :: "endian \<Rightarrow> 16 word \<Rightarrow> 16 word" where
  "ntohs \<equiv> htons"

section \<open>Results of type int\<close>

text \<open>
  A size\_t that is returned as an int, or stored in one: the conversion keeps the low 32 bits, and reads
  the highest of them as the sign.
\<close>

definition int_of_size :: "nat \<Rightarrow> int" where
  "int_of_size n = sint (of_nat n :: 32 word)"

lemma int_of_size_small [simp]: "n < 2 ^ 31 \<Longrightarrow> int_of_size n = int n"
proof -
  assume n: "n < 2 ^ 31"
  then have "uint (of_nat n :: 32 word) = int n" by (simp add: uint_nat unat_of_nat take_bit_eq_mod)
  with n show ?thesis by (simp add: int_of_size_def sint_uint signed_take_bit_int_eq_self)
qed

text \<open>What a caller sees that tests the result with \<open>< 0\<close>; \<open>Inl\<close> stands for a result of -1 with errno.\<close>

definition negative_result :: "'e + int \<Rightarrow> bool" where
  "negative_result r = (case r of Inl _ \<Rightarrow> True | Inr k \<Rightarrow> k < 0)"

lemma negative_result_simps [simp]: "negative_result (Inl e)" "negative_result (Inr k) = (k < 0)"
  by (simp_all add: negative_result_def)

lemma unat_byte_less [simp]: "unat (b :: byte) < 256"
  and unat_half_less [simp]: "unat (w :: 16 word) < 65536"
  using unsigned_less [of b] unsigned_less [of w] by simp_all

end
