(* ===== verification/Packet_Queue.thy ===== *)
theory Packet_Queue
  imports Stcp_Prelude
begin

text \<open>
  The packet and buffer queues of mysock.c: a singly linked list of heap nodes with head and
  tail pointers. \<open>mysock_enqueue_buffer\<close>, \<open>mysock_dequeue_buffer\<close> and \<open>mysock_free_queue\<close> are
  the three operations of the source on one queue, pointer by pointer; the mutex that
  brackets each of them makes a call one atomic step. The contract of a queue is the locale
  \<open>packet_fifo\<close>: a sequence of buffers, consumed from the front either whole or piecewise. The
  interpretation \<open>pq\<close> discharges it for the pointer structure.
\<close>

section \<open>Data\<close>

record packet_queue_node =
  data :: "byte list"      \<comment> \<open>the malloc'ed block; only its first data_len bytes count\<close>
  data_len :: nat
  nxt :: "ptr option"      \<comment> \<open>the field called next\<close>

record packet_queue =
  head :: "ptr option"
  tail :: "ptr option"
  nodes :: "packet_queue_node heap"  \<comment> \<open>the nodes this queue has allocated\<close>

definition empty_queue :: packet_queue where
  "empty_queue = \<lparr>head = None, tail = None, nodes = []\<rparr>"

text \<open>
  memcpy inside one block, byte by byte in ascending order. The source calls memcpy on
  overlapping ranges with the destination below the source; the ascending copy is the one
  that code relies on.
\<close>

fun copy_up :: "byte list \<Rightarrow> nat \<Rightarrow> nat \<Rightarrow> nat \<Rightarrow> byte list" where
  "copy_up buf dst src 0 = buf"
| "copy_up buf dst src (Suc n) = copy_up (buf[dst := buf ! src]) (Suc dst) (Suc src) n"

text \<open>The descending copy, which the C standard equally allows for memcpy.\<close>

fun copy_down :: "byte list \<Rightarrow> nat \<Rightarrow> nat \<Rightarrow> nat \<Rightarrow> byte list" where
  "copy_down buf dst src 0 = buf"
| "copy_down buf dst src (Suc n) = copy_down (buf[dst + n := buf ! (src + n)]) dst src n"

section \<open>Operations\<close>

definition load_node :: "nat \<Rightarrow> ptr \<Rightarrow> (packet_queue, packet_queue_node) prog" where
  "load_node line p = bind (gets nodes) (\<lambda>h. the_or (Dangling ''mysock.c'' line) (hload h p))"

definition store_node :: "ptr \<Rightarrow> packet_queue_node \<Rightarrow> (packet_queue, unit) prog" where
  "store_node p n = modify (\<lambda>q. q\<lparr>nodes := hstore (nodes q) p n\<rparr>)"

definition alloc_node :: "packet_queue_node \<Rightarrow> (packet_queue, ptr) prog" where
  "alloc_node n = (\<lambda>q. Done (length (nodes q)) (q\<lparr>nodes := nodes q @ [Some n]\<rparr>))"

definition mysock_enqueue_buffer :: "byte list option \<Rightarrow> nat \<Rightarrow> (packet_queue, unit) prog" where
  "mysock_enqueue_buffer packet packet_len =
     bind (assert_at ''mysock.c'' 140 (packet \<noteq> None \<or> packet_len = 0)) (\<lambda>_.
     bind (if packet_len > 0 \<and> length (the packet) < packet_len
           then abort (Out_of_bounds ''mysock.c'' 149) else ret ()) (\<lambda>_.
     bind (alloc_node \<lparr>data = (if packet_len > 0 then take packet_len (the packet) else []),
                       data_len = packet_len, nxt = None\<rparr>) (\<lambda>node.
     bind (gets head) (\<lambda>hd.
     if hd = None
     then bind (gets tail) (\<lambda>tl.
          bind (assert_at ''mysock.c'' 155 (tl = None)) (\<lambda>_.
          modify (\<lambda>q. q\<lparr>head := Some node, tail := Some node\<rparr>)))
     else bind (gets tail) (\<lambda>tl.
          bind (assert_at ''mysock.c'' 160 (tl \<noteq> None)) (\<lambda>_.
          bind (load_node 161 (the tl)) (\<lambda>t.
          bind (assert_at ''mysock.c'' 161 (nxt t = None)) (\<lambda>_.
          bind (load_node 162 node) (\<lambda>n.
          bind (assert_at ''mysock.c'' 162 (nxt n = None)) (\<lambda>_.
          bind (store_node (the tl) (t\<lparr>nxt := Some node\<rparr>)) (\<lambda>_.
          modify (\<lambda>q. q\<lparr>tail := Some node\<rparr>))))))))))))"

text \<open>
  The value is the size the C function returns together with the bytes it stores at dst. An
  empty queue is a wait on data_ready_cond.
\<close>

definition mysock_dequeue_buffer ::
    "nat \<Rightarrow> bool \<Rightarrow> (packet_queue, nat \<times> byte list) prog" where
  "mysock_dequeue_buffer max_len remove_partial =
     bind (gets head) (\<lambda>hd.
     case hd of None \<Rightarrow> block
     | Some p \<Rightarrow>
       bind (load_node 197 p) (\<lambda>node.
       if data_len node > max_len \<and> remove_partial
       then bind (store_node p (node\<lparr>data := copy_up (data node) 0 max_len (data_len node - max_len),
                                     data_len := data_len node - max_len\<rparr>)) (\<lambda>_.
            ret (max_len, take max_len (data node)))
       else bind (modify (\<lambda>q. q\<lparr>head := nxt node\<rparr>)) (\<lambda>_.
            bind (if nxt node = None
                  then bind (gets tail) (\<lambda>tl.
                       bind (assert_at ''mysock.c'' 216 (tl = Some p)) (\<lambda>_.
                       modify (\<lambda>q. q\<lparr>tail := None\<rparr>)))
                  else ret ()) (\<lambda>_.
            bind (modify (\<lambda>q. q\<lparr>nodes := hfree (nodes q) p\<rparr>)) (\<lambda>_.
            ret (data_len node, take (min max_len (data_len node)) (data node)))))))"

function free_nodes :: "ptr option \<Rightarrow> bool \<Rightarrow> (packet_queue_node heap, bool) prog" where
  "free_nodes None result h = Done result h"
| "free_nodes (Some p) result h =
     (case hload h p of
        None \<Rightarrow> Abort (Dangling ''mysock.c'' 247)
      | Some node \<Rightarrow> free_nodes (nxt node) (result \<or> data_len node > 0) (hfree h p))"
  by pat_completeness auto
termination
  by (relation "measure (\<lambda>(p, r, h). live h)") (auto dest: live_hfree)

definition mysock_free_queue :: "(packet_queue, bool) prog" where
  "mysock_free_queue =
     bind (gets head) (\<lambda>hd.
     bind (zoom nodes (\<lambda>h q. q\<lparr>nodes := h\<rparr>) (free_nodes hd (hd \<noteq> None))) (\<lambda>result.
     bind (modify (\<lambda>q. q\<lparr>head := None, tail := None\<rparr>)) (\<lambda>_.
     ret result)))"

section \<open>The list a queue holds\<close>

text \<open>\<open>linked h p as\<close>: following the next pointers from \<open>p\<close> visits exactly the live nodes \<open>as\<close>.\<close>

primrec linked :: "packet_queue_node heap \<Rightarrow> ptr option \<Rightarrow> ptr list \<Rightarrow> bool" where
  "linked h p [] \<longleftrightarrow> p = None"
| "linked h p (a # as) \<longleftrightarrow> p = Some a \<and> (case hload h a of None \<Rightarrow> False | Some n \<Rightarrow> linked h (nxt n) as)"

fun walk :: "packet_queue_node heap \<Rightarrow> nat \<Rightarrow> ptr option \<Rightarrow> ptr list" where
  "walk h (Suc k) (Some a) = (case hload h a of None \<Rightarrow> [] | Some n \<Rightarrow> a # walk h k (nxt n))"
| "walk h k p = []"

definition queue_nodes :: "packet_queue \<Rightarrow> ptr list" where
  "queue_nodes q = walk (nodes q) (length (nodes q)) (head q)"

definition node_bytes :: "packet_queue_node heap \<Rightarrow> ptr \<Rightarrow> byte list" where
  "node_bytes h a = (case hload h a of None \<Rightarrow> [] | Some n \<Rightarrow> take (data_len n) (data n))"

definition node_ok :: "packet_queue_node heap \<Rightarrow> ptr \<Rightarrow> bool" where
  "node_ok h a = (case hload h a of None \<Rightarrow> False | Some n \<Rightarrow> data_len n \<le> length (data n))"

definition contents :: "packet_queue \<Rightarrow> byte list list" where
  "contents q = map (node_bytes (nodes q)) (queue_nodes q)"

definition last_ptr :: "ptr list \<Rightarrow> ptr option" where
  "last_ptr as = (if as = [] then None else Some (last as))"

definition wf_queue :: "packet_queue \<Rightarrow> bool" where
  "wf_queue q \<longleftrightarrow> linked (nodes q) (head q) (queue_nodes q) \<and> tail q = last_ptr (queue_nodes q)
     \<and> list_all (node_ok (nodes q)) (queue_nodes q)
     \<and> live (nodes q) = length (queue_nodes q)"

subsection \<open>Chains\<close>

lemma linked_Some: "linked h (Some p) as \<longleftrightarrow>
    (\<exists>n bs. as = p # bs \<and> hload h p = Some n \<and> linked h (nxt n) bs)"
  by (cases as) (auto split: option.splits)

lemma linked_None [simp]: "linked h None as \<longleftrightarrow> as = []"
  by (cases as) auto

lemma linked_unique: "linked h p as \<Longrightarrow> linked h p bs \<Longrightarrow> as = bs"
proof (induction as arbitrary: p bs)
  case Nil
  then show ?case by simp
next
  case (Cons a as)
  then show ?case by (auto simp: linked_Some split: option.splits)
qed

lemma linked_append: "linked h p (as @ b # bs) \<Longrightarrow> linked h (Some b) (b # bs)"
proof (induction as arbitrary: p)
  case (Cons a as)
  then obtain q where "linked h q (as @ b # bs)" by (auto split: option.splits)
  then show ?case by (rule Cons.IH)
qed auto

lemma linked_distinct: "linked h p as \<Longrightarrow> distinct as"
proof (induction as arbitrary: p)
  case Nil
  then show ?case by simp
next
  case (Cons a as)
  have "a \<notin> set as"
  proof
    assume "a \<in> set as"
    then obtain us vs where "as = us @ a # vs" by (meson split_list)
    with Cons.prems have "linked h p ((a # us) @ a # vs)" by simp
    then have "linked h (Some a) (a # vs)" by (rule linked_append)
    moreover have "linked h (Some a) (a # as)" using Cons.prems by auto
    ultimately have "a # vs = a # as" by (blast dest: linked_unique)
    then show False using \<open>as = us @ a # vs\<close> by simp
  qed
  then show ?case using Cons by (auto split: option.splits)
qed

lemma linked_live: "linked h p as \<Longrightarrow> a \<in> set as \<Longrightarrow> \<exists>n. hload h a = Some n"
  by (induction as arbitrary: p) (auto split: option.splits)

lemma linked_length: "linked h p as \<Longrightarrow> length as \<le> length h"
proof -
  assume l: "linked h p as"
  then have "set as \<subseteq> {..<length h}" by (auto dest!: linked_live hload_bound)
  then have "card (set as) \<le> length h" by (metis card_lessThan card_mono finite_lessThan)
  then show ?thesis using linked_distinct [OF l] by (simp add: distinct_card)
qed

lemma linked_cong:
  "(\<And>a. a \<in> set as \<Longrightarrow> map_option nxt (hload h' a) = map_option nxt (hload h a)) \<Longrightarrow>
   linked h' p as = linked h p as"
proof (induction as arbitrary: p)
  case (Cons a as)
  from Cons.prems [of a] have "map_option nxt (hload h' a) = map_option nxt (hload h a)" by simp
  moreover have "linked h' q as = linked h q as" for q using Cons by simp
  ultimately show ?case by (cases "hload h a"; cases "hload h' a") auto
qed simp

lemma walk_linked: "linked h p as \<Longrightarrow> length as \<le> k \<Longrightarrow> walk h k p = as"
proof (induction as arbitrary: p k)
  case (Cons a as)
  then show ?case by (cases k) (auto split: option.splits)
qed simp

text \<open>
  \<open>represents q as\<close> names the nodes explicitly; it is the form in which the operations are
  verified, and well-formedness is its existential closure.
\<close>

definition represents :: "packet_queue \<Rightarrow> ptr list \<Rightarrow> bool" where
  "represents q as \<longleftrightarrow> linked (nodes q) (head q) as \<and> tail q = last_ptr as
     \<and> list_all (node_ok (nodes q)) as \<and> live (nodes q) = length as"

lemma queue_nodes_eq: "represents q as \<Longrightarrow> queue_nodes q = as"
  unfolding queue_nodes_def represents_def by (blast intro: walk_linked linked_length)

lemma representsI: "represents q as \<Longrightarrow> wf_queue q \<and> contents q = map (node_bytes (nodes q)) as"
  using queue_nodes_eq [of q as] by (simp add: wf_queue_def represents_def contents_def)

lemma wf_queueE: "wf_queue q \<Longrightarrow> represents q (queue_nodes q)"
  by (simp add: wf_queue_def represents_def)

lemma wf_empty_queue [simp]: "wf_queue empty_queue" and contents_empty_queue [simp]: "contents empty_queue = []"
  by (simp_all add: wf_queue_def contents_def queue_nodes_def empty_queue_def last_ptr_def)

lemma node_ok_live: "node_ok h a \<longleftrightarrow> (\<exists>n. hload h a = Some n \<and> data_len n \<le> length (data n))"
  by (simp add: node_ok_def split: option.split)

subsection \<open>memcpy on overlapping ranges\<close>

lemma length_copy_up [simp]: "length (copy_up buf d s n) = length buf"
  by (induction n arbitrary: buf d s) auto

lemma nth_copy_up:
  "d \<le> s \<Longrightarrow> s + n \<le> length buf \<Longrightarrow> i < length buf \<Longrightarrow>
   copy_up buf d s n ! i = (if d \<le> i \<and> i < d + n then buf ! (s + (i - d)) else buf ! i)"
proof (induction n arbitrary: buf d s)
  case (Suc n)
  let ?b = "buf[d := buf ! s]"
  have "copy_up ?b (Suc d) (Suc s) n ! i
      = (if Suc d \<le> i \<and> i < Suc d + n then ?b ! (Suc s + (i - Suc d)) else ?b ! i)"
    using Suc.prems by (intro Suc.IH) auto
  then show ?case using Suc.prems by (auto simp: nth_list_update Suc_diff_Suc not_less_eq_eq)
qed auto

lemma copy_up_front:
  "k + n \<le> length buf \<Longrightarrow> take n (copy_up buf 0 k n) = take n (drop k buf)"
  by (rule nth_equalityI) (auto simp: nth_copy_up)

section \<open>Operations on a represented queue\<close>

lemma linked_snoc:
  assumes "linked h p as" "as \<noteq> []" "\<And>x. x \<in> set (butlast as) \<Longrightarrow> hload h' x = hload h x"
    "hload h' (last as) = Some t" "nxt t = Some a" "hload h' a = Some n" "nxt n = None"
  shows "linked h' p (as @ [a])"
  using assms(1-4)
proof (induction as arbitrary: p)
  case (Cons b bs)
  show ?case
  proof (cases "bs = []")
    case True
    with Cons.prems assms(5-7) show ?thesis by (auto split: option.splits)
  next
    case False
    then have b: "hload h' b = hload h b" using Cons.prems(3) [of b] by simp
    moreover have "linked h' q (bs @ [a])" if "linked h q bs" for q
      using that False Cons.prems by (intro Cons.IH) auto
    ultimately show ?thesis using Cons.prems(1) by (auto split: option.splits)
  qed
qed simp

lemma last_notin_butlast: "distinct as \<Longrightarrow> as \<noteq> [] \<Longrightarrow> last as \<notin> set (butlast as)"
  by (metis append_butlast_last_id distinct_butlast not_distinct_conv_prefix)

lemma linked_last_nxt:
  "linked h p as \<Longrightarrow> as \<noteq> [] \<Longrightarrow> \<exists>n. hload h (last as) = Some n \<and> nxt n = None"
proof (induction as arbitrary: p)
  case (Cons a as)
  then show ?case by (cases as) (auto split: option.splits)
qed simp

lemma represents_head: "represents q as \<Longrightarrow> head q = (case as of [] \<Rightarrow> None | a # _ \<Rightarrow> Some a)"
  by (cases as) (auto simp: represents_def)

lemma represents_distinct: "represents q as \<Longrightarrow> distinct as"
  by (auto simp: represents_def dest: linked_distinct)

lemma represents_fresh: "represents q as \<Longrightarrow> length (nodes q) \<notin> set as"
  by (auto simp: represents_def dest!: linked_live hload_bound)

text \<open>The node a call of \<open>mysock_enqueue_buffer\<close> allocates.\<close>

abbreviation new_node :: "byte list \<Rightarrow> packet_queue_node" where
  "new_node p \<equiv> \<lparr>data = p, data_len = length p, nxt = None\<rparr>"

lemma enqueue_represents:
  assumes r: "represents q as"
  defines "a \<equiv> length (nodes q)"
  shows "\<exists>q'. mysock_enqueue_buffer (Some p) (length p) q = Done () q' \<and> represents q' (as @ [a])
    \<and> map (node_bytes (nodes q')) (as @ [a]) = map (node_bytes (nodes q)) as @ [p]"
proof (cases "as = []")
  case True
  let ?q = "q\<lparr>nodes := nodes q @ [Some (new_node p)], head := Some a, tail := Some a\<rparr>"
  have "mysock_enqueue_buffer (Some p) (length p) q = Done () ?q"
    using r True unfolding mysock_enqueue_buffer_def alloc_node_def
    by (simp add: run_simps represents_def last_ptr_def a_def)
  then show ?thesis using True r
    by (auto simp: represents_def a_def heap_simps last_ptr_def node_ok_def node_bytes_def)
next
  case False
  from r have l: "linked (nodes q) (head q) as" and tl: "tail q = Some (last as)"
    using False by (simp_all add: represents_def last_ptr_def)
  from linked_last_nxt [OF l False] obtain t where t: "hload (nodes q) (last as) = Some t" "nxt t = None"
    by blast
  note ba = hload_bound [OF t(1), folded a_def]
  have hd: "head q \<noteq> None" using represents_head [OF r] False by (cases as) auto
  let ?h = "hstore (nodes q @ [Some (new_node p)]) (last as) (t\<lparr>nxt := Some a\<rparr>)"
  let ?q = "q\<lparr>nodes := ?h, tail := Some a\<rparr>"
  have run: "mysock_enqueue_buffer (Some p) (length p) q = Done () ?q"
    using tl t hd ba unfolding mysock_enqueue_buffer_def alloc_node_def load_node_def store_node_def
    by (simp add: run_simps heap_simps a_def)
  have same: "hload ?h x = hload (nodes q) x" if "x \<in> set (butlast as)" for x
    using that last_notin_butlast [OF linked_distinct [OF l] False] represents_fresh [OF r]
    by (auto simp: heap_simps dest: in_set_butlastD)
  have lk: "linked ?h (head q) (as @ [a])"
    using ba t by (intro linked_snoc [OF l False same, where t = "t\<lparr>nxt := Some a\<rparr>" and n = "new_node p"]) (auto simp: heap_simps a_def)
  have bytes: "node_bytes ?h x = node_bytes (nodes q) x" and ok: "node_ok ?h x = node_ok (nodes q) x"
    if "x \<in> set as" for x
    using that represents_fresh [OF r] t ba by (auto simp: node_bytes_def node_ok_def heap_simps a_def)
  have "live ?h = Suc (length as)"
    using t ba r by (simp add: live_hstore [of _ _ t] heap_simps a_def represents_def)
  then have "represents ?q (as @ [a])"
    using lk r ba ok by (auto simp: represents_def last_ptr_def heap_simps node_ok_live list_all_iff a_def)
  moreover have "node_bytes ?h a = p"
    using ba by (simp add: node_bytes_def heap_simps a_def)
  ultimately show ?thesis using run bytes by auto
qed

lemma dequeue_empty: "represents q [] \<Longrightarrow> mysock_dequeue_buffer n r q = Blocked q"
  by (simp add: mysock_dequeue_buffer_def represents_def run_simps)

lemma dequeue_partial_represents:
  assumes r: "represents q (a # as)" and n: "n < length (node_bytes (nodes q) a)"
  shows "\<exists>q'. mysock_dequeue_buffer n True q = Done (n, take n (node_bytes (nodes q) a)) q'
    \<and> represents q' (a # as)
    \<and> map (node_bytes (nodes q')) (a # as) = drop n (node_bytes (nodes q) a) # map (node_bytes (nodes q)) as"
proof -
  from r obtain nd where nd: "hload (nodes q) a = Some nd" "data_len nd \<le> length (data nd)"
    and hd: "head q = Some a"
    by (auto simp: represents_def node_ok_live)
  have len: "n < data_len nd" using n nd by (simp add: node_bytes_def)
  let ?nd = "nd\<lparr>data := copy_up (data nd) 0 n (data_len nd - n), data_len := data_len nd - n\<rparr>"
  let ?q = "q\<lparr>nodes := hstore (nodes q) a ?nd\<rparr>"
  have "mysock_dequeue_buffer n True q = Done (n, take n (data nd)) ?q"
    using nd hd len unfolding mysock_dequeue_buffer_def load_node_def store_node_def
    by (simp add: run_simps)
  moreover have "take n (data nd) = take n (node_bytes (nodes q) a)"
    using nd len by (simp add: node_bytes_def min_def)
  moreover have "a \<notin> set as" using represents_distinct [OF r] by simp
  moreover have "linked (hstore (nodes q) a ?nd) (head q) (a # as) = linked (nodes q) (head q) (a # as)"
    using nd hload_bound [OF nd(1)] by (intro linked_cong) (auto simp: heap_simps)
  moreover have "take (data_len nd - n) (copy_up (data nd) 0 n (data_len nd - n)) = drop n (node_bytes (nodes q) a)"
    using nd len by (simp add: copy_up_front node_bytes_def drop_take)
  ultimately show ?thesis
    using r nd hload_bound [OF nd(1)] live_hstore [OF nd(1), of ?nd]
    by (intro exI [of _ ?q])
      (auto simp: represents_def node_bytes_def node_ok_def heap_simps list_all_iff)
qed

lemma dequeue_whole_represents:
  assumes r: "represents q (a # as)" and n: "length (node_bytes (nodes q) a) \<le> n \<or> \<not> part"
  shows "\<exists>q'. mysock_dequeue_buffer n part q
      = Done (length (node_bytes (nodes q) a), take n (node_bytes (nodes q) a)) q'
    \<and> represents q' as \<and> map (node_bytes (nodes q')) as = map (node_bytes (nodes q)) as"
proof -
  from r obtain nd where nd: "hload (nodes q) a = Some nd" "data_len nd \<le> length (data nd)"
    and hd: "head q = Some a" and l: "linked (nodes q) (nxt nd) as"
    by (auto simp: represents_def node_ok_live)
  have len: "data_len nd \<le> n \<or> \<not> part" using n nd by (simp add: node_bytes_def)
  have a: "a \<notin> set as" using represents_distinct [OF r] by simp
  let ?q = "q\<lparr>head := nxt nd, tail := last_ptr as, nodes := hfree (nodes q) a\<rparr>"
  have tl: "nxt nd = None \<longleftrightarrow> as = []" using l by (cases as) auto
  have "tail q = last_ptr (a # as)" using r by (simp add: represents_def)
  then have "mysock_dequeue_buffer n part q = Done (data_len nd, take (min n (data_len nd)) (data nd)) ?q"
    using nd hd len tl unfolding mysock_dequeue_buffer_def load_node_def
    by (auto simp: run_simps last_ptr_def)
  moreover have "linked (hfree (nodes q) a) (nxt nd) as"
    using l a by (subst linked_cong [of as _ "nodes q"]) (auto simp: heap_simps)
  moreover have "node_bytes (hfree (nodes q) a) x = node_bytes (nodes q) x"
    "node_ok (hfree (nodes q) a) x = node_ok (nodes q) x" if "x \<in> set as" for x
    using that a by (auto simp: node_bytes_def node_ok_def heap_simps)
  ultimately show ?thesis using r nd live_hfree [OF nd(1)]
    by (intro exI [of _ ?q])
      (auto simp: represents_def list_all_iff node_bytes_def [of "nodes q" a] min_def)
qed

lemma free_nodes_linked:
  "linked h p as \<Longrightarrow> \<exists>h'. free_nodes p r h = Done (r \<or> (\<exists>a\<in>set as. node_bytes h a \<noteq> [])) h'
     \<and> live h' + length as = live h" if "list_all (node_ok h) as"
  using that
proof (induction as arbitrary: h p r)
  case (Cons a as)
  then obtain n where n: "hload h a = Some n" "linked h (nxt n) as" "p = Some a"
    "data_len n \<le> length (data n)"
    by (auto simp: node_ok_live)
  have a: "a \<notin> set as" using linked_distinct [OF Cons.prems(1)] by simp
  then have "linked (hfree h a) (nxt n) as" "list_all (node_ok (hfree h a)) as"
    using n(2) Cons.prems(2)
    by (simp_all add: list_all_iff) (subst linked_cong [of as _ h], auto simp: heap_simps node_ok_def)
  from Cons.IH [OF this, of "r \<or> data_len n > 0"] obtain h' where
    run: "free_nodes (nxt n) (r \<or> data_len n > 0) (hfree h a)
      = Done ((r \<or> data_len n > 0) \<or> (\<exists>x\<in>set as. node_bytes (hfree h a) x \<noteq> [])) h'"
    and lv: "live h' + length as = live (hfree h a)"
    by blast
  have "(\<exists>x\<in>set as. node_bytes (hfree h a) x \<noteq> []) = (\<exists>x\<in>set as. node_bytes h x \<noteq> [])"
    using a by (auto simp: node_bytes_def heap_simps)
  moreover have "node_bytes h a \<noteq> [] \<longleftrightarrow> data_len n > 0"
    using n by (auto simp: node_bytes_def)
  ultimately show ?case using n run lv live_hfree [OF n(1)] by auto
qed simp

section \<open>The contract of a queue\<close>

text \<open>
  What the clients rely on, in two contracts. A byte stream (mywrite and stcp\_app\_recv,
  stcp\_app\_send and myread) is a sequence of buffers consumed piecewise from the front, where a write
  is only promised to succeed for a buffer that \<open>fits\<close>; a packet
  queue (the receive thread and stcp\_network\_recv) can also give up its first buffer whole.
\<close>

locale byte_stream =
  fixes fits :: "byte list \<Rightarrow> bool"
    and enq :: "byte list \<Rightarrow> ('q, unit) prog"
    and deq :: "nat \<Rightarrow> ('q, nat \<times> byte list) prog"
    and inv :: "'q \<Rightarrow> bool"
    and buffers :: "'q \<Rightarrow> byte list list"
  assumes enq_spec: "inv q \<Longrightarrow> fits p \<Longrightarrow> \<exists>q'. enq p q = Done () q' \<and> inv q' \<and> buffers q' = buffers q @ [p]"
    and deq_wait: "inv q \<Longrightarrow> buffers q = [] \<Longrightarrow> deq n q = Blocked q"
    and deq_part: "inv q \<Longrightarrow> buffers q = p # ps \<Longrightarrow> n < length p \<Longrightarrow>
      \<exists>q'. deq n q = Done (n, take n p) q' \<and> inv q' \<and> buffers q' = drop n p # ps"
    and deq_whole: "inv q \<Longrightarrow> buffers q = p # ps \<Longrightarrow> length p \<le> n \<Longrightarrow>
      \<exists>q'. deq n q = Done (length p, take n p) q' \<and> inv q' \<and> buffers q' = ps"

text \<open>
  A history of a queue: buffers written, and reads into a destination of \<open>n\<close> bytes, in any
  interleaving. A read of an empty queue waits and delivers nothing yet.
\<close>

datatype queue_event = Write "byte list" | Read nat

fun run_history :: "(byte list \<Rightarrow> ('q, unit) prog) \<Rightarrow> (nat \<Rightarrow> ('q, nat \<times> byte list) prog)
    \<Rightarrow> queue_event list \<Rightarrow> ('q, byte list) prog" where
  "run_history enq deq [] q = Done [] q"
| "run_history enq deq (Write p # es) q =
     (case enq p q of Done _ q' \<Rightarrow> run_history enq deq es q'
      | Blocked q' \<Rightarrow> run_history enq deq es q' | Abort f \<Rightarrow> Abort f)"
| "run_history enq deq (Read n # es) q =
     (case deq n q of
        Done (k, bs) q' \<Rightarrow> (case run_history enq deq es q' of
            Done out q'' \<Rightarrow> Done (bs @ out) q'' | Blocked q'' \<Rightarrow> Blocked q'' | Abort f \<Rightarrow> Abort f)
      | Blocked q' \<Rightarrow> run_history enq deq es q'
      | Abort f \<Rightarrow> Abort f)"

fun written :: "queue_event list \<Rightarrow> byte list" where
  "written [] = []"
| "written (Write p # es) = p @ written es"
| "written (Read n # es) = written es"

fun writes_fit :: "(byte list \<Rightarrow> bool) \<Rightarrow> queue_event list \<Rightarrow> bool" where
  "writes_fit fits [] = True"
| "writes_fit fits (Write p # es) = (fits p \<and> writes_fit fits es)"
| "writes_fit fits (Read n # es) = writes_fit fits es"

lemma writes_fit_any [simp]: "writes_fit (\<lambda>_. True) es"
  by (induction es rule: written.induct) simp_all

context byte_stream
begin

lemma deq_stream:
  assumes "inv q"
  shows "(buffers q = [] \<and> deq n q = Blocked q) \<or>
    (\<exists>bs q'. deq n q = Done (length bs, bs) q' \<and> length bs \<le> n \<and> inv q'
       \<and> bs @ concat (buffers q') = concat (buffers q)
       \<and> (0 < n \<longrightarrow> length (concat (buffers q')) + length (buffers q')
            < length (concat (buffers q)) + length (buffers q)))"
proof (cases "buffers q")
  case Nil
  with assms show ?thesis by (simp add: deq_wait)
next
  case (Cons p ps)
  show ?thesis
  proof (cases "n < length p")
    case True
    from deq_part [OF assms Cons True] obtain q' where
      "deq n q = Done (n, take n p) q'" "inv q'" "buffers q' = drop n p # ps" by blast
    with Cons True show ?thesis by (intro disjI2 exI [of _ "take n p"] exI [of _ q']) auto
  next
    case False
    with deq_whole [OF assms Cons, of n] obtain q' where
      "deq n q = Done (length p, take n p) q'" "inv q'" "buffers q' = ps" by auto
    with Cons False show ?thesis by (intro disjI2 exI [of _ p] exI [of _ q']) auto
  qed
qed

lemma history_conserves:
  "inv q \<Longrightarrow> writes_fit fits es \<Longrightarrow> \<exists>out q'. run_history enq deq es q = Done out q' \<and> inv q'
     \<and> out @ concat (buffers q') = concat (buffers q) @ written es"
proof (induction es arbitrary: q)
  case (Cons e es)
  show ?case
  proof (cases e)
    case (Write p)
    from enq_spec [OF Cons.prems(1), of p] Cons.prems(2) Write obtain q1 where
      "enq p q = Done () q1" "inv q1" "buffers q1 = buffers q @ [p]" by auto
    with Cons.IH [of q1] Cons.prems(2) Write show ?thesis by auto
  next
    case (Read n)
    with Cons.prems(2) have fit: "writes_fit fits es" by simp
    from deq_stream [OF Cons.prems(1), of n] show ?thesis
    proof (elim disjE exE conjE)
      assume "deq n q = Blocked q"
      with Cons.IH [OF Cons.prems(1) fit] Read show ?thesis by auto
    next
      fix bs q1 assume d: "deq n q = Done (length bs, bs) q1" "inv q1"
        "bs @ concat (buffers q1) = concat (buffers q)"
      from Cons.IH [OF d(2) fit] obtain out q2 where
        "run_history enq deq es q1 = Done out q2" "inv q2"
        "out @ concat (buffers q2) = concat (buffers q1) @ written es" by blast
      with d Read show ?thesis by (simp add: d(3) [symmetric])
    qed
  qed
qed simp

lemma drains:
  "inv q \<Longrightarrow> 0 < n \<Longrightarrow> length (concat (buffers q)) + length (buffers q) \<le> k \<Longrightarrow>
   \<exists>q'. run_history enq deq (replicate k (Read n)) q = Done (concat (buffers q)) q' \<and> inv q' \<and> buffers q' = []"
proof (induction k arbitrary: q)
  case (Suc k)
  from deq_stream [OF Suc.prems(1), of n] show ?case
  proof (elim disjE exE conjE)
    assume "buffers q = []" "deq n q = Blocked q"
    with Suc.IH [OF Suc.prems(1,2)] show ?thesis by simp
  next
    fix bs q1 assume d: "deq n q = Done (length bs, bs) q1" "inv q1"
        "bs @ concat (buffers q1) = concat (buffers q)"
      "0 < n \<longrightarrow> length (concat (buffers q1)) + length (buffers q1)
            < length (concat (buffers q)) + length (buffers q)"
    then have "length (concat (buffers q1)) + length (buffers q1) \<le> k" using Suc.prems by simp
    from Suc.IH [OF d(2) Suc.prems(2) this] d show ?thesis by auto
  qed
qed auto

end

locale packet_fifo =
  fixes enq :: "byte list \<Rightarrow> ('q, unit) prog"
    and deq :: "nat \<Rightarrow> bool \<Rightarrow> ('q, nat \<times> byte list) prog"
    and inv :: "'q \<Rightarrow> bool"
    and buffers :: "'q \<Rightarrow> byte list list"
  assumes enq_spec: "inv q \<Longrightarrow> \<exists>q'. enq p q = Done () q' \<and> inv q' \<and> buffers q' = buffers q @ [p]"
    and deq_wait: "inv q \<Longrightarrow> buffers q = [] \<Longrightarrow> deq n part q = Blocked q"
    and deq_part: "inv q \<Longrightarrow> buffers q = p # ps \<Longrightarrow> n < length p \<Longrightarrow>
      \<exists>q'. deq n True q = Done (n, take n p) q' \<and> inv q' \<and> buffers q' = drop n p # ps"
    and deq_whole: "inv q \<Longrightarrow> buffers q = p # ps \<Longrightarrow> length p \<le> n \<or> \<not> part \<Longrightarrow>
      \<exists>q'. deq n part q = Done (length p, take n p) q' \<and> inv q' \<and> buffers q' = ps"

sublocale packet_fifo \<subseteq> stream: byte_stream "\<lambda>_. True" enq "\<lambda>n. deq n True" inv buffers
  by unfold_locales (blast intro: enq_spec deq_wait deq_part deq_whole)+

interpretation pq: packet_fifo "\<lambda>p. mysock_enqueue_buffer (Some p) (length p)"
  mysock_dequeue_buffer wf_queue contents
proof unfold_locales
  fix q p assume "wf_queue q"
  then have r: "represents q (queue_nodes q)" by (rule wf_queueE)
  from enqueue_represents [OF r, of p] representsI show
    "\<exists>q'. mysock_enqueue_buffer (Some p) (length p) q = Done () q' \<and> wf_queue q' \<and> contents q' = contents q @ [p]"
    by (metis contents_def)
next
  fix q n part assume "wf_queue q" "contents q = []"
  then have "represents q []" using wf_queueE by (fastforce simp: contents_def)
  then show "mysock_dequeue_buffer n part q = Blocked q" by (rule dequeue_empty)
next
  fix q p ps n assume "wf_queue q" "contents q = p # ps" and n: "n < length p"
  then obtain a as where r: "represents q (a # as)" and p: "p = node_bytes (nodes q) a"
    "ps = map (node_bytes (nodes q)) as"
    using wf_queueE [of q] by (auto simp: contents_def)
  from dequeue_partial_represents [OF r, of n] n p representsI show
    "\<exists>q'. mysock_dequeue_buffer n True q = Done (n, take n p) q' \<and> wf_queue q' \<and> contents q' = drop n p # ps"
    by metis
next
  fix q p ps n part assume "wf_queue q" "contents q = p # ps" and n: "length p \<le> n \<or> \<not> part"
  then obtain a as where r: "represents q (a # as)" and p: "p = node_bytes (nodes q) a"
    "ps = map (node_bytes (nodes q)) as"
    using wf_queueE [of q] by (auto simp: contents_def)
  from dequeue_whole_represents [OF r, of n part] n p representsI show
    "\<exists>q'. mysock_dequeue_buffer n part q = Done (length p, take n p) q' \<and> wf_queue q' \<and> contents q' = ps"
    by metis
qed

lemma enqueue_take:
  "n \<le> length p \<Longrightarrow> mysock_enqueue_buffer (Some p) n = mysock_enqueue_buffer (Some (take n p)) (length (take n p))"
  by (cases "n = 0") (simp_all add: mysock_enqueue_buffer_def min_def)

lemma enqueue_null: "mysock_enqueue_buffer None 0 = mysock_enqueue_buffer (Some []) (length [])"
  by (simp add: mysock_enqueue_buffer_def)

lemma enqueue_head: "wf_queue q \<Longrightarrow> head q = None \<longleftrightarrow> contents q = []"
  using represents_head [OF wf_queueE, of q] by (auto simp: contents_def split: list.splits)

lemma free_queue_run:
  assumes "wf_queue q"
  shows "\<exists>q'. mysock_free_queue q = Done (contents q \<noteq> []) q' \<and> wf_queue q' \<and> contents q' = []
    \<and> live (nodes q') = 0"
proof -
  from assms have r: "represents q (queue_nodes q)" by (rule wf_queueE)
  then obtain h where h: "free_nodes (head q) (head q \<noteq> None) (nodes q)
      = Done (head q \<noteq> None \<or> (\<exists>a\<in>set (queue_nodes q). node_bytes (nodes q) a \<noteq> [])) h"
    and lv: "live h = 0"
    using free_nodes_linked [of "nodes q" "queue_nodes q" "head q" "head q \<noteq> None"]
    by (auto simp: represents_def)
  have "(head q \<noteq> None \<or> (\<exists>a\<in>set (queue_nodes q). node_bytes (nodes q) a \<noteq> [])) \<longleftrightarrow> contents q \<noteq> []"
    using enqueue_head [OF assms] by (auto simp: contents_def)
  then have "mysock_free_queue q = Done (contents q \<noteq> []) (q\<lparr>nodes := h, head := None, tail := None\<rparr>)"
    using h by (simp add: mysock_free_queue_def zoom_def run_simps)
  moreover have "represents (q\<lparr>nodes := h, head := None, tail := None\<rparr>) []"
    using lv by (simp add: represents_def last_ptr_def)
  ultimately show ?thesis using representsI lv by fastforce
qed

section \<open>Properties\<close>

text \<open>\<open>_mysock_enqueue_buffer\<close> never fails on a well-formed queue: it keeps the queue
  well-formed (head, tail and next pointers agree, no node is leaked) and appends a copy of the
  first packet_len bytes of the packet at the tail.\<close>

lemma enqueue_buffer_appends:
  assumes "wf_queue q" and "packet_len \<le> length packet"
  shows "\<exists>q'. mysock_enqueue_buffer (Some packet) packet_len q = Done () q' \<and> wf_queue q'
    \<and> contents q' = contents q @ [take packet_len packet]"
  using pq.enq_spec [OF assms(1), of "take packet_len packet"] enqueue_take [OF assms(2)] by simp

abbreviation two_byte_queue :: packet_queue where
  "two_byte_queue \<equiv> \<lparr>head = Some 0, tail = Some 0, nodes = [Some \<lparr>data = [7, 8], data_len = 2, nxt = None\<rparr>]\<rparr>"

lemma two_byte_queue_wf: "wf_queue two_byte_queue" and two_byte_queue_contents: "contents two_byte_queue = [[7, 8]]"
  by (simp_all add: wf_queue_def contents_def queue_nodes_def node_bytes_def node_ok_def hload_def live_def
      last_ptr_def numeral_2_eq_2)

text \<open>\<open>_mysock_dequeue_buffer\<close> on a well-formed queue: it waits exactly when the queue is
  empty; with remove_partial and a short destination it delivers the first max_len bytes and
  leaves the rest at the head; otherwise it removes the head buffer and delivers as much of it
  as fits, returning the length of the whole buffer. It never fails.\<close>

lemma dequeue_buffer_spec:
  assumes "wf_queue q"
  shows "case contents q of
      [] \<Rightarrow> mysock_dequeue_buffer max_len partial q = Blocked q
    | p # ps \<Rightarrow>
        if partial \<and> max_len < length p
        then \<exists>q'. mysock_dequeue_buffer max_len partial q = Done (max_len, take max_len p) q'
               \<and> wf_queue q' \<and> contents q' = drop max_len p # ps
        else \<exists>q'. mysock_dequeue_buffer max_len partial q = Done (length p, take max_len p) q'
               \<and> wf_queue q' \<and> contents q' = ps"
proof (cases "contents q")
  case Nil
  with pq.deq_wait [OF assms] show ?thesis by simp
next
  case (Cons p ps)
  then show ?thesis
    using pq.deq_part [OF assms Cons, of max_len] pq.deq_whole [OF assms Cons, of max_len partial]
    by auto
qed

text \<open>C2: Over any interleaving of enqueues and piecewise dequeues, nothing is lost, invented,
  duplicated or reordered: the bytes delivered so far followed by the bytes still queued are
  the bytes queued at the start followed by the bytes written.\<close>

theorem queue_is_byte_stream:
  assumes "wf_queue q"
  shows "\<exists>out q'. run_history (\<lambda>p. mysock_enqueue_buffer (Some p) (length p)) (\<lambda>n. mysock_dequeue_buffer n True) es q = Done out q'
    \<and> wf_queue q' \<and> out @ concat (contents q') = concat (contents q) @ written es"
  using pq.stream.history_conserves [OF assms writes_fit_any] .

theorem queue_is_byte_stream_witness:
  "\<exists>out q'. run_history (\<lambda>p. mysock_enqueue_buffer (Some p) (length p)) (\<lambda>n. mysock_dequeue_buffer n True)
      [Read 1, Write [9], Read 5, Read 5] two_byte_queue = Done out q'
    \<and> wf_queue q' \<and> out @ concat (contents q') = [7, 8, 9]"
  using queue_is_byte_stream [OF two_byte_queue_wf, of "[Read 1, Write [9], Read 5, Read 5]"]
  by (simp add: two_byte_queue_contents)

text \<open>Reading makes progress: with a destination of at least one byte, as many reads as
  there are queued bytes and buffers deliver everything that was queued and leave the queue
  empty.\<close>

lemma queue_drains:
  assumes "wf_queue q" and "0 < n"
    and "length (concat (contents q)) + length (contents q) \<le> k"
  shows "\<exists>q'. run_history (\<lambda>p. mysock_enqueue_buffer (Some p) (length p)) (\<lambda>n. mysock_dequeue_buffer n True)
      (replicate k (Read n)) q = Done (concat (contents q)) q' \<and> wf_queue q' \<and> contents q' = []"
  using pq.stream.drains [OF assms] .

text \<open>The overlapping memcpy: an implementation that copies from the end, as the C standard
  allows for memcpy, corrupts what stays queued.\<close>

lemma memcpy_direction_matters:
  "take 2 (copy_up [1, 2, 3] 0 1 2) = [2, 3]" and "take 2 (copy_down [1, 2, 3] 0 1 2) = [3, 3]"
  by (simp_all add: numeral_2_eq_2)

end
