(* ===== verification/Mysock_Hash.thy ===== *)
theory Mysock_Hash
  imports Stcp_Prelude
begin

text \<open>
  The chained hash table of mysock_hash.h. HASH\_TABLE\_DECLARE\_EXTENDED is a macro over a
  hash function, an equality and a size; its six functions are definitions over the same three
  parameters. The table is an array of chains, a chain the list of its entries from the head.
  The locale \<open>pointer_map\<close> is what connection_demux.c relies on; \<open>hash_params\<close> states what the
  macro's arguments must satisfy, and the sublocale proof shows that every such instance is a
  map. The interpretation \<open>lt\<close> is the instance the program declares: listen_table.
\<close>

section \<open>Operations\<close>

type_synonym ('k, 'd) table = "('k \<times> 'd) list list"

text \<open>The first entry of a chain with the given key: its position, or NULL.\<close>

fun find_pos :: "('a \<Rightarrow> bool) \<Rightarrow> 'a list \<Rightarrow> nat option" where
  "find_pos P [] = None"
| "find_pos P (x # xs) = (if P x then Some 0 else map_option Suc (find_pos P xs))"

definition hash_index :: "('k \<Rightarrow> nat \<Rightarrow> nat) \<Rightarrow> nat \<Rightarrow> nat \<Rightarrow> 'k \<Rightarrow> (('k, 'd) table, nat) prog" where
  "hash_index hashfn sz line key =
     bind (assert_at ''mysock_hash.h'' line (hashfn key sz < sz)) (\<lambda>_. ret (hashfn key sz))"

text \<open>An entry pointer is a bucket and a position in its chain.\<close>

definition hash_get_entry :: "('k \<Rightarrow> nat \<Rightarrow> nat) \<Rightarrow> ('k \<Rightarrow> 'k \<Rightarrow> bool) \<Rightarrow> nat \<Rightarrow> 'k
    \<Rightarrow> (('k, 'd) table, (nat \<times> nat) option) prog" where
  "hash_get_entry hashfn keyequal sz key =
     bind (hash_index hashfn sz 71 key) (\<lambda>ndx.
     gets (\<lambda>t. map_option (Pair ndx) (find_pos (\<lambda>e. keyequal (fst e) key) (t ! ndx))))"

definition hash_insert :: "('k \<Rightarrow> nat \<Rightarrow> nat) \<Rightarrow> ('k \<Rightarrow> 'k \<Rightarrow> bool) \<Rightarrow> nat \<Rightarrow> 'k \<Rightarrow> 'd
    \<Rightarrow> (('k, 'd) table, unit) prog" where
  "hash_insert hashfn keyequal sz key d =
     bind (hash_index hashfn sz 83 key) (\<lambda>ndx.
     bind (modify (\<lambda>t. t[ndx := (key, d) # t ! ndx])) (\<lambda>_.
     bind (hash_get_entry hashfn keyequal sz key) (\<lambda>e.
     assert_at ''mysock_hash.h'' 93 (e = Some (ndx, 0)))))"

definition hash_lookup :: "('k \<Rightarrow> nat \<Rightarrow> nat) \<Rightarrow> ('k \<Rightarrow> 'k \<Rightarrow> bool) \<Rightarrow> nat \<Rightarrow> 'k
    \<Rightarrow> (('k, 'd) table, 'd) prog" where
  "hash_lookup hashfn keyequal sz key =
     bind (hash_get_entry hashfn keyequal sz key) (\<lambda>e.
     bind (the_or (Assertion ''mysock_hash.h'' 99) e) (\<lambda>(ndx, i).
     gets (\<lambda>t. snd (t ! ndx ! i))))"

definition hash_lookup_ptr :: "('k \<Rightarrow> nat \<Rightarrow> nat) \<Rightarrow> ('k \<Rightarrow> 'k \<Rightarrow> bool) \<Rightarrow> nat \<Rightarrow> 'k
    \<Rightarrow> (('k, 'd) table, 'd option) prog" where
  "hash_lookup_ptr hashfn keyequal sz key =
     bind (hash_get_entry hashfn keyequal sz key) (\<lambda>e.
     case e of None \<Rightarrow> ret None | Some (ndx, i) \<Rightarrow> gets (\<lambda>t. Some (snd (t ! ndx ! i))))"

definition hash_entry_exists :: "('k \<Rightarrow> nat \<Rightarrow> nat) \<Rightarrow> ('k \<Rightarrow> 'k \<Rightarrow> bool) \<Rightarrow> nat \<Rightarrow> 'k
    \<Rightarrow> (('k, 'd) table, bool) prog" where
  "hash_entry_exists hashfn keyequal sz key =
     bind (hash_get_entry hashfn keyequal sz key) (\<lambda>e. ret (e \<noteq> None))"

definition hash_set_entry :: "('k \<Rightarrow> nat \<Rightarrow> nat) \<Rightarrow> ('k \<Rightarrow> 'k \<Rightarrow> bool) \<Rightarrow> nat \<Rightarrow> 'k \<Rightarrow> 'd
    \<Rightarrow> (('k, 'd) table, unit) prog" where
  "hash_set_entry hashfn keyequal sz key d =
     bind (hash_get_entry hashfn keyequal sz key) (\<lambda>e.
     case e of
       Some (ndx, i) \<Rightarrow> modify (\<lambda>t. t[ndx := (t ! ndx)[i := (fst (t ! ndx ! i), d)]])
     | None \<Rightarrow> hash_insert hashfn keyequal sz key d)"

text \<open>The loop of the deletion: unlink the first entry with the key.\<close>

fun unlink_first :: "('a \<Rightarrow> bool) \<Rightarrow> 'a list \<Rightarrow> 'a list" where
  "unlink_first P [] = []"
| "unlink_first P (x # xs) = (if P x then xs else x # unlink_first P xs)"

definition hash_delete :: "('k \<Rightarrow> nat \<Rightarrow> nat) \<Rightarrow> ('k \<Rightarrow> 'k \<Rightarrow> bool) \<Rightarrow> nat \<Rightarrow> 'k
    \<Rightarrow> (('k, 'd) table, unit) prog" where
  "hash_delete hashfn keyequal sz key =
     bind (hash_index hashfn sz 130 key) (\<lambda>ndx.
     bind (modify (\<lambda>t. t[ndx := unlink_first (\<lambda>e. keyequal (fst e) key) (t ! ndx)])) (\<lambda>_.
     bind (hash_get_entry hashfn keyequal sz key) (\<lambda>e.
     assert_at ''mysock_hash.h'' 143 (e = None))))"

definition hash_empty :: "nat \<Rightarrow> ('k, 'd) table" where
  "hash_empty sz = replicate sz []"

text \<open>
  The default parameters, on keys of type mysocket_t (int): C's remainder, which takes the sign
  of the key, converted to unsigned int.
\<close>

definition c_rem :: "int \<Rightarrow> int \<Rightarrow> int" where
  "c_rem a b = sgn a * (\<bar>a\<bar> mod \<bar>b\<bar>)"

definition hash_default_hash_fn :: "int \<Rightarrow> nat \<Rightarrow> nat" where
  "hash_default_hash_fn key sz = nat (c_rem key (int sz) mod 2 ^ 32)"

definition hash_default_key_equals :: "int \<Rightarrow> int \<Rightarrow> bool" where
  "hash_default_key_equals a b \<longleftrightarrow> a = b"

section \<open>The map a table stands for\<close>

definition table_map :: "('k \<Rightarrow> nat \<Rightarrow> nat) \<Rightarrow> nat \<Rightarrow> ('k, 'd) table \<Rightarrow> 'k \<rightharpoonup> 'd" where
  "table_map hashfn sz t k = (if hashfn k sz < length t then map_of (t ! hashfn k sz) k else None)"

definition wf_table :: "('k \<Rightarrow> nat \<Rightarrow> nat) \<Rightarrow> nat \<Rightarrow> ('k, 'd) table \<Rightarrow> bool" where
  "wf_table hashfn sz t \<longleftrightarrow> length t = sz
     \<and> (\<forall>i < sz. distinct (map fst (t ! i)) \<and> (\<forall>e \<in> set (t ! i). hashfn (fst e) sz = i))"

text \<open>What the demultiplexer relies on: a map from keys to pointers.\<close>

locale pointer_map =
  fixes ins :: "'k \<Rightarrow> 'd \<Rightarrow> ('t, unit) prog"
    and look :: "'k \<Rightarrow> ('t, 'd option) prog"
    and put :: "'k \<Rightarrow> 'd \<Rightarrow> ('t, unit) prog"
    and del :: "'k \<Rightarrow> ('t, unit) prog"
    and ok :: "'k \<Rightarrow> bool"
    and inv :: "'t \<Rightarrow> bool"
    and abs :: "'t \<Rightarrow> 'k \<rightharpoonup> 'd"
  assumes look_spec: "inv t \<Longrightarrow> ok k \<Longrightarrow> look k t = Done (abs t k) t"
    and ins_spec: "inv t \<Longrightarrow> ok k \<Longrightarrow> abs t k = None \<Longrightarrow>
      \<exists>t'. ins k d t = Done () t' \<and> inv t' \<and> abs t' = (abs t)(k \<mapsto> d)"
    and put_spec: "inv t \<Longrightarrow> ok k \<Longrightarrow> \<exists>t'. put k d t = Done () t' \<and> inv t' \<and> abs t' = (abs t)(k \<mapsto> d)"
    and del_spec: "inv t \<Longrightarrow> ok k \<Longrightarrow> \<exists>t'. del k t = Done () t' \<and> inv t' \<and> abs t' = (abs t)(k := None)"

text \<open>A sequence of table operations, and the same sequence on an abstract map.\<close>

datatype ('k, 'd) map_op = Put 'k 'd | Del 'k | Get 'k

fun run_ops :: "('k \<Rightarrow> 'd \<Rightarrow> ('t, unit) prog) \<Rightarrow> ('k \<Rightarrow> ('t, unit) prog) \<Rightarrow> ('k \<Rightarrow> ('t, 'd option) prog)
    \<Rightarrow> ('k, 'd) map_op list \<Rightarrow> ('t, 'd option list) prog" where
  "run_ops put del look [] = ret []"
| "run_ops put del look (Put k d # ops) = bind (put k d) (\<lambda>_. run_ops put del look ops)"
| "run_ops put del look (Del k # ops) = bind (del k) (\<lambda>_. run_ops put del look ops)"
| "run_ops put del look (Get k # ops) =
     bind (look k) (\<lambda>x. bind (run_ops put del look ops) (\<lambda>xs. ret (x # xs)))"

fun map_ops :: "('k \<rightharpoonup> 'd) \<Rightarrow> ('k, 'd) map_op list \<Rightarrow> 'd option list" where
  "map_ops m [] = []"
| "map_ops m (Put k d # ops) = map_ops (m(k \<mapsto> d)) ops"
| "map_ops m (Del k # ops) = map_ops (m(k := None)) ops"
| "map_ops m (Get k # ops) = m k # map_ops m ops"

primrec op_key :: "('k, 'd) map_op \<Rightarrow> 'k" where
  "op_key (Put k d) = k" | "op_key (Del k) = k" | "op_key (Get k) = k"

context pointer_map
begin

lemma ops_refine:
  "inv t \<Longrightarrow> list_all (\<lambda>p. ok (op_key p)) ops \<Longrightarrow>
   \<exists>t'. run_ops put del look ops t = Done (map_ops (abs t) ops) t' \<and> inv t'"
proof (induction ops arbitrary: t)
  case Nil
  then show ?case by (simp add: run_simps)
next
  case (Cons p ops)
  show ?case
  proof (cases p)
    case (Put k d)
    with Cons.prems put_spec [of t k d] obtain t' where
      t': "put k d t = Done () t'" "inv t'" "abs t' = (abs t)(k \<mapsto> d)" by auto
    have "run_ops put del look (p # ops) t = run_ops put del look ops t'"
      by (simp add: Put run_simps t'(1))
    moreover have "map_ops (abs t) (p # ops) = map_ops (abs t') ops"
      by (simp only: Put map_ops.simps t'(3))
    ultimately show ?thesis using Cons.IH [OF t'(2)] Cons.prems(2) by simp
  next
    case (Del k)
    with Cons.prems del_spec [of t k] obtain t' where
      t': "del k t = Done () t'" "inv t'" "abs t' = (abs t)(k := None)" by auto
    have "run_ops put del look (p # ops) t = run_ops put del look ops t'"
      by (simp add: Del run_simps t'(1))
    moreover have "map_ops (abs t) (p # ops) = map_ops (abs t') ops"
      by (simp only: Del map_ops.simps t'(3))
    ultimately show ?thesis using Cons.IH [OF t'(2)] Cons.prems(2) by simp
  next
    case (Get k)
    with look_spec [of t k] Cons.prems Cons.IH [of t] show ?thesis by (auto simp: run_simps)
  qed
qed

end

subsection \<open>Chains as association lists\<close>

lemma find_pos_None: "find_pos P xs = None \<longleftrightarrow> (\<forall>x \<in> set xs. \<not> P x)"
  by (induction xs) auto

lemma find_pos_Some: "find_pos P xs = Some i \<Longrightarrow> i < length xs \<and> P (xs ! i)"
  by (induction xs arbitrary: i) (auto split: if_splits)

lemma map_of_find_pos:
  "map_of xs k = map_option (\<lambda>i. snd (xs ! i)) (find_pos (\<lambda>e. fst e = k) xs)"
  by (induction xs) (auto simp: option.map_comp comp_def)

lemma map_of_replace:
  "find_pos (\<lambda>e. fst e = k) xs = Some i \<Longrightarrow> map_of (xs[i := (k, d)]) = (map_of xs)(k \<mapsto> d)"
  by (induction xs arbitrary: i) (auto split: if_splits simp: fun_upd_twist)

lemma unlink_first_absent: "\<forall>x \<in> set xs. \<not> P x \<Longrightarrow> unlink_first P xs = xs"
  by (induction xs) auto

lemma unlink_first_subset: "set (unlink_first P xs) \<subseteq> set xs"
  by (induction xs) auto

lemma unlink_first_distinct: "distinct (map fst xs) \<Longrightarrow> distinct (map fst (unlink_first P xs))"
  by (induction xs) (auto dest!: subsetD [OF unlink_first_subset])

lemma map_of_unlink:
  "distinct (map fst xs) \<Longrightarrow> map_of (unlink_first (\<lambda>e. fst e = k) xs) = (map_of xs)(k := None)"
proof (induction xs)
  case (Cons x xs)
  have "map_of xs (fst x) = None" using Cons.prems by (simp add: map_of_eq_None_iff)
  with Cons show ?case by (auto simp: fun_upd_twist fun_upd_idem)
qed simp

section \<open>Every admissible instance of the macro is a map\<close>

locale hash_params =
  fixes hashfn :: "'k \<Rightarrow> nat \<Rightarrow> nat" and keyequal :: "'k \<Rightarrow> 'k \<Rightarrow> bool" and sz :: nat and ok :: "'k \<Rightarrow> bool"
  assumes in_range: "ok k \<Longrightarrow> hashfn k sz < sz"
    and keyequal_iff: "keyequal a b \<longleftrightarrow> a = b"
begin

lemma get_entry_run:
  "ok k \<Longrightarrow> hash_get_entry hashfn keyequal sz k t
     = Done (map_option (Pair (hashfn k sz)) (find_pos (\<lambda>e. fst e = k) (t ! hashfn k sz))) t"
  by (simp add: hash_get_entry_def hash_index_def run_simps in_range keyequal_iff)

lemma update_chain:
  assumes "wf_table hashfn sz t" "ok k" "distinct (map fst c)"
    "\<And>e. e \<in> set c \<Longrightarrow> hashfn (fst e) sz = hashfn k sz"
    "map_of c = (map_of (t ! hashfn k sz))(k := x)"
  shows "wf_table hashfn sz (t[hashfn k sz := c])"
    and "table_map hashfn sz (t[hashfn k sz := c]) = (table_map hashfn sz t)(k := x)"
  using assms in_range [OF assms(2)]
  by (auto simp: wf_table_def table_map_def nth_list_update fun_eq_iff)

lemma chainD:
  assumes "wf_table hashfn sz t" "ok k"
  shows "distinct (map fst (t ! hashfn k sz))" "e \<in> set (t ! hashfn k sz) \<Longrightarrow> hashfn (fst e) sz = hashfn k sz"
  using assms in_range [OF assms(2)] by (auto simp: wf_table_def)

lemma table_map_chain: "wf_table hashfn sz t \<Longrightarrow> ok k \<Longrightarrow> table_map hashfn sz t k = map_of (t ! hashfn k sz) k"
  using in_range [of k] by (simp add: table_map_def wf_table_def)

lemma insert_map:
  assumes "wf_table hashfn sz t" "ok k" "table_map hashfn sz t k = None"
  shows "\<exists>t'. hash_insert hashfn keyequal sz k d t = Done () t' \<and> wf_table hashfn sz t'
    \<and> table_map hashfn sz t' = (table_map hashfn sz t)(k \<mapsto> d)"
proof -
  let ?c = "(k, d) # t ! hashfn k sz"
  have "distinct (map fst ?c)"
    using chainD [OF assms(1,2)] assms(3) by (simp add: table_map_chain [OF assms(1,2)] map_of_eq_None_iff)
  moreover have "hashfn (fst e) sz = hashfn k sz" if "e \<in> set ?c" for e
    using that by (auto intro: chainD(2) [OF assms(1,2)])
  ultimately have "wf_table hashfn sz (t[hashfn k sz := ?c])"
    "table_map hashfn sz (t[hashfn k sz := ?c]) = (table_map hashfn sz t)(k \<mapsto> d)"
    using update_chain [OF assms(1,2)] by (metis map_of.simps(2) fst_conv snd_conv)+
  moreover have "length t = sz" using assms(1) by (simp add: wf_table_def)
  ultimately show ?thesis using in_range [OF assms(2)]
    by (simp add: hash_insert_def hash_index_def run_simps get_entry_run [OF assms(2)])
qed

lemma delete_map:
  assumes "wf_table hashfn sz t" "ok k"
  shows "\<exists>t'. hash_delete hashfn keyequal sz k t = Done () t' \<and> wf_table hashfn sz t'
    \<and> table_map hashfn sz t' = (table_map hashfn sz t)(k := None)"
proof -
  let ?c = "unlink_first (\<lambda>e. fst e = k) (t ! hashfn k sz)"
  have m: "map_of ?c = (map_of (t ! hashfn k sz))(k := None)"
    by (rule map_of_unlink [OF chainD(1) [OF assms]])
  have none: "find_pos (\<lambda>e. fst e = k) ?c = None"
    using fun_cong [OF m, of k] by (simp add: map_of_find_pos)
  have "wf_table hashfn sz (t[hashfn k sz := ?c])"
    "table_map hashfn sz (t[hashfn k sz := ?c]) = (table_map hashfn sz t)(k := None)"
    using update_chain [OF assms, of ?c None] m chainD [OF assms] unlink_first_distinct
      subsetD [OF unlink_first_subset, of _ "\<lambda>e. fst e = k"] by blast+
  moreover have "length t = sz" using assms(1) by (simp add: wf_table_def)
  ultimately show ?thesis using in_range [OF assms(2)] none
    by (simp add: hash_delete_def hash_index_def run_simps keyequal_iff get_entry_run [OF assms(2)])
qed

lemma set_map:
  assumes "wf_table hashfn sz t" "ok k"
  shows "\<exists>t'. hash_set_entry hashfn keyequal sz k d t = Done () t' \<and> wf_table hashfn sz t'
    \<and> table_map hashfn sz t' = (table_map hashfn sz t)(k \<mapsto> d)"
proof (cases "find_pos (\<lambda>e. fst e = k) (t ! hashfn k sz)")
  case None
  then have "table_map hashfn sz t k = None" by (simp add: table_map_chain [OF assms] map_of_find_pos)
  from insert_map [OF assms this] None show ?thesis
    by (simp add: hash_set_entry_def run_simps get_entry_run [OF assms(2)])
next
  case (Some i)
  let ?chain = "t ! hashfn k sz"
  let ?c = "?chain[i := (k, d)]"
  from find_pos_Some [OF Some] have i: "i < length ?chain" "fst (?chain ! i) = k" by auto
  have "map fst ?c = map fst ?chain" using i by (simp add: map_update list_update_same_conv)
  then have "distinct (map fst ?c)" using chainD(1) [OF assms] by simp
  moreover have "hashfn (fst e) sz = hashfn k sz" if "e \<in> set ?c" for e
    using that chainD(2) [OF assms] set_update_subset_insert by fastforce
  ultimately have "wf_table hashfn sz (t[hashfn k sz := ?c])"
    "table_map hashfn sz (t[hashfn k sz := ?c]) = (table_map hashfn sz t)(k \<mapsto> d)"
    using update_chain [OF assms] map_of_replace [OF Some] by blast+
  then show ?thesis using Some i
    by (simp add: hash_set_entry_def run_simps get_entry_run [OF assms(2)])
qed

lemma lookup_map:
  "wf_table hashfn sz t \<Longrightarrow> ok k \<Longrightarrow> hash_lookup_ptr hashfn keyequal sz k t = Done (table_map hashfn sz t k) t"
  by (simp add: hash_lookup_ptr_def run_simps get_entry_run table_map_chain map_of_find_pos split: option.split)

end

sublocale hash_params \<subseteq> pm: pointer_map "hash_insert hashfn keyequal sz" "hash_lookup_ptr hashfn keyequal sz"
  "hash_set_entry hashfn keyequal sz" "hash_delete hashfn keyequal sz" ok "wf_table hashfn sz" "table_map hashfn sz"
  by unfold_locales (simp_all add: lookup_map insert_map set_map delete_map)

text \<open>listen_table: keys are mysocket descriptors, 64 buckets.\<close>

abbreviation (input) MAX_NUM_CONNECTIONS :: nat where "MAX_NUM_CONNECTIONS \<equiv> 64"

definition valid_key :: "int \<Rightarrow> bool" where
  "valid_key k \<longleftrightarrow> 0 \<le> k"

lemma default_hash_valid: "0 \<le> k \<Longrightarrow> hash_default_hash_fn k 64 = nat k mod 64"
proof -
  assume k: "0 \<le> k"
  have r: "k mod 64 < 64" "0 \<le> k mod 64" by simp_all
  have "c_rem k 64 = k mod 64" using k by (cases "k = 0") (simp_all add: c_rem_def)
  then show ?thesis using r k by (simp add: hash_default_hash_fn_def nat_mod_distrib)
qed

interpretation lt: hash_params hash_default_hash_fn hash_default_key_equals MAX_NUM_CONNECTIONS valid_key
  by unfold_locales (simp_all add: default_hash_valid hash_default_key_equals_def valid_key_def)

lemma wf_hash_empty [simp]: "wf_table h n (hash_empty n)" and table_map_empty [simp]: "table_map h n (hash_empty n) = Map.empty"
  by (auto simp: wf_table_def hash_empty_def table_map_def)

section \<open>Properties\<close>

text \<open>C30: HASH\_SET\_ENTRY, HASH\_DELETE and HASH\_LOOKUP\_PTR on listen_table behave as a map from
  descriptors to pointers: over any sequence of operations on non-negative keys, from any
  well-formed table, no assertion fails and every lookup returns what the abstract map holds.\<close>

theorem hash_table_is_map:
  assumes "wf_table hash_default_hash_fn 64 t" and "list_all (\<lambda>p. 0 \<le> op_key p) ops"
  shows "\<exists>t'. run_ops (hash_set_entry hash_default_hash_fn hash_default_key_equals 64)
      (hash_delete hash_default_hash_fn hash_default_key_equals 64)
      (hash_lookup_ptr hash_default_hash_fn hash_default_key_equals 64) ops t
      = Done (map_ops (table_map hash_default_hash_fn 64 t) ops) t'
    \<and> wf_table hash_default_hash_fn 64 t'"
  using lt.pm.ops_refine [OF assms(1), of ops] assms(2) by (simp add: valid_key_def)

theorem hash_table_is_map_witness:
  "\<exists>t'. run_ops (hash_set_entry hash_default_hash_fn hash_default_key_equals 64)
      (hash_delete hash_default_hash_fn hash_default_key_equals 64)
      (hash_lookup_ptr hash_default_hash_fn hash_default_key_equals 64)
      [Put 3 ''a'', Put 67 ''b'', Get 3, Get 67, Del 3, Get 3, Get 67] (hash_empty 64)
      = Done [Some ''a'', Some ''b'', None, Some ''b''] t' \<and> wf_table hash_default_hash_fn 64 t'"
  using hash_table_is_map [of "hash_empty 64" "[Put 3 ''a'', Put 67 ''b'', Get 3, Get 67, Del 3, Get 3, Get 67]"]
  by simp

text \<open>HASH\_INSERT does not look for duplicates, and HASH\_DELETE removes one entry only: when
  a key already in the table is inserted again, the lookup returns the new entry, and deleting
  the key ends the process at the assertion that the key is gone.\<close>

lemma hash_duplicate_insert_breaks_delete:
  assumes "wf_table hash_default_hash_fn 64 t" and "0 \<le> key"
    and "table_map hash_default_hash_fn 64 t key = Some d"
  shows "\<exists>t'. hash_insert hash_default_hash_fn hash_default_key_equals 64 key d' t = Done () t'
    \<and> hash_lookup_ptr hash_default_hash_fn hash_default_key_equals 64 key t' = Done (Some d') t'
    \<and> hash_delete hash_default_hash_fn hash_default_key_equals 64 key t' = Abort (Assertion ''mysock_hash.h'' 143)"
proof -
  let ?i = "hash_default_hash_fn key 64"
  have ok: "valid_key key" using assms(2) by (simp add: valid_key_def)
  note run = lt.get_entry_run [OF ok] lt.in_range [OF ok] lt.keyequal_iff
  obtain j where "find_pos (\<lambda>e. fst e = key) (t ! ?i) = Some j"
    using assms(3) by (auto simp: lt.table_map_chain [OF assms(1) ok] map_of_find_pos)
  moreover have "length t = 64" using assms(1) by (simp add: wf_table_def)
  ultimately show ?thesis using lt.in_range [OF ok]
    by (simp add: hash_insert_def hash_delete_def hash_lookup_ptr_def hash_index_def run_simps run)
qed

text \<open>A negative descriptor that is not a multiple of the table size never reaches the
  table: the remainder of C is negative, its conversion to unsigned int exceeds the table
  size, and every operation ends at the index assertion.\<close>

lemma hash_negative_key_aborts:
  assumes "key < 0" and "\<not> 64 dvd key" and "- (2 ^ 31) \<le> key"
  shows "hash_lookup_ptr hash_default_hash_fn hash_default_key_equals 64 key t = Abort (Assertion ''mysock_hash.h'' 71)
    \<and> hash_insert hash_default_hash_fn hash_default_key_equals 64 key d t = Abort (Assertion ''mysock_hash.h'' 83)
    \<and> hash_delete hash_default_hash_fn hash_default_key_equals 64 key t = Abort (Assertion ''mysock_hash.h'' 130)"
proof -
  let ?r = "- key mod 64"
  have "?r \<noteq> 0" using assms(2) by (metis dvd_eq_mod_eq_0 dvd_minus_iff)
  moreover have "0 \<le> ?r" "?r < 64" by (rule pos_mod_sign, simp) (rule pos_mod_bound, simp)
  ultimately have r: "0 < ?r" "?r < 64" by linarith+
  have "c_rem key 64 = - ?r" using assms(1) by (simp add: c_rem_def)
  moreover have "(- ?r) mod 2 ^ 32 = 2 ^ 32 - ?r"
    using r by (intro int_mod_pos_eq [of _ _ "-1"]) auto
  ultimately have "\<not> hash_default_hash_fn key 64 < 64"
    using r by (simp add: hash_default_hash_fn_def)
  then show ?thesis
    by (simp add: hash_lookup_ptr_def hash_insert_def hash_delete_def hash_get_entry_def hash_index_def run_simps)
qed

end
