(* ===== verification/Mysock_State.thy ===== *)
theory Mysock_State
  imports Packet_Queue Mysock_Hash
begin

text \<open>
  The state of the process: the mysocket contexts (mysock_impl.h, network_io.h,
  network_io_socket.h), the descriptor table global_ctx, the table of listening sockets
  (connection_demux.c), the threads that were created, and the operating system.

  The operating system and the libraries below the program are an argument of the
  definitions: a record of functions over a state type \<open>'os\<close> that the model does not look into.
\<close>

section \<open>Addresses and errno values\<close>

record sockaddr =
  sa_family :: "16 word"
  sin_port :: "16 word"   \<comment> \<open>network byte order, as the host reads it\<close>
  sin_addr :: "32 word"   \<comment> \<open>network byte order, as the host reads it\<close>
  sin_zero :: "byte list" \<comment> \<open>8 bytes of padding\<close>

definition zero_sockaddr :: sockaddr where
  "zero_sockaddr = \<lparr>sa_family = 0, sin_port = 0, sin_addr = 0, sin_zero = replicate 8 0\<rparr>"

abbreviation (input) AF_INET :: "16 word" where "AF_INET \<equiv> 2"
abbreviation (input) sizeof_sockaddr :: nat where "sizeof_sockaddr \<equiv> 16"

text \<open>The object in memory, as memcmp sees it.\<close>

definition sockaddr_bytes :: "endian \<Rightarrow> sockaddr \<Rightarrow> byte list" where
  "sockaddr_bytes host a = store16 host (sa_family a) @ store16 host (sin_port a)
     @ store32 host (sin_addr a) @ sin_zero a"

type_synonym errno = nat

abbreviation (input) EINTR :: errno where "EINTR \<equiv> 4"
abbreviation (input) EBADF :: errno where "EBADF \<equiv> 9"
abbreviation (input) EFAULT :: errno where "EFAULT \<equiv> 14"
abbreviation (input) EINVAL :: errno where "EINVAL \<equiv> 22"
abbreviation (input) EMFILE :: errno where "EMFILE \<equiv> 24"
abbreviation (input) EADDRNOTAVAIL :: errno where "EADDRNOTAVAIL \<equiv> 99"
abbreviation (input) ECONNABORTED :: errno where "ECONNABORTED \<equiv> 103"
abbreviation (input) EISCONN :: errno where "EISCONN \<equiv> 106"
abbreviation (input) ENOTCONN :: errno where "ENOTCONN \<equiv> 107"
abbreviation (input) ECONNREFUSED :: errno where "ECONNREFUSED \<equiv> 111"

section \<open>The operating system\<close>

text \<open>
  Failures are values: a negative descriptor or count, \<open>Some errno\<close> for calls that return 0 or
  -1, \<open>None\<close> for queries that fail.
\<close>

datatype poll_result =
    Poll_error errno              \<comment> \<open>-1 with errno\<close>
  | Poll_timeout                  \<comment> \<open>0\<close>
  | Poll_ready "16 word" "16 word" \<comment> \<open>the revents of the two descriptors\<close>
  | Poll_waiting                  \<comment> \<open>nothing has happened yet\<close>

record 'os env =
  host_order :: endian
  os_socket :: "'os \<Rightarrow> int \<times> 'os"
  os_pipe :: "'os \<Rightarrow> (int \<times> int) option \<times> 'os"
  os_close :: "int \<Rightarrow> 'os \<Rightarrow> 'os"
  os_bind :: "int \<Rightarrow> sockaddr \<Rightarrow> int \<Rightarrow> 'os \<Rightarrow> errno option \<times> 'os"
  os_listen :: "int \<Rightarrow> int \<Rightarrow> 'os \<Rightarrow> errno option \<times> 'os"
  os_getsockname :: "int \<Rightarrow> 'os \<Rightarrow> sockaddr option"
  os_connect :: "int \<Rightarrow> sockaddr \<Rightarrow> 'os \<Rightarrow> errno option \<times> 'os"
  os_accept :: "int \<Rightarrow> 'os \<Rightarrow> (int \<times> sockaddr \<times> nat) option \<times> 'os"
  os_read :: "int \<Rightarrow> nat \<Rightarrow> 'os \<Rightarrow> (int \<times> byte list) \<times> 'os"
  os_write :: "int \<Rightarrow> byte list \<Rightarrow> 'os \<Rightarrow> int \<times> 'os"
  os_poll :: "int \<Rightarrow> int \<Rightarrow> 'os \<Rightarrow> poll_result \<times> 'os"
  os_ignore_sigpipe :: "'os \<Rightarrow> bool \<times> 'os"
  os_gethostname :: "'os \<Rightarrow> string option"
  os_gethostbyname :: "string \<Rightarrow> 'os \<Rightarrow> 32 word option"
  lib_rand_r :: "32 word \<Rightarrow> nat \<times> 32 word"

section \<open>Contexts\<close>

text \<open>network_context_socket_tcp_t, with its base network_context_socket_t.\<close>

record network_context_socket_tcp =
  recv_thread :: nat
  recv_thread_started :: bool
  socket :: int
  exit_pipe_read :: int
  exit_pipe_write :: int
  sock_ctx :: ptr
  new_socket :: int
  connect_lock :: bool      \<comment> \<open>whether the mutex is held\<close>
  connected :: bool

record network_context =
  is_reliable :: bool
  local_addr :: sockaddr
  peer_addr :: sockaddr
  peer_addr_len :: nat
  peer_addr_valid :: bool
  impl_data :: "network_context_socket_tcp option"
  random_seed :: "32 word"
  copied :: bool
  copy_buffer :: "byte list"
  copy_buf_len :: nat

abbreviation (input) MAX_IP_PAYLOAD_LEN :: nat where "MAX_IP_PAYLOAD_LEN \<equiv> 1500"

definition zero_network_context :: network_context where
  "zero_network_context = \<lparr>is_reliable = False, local_addr = zero_sockaddr, peer_addr = zero_sockaddr,
     peer_addr_len = 0, peer_addr_valid = False, impl_data = None, random_seed = 0,
     copied = False, copy_buffer = replicate MAX_IP_PAYLOAD_LEN 0, copy_buf_len = 0\<rparr>"

text \<open>
  mysock_context_t. The condition variables and the two mutexes blocking_lock and
  data_ready_lock have no field: the code they bracket is one step of the model. Context\_Threads
  adds them.
\<close>

record mysock_context =
  is_active :: bool
  stcp_state :: "nat option"
  network_state :: network_context
  bound :: bool
  listening :: bool
  my_sd :: int
  listen_sd :: int
  blocking :: bool
  stcp_errno :: errno
  transport_thread :: nat
  transport_thread_started :: bool
  close_requested :: bool
  eof :: bool
  network_recv_queue :: packet_queue
  app_send_queue :: packet_queue
  app_recv_queue :: packet_queue

definition zero_context :: mysock_context where
  "zero_context = \<lparr>is_active = False, stcp_state = None, network_state = zero_network_context,
     bound = False, listening = False, my_sd = 0, listen_sd = 0, blocking = False, stcp_errno = 0,
     transport_thread = 0, transport_thread_started = False, close_requested = False, eof = False,
     network_recv_queue = empty_queue, app_send_queue = empty_queue, app_recv_queue = empty_queue\<rparr>"

section \<open>Listening sockets\<close>

record connect_request =
  req_peer_addr :: sockaddr
  req_peer_addr_len :: int
  req_sd :: int
  req_user_data :: "nat option"

text \<open>
  The completed queue holds pointers into the array connection_queue. A pointer is the array it
  points into, by the number of reallocations made before, and an index.
\<close>

record listen_queue =
  local_port :: nat
  lq_max_len :: nat
  lq_cur_len :: nat
  connection_queue :: "connect_request list"
  queue_block :: nat
  completed_queue :: "(nat \<times> nat) list"

section \<open>Threads and the process\<close>

datatype thread_func = Transport_thread_func | Network_recv_thread_func

record thread =
  entry :: thread_func
  arg :: ptr
  exited :: bool

record 'os sys =
  ctxs :: "mysock_context heap"
  global_ctx :: "ptr option list"
  listen_table :: "(int, listen_queue) table"
  threads :: "thread list"
  os :: 'os

definition init_sys :: "'os \<Rightarrow> 'os sys" where
  "init_sys w = \<lparr>ctxs = [], global_ctx = replicate MAX_NUM_CONNECTIONS None,
     listen_table = hash_empty MAX_NUM_CONNECTIONS, threads = [], os = w\<rparr>"

text \<open>Running a program on one context, and on one queue of a context.\<close>

definition on_ctx :: "string \<Rightarrow> nat \<Rightarrow> ptr \<Rightarrow> (mysock_context, 'a) prog \<Rightarrow> ('os sys, 'a) prog" where
  "on_ctx file line p m = (\<lambda>s. case hload (ctxs s) p of
      None \<Rightarrow> Abort (Dangling file line)
    | Some c \<Rightarrow> (case m c of
        Done a c' \<Rightarrow> Done a (s\<lparr>ctxs := hstore (ctxs s) p c'\<rparr>)
      | Blocked c' \<Rightarrow> Blocked (s\<lparr>ctxs := hstore (ctxs s) p c'\<rparr>)
      | Abort e \<Rightarrow> Abort e))"

definition get_ctx :: "string \<Rightarrow> nat \<Rightarrow> ptr \<Rightarrow> ('os sys, mysock_context) prog" where
  "get_ctx file line p = bind (gets ctxs) (\<lambda>h. the_or (Dangling file line) (hload h p))"

definition on_network_recv_queue :: "(packet_queue, 'a) prog \<Rightarrow> (mysock_context, 'a) prog" where
  "on_network_recv_queue = zoom network_recv_queue (\<lambda>q c. c\<lparr>network_recv_queue := q\<rparr>)"

definition on_app_send_queue :: "(packet_queue, 'a) prog \<Rightarrow> (mysock_context, 'a) prog" where
  "on_app_send_queue = zoom app_send_queue (\<lambda>q c. c\<lparr>app_send_queue := q\<rparr>)"

definition on_app_recv_queue :: "(packet_queue, 'a) prog \<Rightarrow> (mysock_context, 'a) prog" where
  "on_app_recv_queue = zoom app_recv_queue (\<lambda>q c. c\<lparr>app_recv_queue := q\<rparr>)"

definition upd_network :: "(network_context \<Rightarrow> network_context) \<Rightarrow> mysock_context \<Rightarrow> mysock_context" where
  "upd_network f c = c\<lparr>network_state := f (network_state c)\<rparr>"

definition upd_impl :: "(network_context_socket_tcp \<Rightarrow> network_context_socket_tcp) \<Rightarrow> mysock_context \<Rightarrow> mysock_context" where
  "upd_impl f = upd_network (\<lambda>n. n\<lparr>impl_data := map_option f (impl_data n)\<rparr>)"

abbreviation impl :: "mysock_context \<Rightarrow> network_context_socket_tcp option" where
  "impl c \<equiv> impl_data (network_state c)"

text \<open>A call into the operating system.\<close>

definition syscall :: "('os \<Rightarrow> 'a \<times> 'os) \<Rightarrow> ('os sys, 'a) prog" where
  "syscall f = (\<lambda>s. case f (os s) of (a, o') \<Rightarrow> Done a (s\<lparr>os := o'\<rparr>))"

lemma on_ctx_run [run_simps]:
  "on_ctx file line p m s = (case hload (ctxs s) p of
      None \<Rightarrow> Abort (Dangling file line)
    | Some c \<Rightarrow> (case m c of
        Done a c' \<Rightarrow> Done a (s\<lparr>ctxs := hstore (ctxs s) p c'\<rparr>)
      | Blocked c' \<Rightarrow> Blocked (s\<lparr>ctxs := hstore (ctxs s) p c'\<rparr>)
      | Abort e \<Rightarrow> Abort e))"
  by (simp add: on_ctx_def)

lemma get_ctx_run [run_simps]:
  "get_ctx file line p s = (case hload (ctxs s) p of None \<Rightarrow> Abort (Dangling file line) | Some c \<Rightarrow> Done c s)"
  by (simp add: get_ctx_def run_simps)

lemma syscall_run [run_simps]:
  "syscall f s = Done (fst (f (os s))) (s\<lparr>os := snd (f (os s))\<rparr>)"
  by (simp add: syscall_def split: prod.split)

lemma sys_update_same [simp]: "s\<lparr>ctxs := ctxs s\<rparr> = s" "s\<lparr>os := os s\<rparr> = s"
  by (cases s; simp)+

end
