(* ===== verification/Mysock_Core.thy ===== *)
theory Mysock_Core
  imports Mysock_State
begin

text \<open>
  mysock.c without its queues (Packet_Queue), and the parts of network_io_socket.c and
  network_io_tcp.c it calls: creating and destroying contexts, the descriptor table, threads.
  A function that reaches an \<open>assert(0)\<close> ends there; what the source has after it (a cleanup, a
  return of -1) cannot run.
\<close>

section \<open>The socket layer below a context (network_io_socket.c, network_io_tcp.c)\<close>

definition network_alloc_context_socket :: "'os env \<Rightarrow> ('os sys, network_context_socket_tcp) prog" where
  "network_alloc_context_socket E =
     bind (syscall (os_socket E)) (\<lambda>fd.
     bind (assert_at ''network_io_socket.c'' 306 (fd \<ge> 0)) (\<lambda>_.
     bind (syscall (os_pipe E)) (\<lambda>fds.
     case fds of
       None \<Rightarrow> abort (Assertion ''network_io_socket.c'' 315)
     | Some (r, w) \<Rightarrow>
       ret \<lparr>recv_thread = 0, recv_thread_started = False, socket = fd, exit_pipe_read = r,
            exit_pipe_write = w, sock_ctx = 0, new_socket = 0, connect_lock = False,
            connected = False\<rparr>)))"

definition network_init_socket :: "'os env \<Rightarrow> ptr \<Rightarrow> ('os sys, unit) prog" where
  "network_init_socket E p =
     bind (on_ctx ''network_io_socket.c'' 173 p
             (modify (\<lambda>c. c\<lparr>network_state := zero_network_context\<lparr>random_seed := 0x632a\<rparr>\<rparr>))) (\<lambda>_.
     bind (network_alloc_context_socket E) (\<lambda>i.
     on_ctx ''network_io_socket.c'' 176 p (modify (upd_network (\<lambda>n. n\<lparr>impl_data := Some i\<rparr>)))))"

definition network_init :: "'os env \<Rightarrow> ptr \<Rightarrow> ('os sys, unit) prog" where
  "network_init E p =
     bind (network_init_socket E p) (\<lambda>_.
     on_ctx ''network_io_tcp.c'' 54 p (modify
       (upd_impl (\<lambda>i. i\<lparr>sock_ctx := p, new_socket := -1, connected := False, connect_lock := False\<rparr>))))"

definition network_destroy_context_socket :: "'os env \<Rightarrow> network_context_socket_tcp \<Rightarrow> ('os sys, unit) prog" where
  "network_destroy_context_socket E i =
     bind (if socket i \<ge> 0 then modify (\<lambda>s. s\<lparr>os := os_close E (socket i) (os s)\<rparr>) else ret ()) (\<lambda>_.
     bind (if exit_pipe_read i \<ge> 0 then modify (\<lambda>s. s\<lparr>os := os_close E (exit_pipe_read i) (os s)\<rparr>) else ret ()) (\<lambda>_.
     if exit_pipe_write i \<ge> 0 then modify (\<lambda>s. s\<lparr>os := os_close E (exit_pipe_write i) (os s)\<rparr>) else ret ()))"

definition network_close_socket :: "'os env \<Rightarrow> ptr \<Rightarrow> ('os sys, unit) prog" where
  "network_close_socket E p =
     bind (get_ctx ''network_io_socket.c'' 49 p) (\<lambda>c.
     bind (the_or (Assertion ''network_io_socket.c'' 325) (impl c)) (\<lambda>i.
     bind (network_destroy_context_socket E i) (\<lambda>_.
     on_ctx ''network_io_socket.c'' 50 p (modify (upd_network (\<lambda>n. n\<lparr>impl_data := None\<rparr>))))))"

text \<open>pthread\_mutex\_destroy reports EBUSY for a mutex that is held; PTHREAD\_CALL then aborts.\<close>

definition network_close :: "'os env \<Rightarrow> ptr \<Rightarrow> ('os sys, unit) prog" where
  "network_close E p =
     bind (get_ctx ''network_io_tcp.c'' 72 p) (\<lambda>c.
     bind (the_or (Assertion ''network_io_tcp.c'' 73) (impl c)) (\<lambda>i.
     bind (if new_socket i \<noteq> -1 then modify (\<lambda>s. s\<lparr>os := os_close E (new_socket i) (os s)\<rparr>) else ret ()) (\<lambda>_.
     bind (assert_at ''mysock_impl.h'' 30 (\<not> connect_lock i)) (\<lambda>_.
     network_close_socket E p))))"

section \<open>Contexts and the descriptor table (mysock.c)\<close>

definition mysock_free_context :: "'os env \<Rightarrow> ptr \<Rightarrow> ('os sys, unit) prog" where
  "mysock_free_context E p =
     bind (on_ctx ''mysock.c'' 325 p (on_network_recv_queue mysock_free_queue)) (\<lambda>_.
     bind (on_ctx ''mysock.c'' 326 p (on_app_recv_queue mysock_free_queue)) (\<lambda>_.
     bind (on_ctx ''mysock.c'' 327 p (on_app_send_queue mysock_free_queue)) (\<lambda>_.
     bind (network_close E p) (\<lambda>_.
     bind (get_ctx ''mysock.c'' 332 p) (\<lambda>c.
     bind (if 0 \<le> my_sd c \<and> my_sd c < int MAX_NUM_CONNECTIONS then ret ()
           else abort (Out_of_bounds ''mysock.c'' 333)) (\<lambda>_.
     modify (\<lambda>s. s\<lparr>global_ctx := (if global_ctx s ! nat (my_sd c) = Some p
                                 then (global_ctx s)[nat (my_sd c) := None] else global_ctx s),
                   ctxs := hfree (ctxs s) p\<rparr>)))))))"

definition mysock_allocate_context :: "'os env \<Rightarrow> ('os sys, ptr) prog" where
  "mysock_allocate_context E =
     bind (gets (\<lambda>s. length (ctxs s))) (\<lambda>p.
     bind (modify (\<lambda>s. s\<lparr>ctxs := ctxs s @ [Some (zero_context\<lparr>listen_sd := -1, blocking := True\<rparr>)]\<rparr>)) (\<lambda>_.
     bind (network_init E p) (\<lambda>_.
     ret p)))"

text \<open>The search for a free descriptor, from k upwards.\<close>

fun free_slot :: "ptr option list \<Rightarrow> nat \<Rightarrow> nat option" where
  "free_slot [] k = None"
| "free_slot (x # xs) k = (if x = None then Some k else free_slot xs (Suc k))"

definition mysock_new_mysocket :: "'os env \<Rightarrow> bool \<Rightarrow> ('os sys, errno + int) prog" where
  "mysock_new_mysocket E reliable =
     bind (mysock_allocate_context E) (\<lambda>p.
     bind (on_ctx ''mysock.c'' 51 p (modify (upd_network (\<lambda>n. n\<lparr>is_reliable := reliable\<rparr>)))) (\<lambda>_.
     bind (gets global_ctx) (\<lambda>g.
     case free_slot g 0 of
       Some k \<Rightarrow>
         bind (modify (\<lambda>s. s\<lparr>global_ctx := (global_ctx s)[k := Some p]\<rparr>)) (\<lambda>_.
         bind (on_ctx ''mysock.c'' 59 p (modify (\<lambda>c. c\<lparr>my_sd := int k\<rparr>))) (\<lambda>_.
         ret (Inr (int k))))
     | None \<Rightarrow>
         bind (mysock_free_context E p) (\<lambda>_.
         ret (Inl EMFILE)))))"

text \<open>comp_ctx is the context to compare with, NULL for none.\<close>

definition verify_mysocket_descriptor :: "ptr option \<Rightarrow> int \<Rightarrow> ('os sys, unit) prog" where
  "verify_mysocket_descriptor comp_ctx sd =
     bind (assert_at ''mysock.c'' 405 (0 \<le> sd \<and> sd < int MAX_NUM_CONNECTIONS)) (\<lambda>_.
     bind (gets (\<lambda>s. global_ctx s ! nat sd)) (\<lambda>x.
     bind (the_or (Assertion ''mysock.c'' 408) x) (\<lambda>p.
     bind (get_ctx ''mysock.c'' 409 p) (\<lambda>c.
     bind (assert_at ''mysock.c'' 409 (my_sd c = sd)) (\<lambda>_.
     assert_at ''mysock.c'' 410 (comp_ctx = None \<or> comp_ctx = Some p))))))"

definition mysock_get_context :: "int \<Rightarrow> ('os sys, ptr option) prog" where
  "mysock_get_context sd =
     bind (verify_mysocket_descriptor None sd) (\<lambda>_.
     if 0 \<le> sd \<and> sd < int MAX_NUM_CONNECTIONS then gets (\<lambda>s. global_ctx s ! nat sd) else ret None)"

text \<open>The pointer of a descriptor, dereferenced by the caller at the given line.\<close>

definition ctx_of :: "string \<Rightarrow> nat \<Rightarrow> int \<Rightarrow> ('os sys, ptr) prog" where
  "ctx_of file line sd = bind (mysock_get_context sd) (the_or (Null_pointer file line))"

section \<open>Threads\<close>

definition mysock_create_thread :: "thread_func \<Rightarrow> ptr \<Rightarrow> ('os sys, nat) prog" where
  "mysock_create_thread start args =
     (\<lambda>s. Done (length (threads s)) (s\<lparr>threads := threads s @ [\<lparr>entry = start, arg = args, exited = False\<rparr>]\<rparr>))"

text \<open>pthread\_join: wait until the thread has exited.\<close>

definition thread_exited :: "thread list \<Rightarrow> nat \<Rightarrow> bool" where
  "thread_exited ts t \<longleftrightarrow> t < length ts \<and> exited (ts ! t)"

definition pthread_join :: "nat \<Rightarrow> ('os sys, unit) prog" where
  "pthread_join t = bind (gets threads) (\<lambda>ts. if thread_exited ts t then ret () else block)"

definition network_start_recv_thread :: "'os env \<Rightarrow> ptr \<Rightarrow> ('os sys, unit) prog" where
  "network_start_recv_thread E p =
     bind (get_ctx ''network_io_socket.c'' 117 p) (\<lambda>c.
     bind (assert_at ''network_io_socket.c'' 119 (impl c \<noteq> None)) (\<lambda>_.
     bind (syscall (os_ignore_sigpipe E)) (\<lambda>ok.
     bind (assert_at ''network_io_socket.c'' 124 ok) (\<lambda>_.
     bind (mysock_create_thread Network_recv_thread_func p) (\<lambda>t.
     on_ctx ''network_io_socket.c'' 128 p
       (modify (upd_impl (\<lambda>i. i\<lparr>recv_thread := t, recv_thread_started := True\<rparr>))))))))"

definition network_stop_recv_thread :: "'os env \<Rightarrow> ptr \<Rightarrow> ('os sys, unit) prog" where
  "network_stop_recv_thread E p =
     bind (get_ctx ''network_io_socket.c'' 138 p) (\<lambda>c.
     bind (the_or (Assertion ''network_io_socket.c'' 141) (impl c)) (\<lambda>i.
     if recv_thread_started i
     then bind (syscall (os_write E (exit_pipe_write i) [88])) (\<lambda>rc.
          bind (assert_at ''network_io_socket.c'' 150 (rc \<ge> 0)) (\<lambda>_.
          bind (pthread_join (recv_thread i)) (\<lambda>_.
          on_ctx ''network_io_socket.c'' 156 p
            (modify (upd_impl (\<lambda>i. i\<lparr>recv_thread_started := False\<rparr>))))))
     else ret ()))"

definition mysock_transport_init :: "'os env \<Rightarrow> int \<Rightarrow> bool \<Rightarrow> ('os sys, unit) prog" where
  "mysock_transport_init E sd active =
     bind (ctx_of ''mysock.c'' 84 sd) (\<lambda>p.
     bind (get_ctx ''mysock.c'' 84 p) (\<lambda>c.
     bind (assert_at ''mysock.c'' 84 (\<not> listening c)) (\<lambda>_.
     bind (on_ctx ''mysock.c'' 85 p (modify (\<lambda>c. c\<lparr>is_active := active\<rparr>))) (\<lambda>_.
     bind (network_start_recv_thread E p) (\<lambda>_.
     bind (mysock_create_thread Transport_thread_func p) (\<lambda>t.
     on_ctx ''mysock.c'' 99 p
       (modify (\<lambda>c. c\<lparr>transport_thread := t, transport_thread_started := True\<rparr>))))))))"

text \<open>The wait for the connection: the errno the transport layer left, 0 for success.\<close>

definition mysock_wait_for_connection :: "(mysock_context, errno + int) prog" where
  "mysock_wait_for_connection =
     bind (gets blocking) (\<lambda>b.
     if b then block
     else bind (gets stcp_errno) (\<lambda>e. ret (if e \<noteq> 0 then Inl e else Inr 0)))"

definition verify_socket :: "string \<Rightarrow> nat \<Rightarrow> mysock_context \<Rightarrow> ('os sys, network_context_socket_tcp) prog" where
  "verify_socket file line c =
     bind (the_or (Assertion file line) (impl c)) (\<lambda>i.
     bind (assert_at file line (socket i \<ge> 0)) (\<lambda>_.
     ret i))"

definition network_bind_socket :: "'os env \<Rightarrow> ptr \<Rightarrow> sockaddr \<Rightarrow> int \<Rightarrow> ('os sys, errno + int) prog" where
  "network_bind_socket E p addr addrlen =
     bind (get_ctx ''network_io_socket.c'' 190 p) (\<lambda>c.
     bind (verify_socket ''network_io_socket.c'' 191 c) (\<lambda>i.
     bind (syscall (os_bind E (socket i) addr addrlen)) (\<lambda>rc.
     ret (case rc of None \<Rightarrow> Inr 0 | Some e \<Rightarrow> Inl e))))"

definition network_bind :: "'os env \<Rightarrow> ptr \<Rightarrow> sockaddr \<Rightarrow> int \<Rightarrow> ('os sys, errno + int) prog" where
  "network_bind E p addr addrlen =
     bind (get_ctx ''network_io_tcp.c'' 90 p) (\<lambda>c.
     bind (verify_socket ''network_io_tcp.c'' 91 c) (\<lambda>_.
     network_bind_socket E p addr addrlen))"

definition mysock_bind_ephemeral :: "'os env \<Rightarrow> ptr \<Rightarrow> ('os sys, errno + int) prog" where
  "mysock_bind_ephemeral E p =
     bind (get_ctx ''mysock.c'' 419 p) (\<lambda>c.
     bind (assert_at ''mysock.c'' 419 (\<not> bound c)) (\<lambda>_.
     bind (network_bind E p (zero_sockaddr\<lparr>sa_family := AF_INET\<rparr>) (int sizeof_sockaddr)) (\<lambda>rc.
     case rc of
       Inl e \<Rightarrow> abort (Assertion ''mysock.c'' 430)
     | Inr _ \<Rightarrow>
         bind (on_ctx ''mysock.c'' 434 p (modify (\<lambda>c. c\<lparr>bound := True\<rparr>))) (\<lambda>_.
         ret (Inr 0)))))"

section \<open>Well-formed processes\<close>

text \<open>
  A context of the heap: its queues are well-formed, its socket layer state is present and
  points back to it, and what network.c saved for reordering fits its buffer.
\<close>

definition wf_ctx :: "ptr \<Rightarrow> mysock_context \<Rightarrow> bool" where
  "wf_ctx p c \<longleftrightarrow> wf_queue (network_recv_queue c) \<and> wf_queue (app_send_queue c) \<and> wf_queue (app_recv_queue c)
     \<and> map_option sock_ctx (impl c) = Some p
     \<and> length (copy_buffer (network_state c)) = MAX_IP_PAYLOAD_LEN
     \<and> copy_buf_len (network_state c) \<le> MAX_IP_PAYLOAD_LEN"

text \<open>The descriptor table and the contexts point to each other.\<close>

definition wf_descriptors :: "ptr option list \<Rightarrow> mysock_context heap \<Rightarrow> bool" where
  "wf_descriptors g h \<longleftrightarrow> length g = MAX_NUM_CONNECTIONS
     \<and> (\<forall>k < length g. case g ! k of None \<Rightarrow> True
          | Some p \<Rightarrow> (case hload h p of None \<Rightarrow> False | Some c \<Rightarrow> my_sd c = int k))
     \<and> (\<forall>p < length h. case hload h p of None \<Rightarrow> True
          | Some c \<Rightarrow> wf_ctx p c \<and> 0 \<le> my_sd c \<and> my_sd c < int MAX_NUM_CONNECTIONS
              \<and> g ! nat (my_sd c) = Some p)"

definition wf_sys :: "'os sys \<Rightarrow> bool" where
  "wf_sys s \<longleftrightarrow> wf_descriptors (global_ctx s) (ctxs s)
     \<and> wf_table hash_default_hash_fn MAX_NUM_CONNECTIONS (listen_table s)"

lemma wf_init_sys [simp]: "wf_sys (init_sys w)"
  by (simp add: wf_sys_def wf_descriptors_def init_sys_def)

lemma replicate_64: "replicate 64 x = x # replicate 63 x"
  using replicate_Suc [of 63 x] by simp

lemma wf_descriptors_empty: "wf_descriptors (replicate 64 None) []"
  by (simp add: wf_descriptors_def)

lemma wf_descriptors_entry:
  assumes "wf_descriptors g h" "k < 64" "g ! k = Some p"
  shows "\<exists>c. hload h p = Some c \<and> my_sd c = int k \<and> wf_ctx p c"
proof -
  from assms have "case hload h p of None \<Rightarrow> False | Some c \<Rightarrow> my_sd c = int k"
    by (auto simp: wf_descriptors_def)
  then obtain c where c: "hload h p = Some c" "my_sd c = int k" by (auto split: option.splits)
  have "\<forall>q < length h. case hload h q of None \<Rightarrow> True | Some c \<Rightarrow> wf_ctx q c \<and> 0 \<le> my_sd c
      \<and> my_sd c < int 64 \<and> g ! nat (my_sd c) = Some q"
    using assms(1) by (simp add: wf_descriptors_def)
  with hload_bound [OF c(1)] c show ?thesis by auto
qed

lemma wf_descriptors_live:
  assumes "wf_descriptors g h" "hload h p = Some c"
  shows "wf_ctx p c" "0 \<le> my_sd c" "my_sd c < 64" "g ! nat (my_sd c) = Some p"
proof -
  have "case hload h p of None \<Rightarrow> True | Some c \<Rightarrow> wf_ctx p c \<and> 0 \<le> my_sd c
      \<and> my_sd c < int 64 \<and> g ! nat (my_sd c) = Some p"
    using assms hload_bound [OF assms(2)] unfolding wf_descriptors_def by blast
  then show "wf_ctx p c" "0 \<le> my_sd c" "my_sd c < 64" "g ! nat (my_sd c) = Some p"
    using assms(2) by auto
qed

lemma wf_descriptorsI:
  assumes "length g = 64"
    and "\<And>k p. k < 64 \<Longrightarrow> g ! k = Some p \<Longrightarrow> \<exists>c. hload h p = Some c \<and> my_sd c = int k"
    and "\<And>p c. hload h p = Some c \<Longrightarrow> wf_ctx p c \<and> 0 \<le> my_sd c \<and> my_sd c < 64 \<and> g ! nat (my_sd c) = Some p"
  shows "wf_descriptors g h"
  unfolding wf_descriptors_def
proof (intro conjI allI impI)
  fix k assume "k < length g"
  then show "case g ! k of None \<Rightarrow> True
      | Some p \<Rightarrow> (case hload h p of None \<Rightarrow> False | Some c \<Rightarrow> my_sd c = int k)"
    using assms(1,2) by (cases "g ! k") fastforce+
next
  fix p assume "p < length h"
  show "case hload h p of None \<Rightarrow> True
      | Some c \<Rightarrow> wf_ctx p c \<and> 0 \<le> my_sd c \<and> my_sd c < int 64 \<and> g ! nat (my_sd c) = Some p"
    using assms(3) [of p] by (cases "hload h p") simp_all
qed (use assms in simp)

lemma wf_descriptors_length: "wf_descriptors g h \<Longrightarrow> length g = 64"
  by (simp add: wf_descriptors_def)

text \<open>A change of one context that keeps its descriptor and its own well-formedness.\<close>

lemma wf_descriptors_store:
  assumes "wf_descriptors g h" "hload h p = Some c" "my_sd c' = my_sd c" "wf_ctx p c'"
  shows "wf_descriptors g (hstore h p c')"
proof (rule wf_descriptorsI)
  show "length g = 64" using assms(1) by (rule wf_descriptors_length)
next
  fix k q assume "k < 64" "g ! k = Some q"
  with wf_descriptors_entry [OF assms(1)] assms(2,3) hload_bound [OF assms(2)]
  show "\<exists>c. hload (hstore h p c') q = Some c \<and> my_sd c = int k"
    by (fastforce simp: heap_simps)
next
  fix q d assume "hload (hstore h p c') q = Some d"
  then show "wf_ctx q d \<and> 0 \<le> my_sd d \<and> my_sd d < 64 \<and> g ! nat (my_sd d) = Some q"
    using assms hload_bound [OF assms(2)] wf_descriptors_live [OF assms(1)]
    by (auto simp: heap_simps split: if_splits)
qed

lemma get_context_ok:
  assumes "wf_descriptors (global_ctx s) (ctxs s)" "0 \<le> sd" "sd < 64" "global_ctx s ! nat sd = Some p"
  shows "mysock_get_context sd s = Done (Some p) s" "ctx_of file line sd s = Done p s"
proof -
  have "nat sd < 64" using assms(3) by simp
  from wf_descriptors_entry [OF assms(1) this assms(4)] assms(2) obtain c where
    "hload (ctxs s) p = Some c" "my_sd c = sd" by auto
  then show "mysock_get_context sd s = Done (Some p) s" using assms
    by (simp add: mysock_get_context_def verify_mysocket_descriptor_def run_simps)
  then show "ctx_of file line sd s = Done p s" by (simp add: ctx_of_def run_simps)
qed

text \<open>A descriptor in use in a well-formed process, and its context.\<close>

definition open_socket :: "int \<Rightarrow> ptr \<Rightarrow> 'os sys \<Rightarrow> bool" where
  "open_socket sd p s \<longleftrightarrow> wf_sys s \<and> 0 \<le> sd \<and> sd < 64 \<and> global_ctx s ! nat sd = Some p"

lemma open_socketE:
  assumes "open_socket sd p s"
  obtains c i where "hload (ctxs s) p = Some c" "my_sd c = sd" "wf_ctx p c" "impl c = Some i" "sock_ctx i = p"
proof -
  from assms have wf: "wf_descriptors (global_ctx s) (ctxs s)" and sd: "0 \<le> sd" "sd < 64" "global_ctx s ! nat sd = Some p"
    by (simp_all add: open_socket_def wf_sys_def)
  have "nat sd < 64" using sd(2) by simp
  from wf_descriptors_entry [OF wf this sd(3)] sd(1) obtain c where
    c: "hload (ctxs s) p = Some c" "my_sd c = sd" "wf_ctx p c" by auto
  from c(3) obtain i where "impl c = Some i" "sock_ctx i = p" by (auto simp: wf_ctx_def)
  with c that show ?thesis by blast
qed

lemma open_socket_context:
  assumes "open_socket sd p s"
  shows "mysock_get_context sd s = Done (Some p) s" "ctx_of file line sd s = Done p s"
  using assms get_context_ok [of s sd p] by (simp_all add: open_socket_def wf_sys_def)

lemma open_socket_store:
  assumes "open_socket sd p s" "hload (ctxs s) n = Some c" "my_sd c' = my_sd c" "wf_ctx n c'"
  shows "open_socket sd p (s\<lparr>ctxs := hstore (ctxs s) n c'\<rparr>)"
  using assms wf_descriptors_store [of "global_ctx s" "ctxs s" n c c'] by (simp add: open_socket_def wf_sys_def)

lemma open_socket_os [simp]: "open_socket sd p (s\<lparr>os := w\<rparr>) = open_socket sd p s"
  by (simp add: open_socket_def wf_sys_def)

section \<open>Destroying a context\<close>

lemma free_queue_wf: "wf_queue q \<Longrightarrow> \<exists>r q'. mysock_free_queue q = Done r q'"
  using free_queue_run by blast

lemma close_if_run:
  "\<exists>w. (if b then modify (\<lambda>s. s\<lparr>os := f (os s)\<rparr>) else ret ()) s = Done () (s\<lparr>os := w\<rparr>)"
  by (cases b) (auto simp: run_simps intro: exI [of _ "os s"])

lemma destroy_context_socket_run: "\<exists>w. network_destroy_context_socket E i s = Done () (s\<lparr>os := w\<rparr>)"
proof -
  from close_if_run [of "socket i \<ge> 0" "os_close E (socket i)" s] obtain w1 where
    1: "(if socket i \<ge> 0 then modify (\<lambda>s. s\<lparr>os := os_close E (socket i) (os s)\<rparr>) else ret ()) s = Done () (s\<lparr>os := w1\<rparr>)" ..
  from close_if_run [of "exit_pipe_read i \<ge> 0" "os_close E (exit_pipe_read i)" "s\<lparr>os := w1\<rparr>"] obtain w2 where
    2: "(if exit_pipe_read i \<ge> 0 then modify (\<lambda>s. s\<lparr>os := os_close E (exit_pipe_read i) (os s)\<rparr>) else ret ()) (s\<lparr>os := w1\<rparr>)
      = Done () (s\<lparr>os := w2\<rparr>)" by auto
  show ?thesis
    using close_if_run [of "exit_pipe_write i \<ge> 0" "os_close E (exit_pipe_write i)" "s\<lparr>os := w2\<rparr>"]
    by (simp only: network_destroy_context_socket_def bind_run 1 2 outcome.case) auto
qed

lemma network_close_run:
  assumes "hload (ctxs s) p = Some c" "impl c = Some i" "\<not> connect_lock i"
  shows "\<exists>w. network_close E p s = Done () (s\<lparr>os := w, ctxs := hstore (ctxs s) p (upd_network (\<lambda>n. n\<lparr>impl_data := None\<rparr>) c)\<rparr>)"
proof -
  from close_if_run [of "new_socket i \<noteq> -1" "os_close E (new_socket i)" s] obtain w1 where
    1: "(if new_socket i \<noteq> -1 then modify (\<lambda>s. s\<lparr>os := os_close E (new_socket i) (os s)\<rparr>) else ret ()) s
      = Done () (s\<lparr>os := w1\<rparr>)" ..
  from destroy_context_socket_run [of E i "s\<lparr>os := w1\<rparr>"] obtain w2 where
    2: "network_destroy_context_socket E i (s\<lparr>os := w1\<rparr>) = Done () (s\<lparr>os := w2\<rparr>)" by auto
  have "network_close_socket E p (s\<lparr>os := w1\<rparr>)
      = Done () (s\<lparr>os := w2, ctxs := hstore (ctxs s) p (upd_network (\<lambda>n. n\<lparr>impl_data := None\<rparr>) c)\<rparr>)"
    using assms 2 by (simp add: network_close_socket_def run_simps)
  then have "network_close E p s
      = Done () (s\<lparr>os := w2, ctxs := hstore (ctxs s) p (upd_network (\<lambda>n. n\<lparr>impl_data := None\<rparr>) c)\<rparr>)"
    unfolding network_close_def using assms 1
    by (simp only: bind_run get_ctx_run the_or_run assert_at_run option.case outcome.case) simp
  then show ?thesis ..
qed

lemma free_context_run:
  assumes c: "hload (ctxs s) p = Some c" and wf: "wf_ctx p c" and sd: "0 \<le> my_sd c" "my_sd c < 64"
    and lock: "\<And>i. impl c = Some i \<Longrightarrow> \<not> connect_lock i"
  shows "\<exists>w. mysock_free_context E p s = Done () (s\<lparr>os := w,
      global_ctx := (if global_ctx s ! nat (my_sd c) = Some p then (global_ctx s)[nat (my_sd c) := None]
                     else global_ctx s),
      ctxs := hfree (ctxs s) p\<rparr>)"
proof -
  from wf have wq: "wf_queue (network_recv_queue c)" "wf_queue (app_recv_queue c)" "wf_queue (app_send_queue c)"
    by (simp_all add: wf_ctx_def)
  obtain i where i: "impl c = Some i" using wf by (auto simp: wf_ctx_def)
  from free_queue_wf [OF wq(1)] free_queue_wf [OF wq(2)] free_queue_wf [OF wq(3)] obtain r1 q1 r2 q2 r3 q3 where
    q: "mysock_free_queue (network_recv_queue c) = Done r1 q1" "mysock_free_queue (app_recv_queue c) = Done r2 q2"
      "mysock_free_queue (app_send_queue c) = Done r3 q3" by blast
  let ?c = "c\<lparr>network_recv_queue := q1, app_recv_queue := q2, app_send_queue := q3\<rparr>"
  let ?s = "s\<lparr>ctxs := hstore (ctxs s) p ?c\<rparr>"
  note b = hload_bound [OF c]
  have "hload (ctxs ?s) p = Some ?c" using b by (simp add: heap_simps)
  from network_close_run [OF this, of i E] i lock [OF i] obtain w where
    w: "network_close E p ?s = Done () (?s\<lparr>os := w, ctxs := hstore (ctxs ?s) p (upd_network (\<lambda>n. n\<lparr>impl_data := None\<rparr>) ?c)\<rparr>)"
    by auto
  have "mysock_free_context E p s = Done () (s\<lparr>os := w,
      global_ctx := (if global_ctx s ! nat (my_sd c) = Some p then (global_ctx s)[nat (my_sd c) := None]
                     else global_ctx s),
      ctxs := hfree (ctxs s) p\<rparr>)"
    using c q b sd w
    by (simp add: mysock_free_context_def run_simps heap_simps zoom_def
        on_network_recv_queue_def on_app_recv_queue_def on_app_send_queue_def upd_network_def)
  then show ?thesis ..
qed

lemma free_context_locked:
  assumes c: "hload (ctxs s) p = Some c" and wf: "wf_ctx p c" and "impl c = Some i" "connect_lock i"
  shows "mysock_free_context E p s = Abort (Assertion ''mysock_impl.h'' 30)"
proof -
  from wf have wq: "wf_queue (network_recv_queue c)" "wf_queue (app_recv_queue c)" "wf_queue (app_send_queue c)"
    by (simp_all add: wf_ctx_def)
  from free_queue_wf [OF wq(1)] free_queue_wf [OF wq(2)] free_queue_wf [OF wq(3)] obtain r1 q1 r2 q2 r3 q3 where
    "mysock_free_queue (network_recv_queue c) = Done r1 q1" "mysock_free_queue (app_recv_queue c) = Done r2 q2"
    "mysock_free_queue (app_send_queue c) = Done r3 q3" by metis
  with c hload_bound [OF c] assms(3,4) show ?thesis
    by (simp add: mysock_free_context_def network_close_def run_simps heap_simps zoom_def
        on_network_recv_queue_def on_app_recv_queue_def on_app_send_queue_def)
qed

text \<open>Updates of the network state that keep a context well-formed.\<close>

lemma wf_ctx_upd_impl: "wf_ctx p c \<Longrightarrow> (\<And>i. sock_ctx (f i) = sock_ctx i) \<Longrightarrow> wf_ctx p (upd_impl f c)"
  by (auto simp: wf_ctx_def upd_impl_def upd_network_def)

lemma wf_ctx_upd_network:
  assumes "wf_ctx p c" "\<And>n. impl_data (f n) = impl_data n" "\<And>n. copy_buffer (f n) = copy_buffer n"
    "\<And>n. copy_buf_len (f n) = copy_buf_len n"
  shows "wf_ctx p (upd_network f c)"
  using assms by (simp add: wf_ctx_def upd_network_def)

lemma wf_descriptors_free:
  assumes "wf_descriptors g h" "hload h p = Some c"
  shows "wf_descriptors (g[nat (my_sd c) := None]) (hfree h p)"
proof (rule wf_descriptorsI)
  note live = wf_descriptors_live [OF assms]
  show "length (g[nat (my_sd c) := None]) = 64" using wf_descriptors_length [OF assms(1)] by simp
  show "\<exists>d. hload (hfree h p) q = Some d \<and> my_sd d = int k"
    if "k < 64" "g[nat (my_sd c) := None] ! k = Some q" for k q
  proof -
    have g: "g ! k = Some q" "k \<noteq> nat (my_sd c)"
      using that wf_descriptors_length [OF assms(1)] by (cases "k = nat (my_sd c)"; simp)+
    with wf_descriptors_entry [OF assms(1) that(1)] obtain d where "hload h q = Some d" "my_sd d = int k" by blast
    then show ?thesis using g assms(2) by (auto simp: heap_simps)
  qed
  show "wf_ctx q d \<and> 0 \<le> my_sd d \<and> my_sd d < 64 \<and> g[nat (my_sd c) := None] ! nat (my_sd d) = Some q"
    if "hload (hfree h p) q = Some d" for q d
  proof -
    have d: "hload h q = Some d" "q \<noteq> p" using that by (auto simp: heap_simps split: if_splits)
    with wf_descriptors_live [OF assms(1) d(1)] live(4) have "nat (my_sd d) \<noteq> nat (my_sd c)" by auto
    then show ?thesis using wf_descriptors_live [OF assms(1) d(1)] by simp
  qed
qed

section \<open>Creating a context\<close>

text \<open>What the operating system must grant for a new context: a socket and a pipe.\<close>

definition os_grants :: "'os env \<Rightarrow> 'os \<Rightarrow> int \<Rightarrow> int \<Rightarrow> int \<Rightarrow> 'os \<Rightarrow> bool" where
  "os_grants E w fd r u w' \<longleftrightarrow> 0 \<le> fd \<and> (\<exists>w1. os_socket E w = (fd, w1) \<and> os_pipe E w1 = (Some (r, u), w'))"

definition fresh_impl :: "ptr \<Rightarrow> int \<Rightarrow> int \<Rightarrow> int \<Rightarrow> network_context_socket_tcp" where
  "fresh_impl p fd r u = \<lparr>recv_thread = 0, recv_thread_started = False, socket = fd, exit_pipe_read = r,
     exit_pipe_write = u, sock_ctx = p, new_socket = -1, connect_lock = False, connected = False\<rparr>"

definition fresh_context :: "ptr \<Rightarrow> int \<Rightarrow> int \<Rightarrow> int \<Rightarrow> bool \<Rightarrow> int \<Rightarrow> mysock_context" where
  "fresh_context p fd r u reliable k = zero_context\<lparr>listen_sd := -1, blocking := True, my_sd := k,
     network_state := zero_network_context\<lparr>random_seed := 0x632a, is_reliable := reliable,
       impl_data := Some (fresh_impl p fd r u)\<rparr>\<rparr>"

lemma fresh_context_fields [simp]:
  "my_sd (fresh_context p fd r u reliable k) = k" "impl (fresh_context p fd r u reliable k) = Some (fresh_impl p fd r u)"
  "\<not> listening (fresh_context p fd r u reliable k)" "\<not> close_requested (fresh_context p fd r u reliable k)"
  "\<not> eof (fresh_context p fd r u reliable k)" "\<not> transport_thread_started (fresh_context p fd r u reliable k)"
  "blocking (fresh_context p fd r u reliable k)" "\<not> is_active (fresh_context p fd r u reliable k)"
  "network_recv_queue (fresh_context p fd r u reliable k) = empty_queue"
  "app_recv_queue (fresh_context p fd r u reliable k) = empty_queue"
  "app_send_queue (fresh_context p fd r u reliable k) = empty_queue"
  by (simp_all add: fresh_context_def zero_context_def)

lemma wf_fresh_context [simp]: "wf_ctx p (fresh_context p fd r u reliable k)"
  by (simp add: wf_ctx_def fresh_context_def fresh_impl_def zero_context_def zero_network_context_def)

lemma fresh_context_upd [simp]:
  "upd_network (\<lambda>n. n\<lparr>is_reliable := b\<rparr>) (fresh_context p fd r u reliable k) = fresh_context p fd r u b k"
  "(fresh_context p fd r u reliable k)\<lparr>my_sd := j\<rparr> = fresh_context p fd r u reliable j"
  by (simp_all add: fresh_context_def upd_network_def zero_context_def zero_network_context_def)

lemma allocate_context_run:
  assumes "os_grants E (os s) fd r u w'"
  shows "mysock_allocate_context E s = Done (length (ctxs s))
     (s\<lparr>os := w', ctxs := ctxs s @ [Some (fresh_context (length (ctxs s)) fd r u False 0)]\<rparr>)"
proof -
  from assms obtain w1 where "0 \<le> fd" "os_socket E (os s) = (fd, w1)" "os_pipe E w1 = (Some (r, u), w')"
    by (auto simp: os_grants_def)
  then show ?thesis
    by (simp add: mysock_allocate_context_def network_init_def network_init_socket_def
        network_alloc_context_socket_def run_simps heap_simps hstore_def upd_impl_def upd_network_def
        fresh_context_def fresh_impl_def zero_context_def zero_network_context_def)
qed

lemma free_slot_Some:
  "free_slot g k = Some j \<Longrightarrow> \<exists>i < length g. j = k + i \<and> g ! i = None \<and> (\<forall>m < i. g ! m \<noteq> None)"
proof (induction g arbitrary: k)
  case (Cons x g)
  show ?case
  proof (cases "x = None")
    case False
    with Cons.prems have "free_slot g (Suc k) = Some j" by simp
    from Cons.IH [OF this] obtain i where "i < length g" "j = Suc k + i" "g ! i = None" "\<forall>m < i. g ! m \<noteq> None"
      by blast
    with False show ?thesis by (intro exI [of _ "Suc i"]) (auto simp: nth_Cons split: nat.splits)
  qed (use Cons.prems in auto)
qed simp

lemma free_slot_None: "free_slot g k = None \<longleftrightarrow> (\<forall>x \<in> set g. x \<noteq> None)"
  by (induction g arbitrary: k) auto

lemma wf_descriptors_new:
  assumes "wf_descriptors g h" "k < 64" "g ! k = None" "wf_ctx (length h) c" "my_sd c = int k"
  shows "wf_descriptors (g[k := Some (length h)]) (h @ [Some c])"
proof (rule wf_descriptorsI)
  note len = wf_descriptors_length [OF assms(1)]
  show "length (g[k := Some (length h)]) = 64" using len by simp
  show "\<exists>d. hload (h @ [Some c]) q = Some d \<and> my_sd d = int j"
    if "j < 64" "g[k := Some (length h)] ! j = Some q" for j q
  proof (cases "j = k")
    case True
    with that assms(2,5) len show ?thesis by (auto simp: heap_simps)
  next
    case False
    with that have "g ! j = Some q" by simp
    from wf_descriptors_entry [OF assms(1) that(1) this] obtain d where "hload h q = Some d" "my_sd d = int j" by blast
    then show ?thesis using hload_bound [of h q d] by (auto simp: heap_simps)
  qed
  show "wf_ctx q d \<and> 0 \<le> my_sd d \<and> my_sd d < 64 \<and> g[k := Some (length h)] ! nat (my_sd d) = Some q"
    if "hload (h @ [Some c]) q = Some d" for q d
  proof (cases "q = length h")
    case True
    with that assms(2,4,5) len show ?thesis by (auto simp: heap_simps)
  next
    case False
    with that have "hload h q = Some d" by (simp add: heap_simps)
    note live = wf_descriptors_live [OF assms(1) this]
    with assms(3) have "nat (my_sd d) \<noteq> k" by auto
    with live show ?thesis by simp
  qed
qed

text \<open>A new descriptor beside those in use.\<close>

lemma open_socket_new:
  fixes s :: "'os sys" and w :: 'os
  assumes "wf_sys s" "free_slot (global_ctx s) 0 = Some k" "wf_ctx (length (ctxs s)) c" "my_sd c = int k"
  defines "s' \<equiv> s\<lparr>os := w, global_ctx := (global_ctx s)[k := Some (length (ctxs s))], ctxs := ctxs s @ [Some c]\<rparr>"
  shows "open_socket (int k) (length (ctxs s)) s'" and "open_socket sd p s \<Longrightarrow> open_socket sd p s'"
proof -
  from assms(1) have wf: "wf_descriptors (global_ctx s) (ctxs s)" by (simp add: wf_sys_def)
  from free_slot_Some [OF assms(2)] wf_descriptors_length [OF wf] have k: "k < 64" "global_ctx s ! k = None" by auto
  have wf': "wf_sys s'"
    using assms(1) wf_descriptors_new [OF wf k assms(3,4)] by (simp add: wf_sys_def s'_def)
  then show "open_socket (int k) (length (ctxs s)) s'"
    using k wf_descriptors_length [OF wf] by (simp add: open_socket_def s'_def)
  assume o: "open_socket sd p s"
  then have "nat sd \<noteq> k" using k(2) by (auto simp: open_socket_def)
  with o wf' show "open_socket sd p s'" by (simp add: open_socket_def s'_def)
qed

lemma new_mysocket_free:
  assumes "os_grants E (os s) fd r u w'" "free_slot (global_ctx s) 0 = Some k"
  shows "mysock_new_mysocket E reliable s = Done (Inr (int k))
     (s\<lparr>os := w', global_ctx := (global_ctx s)[k := Some (length (ctxs s))],
        ctxs := ctxs s @ [Some (fresh_context (length (ctxs s)) fd r u reliable (int k))]\<rparr>)"
  using assms(2)
  by (simp add: mysock_new_mysocket_def run_simps allocate_context_run [OF assms(1)] heap_simps hstore_def)

lemma new_mysocket_full:
  assumes "os_grants E (os s) fd r u w'" "free_slot (global_ctx s) 0 = None"
    "wf_descriptors (global_ctx s) (ctxs s)"
  shows "\<exists>w. mysock_new_mysocket E reliable s = Done (Inl EMFILE) (s\<lparr>os := w, ctxs := ctxs s @ [None]\<rparr>)"
proof -
  let ?p = "length (ctxs s)"
  let ?c = "fresh_context ?p fd r u reliable 0"
  let ?s = "s\<lparr>os := w', ctxs := ctxs s @ [Some ?c]\<rparr>"
  have g: "global_ctx s ! 0 \<noteq> Some ?p"
    using wf_descriptors_entry [OF assms(3), of 0 ?p] hload_bound [of "ctxs s" ?p] by fastforce
  have "my_sd ?c = 0" "hload (ctxs ?s) ?p = Some ?c" "connect_lock (fresh_impl ?p fd r u) = False"
    "impl ?c = Some (fresh_impl ?p fd r u)"
    by (simp_all add: fresh_context_def heap_simps fresh_impl_def)
  with free_context_run [of ?s ?p ?c E] obtain w where
    w: "mysock_free_context E ?p ?s = Done () (?s\<lparr>os := w, global_ctx := global_ctx s, ctxs := hfree (ctxs ?s) ?p\<rparr>)"
    using g by auto
  have "mysock_new_mysocket E reliable s = Done (Inl EMFILE) (s\<lparr>os := w, ctxs := ctxs s @ [None]\<rparr>)"
    using assms(2) w
    by (simp add: mysock_new_mysocket_def run_simps allocate_context_run [OF assms(1)] heap_simps hstore_def
        hfree_def)
  then show ?thesis ..
qed

lemma release_context:
  assumes "wf_sys s" and "hload (ctxs s) p = Some c" and "impl c = Some i" and "\<not> connect_lock i"
  shows "\<exists>s'. mysock_free_context E p s = Done () s' \<and> wf_sys s' \<and> hload (ctxs s') p = None
    \<and> global_ctx s' = (global_ctx s)[nat (my_sd c) := None]
    \<and> (\<forall>q. q \<noteq> p \<longrightarrow> hload (ctxs s') q = hload (ctxs s) q)
    \<and> threads s' = threads s \<and> listen_table s' = listen_table s"
proof -
  from assms(1) have wf: "wf_descriptors (global_ctx s) (ctxs s)" by (simp add: wf_sys_def)
  note live = wf_descriptors_live [OF wf assms(2)]
  from free_context_run [OF assms(2) live(1-3), of E] assms(3,4) live(4) obtain w where
    "mysock_free_context E p s = Done () (s\<lparr>os := w, global_ctx := (global_ctx s)[nat (my_sd c) := None],
      ctxs := hfree (ctxs s) p\<rparr>)" by auto
  then show ?thesis using assms(1) wf_descriptors_free [OF wf assms(2)]
    by (simp add: wf_sys_def heap_simps)
qed

section \<open>Properties\<close>

text \<open>C29: \<open>_mysock_new_mysocket\<close> from a well-formed process in which the system grants a socket
  and a pipe: it returns the lowest free descriptor and enters a fresh, blocking, unbound
  context of the requested reliability there, leaving every other context as it was. It fails
  with EMFILE exactly when all 64 descriptors are in use; then neither the descriptor table nor
  any context changes (the temporary context is released, and descriptor 0, which its my_sd
  names, stays). Either way the process stays well-formed.\<close>

theorem new_mysocket_lowest_free_descriptor:
  assumes "wf_sys s" and "os_grants E (os s) fd r u w'"
  shows "case mysock_new_mysocket E reliable s of
      Done (Inr k) s' \<Rightarrow>
        (\<exists>j < 64. k = int j \<and> global_ctx s ! j = None \<and> (\<forall>i < j. global_ctx s ! i \<noteq> None)
          \<and> global_ctx s' = (global_ctx s)[j := Some (length (ctxs s))])
        \<and> hload (ctxs s') (length (ctxs s)) = Some (fresh_context (length (ctxs s)) fd r u reliable k)
        \<and> (\<forall>q. q \<noteq> length (ctxs s) \<longrightarrow> hload (ctxs s') q = hload (ctxs s) q) \<and> wf_sys s'
    | Done (Inl e) s' \<Rightarrow> e = EMFILE \<and> (\<forall>j < 64. global_ctx s ! j \<noteq> None)
        \<and> global_ctx s' = global_ctx s \<and> (\<forall>q. hload (ctxs s') q = hload (ctxs s) q) \<and> wf_sys s'
    | _ \<Rightarrow> False"
proof (cases "free_slot (global_ctx s) 0")
  case None
  from assms(1) have wf: "wf_descriptors (global_ctx s) (ctxs s)" by (simp add: wf_sys_def)
  from new_mysocket_full [OF assms(2) None wf, of reliable] obtain w where
    run: "mysock_new_mysocket E reliable s = Done (Inl EMFILE) (s\<lparr>os := w, ctxs := ctxs s @ [None]\<rparr>)" ..
  have same: "hload (ctxs s @ [None]) q = hload (ctxs s) q" for q by (simp add: hload_def nth_append)
  have "wf_descriptors (global_ctx s) (ctxs s @ [None])"
  proof (rule wf_descriptorsI, unfold same)
    show "length (global_ctx s) = 64" by (rule wf_descriptors_length [OF wf])
  qed (use wf_descriptors_entry [OF wf] wf_descriptors_live [OF wf] in blast)+
  moreover have "\<forall>j < 64. global_ctx s ! j \<noteq> None"
    using None wf_descriptors_length [OF wf] by (auto simp: free_slot_None)
  ultimately show ?thesis using run assms(1) by (simp add: same wf_sys_def)
next
  case (Some k)
  from assms(1) have wf: "wf_descriptors (global_ctx s) (ctxs s)" by (simp add: wf_sys_def)
  from free_slot_Some [OF Some] wf_descriptors_length [OF wf] have
    k: "k < 64" "global_ctx s ! k = None" "\<forall>i < k. global_ctx s ! i \<noteq> None" by auto
  have "my_sd (fresh_context p fd r u reliable (int k)) = int k" for p by (simp add: fresh_context_def)
  with wf_descriptors_new [OF wf k(1,2) wf_fresh_context] have
    "wf_descriptors ((global_ctx s)[k := Some (length (ctxs s))])
      (ctxs s @ [Some (fresh_context (length (ctxs s)) fd r u reliable (int k))])" by blast
  then show ?thesis using new_mysocket_free [OF assms(2) Some, of reliable] k assms(1)
    by (auto simp: wf_sys_def heap_simps)
qed

text \<open>An operating system for the witnesses: every call succeeds, descriptors count upwards.\<close>

definition sample_env :: "nat env" where
  "sample_env = \<lparr>host_order = Little, os_socket = (\<lambda>n. (int n, Suc n)),
     os_pipe = (\<lambda>n. (Some (int n, int (Suc n)), n + 2)), os_close = (\<lambda>_ n. n),
     os_bind = (\<lambda>_ _ _ n. (None, n)), os_listen = (\<lambda>_ _ n. (None, n)),
     os_getsockname = (\<lambda>_ _. Some (zero_sockaddr\<lparr>sa_family := 2, sin_port := 0x901f\<rparr>)),
     os_connect = (\<lambda>_ _ n. (None, n)), os_accept = (\<lambda>_ n. (None, n)),
     os_read = (\<lambda>_ _ n. ((0, []), n)), os_write = (\<lambda>_ bs n. (int (length bs), n)),
     os_poll = (\<lambda>_ _ n. (Poll_ready 1 0, n)), os_ignore_sigpipe = (\<lambda>n. (True, n)), os_gethostname = (\<lambda>_. Some ''host''),
     os_gethostbyname = (\<lambda>_ _. Some 0x0100007f), lib_rand_r = (\<lambda>seed. (unat seed, seed + 1))\<rparr>"

lemma sample_env_grants: "os_grants sample_env n (int n) (int (Suc n)) (int (Suc (Suc n))) (n + 3)"
  by (simp add: os_grants_def sample_env_def)

theorem new_mysocket_lowest_free_descriptor_witness:
  "\<exists>s'. mysock_new_mysocket sample_env True (init_sys 3) = Done (Inr 0) s' \<and> wf_sys s'"
proof -
  have g: "os_grants sample_env (os (init_sys 3)) 3 4 5 6"
    using sample_env_grants [of 3] by (simp add: init_sys_def)
  have "free_slot (global_ctx (init_sys 3)) 0 = Some 0" by (simp add: init_sys_def replicate_64)
  from new_mysocket_free [OF g this, of True]
    new_mysocket_lowest_free_descriptor [OF wf_init_sys g, of True] show ?thesis by auto
qed

abbreviation sample_context :: mysock_context where
  "sample_context \<equiv> fresh_context 0 3 4 5 True 0"

abbreviation sample_sys :: "nat sys" where
  "sample_sys \<equiv> \<lparr>ctxs = [Some sample_context], global_ctx = Some 0 # replicate 63 None,
     listen_table = hash_empty 64, threads = [], os = 6\<rparr>"

lemma sample_sys_wf [simp]: "wf_sys sample_sys"
proof -
  have "my_sd sample_context = int 0" by (simp add: fresh_context_def)
  then have "wf_descriptors (Some 0 # replicate 63 None) [Some sample_context]"
    using wf_descriptors_new [OF wf_descriptors_empty, of 0 sample_context] by (simp add: replicate_64)
  then show ?thesis by (simp add: wf_sys_def)
qed

lemma sample_open [simp]: "open_socket 0 0 sample_sys" and sample_load: "hload [Some c] 0 = Some c"
  by (simp_all add: open_socket_def hload_def)

text \<open>In a well-formed process \<open>_mysock_get_context\<close> returns the context of every descriptor in
  use, and ends the process on every other number, so that no caller ever sees NULL: the EBADF
  checks behind it cannot fail.\<close>

lemma get_context_never_null:
  assumes "wf_sys s"
  shows "case mysock_get_context sd s of
      Done x s' \<Rightarrow> s' = s \<and> 0 \<le> sd \<and> sd < 64 \<and> (\<exists>p c. x = Some p \<and> global_ctx s ! nat sd = Some p
        \<and> hload (ctxs s) p = Some c \<and> my_sd c = sd)
    | Blocked _ \<Rightarrow> False
    | Abort f \<Rightarrow> if 0 \<le> sd \<and> sd < 64 then global_ctx s ! nat sd = None \<and> f = Assertion ''mysock.c'' 408
        else f = Assertion ''mysock.c'' 405"
proof (cases "0 \<le> sd \<and> sd < 64")
  case False
  then show ?thesis by (auto simp: mysock_get_context_def verify_mysocket_descriptor_def run_simps)
next
  case True
  from assms have wf: "wf_descriptors (global_ctx s) (ctxs s)" by (simp add: wf_sys_def)
  show ?thesis
  proof (cases "global_ctx s ! nat sd")
    case None
    with True show ?thesis by (simp add: mysock_get_context_def verify_mysocket_descriptor_def run_simps)
  next
    case (Some p)
    from True have "nat sd < 64" by linarith
    from wf_descriptors_entry [OF wf this Some] True obtain c where "hload (ctxs s) p = Some c" "my_sd c = sd"
      by auto
    with get_context_ok(1) [OF wf _ _ Some] True Some show ?thesis by simp
  qed
qed

end
