(* ===== verification/Tcp_Checksum.thy ===== *)
theory Tcp_Checksum
  imports Stcp_Prelude
begin

unbundle bit_operations_syntax

text \<open>
  The TCP header of transport.h as bytes in memory, and the checksum of tcp_sum.c. The
  checksum is modelled at its widths (a signed 32 bit accumulator of 16 bit words, read in the
  host's byte order) and compared with the end-around-carry sum of RFC 1071 over unbounded
  numbers. The lemmas of this theory are arithmetic on lists of bytes; the functions that take
  a socket context are in Stcp_Api.
\<close>

section \<open>Fields of the header\<close>

definition load16_at :: "endian \<Rightarrow> byte list \<Rightarrow> nat \<Rightarrow> 16 word" where
  "load16_at host bs i = load16 host (bs ! i) (bs ! Suc i)"

definition store16_at :: "endian \<Rightarrow> byte list \<Rightarrow> nat \<Rightarrow> 16 word \<Rightarrow> byte list" where
  "store16_at host bs i w = bs[i := store16 host w ! 0, Suc i := store16 host w ! 1]"

text \<open>sizeof(struct tcphdr) and the offsets of the fields the code reads and writes.\<close>

abbreviation (input) sizeof_tcphdr :: nat where "sizeof_tcphdr \<equiv> 20"
abbreviation (input) off_th_sport :: nat where "off_th_sport \<equiv> 0"
abbreviation (input) off_th_dport :: nat where "off_th_dport \<equiv> 2"
abbreviation (input) off_th_off :: nat where "off_th_off \<equiv> 12"
abbreviation (input) off_th_flags :: nat where "off_th_flags \<equiv> 13"
abbreviation (input) off_th_sum :: nat where "off_th_sum \<equiv> 16"
abbreviation (input) off_th_urp :: nat where "off_th_urp \<equiv> 18"

section \<open>The checksum\<close>

definition pseudo_header :: "endian \<Rightarrow> 32 word \<Rightarrow> 32 word \<Rightarrow> nat \<Rightarrow> byte list" where
  "pseudo_header host src_addr dst_addr len =
     store32 host src_addr @ store32 host dst_addr @ [0, 6] @ store16 host (htons host (of_nat len))"

text \<open>The three summation steps, then the fold to 16 bits and the complement.\<close>

definition checksum_sum :: "endian \<Rightarrow> 32 word \<Rightarrow> 32 word \<Rightarrow> byte list \<Rightarrow> nat \<Rightarrow> 32 word" where
  "checksum_sum host src_addr dst_addr packet len =
     (let hdr = pseudo_header host src_addr dst_addr len;
          sum0 = fold (\<lambda>k sum. sum + ucast (load16_at host hdr (2 * k))) [0..<6] 0;
          sum1 = fold (\<lambda>k sum. if k = off_th_sum div 2 then sum
                               else sum + ucast (load16_at host packet (2 * k))) [0..<len div 2] sum0
      in if odd len then sum1 + ucast (load16 host (packet ! (len - 1)) 0) else sum1)"

definition fold_sum :: "32 word \<Rightarrow> 16 word" where
  "fold_sum s =
     (let sum1 = signed_drop_bit 16 s + (s AND 0xffff);
          sum2 = sum1 + signed_drop_bit 16 sum1
      in ucast (NOT sum2))"

text \<open>
  \<open>addr\<close> is the address of the packet in memory, which the source tests with a mask of 2.
\<close>

definition mysock_tcp_checksum ::
    "endian \<Rightarrow> 32 word \<Rightarrow> 32 word \<Rightarrow> 64 word \<Rightarrow> byte list \<Rightarrow> nat \<Rightarrow> ('s, 16 word) prog" where
  "mysock_tcp_checksum host src_addr dst_addr addr packet len =
     bind (assert_at ''tcp_sum.c'' 34 (len \<ge> sizeof_tcphdr)) (\<lambda>_.
     bind (assert_at ''tcp_sum.c'' 38 (src_addr > 0)) (\<lambda>_.
     bind (assert_at ''tcp_sum.c'' 39 (dst_addr > 0)) (\<lambda>_.
     bind (assert_at ''tcp_sum.c'' 46 (addr AND 2 = 0)) (\<lambda>_.
     if length packet < len then abort (Out_of_bounds ''tcp_sum.c'' 52)
     else ret (fold_sum (checksum_sum host src_addr dst_addr packet len))))))"

section \<open>RFC 1071\<close>

text \<open>
  The reference: the one's complement sum of the 16 bit words of a byte string, an odd last
  byte padded with zero, each addition returning the carry to the low end.
\<close>

fun words16 :: "endian \<Rightarrow> byte list \<Rightarrow> 16 word list" where
  "words16 host [] = []"
| "words16 host [a] = [load16 host a 0]"
| "words16 host (a # b # bs) = load16 host a b # words16 host bs"

definition oc_add :: "nat \<Rightarrow> nat \<Rightarrow> nat" where
  "oc_add a b = (let s = a + b in s mod 65536 + s div 65536)"

definition rfc1071 :: "16 word list \<Rightarrow> nat" where
  "rfc1071 ws = 65535 - fold oc_add (map unat ws) 0"

definition zero_sum_field :: "byte list \<Rightarrow> byte list" where
  "zero_sum_field packet = packet[off_th_sum := 0, Suc off_th_sum := 0]"

text \<open>The byte string a segment's checksum covers.\<close>

definition covered :: "endian \<Rightarrow> 32 word \<Rightarrow> 32 word \<Rightarrow> byte list \<Rightarrow> nat \<Rightarrow> byte list" where
  "covered host src_addr dst_addr packet len =
     pseudo_header host src_addr dst_addr len @ take len (zero_sum_field packet)"

subsection \<open>Words and bytes\<close>

lemma unat_load16: "unat (load16 host a b) =
    (case host of Little \<Rightarrow> unat a + 256 * unat b | Big \<Rightarrow> 256 * unat a + unat b)"
proof -
  have u: "unat (ucast x :: 16 word) = unat x" for x :: byte
    by (simp add: unsigned_ucast_eq, rule take_bit_nat_eq_self) (rule less_trans [OF unat_byte_less], simp)
  have m: "unat (256 * ucast x :: 16 word) = 256 * unat x" for x :: byte
    unfolding unat_word_ariths(2) u using unat_byte_less [of x] by simp
  have "256 * unat a + unat b < 65536" "unat a + 256 * unat b < 65536"
    using unat_byte_less [of a] unat_byte_less [of b] by linarith+
  then show ?thesis
    by (cases host) (simp_all add: unat_word_ariths(1) u m)
qed

lemma words16_append: "even (length xs) \<Longrightarrow> words16 host (xs @ ys) = words16 host xs @ words16 host ys"
  by (induction host xs rule: words16.induct) auto

lemma length_words16_le: "length (words16 host bs) \<le> Suc (length bs) div 2"
  by (induction host bs rule: words16.induct) auto

lemma length_pseudo_header [simp]: "length (pseudo_header host s d n) = 12"
  by (cases host) (simp_all add: pseudo_header_def)

lemma length_zero_sum_field [simp]: "length (zero_sum_field p) = length p"
  by (simp add: zero_sum_field_def)

subsection \<open>The end-around carry sum\<close>

text \<open>\<open>oc_norm n\<close> is the value of the end-around carry sum of words that add up to \<open>n\<close>.\<close>

definition oc_norm :: "nat \<Rightarrow> nat" where
  "oc_norm n = (if n = 0 then 0 else (n - 1) mod 65535 + 1)"

lemma mod_pred:
  assumes "0 < (n::nat)" "1 < m"
  shows "(n - 1) mod m = (if n mod m = 0 then m - 1 else n mod m - 1)"
proof -
  obtain k where k: "n = Suc k" using assms(1) by (cases n) auto
  have "k mod m < m" using assms(2) by simp
  then show ?thesis using assms(2) by (auto simp: k mod_Suc)
qed

lemma oc_norm_unique:
  assumes "x mod 65535 = n mod 65535" "x \<le> 65535" "x = 0 \<longleftrightarrow> n = 0"
  shows "x = oc_norm n"
proof (cases "n = 0")
  case False
  then have "0 < n" "0 < x" using assms by auto
  then have "(n - 1) mod 65535 = (x - 1) mod 65535"
    using assms(1) mod_pred [of n 65535] mod_pred [of x 65535] by auto
  then show ?thesis using \<open>0 < x\<close> False assms(2) by (simp add: oc_norm_def)
qed (use assms in \<open>simp add: oc_norm_def\<close>)

lemma oc_norm_le: "oc_norm n \<le> 65535"
proof -
  have "(n - 1) mod 65535 < 65535" by (rule mod_less_divisor) simp
  then show ?thesis by (simp only: oc_norm_def split: if_split) linarith
qed

lemma oc_norm_mod: "oc_norm n mod 65535 = n mod 65535"
  by (cases n) (simp_all add: oc_norm_def mod_Suc_eq)

lemma oc_norm_0: "oc_norm n = 0 \<longleftrightarrow> n = 0"
  by (simp add: oc_norm_def)

lemma carry_mod: "(s mod 65536 + s div 65536) mod 65535 = s mod (65535::nat)"
proof -
  have "s mod 65535 = (s mod 65536 + 65536 * (s div 65536)) mod 65535"
    by (simp only: mod_mult_div_eq)
  also have "\<dots> = (s mod 65536 + s div 65536 + 65535 * (s div 65536)) mod 65535"
    by (simp add: algebra_simps)
  finally show ?thesis by (simp only: mod_mult_self2)
qed

lemma carry_le: "s \<le> 131070 \<Longrightarrow> s mod 65536 + s div 65536 \<le> (65535::nat)"
  by (cases "s < 65536") (simp_all add: le_mod_geq le_div_geq)

lemma carry_again: "u \<le> 98302 \<Longrightarrow> (u + u div 65536) mod 65536 = u mod 65536 + u div (65536::nat)"
  by (cases "u < 65536") (simp_all add: le_mod_geq le_div_geq)

lemma carry_0: "s mod 65536 + s div 65536 = 0 \<longleftrightarrow> s = (0::nat)"
  using mod_mult_div_eq [of s 65536] by auto

lemma oc_add_norm:
  assumes "b < 65536"
  shows "oc_add (oc_norm n) b = oc_norm (n + b)"
proof (rule oc_norm_unique)
  have le: "oc_norm n \<le> 65535" by (rule oc_norm_le)
  show "oc_add (oc_norm n) b mod 65535 = (n + b) mod 65535"
    unfolding oc_add_def Let_def carry_mod by (metis mod_add_left_eq oc_norm_mod)
  show "oc_add (oc_norm n) b \<le> 65535"
    using le assms unfolding oc_add_def Let_def by (intro carry_le) linarith
  have "oc_add (oc_norm n) b = 0 \<longleftrightarrow> oc_norm n + b = 0"
    unfolding oc_add_def Let_def by (rule carry_0)
  then show "oc_add (oc_norm n) b = 0 \<longleftrightarrow> n + b = 0" by (simp add: oc_norm_0)
qed

lemma fold_oc_add: "fold oc_add (map unat ws) (oc_norm n) = oc_norm (n + sum_list (map unat ws))"
  for ws :: "16 word list"
proof (induction ws arbitrary: n)
  case (Cons w ws)
  have "oc_add (unat w) (oc_norm n) = oc_norm (n + unat w)"
    using oc_add_norm [OF unat_half_less, of n w] by (simp add: oc_add_def add.commute)
  then show ?case using Cons [of "n + unat w"] by (simp add: add.assoc)
qed simp

lemma rfc1071_eq: "rfc1071 ws = 65535 - oc_norm (sum_list (map unat ws))"
  using fold_oc_add [of ws 0] by (simp add: rfc1071_def oc_norm_def)

lemma sum_list_unat16: "sum_list (map unat ws) \<le> 65535 * length (ws :: 16 word list)"
proof (induction ws)
  case (Cons w ws)
  have "unat w \<le> 65535" using unat_half_less [of w] by linarith
  with Cons show ?case by simp
qed simp

subsection \<open>The accumulator\<close>

lemma fold_words16:
  "2 * n \<le> length bs \<Longrightarrow>
   fold (\<lambda>k s. s + ucast (load16_at host bs (2 * k))) [0..<n] z
     = z + sum_list (map ucast (words16 host (take (2 * n) bs)))"
proof (induction n)
  case (Suc n)
  have "take (2 * Suc n) bs = take (2 * n) bs @ [bs ! (2 * n), bs ! Suc (2 * n)]"
    using Suc.prems by (simp add: take_Suc_conv_app_nth)
  moreover have "even (length (take (2 * n) bs))" using Suc.prems by simp
  ultimately have "words16 host (take (2 * Suc n) bs)
      = words16 host (take (2 * n) bs) @ [load16_at host bs (2 * n)]"
    by (simp add: words16_append load16_at_def)
  with Suc show ?case by (simp add: add.assoc)
qed simp

lemma load16_at_zero_sum_field:
  assumes "20 \<le> length packet"
  shows "load16_at host (zero_sum_field packet) (2 * k) = (if k = 8 then 0 else load16_at host packet (2 * k))"
proof -
  have "load16 host 0 0 = 0" by (cases host) simp_all
  moreover have "2 * k \<noteq> 17" "Suc (2 * k) \<noteq> 16" by presburger+
  ultimately show ?thesis using assms
    by (auto simp: load16_at_def zero_sum_field_def nth_list_update)
qed

lemma fold_skip:
  assumes "20 \<le> length packet"
  shows "fold (\<lambda>k s. if k = off_th_sum div 2 then s else s + ucast (load16_at host packet (2 * k))) ks z
    = fold (\<lambda>k s. s + ucast (load16_at host (zero_sum_field packet) (2 * k))) ks (z :: 32 word)"
  using assms by (intro fold_cong) (auto simp: load16_at_zero_sum_field)

lemma odd_tail:
  "odd len \<Longrightarrow> len \<le> length bs \<Longrightarrow>
   words16 host (take len bs) = words16 host (take (2 * (len div 2)) bs) @ [load16 host (bs ! (len - 1)) 0]"
proof -
  assume "odd len" "len \<le> length bs"
  then obtain m where m: "len = Suc (2 * m)" "2 * m < length bs" by (auto elim: oddE)
  then have "take len bs = take (2 * m) bs @ [bs ! (2 * m)]"
    by (simp add: take_Suc_conv_app_nth)
  moreover have "even (length (take (2 * m) bs))" using m by simp
  ultimately show ?thesis using m by (simp add: words16_append)
qed

lemma checksum_sum_words:
  assumes "20 \<le> len" "len \<le> length packet"
  shows "checksum_sum host src dst packet len = sum_list (map ucast (words16 host (covered host src dst packet len)))"
proof -
  let ?h = "pseudo_header host src dst len" and ?z = "zero_sum_field packet"
  have "fold (\<lambda>k sum. sum + ucast (load16_at host ?h (2 * k))) [0..<6] 0
      = sum_list (map ucast (words16 host (take 12 ?h)))"
    using fold_words16 [of 6 ?h host 0] by simp
  then have s0: "fold (\<lambda>k sum. sum + ucast (load16_at host ?h (2 * k))) [0..<6] 0
      = sum_list (map ucast (words16 host ?h))"
    by simp
  have app: "words16 host (covered host src dst packet len) = words16 host ?h @ words16 host (take len ?z)"
    by (simp add: covered_def words16_append)
  have last: "packet ! (len - 1) = ?z ! (len - 1)"
    using assms by (simp add: zero_sum_field_def)
  have s1: "fold (\<lambda>k s. if k = off_th_sum div 2 then s else s + ucast (load16_at host packet (2 * k)))
        [0..<len div 2] x = x + sum_list (map ucast (words16 host (take (2 * (len div 2)) ?z)))"
    for x :: "32 word"
    using assms fold_words16 [of "len div 2" ?z host x] by (subst fold_skip) simp_all
  have sum: "checksum_sum host src dst packet len
      = sum_list (map ucast (words16 host ?h)) + sum_list (map ucast (words16 host (take (2 * (len div 2)) ?z)))
        + (if odd len then ucast (load16 host (?z ! (len - 1)) 0) else 0)"
    unfolding checksum_sum_def Let_def s0 s1 last by simp
  show ?thesis
  proof (cases "odd len")
    case True
    show ?thesis unfolding sum app using True assms odd_tail [OF True, of ?z host] by (simp add: add.assoc)
  next
    case False
    then show ?thesis unfolding sum app by simp
  qed
qed

lemma bit31: "unat (s :: 32 word) < 2147483648 \<Longrightarrow> \<not> bit s 31"
proof -
  assume "unat s < 2147483648"
  then have "unat s div 2 ^ 31 = 0" by simp
  then have "\<not> bit (unat s) 31" by (simp only: bit_iff_odd) simp
  then show ?thesis by (simp add: bit_unsigned_iff)
qed

lemma arithmetic_shift: "unat (s :: 32 word) < 2147483648 \<Longrightarrow> signed_drop_bit 16 s = drop_bit 16 s"
proof (rule bit_word_eqI)
  fix n assume "unat s < 2147483648" "n < LENGTH(32)"
  then show "bit (signed_drop_bit 16 s) n = bit (drop_bit 16 s) n"
    using bit31 [of s] bit_imp_le_length [of s "16 + n"] by (auto simp: bit_signed_drop_bit_iff bit_drop_bit_eq)
qed

lemma unat_low16: "unat ((s :: 32 word) AND 0xffff) = unat s mod 65536"
proof -
  have "s AND 0xffff = take_bit 16 s" by (simp add: take_bit_eq_mask mask_eq_exp_minus_1)
  then have "unat (s AND 0xffff) = take_bit 16 (unat s)" by (simp only: unsigned_take_bit_eq)
  then show ?thesis by (simp add: take_bit_eq_mod)
qed

lemma unat_high16: "unat (drop_bit 16 (s :: 32 word)) = unat s div 65536"
  using unat_drop_bit_eq [of 16 s] by (simp only: drop_bit_eq_div) simp

lemma unat_not_low16: "unat (ucast (NOT (s :: 32 word)) :: 16 word) = 65535 - unat s mod 65536"
proof -
  have "(ucast (NOT s) :: 16 word) = NOT (ucast s)"
    by (rule bit_word_eqI) (simp add: bit_simps)
  also have "\<dots> = -1 - ucast s" by (simp add: not_eq_complement)
  finally have "unat (ucast (NOT s) :: 16 word) = unat (-1 :: 16 word) - unat (ucast s :: 16 word)"
    by (simp only: unat_sub word_n1_ge)
  then show ?thesis by (simp add: unsigned_ucast_eq take_bit_eq_mod unsigned_minus_1_eq_mask mask_eq_exp_minus_1)
qed

lemma unat_plus32: "unat a + unat b < 4294967296 \<Longrightarrow> unat (a + b :: 32 word) = unat a + unat b"
  by (simp add: unat_word_ariths(1))

lemma unat_fold_sum:
  assumes s: "unat s < 2147483648"
  shows "unat (fold_sum s) = 65535 - oc_norm (unat s)"
proof -
  let ?u = "unat s mod 65536 + unat s div 65536"
  let ?s1 = "signed_drop_bit 16 s + (s AND 0xffff)"
  have d: "unat s div 65536 \<le> 32767" using s by linarith
  then have u: "?u \<le> 98302" by linarith
  have u1: "unat ?s1 = ?u"
    using u arithmetic_shift [OF s] unat_high16 [of s] unat_low16 [of s]
    by (subst unat_plus32) simp_all
  then have s1: "unat ?s1 < 2147483648" using u by linarith
  have "?u div 65536 \<le> 1" "?u + ?u div 65536 < 4294967296" using u by linarith+
  then have u2: "unat (?s1 + signed_drop_bit 16 ?s1) = ?u + ?u div 65536"
    using u1 unat_high16 [of ?s1] arithmetic_shift [OF s1] by (subst unat_plus32) simp_all
  let ?x = "?u mod 65536 + ?u div 65536"
  have "(?u + ?u div 65536) mod 65536 = ?x"
    using u by (rule carry_again)
  moreover have "?x = oc_norm (unat s)"
  proof (rule oc_norm_unique)
    show "?x mod 65535 = unat s mod 65535" by (simp only: carry_mod)
    show "?x \<le> 65535" using u by (intro carry_le) linarith
    show "?x = 0 \<longleftrightarrow> unat s = 0" by (simp only: carry_0)
  qed
  ultimately have "unat (?s1 + signed_drop_bit 16 ?s1) mod 65536 = oc_norm (unat s)" by (simp only: u2)
  then show ?thesis by (simp only: fold_sum_def Let_def unat_not_low16)
qed

lemma unat_sum_list32:
  "sum_list (map unat ws) < 4294967296 \<Longrightarrow>
   unat (sum_list (map ucast ws) :: 32 word) = sum_list (map unat (ws :: 16 word list))"
proof (induction ws)
  case (Cons w ws)
  have "unat (ucast w :: 32 word) = unat w"
    by (simp add: unsigned_ucast_eq, rule take_bit_nat_eq_self) (rule less_trans [OF unat_half_less], simp)
  with Cons show ?case by (simp add: unat_plus32)
qed simp

text \<open>The accumulator does not overflow for any segment of at most 65524 bytes.\<close>

lemma covered_sum_bound:
  assumes "len \<le> 65524"
  shows "sum_list (map unat (words16 host (covered host src dst packet len))) < 2147483648"
proof -
  let ?ws = "words16 host (covered host src dst packet len)"
  have "length (covered host src dst packet len) \<le> 65536" using assms by (simp add: covered_def)
  then have "length ?ws \<le> 32768" using length_words16_le [of host "covered host src dst packet len"] by linarith
  then show ?thesis using sum_list_unat16 [of ?ws] by linarith
qed

definition covered_sum :: "endian \<Rightarrow> 32 word \<Rightarrow> 32 word \<Rightarrow> byte list \<Rightarrow> nat \<Rightarrow> nat" where
  "covered_sum host src dst packet len = sum_list (map unat (words16 host (covered host src dst packet len)))"

lemma unat_checksum:
  assumes "20 \<le> len" "len \<le> 65524" "len \<le> length packet"
  shows "unat (fold_sum (checksum_sum host src dst packet len)) = 65535 - oc_norm (covered_sum host src dst packet len)"
  using covered_sum_bound [OF assms(2), of host src dst packet] assms
  by (simp add: unat_fold_sum checksum_sum_words unat_sum_list32 covered_sum_def)

subsection \<open>Which segments have the same checksum\<close>

lemma length_store16_at [simp]: "length (store16_at host bs i w) = length bs"
  by (simp add: store16_at_def)

lemma zero_sum_field_store [simp]: "zero_sum_field (store16_at host packet off_th_sum w) = zero_sum_field packet"
  by (simp add: zero_sum_field_def store16_at_def list_update_swap)

lemma checksum_sum_ignores_field:
  assumes "20 \<le> len" "len \<le> length packet"
  shows "checksum_sum host src dst (store16_at host packet off_th_sum w) len = checksum_sum host src dst packet len"
  using assms by (simp add: checksum_sum_words covered_def)

lemma checksum_sum_commute:
  assumes "20 \<le> len" "len \<le> length packet"
  shows "checksum_sum host src dst packet len = checksum_sum host dst src packet len"
proof -
  have w: "words16 host (store32 host a @ bs) = words16 host (store32 host a) @ words16 host bs" for a bs
    by (rule words16_append) (cases host; simp)
  show ?thesis using assms
    by (simp add: checksum_sum_words covered_def pseudo_header_def w add.left_commute)
qed

lemma words16_update:
  "i < length bs \<Longrightarrow> \<exists>m. (m = 1 \<or> m = 256) \<and>
     sum_list (map unat (words16 host (bs[i := b]))) + m * unat (bs ! i)
       = sum_list (map unat (words16 host bs)) + m * unat b"
proof (induction host bs arbitrary: i rule: words16.induct)
  case (2 host a)
  then show ?case by (cases host) (auto simp: unat_load16 simp del: load16.simps)
next
  case (3 host a c bs)
  show ?case
  proof (cases "i < 2")
    case True
    then have "i = 0 \<or> i = 1" by auto
    then show ?thesis by (cases host) (auto simp: unat_load16 simp del: load16.simps)
  next
    case False
    then obtain j where j: "i = Suc (Suc j)" by (metis One_nat_def Suc_1 less_2_cases_iff not0_implies_Suc)
    with 3 show ?thesis by fastforce
  qed
qed simp

lemma byte_scaled_inj:
  assumes "m = 1 \<or> m = (256::nat)" "S' + m * a = S + m * b" "a < 256" "b < 256"
    "S' mod 65535 = S mod 65535"
  shows "a = b"
proof -
  have eq: "int S' - int S = int m * (int b - int a)"
    using arg_cong [OF assms(2), of int] by (simp add: algebra_simps)
  have "(65535::int) dvd int S' - int S"
    using arg_cong [OF assms(5), of int] by (simp add: zmod_int mod_eq_dvd_iff)
  then have "65535 dvd int m * (int b - int a)" by (simp only: eq)
  moreover have "\<bar>int m * (int b - int a)\<bar> < 65535" using assms(1,3,4) by auto
  ultimately have "int m * (int b - int a) = 0" by (metis dvd_imp_le_int not_less abs_numeral)
  then show ?thesis using assms(1) by auto
qed

lemma single_byte_changes_sum:
  assumes "20 \<le> len" "len \<le> length packet" "i < len" "i \<noteq> 16" "i \<noteq> 17" "b \<noteq> packet ! i"
  shows "oc_norm (covered_sum host src dst (packet[i := b]) len) \<noteq> oc_norm (covered_sum host src dst packet len)"
proof
  assume "oc_norm (covered_sum host src dst (packet[i := b]) len) = oc_norm (covered_sum host src dst packet len)"
  then have eq: "covered_sum host src dst (packet[i := b]) len mod 65535 = covered_sum host src dst packet len mod 65535"
    by (metis oc_norm_mod)
  let ?c = "covered host src dst packet len"
  have z: "zero_sum_field (packet[i := b]) = (zero_sum_field packet)[i := b]"
    using assms(4,5) by (simp add: zero_sum_field_def list_update_swap)
  have c: "covered host src dst (packet[i := b]) len = ?c[12 + i := b]"
    using assms(2,3) by (simp add: covered_def z list_update_append take_update_swap)
  have old: "?c ! (12 + i) = packet ! i" and lt: "12 + i < length ?c"
    using assms by (simp_all add: covered_def nth_append zero_sum_field_def)
  from words16_update [OF lt, of host b] obtain m where m: "m = 1 \<or> m = 256"
    "covered_sum host src dst (packet[i := b]) len + m * unat (packet ! i)
      = covered_sum host src dst packet len + m * unat b"
    unfolding covered_sum_def c old by blast
  have "unat (packet ! i) = unat b"
    by (rule byte_scaled_inj [OF m _ _ eq]) simp_all
  then show False using assms(6) by (simp add: word_unat_eq_iff)
qed

subsection \<open>Byte order does not matter\<close>

lemma words16_swap_mod:
  "sum_list (map unat (words16 Big bs)) mod 65535 = 256 * sum_list (map unat (words16 Little bs)) mod 65535"
proof (induction Big bs rule: words16.induct)
  case (2 a)
  show ?case by (simp add: unat_load16 del: load16.simps)
next
  case (3 a b bs)
  let ?B = "sum_list (map unat (words16 Big bs))" and ?L = "sum_list (map unat (words16 Little bs))"
  have "256 * (unat a + 256 * unat b + ?L) = (256 * unat a + unat b + 256 * ?L) + 65535 * unat b" by simp
  then have "256 * (unat a + 256 * unat b + ?L) mod 65535 = (256 * unat a + unat b + 256 * ?L) mod 65535"
    by (simp only: mod_mult_self2)
  moreover have "(256 * unat a + unat b + 256 * ?L) mod 65535 = (256 * unat a + unat b + ?B) mod 65535"
    using 3 by (metis mod_add_right_eq)
  ultimately show ?case by (simp add: unat_load16 del: load16.simps)
qed simp

lemma oc_norm_swap:
  assumes "m mod 65535 = 256 * n mod 65535" "m = 0 \<longleftrightarrow> n = 0"
  shows "oc_norm m = 256 * (oc_norm n mod 256) + oc_norm n div 256"
proof -
  let ?x = "oc_norm n"
  have "?x div 256 \<le> 255" "?x mod 256 \<le> 255" using oc_norm_le [of n] by linarith+
  moreover have "256 * ?x = 256 * (?x mod 256) + ?x div 256 + 65535 * (?x div 256)"
    using mod_mult_div_eq [of ?x 256] by linarith
  then have "256 * ?x mod 65535 = (256 * (?x mod 256) + ?x div 256) mod 65535" by (simp only: mod_mult_self2)
  moreover have "256 * ?x mod 65535 = 256 * n mod 65535" by (metis mod_mult_right_eq oc_norm_mod)
  moreover have "256 * (?x mod 256) + ?x div 256 = 0 \<longleftrightarrow> ?x = 0"
    using mod_mult_div_eq [of ?x 256] by auto
  ultimately show ?thesis using assms
    by (intro oc_norm_unique [symmetric]) (auto simp: oc_norm_0)
qed

lemma words16_zero_iff: "sum_list (map unat (words16 Big bs)) = 0 \<longleftrightarrow> sum_list (map unat (words16 Little bs)) = 0"
  by (induction Big bs rule: words16.induct) (auto simp: unat_load16 simp del: load16.simps)

lemma unat_low_byte: "unat (ucast (w :: 16 word) :: byte) = unat w mod 256"
  by (simp add: unsigned_ucast_eq take_bit_eq_mod)

lemma unat_high_byte: "unat (drop_bit 8 (w :: 16 word)) = unat w div 256"
  using unat_drop_bit_eq [of 8 w] by (simp only: drop_bit_eq_div) simp

lemmas byte_parts = word_unat_eq_iff unat_low_byte unat_high_byte

lemma store16_mirror:
  assumes "unat v = 65535 - (256 * (x mod 256) + x div 256)" "unat w = 65535 - x" "x \<le> 65535"
  shows "store16 Big v = store16 Little w"
proof -
  define h l where "h = x div 256" and "l = x mod 256"
  have x: "x = 256 * h + l" and h: "h \<le> 255" and l: "l \<le> 255"
    using assms(3) by (auto simp: h_def l_def)
  have v: "unat v = 256 * (255 - l) + (255 - h)" and w: "unat w = 256 * (255 - h) + (255 - l)"
    using assms(1,2) x h l by (simp_all add: h_def [symmetric] l_def [symmetric])
  then have "unat v div 256 = 255 - l" "unat v mod 256 = 255 - h"
    "unat w div 256 = 255 - h" "unat w mod 256 = 255 - l" by auto
  then show ?thesis by (simp add: byte_parts)
qed

lemma unat_swap16: "unat (swap16 w) = 256 * (unat w mod 256) + unat w div 256"
proof -
  have "unat w div 256 < 256" using unat_half_less [of w] by linarith
  then have "256 * (unat w mod 256) + unat w div 256 < 65536" by linarith
  moreover have "256 * unat w mod 65536 = 256 * (unat w mod 256)"
    using mult_mod_right [of 256 "unat w" 256] by simp
  ultimately show ?thesis unfolding swap16_def unat_word_ariths by (simp add: unat_high_byte)
qed

lemma div_256_bound: "unat (w :: 16 word) div 256 < 256"
  using unat_half_less [of w] by linarith

lemma htons_bytes: "store16 host (htons host w) = store16 Big w"
  using div_256_bound [of w] by (cases host) (simp_all add: byte_parts unat_swap16)

lemma htons_htons [simp]: "htons host (htons host w) = w"
  using div_256_bound [of w] by (cases host) (simp_all add: word_unat_eq_iff unat_swap16)

lemma load16_store16 [simp]: "load16_at host (store16 host w) 0 = w"
  using div_256_bound [of w]
  by (cases host) (simp_all add: word_unat_eq_iff load16_at_def unat_load16 unat_low_byte unat_high_byte
      unsigned_ucast_eq take_bit_nat_eq_self del: load16.simps)

lemma length_store16 [simp]: "length (store16 host w) = 2"
  by (cases host) simp_all

lemma covered_same_bytes:
  assumes "store32 Big src = store32 Little src'" "store32 Big dst = store32 Little dst'"
  shows "covered Big src dst packet len = covered Little src' dst' packet len"
  using assms htons_bytes [of Little "of_nat len"] by (simp add: covered_def pseudo_header_def del: store32.simps store16.simps htons.simps)
    (simp only: htons.simps)

lemma checksum_bytes_mirror:
  assumes "20 \<le> len" "len \<le> 65524" "len \<le> length packet"
    and "store32 Big src = store32 Little src'" "store32 Big dst = store32 Little dst'"
  shows "store16 Big (fold_sum (checksum_sum Big src dst packet len))
    = store16 Little (fold_sum (checksum_sum Little src' dst' packet len))"
proof (rule store16_mirror)
  let ?B = "covered_sum Big src dst packet len" and ?L = "covered_sum Little src' dst' packet len"
  have "oc_norm ?B = 256 * (oc_norm ?L mod 256) + oc_norm ?L div 256"
    unfolding covered_sum_def covered_same_bytes [OF assms(4,5)]
    by (rule oc_norm_swap [OF words16_swap_mod words16_zero_iff])
  then show "unat (fold_sum (checksum_sum Big src dst packet len))
      = 65535 - (256 * (oc_norm ?L mod 256) + oc_norm ?L div 256)"
    using unat_checksum [OF assms(1-3)] by simp
  show "unat (fold_sum (checksum_sum Little src' dst' packet len)) = 65535 - oc_norm ?L"
    using unat_checksum [OF assms(1-3)] by simp
  show "oc_norm ?L \<le> 65535" by (rule oc_norm_le)
qed

lemma checksum_bytes_order:
  assumes "20 \<le> len" "len \<le> 65524" "len \<le> length packet"
    and "store32 h src = store32 h' src'" "store32 h dst = store32 h' dst'"
  shows "store16 h (fold_sum (checksum_sum h src dst packet len)) = store16 h' (fold_sum (checksum_sum h' src' dst' packet len))"
proof -
  have same: "checksum_sum g src dst packet len = checksum_sum g src' dst' packet len"
    if "store32 g src = store32 g src'" "store32 g dst = store32 g dst'" for g
    using that assms(1,3) by (simp add: checksum_sum_words covered_def pseudo_header_def del: store32.simps)
  show ?thesis
  proof (cases h; cases h')
    assume "h = Big" "h' = Little"
    then show ?thesis using checksum_bytes_mirror [OF assms(1-3)] assms(4,5) by blast
  next
    assume "h = Little" "h' = Big"
    then show ?thesis using checksum_bytes_mirror [OF assms(1-3), of src' src dst' dst] assms(4,5) by simp
  qed (use same assms(4,5) in \<open>simp_all del: store32.simps\<close>)
qed

lemma load16_at_store16_at [simp]:
  "Suc i < length bs \<Longrightarrow> load16_at host (store16_at host bs i w) i = w"
  using load16_store16 [of host w] by (simp add: load16_at_def store16_at_def)

lemma base_256: "a + 256 * b = c + 256 * d \<Longrightarrow> a < 256 \<Longrightarrow> c < 256 \<Longrightarrow> a = c \<and> b = (d :: nat)"
proof -
  assume e: "a + 256 * b = c + 256 * d" and l: "a < 256" "c < 256"
  from e have "(a + 256 * b) mod 256 = (c + 256 * d) mod 256" by simp
  with l have "a = c" by simp
  with e show ?thesis by simp
qed

text \<open>What a reader finds at an offset determines the two bytes there.\<close>

lemma load16_at_eq_iff: "load16_at host bs i = load16_at host cs j \<longleftrightarrow> bs ! i = cs ! j \<and> bs ! Suc i = cs ! Suc j"
proof
  assume "load16_at host bs i = load16_at host cs j"
  then have "unat (load16 host (bs ! i) (bs ! Suc i)) = unat (load16 host (cs ! j) (cs ! Suc j))" by (simp add: load16_at_def)
  then show "bs ! i = cs ! j \<and> bs ! Suc i = cs ! Suc j"
    using base_256 [of "unat (bs ! i)" "unat (bs ! Suc i)" "unat (cs ! j)" "unat (cs ! Suc j)"]
      base_256 [of "unat (bs ! Suc i)" "unat (bs ! i)" "unat (cs ! Suc j)" "unat (cs ! j)"]
    unfolding unat_load16 word_unat_eq_iff by (cases host) (simp_all add: add.commute)
qed (simp add: load16_at_def)

section \<open>Properties\<close>

text \<open>C16: For every segment of 20 to 65524 bytes with non-zero addresses, at an address that
  passes the alignment assertion, \<open>_mysock_tcp_checksum\<close> succeeds, its 32 bit accumulator never
  overflows, and it returns the RFC 1071 checksum (end-around carry sum, complemented) of the
  pseudo header and the segment with th_sum taken as zero.\<close>

theorem checksum_is_rfc1071:
  assumes "20 \<le> len" "len \<le> 65524" "len \<le> length packet" "0 < src" "0 < dst" "addr AND 2 = 0"
  shows "\<exists>c. mysock_tcp_checksum host src dst addr packet len s = Done c s
    \<and> unat c = rfc1071 (words16 host (covered host src dst packet len))"
  using assms unat_checksum [OF assms(1-3), of host src dst]
  by (simp add: mysock_tcp_checksum_def run_simps rfc1071_eq covered_sum_def)

abbreviation sample_segment :: "byte list" where
  "sample_segment \<equiv> [4, 210, 22, 46, 0, 0, 0, 1, 0, 0, 0, 0, 80, 2, 12, 0, 0, 0, 0, 0, 104, 105, 33]"

theorem checksum_is_rfc1071_witness:
  "\<exists>c. mysock_tcp_checksum Little 0x0100007f 0x0200007f 0x1000 sample_segment 23 () = Done c ()
    \<and> unat c = rfc1071 (words16 Little (covered Little 0x0100007f 0x0200007f sample_segment 23))"
  by (rule checksum_is_rfc1071) simp_all

text \<open>The checksum bytes placed in the packet do not depend on the host's byte order: a
  little endian and a big endian host with the same packet and the same addresses (bytes in
  network order) store the same two bytes.\<close>

lemma checksum_byte_order_independent:
  assumes "20 \<le> len" "len \<le> 65524" "len \<le> length packet"
    and "store32 Big src = store32 Little src'" "store32 Big dst = store32 Little dst'"
  shows "store16 Big (fold_sum (checksum_sum Big src dst packet len))
    = store16 Little (fold_sum (checksum_sum Little src' dst' packet len))"
  by (rule checksum_bytes_mirror [OF assms])

end
