(* ===== verification/Network_IO_Tcp.thy ===== *)
theory Network_IO_Tcp
  imports Mysock_Core Tcp_Checksum
begin

text \<open>
  The network layer over TCP: network_io_tcp.c, network_io.c and the queries of
  network_io_socket.c. Packets travel over a stream socket in frames, a two byte length in
  network order and the payload; \<open>tcp_io\<close> is the loop that turns the short reads and writes of
  the system into whole transfers. The theorems are about the framing (what is sent is what
  is received, however the system cuts the stream) and about the mutex around the connect.
\<close>

section \<open>Whole transfers (\<open>_tcp_io\<close>)\<close>

text \<open>
  An I/O function gets what the buffer holds from the current position on and how many bytes
  remain; it yields the count the system call returns and the bytes the buffer then holds. The
  value of the loop is its return value with the final buffer.
\<close>

type_synonym 's io_func = "byte list \<Rightarrow> nat \<Rightarrow> ('s, int \<times> byte list) prog"

function tcp_io_loop :: "'s io_func \<Rightarrow> nat \<Rightarrow> byte list \<Rightarrow> nat \<Rightarrow> ('s, int \<times> byte list) prog" where
  "tcp_io_loop io_func count cbuf bytes_remaining s =
     (if bytes_remaining = 0 then Done (int count, cbuf) s
      else case io_func cbuf bytes_remaining s of
        Abort e \<Rightarrow> Abort e
      | Blocked s' \<Rightarrow> Blocked s'
      | Done (rc, cbuf') s' \<Rightarrow>
          if rc \<le> 0 then Done (rc, cbuf') s'
          else if rc > int bytes_remaining then Abort (Assertion ''network_io_tcp.c'' 259)
          else case tcp_io_loop io_func count (drop (nat rc) cbuf') (bytes_remaining - nat rc) s' of
              Done (r, rest) s'' \<Rightarrow> Done (r, take (nat rc) cbuf' @ rest) s''
            | Blocked s'' \<Rightarrow> Blocked s''
            | Abort e \<Rightarrow> Abort e)"
  by pat_completeness auto
termination
  by (relation "measure (\<lambda>(io, c, b, n, s). n)") auto

definition tcp_io :: "'s io_func \<Rightarrow> byte list \<Rightarrow> nat \<Rightarrow> ('s, int \<times> byte list) prog" where
  "tcp_io io_func buf count = tcp_io_loop io_func count buf count"

text \<open>The two functions it is called with: write(2) sends bytes of the buffer, read(2) overwrites them.\<close>

definition write_io :: "'os env \<Rightarrow> int \<Rightarrow> 'os sys io_func" where
  "write_io E fd cbuf n = bind (syscall (os_write E fd (take n cbuf))) (\<lambda>rc. ret (rc, cbuf))"

definition read_io :: "'os env \<Rightarrow> int \<Rightarrow> 'os sys io_func" where
  "read_io E fd cbuf n =
     bind (syscall (os_read E fd n)) (\<lambda>(rc, bs). ret (rc, bs @ drop (length bs) cbuf))"

section \<open>Connecting\<close>

definition set_impl :: "nat \<Rightarrow> ptr \<Rightarrow> (network_context_socket_tcp \<Rightarrow> network_context_socket_tcp) \<Rightarrow> ('os sys, unit) prog" where
  "set_impl line p f = on_ctx ''network_io_tcp.c'' line p (modify (upd_impl f))"

text \<open>
  A mutex that is already held is a wait. The failed connect returns with the mutex held: the
  source has no unlock on that path.
\<close>

definition tcp_connect :: "'os env \<Rightarrow> ptr \<Rightarrow> ('os sys, int) prog" where
  "tcp_connect E p =
     bind (get_ctx ''network_io_tcp.c'' 273 p) (\<lambda>c.
     bind (the_or (Assertion ''network_io_tcp.c'' 274) (impl c)) (\<lambda>i.
     if connect_lock i then block
     else
     bind (set_impl 276 p (\<lambda>i. i\<lparr>connect_lock := True\<rparr>)) (\<lambda>_.
     if connected i
     then bind (set_impl 295 p (\<lambda>i. i\<lparr>connect_lock := False\<rparr>)) (\<lambda>_. ret 0)
     else
       let n = network_state c in
       bind (assert_at ''network_io_tcp.c'' 279 (peer_addr_valid n)) (\<lambda>_.
       bind (assert_at ''network_io_tcp.c'' 280 (sa_family (peer_addr n) = AF_INET)) (\<lambda>_.
       bind (assert_at ''network_io_tcp.c'' 281 (sin_port (peer_addr n) > 0)) (\<lambda>_.
       bind (syscall (os_connect E (socket i) (peer_addr n))) (\<lambda>rc.
       if rc \<noteq> None then ret (-1)
       else bind (set_impl 293 p (\<lambda>i. i\<lparr>connected := True\<rparr>)) (\<lambda>_.
            bind (set_impl 295 p (\<lambda>i. i\<lparr>connect_lock := False\<rparr>)) (\<lambda>_.
            ret 0)))))))))"

definition network_listen :: "'os env \<Rightarrow> ptr \<Rightarrow> int \<Rightarrow> ('os sys, errno + int) prog" where
  "network_listen E p backlog =
     bind (get_ctx ''network_io_tcp.c'' 99 p) (\<lambda>c.
     bind (verify_socket ''network_io_tcp.c'' 99 c) (\<lambda>i.
     bind (syscall (os_listen E (socket i) backlog)) (\<lambda>rc.
     ret (case rc of None \<Rightarrow> Inr 0 | Some e \<Rightarrow> Inl e))))"

text \<open>The accepted socket of the listening context p2 becomes the socket of the new context p.\<close>

definition network_update_passive_state :: "'os env \<Rightarrow> ptr \<Rightarrow> ptr \<Rightarrow> nat option \<Rightarrow> ('os sys, unit) prog" where
  "network_update_passive_state E p p2 user_data =
     bind (assert_at ''network_io_tcp.c'' 113 (user_data = None)) (\<lambda>_.
     bind (get_ctx ''network_io_tcp.c'' 115 p) (\<lambda>c.
     bind (get_ctx ''network_io_tcp.c'' 116 p2) (\<lambda>c2.
     bind (the_or (Assertion ''network_io_tcp.c'' 118) (impl c)) (\<lambda>i.
     bind (the_or (Assertion ''network_io_tcp.c'' 118) (impl c2)) (\<lambda>i2.
     bind (get_ctx ''network_io_tcp.c'' 123 (sock_ctx i)) (\<lambda>sc.
     bind (assert_at ''network_io_tcp.c'' 123 (\<not> listening sc)) (\<lambda>_.
     bind (assert_at ''network_io_tcp.c'' 124 (\<not> is_active sc)) (\<lambda>_.
     bind (modify (\<lambda>s. s\<lparr>os := os_close E (socket i) (os s)\<rparr>)) (\<lambda>_.
     bind (set_impl 126 p (\<lambda>i. i\<lparr>socket := new_socket i2, connected := True\<rparr>)) (\<lambda>_.
     set_impl 128 p2 (\<lambda>i. i\<lparr>new_socket := -1\<rparr>)))))))))))"

section \<open>Packets\<close>

definition network_send_packet :: "'os env \<Rightarrow> ptr \<Rightarrow> byte list \<Rightarrow> nat \<Rightarrow> ('os sys, int) prog" where
  "network_send_packet E p src len =
     bind (get_ctx ''network_io_tcp.c'' 142 p) (\<lambda>c.
     bind (assert_at ''network_io_tcp.c'' 142 (peer_addr_len (network_state c) > 0)) (\<lambda>_.
     bind (the_or (Assertion ''network_io_tcp.c'' 145) (impl c)) (\<lambda>_.
     bind (verify_socket ''network_io_tcp.c'' 147 c) (\<lambda>i.
     bind (tcp_connect E p) (\<lambda>rc.
     if rc < 0 then ret (-1)
     else
     bind (tcp_io (write_io E (socket i)) (store16 (host_order E) (htons (host_order E) (of_nat len))) 2) (\<lambda>(rc, _).
     if rc < 0 then ret (-1)
     else if length src < len then abort (Out_of_bounds ''network_io_tcp.c'' 156)
     else
     bind (tcp_io (write_io E (socket i)) src len) (\<lambda>(rc, _).
     if rc < 0 then ret (-1) else ret (int len))))))))"

text \<open>\<open>dst\<close> is the caller's buffer of \<open>max_len\<close> bytes; the value is the return value with its new contents.\<close>

definition network_recv_packet ::
    "'os env \<Rightarrow> ptr \<Rightarrow> byte list \<Rightarrow> nat \<Rightarrow> ('os sys, int \<times> byte list) prog" where
  "network_recv_packet E p dst max_len =
     bind (get_ctx ''network_io_tcp.c'' 172 p) (\<lambda>c.
     bind (the_or (Assertion ''network_io_tcp.c'' 173) (impl c)) (\<lambda>_.
     bind (verify_socket ''network_io_tcp.c'' 176 c) (\<lambda>i.
     bind (get_ctx ''network_io_tcp.c'' 179 (sock_ctx i)) (\<lambda>sc.
     bind (if is_active sc then tcp_connect E p else ret 0) (\<lambda>crc.
     if crc < 0 then ret (-1, dst)
     else
     bind (get_ctx ''network_io_tcp.c'' 182 (sock_ctx i)) (\<lambda>sc.
     bind (if listening sc
           then bind (on_ctx ''network_io_tcp.c'' 187 p
                  (modify (upd_network (\<lambda>n. n\<lparr>peer_addr_len := sizeof_sockaddr\<rparr>)))) (\<lambda>_.
                bind (syscall (os_accept E (socket i))) (\<lambda>acc.
                case acc of
                  None \<Rightarrow> ret (-1)
                | Some (tmp_sd, a, alen) \<Rightarrow>
                    bind (on_ctx ''network_io_tcp.c'' 188 p
                      (modify (upd_network (\<lambda>n. n\<lparr>peer_addr := a, peer_addr_len := alen\<rparr>)))) (\<lambda>_.
                    bind (assert_at ''network_io_tcp.c'' 203 (new_socket i = -1)) (\<lambda>_.
                    bind (set_impl 204 p (\<lambda>i. i\<lparr>new_socket := tmp_sd\<rparr>)) (\<lambda>_.
                    ret tmp_sd)))))
           else ret (socket i)) (\<lambda>io_socket.
     if io_socket < 0 then ret (io_socket, dst)
     else
     bind (tcp_io (read_io E io_socket) [0, 0] 2) (\<lambda>(rc, lenbuf).
     if rc \<le> 0 then ret (rc, dst)
     else
     let packet_len = unat (ntohs (host_order E) (load16_at (host_order E) lenbuf 0)) in
     bind (tcp_io (read_io E io_socket) dst (min packet_len max_len)) (\<lambda>(rc, dst').
     if rc \<le> 0 then ret (rc, dst')
     else
     bind (if packet_len > max_len
           then bind (tcp_io (read_io E io_socket) (replicate (packet_len - max_len) 0) (packet_len - max_len))
                  (\<lambda>_. ret ())
           else ret ()) (\<lambda>_.
     ret (int packet_len, dst')))))))))))"

section \<open>Local port and address\<close>

definition network_get_port :: "'os env \<Rightarrow> ptr \<Rightarrow> ('os sys, 16 word) prog" where
  "network_get_port E p =
     bind (get_ctx ''network_io_socket.c'' 62 p) (\<lambda>c.
     bind (verify_socket ''network_io_socket.c'' 62 c) (\<lambda>i.
     bind (gets os) (\<lambda>w.
     bind (the_or (Assertion ''network_io_socket.c'' 66) (os_getsockname E (socket i) w)) (\<lambda>a.
     bind (assert_at ''network_io_socket.c'' 70 (sa_family a = AF_INET)) (\<lambda>_.
     ret (sin_port a))))))"

definition network_get_interface_ip :: "'os env \<Rightarrow> ('os sys, 32 word) prog" where
  "network_get_interface_ip E =
     bind (gets os) (\<lambda>w.
     bind (the_or (Assertion ''network_io_socket.c'' 89) (os_gethostname E w)) (\<lambda>hostname.
     the_or (Assertion ''network_io_socket.c'' 102) (os_gethostbyname E hostname w)))"

definition network_get_local_addr :: "'os env \<Rightarrow> network_context \<Rightarrow> ('os sys, 32 word) prog" where
  "network_get_local_addr E n =
     bind (assert_at ''network_io.c'' 24 (peer_addr_valid n)) (\<lambda>_.
     bind (assert_at ''network_io.c'' 25 (peer_addr_len n > 0)) (\<lambda>_.
     bind (assert_at ''network_io.c'' 26 (sa_family (peer_addr n) = AF_INET)) (\<lambda>_.
     network_get_interface_ip E)))"

section \<open>What the system promises\<close>

text \<open>
  A stream socket: a write takes some of the bytes, at least one; a read yields some of the
  bytes that are on their way, at least one. \<open>sent\<close> and \<open>unread\<close> are the bytes written to and
  still to be read from the descriptor.
\<close>

definition writes_to :: "'os env \<Rightarrow> int \<Rightarrow> ('os \<Rightarrow> byte list) \<Rightarrow> bool" where
  "writes_to E fd sent \<longleftrightarrow> (\<forall>w bs. bs \<noteq> [] \<longrightarrow> (case os_write E fd bs w of (rc, w') \<Rightarrow>
     0 < rc \<and> rc \<le> int (length bs) \<and> sent w' = sent w @ take (nat rc) bs))"

definition reads_from :: "'os env \<Rightarrow> int \<Rightarrow> ('os \<Rightarrow> byte list) \<Rightarrow> bool" where
  "reads_from E fd unread \<longleftrightarrow> (\<forall>w n. 0 < n \<and> unread w \<noteq> [] \<longrightarrow> (case os_read E fd n w of ((rc, bs), w') \<Rightarrow>
     0 < rc \<and> rc \<le> int n \<and> nat rc \<le> length (unread w)
     \<and> bs = take (nat rc) (unread w) \<and> unread w' = drop (nat rc) (unread w)))"

declare tcp_io_loop.simps [simp del]

lemma write_io_run:
  assumes "writes_to E fd sent" "0 < n" "n \<le> length buf"
  obtains k w where "0 < k" "k \<le> n" "write_io E fd buf n s = Done (int k, buf) (s\<lparr>os := w\<rparr>)"
    "sent w = sent (os s) @ take k buf"
proof -
  obtain rc w where rw: "os_write E fd (take n buf) (os s) = (rc, w)" by fastforce
  have "take n buf \<noteq> []" using assms(2,3) by auto
  with assms(1) [unfolded writes_to_def, rule_format, of "take n buf" "os s"] rw have "0 < rc \<and> rc \<le> int (length (take n buf)) \<and> sent w = sent (os s) @ take (nat rc) (take n buf)"
    by simp
  then obtain k where "rc = int k" "0 < k" "k \<le> length (take n buf)" "sent w = sent (os s) @ take k (take n buf)"
    by (cases rc) auto
  with assms(3) rw show ?thesis
    by (intro that [of k w]) (simp_all add: write_io_def run_simps min_absorb1)
qed

lemma read_io_run:
  assumes "reads_from E fd unread" "0 < n" "unread (os s) \<noteq> []"
  obtains k w where "0 < k" "k \<le> n" "k \<le> length (unread (os s))"
    "read_io E fd buf n s = Done (int k, take k (unread (os s)) @ drop k buf) (s\<lparr>os := w\<rparr>)"
    "unread w = drop k (unread (os s))"
proof -
  obtain rc bs w where rw: "os_read E fd n (os s) = ((rc, bs), w)" by (metis surj_pair)
  with assms have "0 < rc \<and> rc \<le> int n \<and> nat rc \<le> length (unread (os s)) \<and> bs = take (nat rc) (unread (os s))
      \<and> unread w = drop (nat rc) (unread (os s))"
    unfolding reads_from_def by fastforce
  then obtain k where "rc = int k" "0 < k" "k \<le> n" "k \<le> length (unread (os s))"
    "bs = take k (unread (os s))" "unread w = drop k (unread (os s))"
    by (cases rc) auto
  with rw show ?thesis
    by (intro that [of k w]) (simp_all add: read_io_def run_simps min_absorb2)
qed

lemma tcp_io_loop_write:
  assumes "writes_to E fd sent" "n \<le> length buf"
  shows "\<exists>w. tcp_io_loop (write_io E fd) count buf n s = Done (int count, buf) (s\<lparr>os := w\<rparr>)
    \<and> sent w = sent (os s) @ take n buf"
  using assms(2)
proof (induction n arbitrary: buf s rule: less_induct)
  case (less n)
  show ?case
  proof (cases "n = 0")
    case True
    then show ?thesis by (intro exI [of _ "os s"]) (simp add: tcp_io_loop.simps)
  next
    case False
    with write_io_run [OF assms(1) _ less.prems, of s] obtain k w where
      k: "0 < k" "k \<le> n" "write_io E fd buf n s = Done (int k, buf) (s\<lparr>os := w\<rparr>)"
      "sent w = sent (os s) @ take k buf" by blast
    have "n - k < n" "n - k \<le> length (drop k buf)" using k False less.prems by simp_all
    from less.IH [OF this, of "s\<lparr>os := w\<rparr>"] k obtain w' where
      "tcp_io_loop (write_io E fd) count (drop k buf) (n - k) (s\<lparr>os := w\<rparr>)
        = Done (int count, drop k buf) (s\<lparr>os := w'\<rparr>)"
      "sent w' = sent (os s) @ take k buf @ take (n - k) (drop k buf)" by auto
    with k False show ?thesis
      by (intro exI [of _ w']) (subst tcp_io_loop.simps, simp flip: take_add)
  qed
qed

lemma tcp_io_loop_read:
  assumes "reads_from E fd unread" "n \<le> length (unread (os s))"
  shows "\<exists>w. tcp_io_loop (read_io E fd) count buf n s
      = Done (int count, take n (unread (os s)) @ drop n buf) (s\<lparr>os := w\<rparr>)
    \<and> unread w = drop n (unread (os s))"
  using assms(2)
proof (induction n arbitrary: buf s rule: less_induct)
  case (less n)
  show ?case
  proof (cases "n = 0")
    case True
    then show ?thesis by (intro exI [of _ "os s"]) (simp add: tcp_io_loop.simps)
  next
    case False
    with less.prems have "0 < n" "unread (os s) \<noteq> []" by auto
    from read_io_run [OF assms(1) this, of buf] obtain k w where
      k: "0 < k" "k \<le> n" "k \<le> length (unread (os s))"
      "read_io E fd buf n s = Done (int k, take k (unread (os s)) @ drop k buf) (s\<lparr>os := w\<rparr>)"
      "unread w = drop k (unread (os s))" by blast
    have "n - k < n" "n - k \<le> length (unread (os (s\<lparr>os := w\<rparr>)))" using k False less.prems by simp_all
    from less.IH [OF this, of "drop k buf"] k obtain w' where
      "tcp_io_loop (read_io E fd) count (drop k buf) (n - k) (s\<lparr>os := w\<rparr>)
        = Done (int count, take (n - k) (drop k (unread (os s))) @ drop n buf) (s\<lparr>os := w'\<rparr>)"
      "unread w' = drop n (unread (os s))" by auto
    moreover have "take k u @ take (n - k) (drop k u) = take n u" for u :: "byte list"
      using k(2) take_add [of k "n - k" u] by simp
    ultimately show ?thesis using k False
      by (intro exI [of _ w']) (subst tcp_io_loop.simps, simp flip: append_assoc)
  qed
qed

section \<open>Frames\<close>

definition frame :: "byte list \<Rightarrow> byte list" where
  "frame packet = store16 Big (of_nat (length packet)) @ packet"

text \<open>A context whose TCP connection is up, with the socket \<open>fd\<close>.\<close>

definition link_up :: "ptr \<Rightarrow> int \<Rightarrow> 'os sys \<Rightarrow> bool" where
  "link_up p fd s \<longleftrightarrow> (case hload (ctxs s) p of None \<Rightarrow> False | Some c \<Rightarrow>
     0 < peer_addr_len (network_state c) \<and> \<not> listening c
     \<and> (case impl c of None \<Rightarrow> False | Some i \<Rightarrow> connected i \<and> \<not> connect_lock i \<and> socket i = fd \<and> 0 \<le> fd
          \<and> sock_ctx i = p))"

lemma link_upE:
  assumes "link_up p fd s"
  obtains c i where "hload (ctxs s) p = Some c" "impl c = Some i" "connected i" "\<not> connect_lock i"
    "socket i = fd" "0 \<le> fd" "sock_ctx i = p" "0 < peer_addr_len (network_state c)" "\<not> listening c"
  using assms by (auto simp: link_up_def split: option.splits)

lemma link_up_os [simp]: "link_up p fd (s\<lparr>os := w\<rparr>) = link_up p fd s"
  by (simp add: link_up_def)

lemma upd_impl_lock_twice:
  assumes "impl c = Some i" "\<not> connect_lock i"
  shows "upd_impl (\<lambda>i. i\<lparr>connect_lock := False\<rparr>) (upd_impl (\<lambda>i. i\<lparr>connect_lock := True\<rparr>) c) = c"
proof -
  have "i\<lparr>connect_lock := False\<rparr> = i" using assms(2) by (cases i) simp
  then show ?thesis using assms(1) by (cases c; cases "network_state c") (simp add: upd_impl_def upd_network_def)
qed

lemma tcp_connect_connected:
  assumes "hload (ctxs s) p = Some c" "impl c = Some i" "connected i" "\<not> connect_lock i"
  shows "tcp_connect E p s = Done 0 s"
  using assms upd_impl_lock_twice [OF assms(2,4)] hload_bound [OF assms(1)]
  by (simp add: tcp_connect_def set_impl_def run_simps heap_simps hstore_same)

lemma unat_of_nat16: "n < 65536 \<Longrightarrow> unat (of_nat n :: 16 word) = n"
  by (simp add: unat_of_nat)

lemma link_up_store:
  assumes "link_up p fd s" "hload (ctxs s) p = Some c" "impl c' = impl c" "listening c' = listening c"
    "peer_addr_len (network_state c') = peer_addr_len (network_state c)"
  shows "link_up p fd (s\<lparr>ctxs := hstore (ctxs s) p c'\<rparr>)"
  using assms hload_bound [OF assms(2)] by (simp add: link_up_def heap_simps)

lemma send_packet_frame:
  assumes "link_up p fd s" "writes_to E fd sent" "len \<le> length src" "len < 65536"
  shows "\<exists>w. network_send_packet E p src len s = Done (int len) (s\<lparr>os := w\<rparr>)
    \<and> sent w = sent (os s) @ frame (take len src)"
proof -
  from assms(1) obtain c i where c: "hload (ctxs s) p = Some c" "impl c = Some i" "connected i"
    "\<not> connect_lock i" "socket i = fd" "0 \<le> fd" "0 < peer_addr_len (network_state c)" by (rule link_upE)
  let ?l = "store16 (host_order E) (htons (host_order E) (of_nat len))"
  from tcp_io_loop_write [OF assms(2), of 2 ?l 2 s] obtain w1 where
    w1: "tcp_io (write_io E fd) ?l 2 s = Done (2, ?l) (s\<lparr>os := w1\<rparr>)" "sent w1 = sent (os s) @ ?l"
    by (auto simp: tcp_io_def)
  from tcp_io_loop_write [OF assms(2,3), of len "s\<lparr>os := w1\<rparr>"] obtain w where
    w: "tcp_io (write_io E fd) src len (s\<lparr>os := w1\<rparr>) = Done (int len, src) (s\<lparr>os := w\<rparr>)"
    "sent w = sent w1 @ take len src" by (auto simp: tcp_io_def)
  show ?thesis using c tcp_connect_connected [OF c(1-4), of E] w w1 assms(3)
    by (intro exI [of _ w]) (simp add: network_send_packet_def verify_socket_def run_simps frame_def htons_bytes min_absorb2)
qed

lemma recv_packet_frame:
  assumes "link_up p fd s" "reads_from E fd unread" "unread (os s) = frame packet @ rest"
    "length packet < 65536" "0 < length dst"
  shows "\<exists>w. network_recv_packet E p dst (length dst) s
      = Done (int (length packet), take (length dst) packet @ drop (length packet) dst) (s\<lparr>os := w\<rparr>)
    \<and> unread w = rest"
proof -
  from assms(1) obtain c i where c: "hload (ctxs s) p = Some c" "impl c = Some i" "connected i"
    "\<not> connect_lock i" "socket i = fd" "0 \<le> fd" "sock_ctx i = p" "\<not> listening c" by (rule link_upE)
  let ?n = "length packet" and ?m = "min (length packet) (length dst)" and ?h = "host_order E"
  let ?l = "store16 Big (of_nat (length packet))"
  have conn: "(if is_active c then tcp_connect E p else ret 0) s = Done 0 s"
    using tcp_connect_connected [OF c(1-4)] by (simp add: run_simps)
  from tcp_io_loop_read [OF assms(2), of 2 s 2 "[0, 0]"] assms(3) obtain w1 where
    w1: "tcp_io (read_io E fd) [0, 0] 2 s = Done (2, ?l) (s\<lparr>os := w1\<rparr>)" "unread w1 = packet @ rest"
    by (auto simp: tcp_io_def frame_def simp del: store16.simps)
  have len: "unat (ntohs ?h (load16_at ?h ?l 0)) = ?n"
    using htons_bytes [of ?h "of_nat ?n"] assms(4)
    by (simp add: unat_of_nat16 del: store16.simps htons.simps flip: htons_bytes [of ?h])
  have m: "take ?m packet = take (length dst) packet" "drop ?m packet = drop (length dst) packet"
    "drop ?m dst = drop ?n dst" "?m \<le> ?n + length rest" by (auto simp: min_def)
  from tcp_io_loop_read [OF assms(2), of ?m "s\<lparr>os := w1\<rparr>" ?m dst] w1(2) m obtain w2 where
    w2: "tcp_io (read_io E fd) dst ?m (s\<lparr>os := w1\<rparr>)
      = Done (int ?m, take (length dst) packet @ drop ?n dst) (s\<lparr>os := w2\<rparr>)"
      "unread w2 = drop (length dst) packet @ rest"
    by (auto simp: tcp_io_def)
  show ?thesis
  proof (cases "?n \<le> length dst")
    case True
    then show ?thesis using c conn w1 w2 len assms(5)
      by (intro exI [of _ w2]) (simp add: network_recv_packet_def verify_socket_def run_simps Let_def del: store16.simps htons.simps)
  next
    case False
    let ?r = "?n - length dst"
    have "?r \<le> length (unread (os (s\<lparr>os := w2\<rparr>)))" using w2(2) by simp
    from tcp_io_loop_read [OF assms(2) this, of ?r "replicate ?r 0"] w2(2) False obtain w3 where
      "tcp_io (read_io E fd) (replicate ?r 0) ?r (s\<lparr>os := w2\<rparr>) = Done (int ?r, drop (length dst) packet) (s\<lparr>os := w3\<rparr>)"
      "unread w3 = rest" by (auto simp: tcp_io_def)
    with False show ?thesis using c conn w1 w2 len assms(5)
      by (intro exI [of _ w3]) (simp add: network_recv_packet_def verify_socket_def run_simps Let_def del: store16.simps htons.simps)
  qed
qed

section \<open>Properties\<close>

text \<open>A sequence of packets, and the packets a receiver collects in a buffer it uses again and again.\<close>

primrec send_all :: "'os env \<Rightarrow> ptr \<Rightarrow> byte list list \<Rightarrow> ('os sys, unit) prog" where
  "send_all E p [] = ret ()"
| "send_all E p (x # xs) = bind (network_send_packet E p x (length x)) (\<lambda>_. send_all E p xs)"

primrec recv_all :: "'os env \<Rightarrow> ptr \<Rightarrow> nat \<Rightarrow> byte list \<Rightarrow> ('os sys, byte list list) prog" where
  "recv_all E p 0 dst = ret []"
| "recv_all E p (Suc n) dst =
     bind (network_recv_packet E p dst (length dst)) (\<lambda>(rc, dst').
     bind (recv_all E p n dst') (\<lambda>xs. ret (take (nat rc) dst' # xs)))"

lemma send_all_frames:
  assumes "writes_to E fd sent" "link_up p fd s" "\<forall>x \<in> set xs. length x < 65536"
  shows "\<exists>w. send_all E p xs s = Done () (s\<lparr>os := w\<rparr>) \<and> sent w = sent (os s) @ concat (map frame xs)"
  using assms(2,3)
proof (induction xs arbitrary: s)
  case Nil
  show ?case by (intro exI [of _ "os s"]) (simp add: run_simps)
next
  case (Cons x xs)
  with send_packet_frame [OF _ assms(1), of p s "length x" x] obtain w where
    w: "network_send_packet E p x (length x) s = Done (int (length x)) (s\<lparr>os := w\<rparr>)" "sent w = sent (os s) @ frame x"
    by auto
  with Cons.IH [of "s\<lparr>os := w\<rparr>"] Cons.prems show ?case by (auto simp: run_simps)
qed

lemma recv_all_frames:
  assumes "reads_from E fd unread" "link_up p fd s" "unread (os s) = concat (map frame xs) @ rest"
    "\<forall>x \<in> set xs. length x \<le> length dst" "length dst < 65536" "0 < length dst"
  shows "\<exists>w. recv_all E p (length xs) dst s = Done xs (s\<lparr>os := w\<rparr>) \<and> unread w = rest"
  using assms(2-)
proof (induction xs arbitrary: s dst)
  case Nil
  then show ?case by (intro exI [of _ "os s"]) (simp add: run_simps)
next
  case (Cons x xs)
  from recv_packet_frame [OF Cons.prems(1) assms(1), of x "concat (map frame xs) @ rest" dst] Cons.prems obtain w where
    w: "network_recv_packet E p dst (length dst) s = Done (int (length x), x @ drop (length x) dst) (s\<lparr>os := w\<rparr>)"
      "unread w = concat (map frame xs) @ rest" by auto
  with Cons.IH [of "s\<lparr>os := w\<rparr>" "x @ drop (length x) dst"] Cons.prems obtain w' where
    "recv_all E p (length xs) (x @ drop (length x) dst) (s\<lparr>os := w\<rparr>) = Done xs (s\<lparr>os := w'\<rparr>)" "unread w' = rest"
    by auto
  with w show ?case by (auto simp: run_simps)
qed

text \<open>C13: Packets survive the framing. A sender whose connection is up sends any list of packets
  of at most 1500 bytes over a stream socket whose writes may be arbitrarily short; every
  receiver at the other end whose reads may be arbitrarily short collects exactly these packets,
  in order and with their boundaries, and leaves what follows them on the stream untouched. Both
  sides always finish.\<close>

theorem packets_survive_framing:
  assumes "writes_to E fd sent" "reads_from F fd' unread" "link_up p fd s"
    and "\<forall>x \<in> set packets. length x \<le> 1500" and "length dst = 1500"
  shows "\<exists>s' stream. send_all E p packets s = Done () s' \<and> sent (os s') = sent (os s) @ stream
    \<and> (\<forall>t rest. link_up q fd' t \<and> unread (os t) = stream @ rest \<longrightarrow>
        (\<exists>t'. recv_all F q (length packets) dst t = Done packets t' \<and> unread (os t') = rest \<and> ctxs t' = ctxs t))"
proof -
  have "\<forall>x \<in> set packets. length x < 65536" using assms(4) by fastforce
  from send_all_frames [OF assms(1,3) this] obtain w where
    w: "send_all E p packets s = Done () (s\<lparr>os := w\<rparr>)" "sent w = sent (os s) @ concat (map frame packets)" by blast
  moreover have "\<exists>t'. recv_all F q (length packets) dst t = Done packets t' \<and> unread (os t') = rest \<and> ctxs t' = ctxs t"
    if "link_up q fd' t" "unread (os t) = concat (map frame packets) @ rest" for t rest
    using recv_all_frames [OF assms(2) that, of dst] assms(4,5) by fastforce
  ultimately show ?thesis by (intro exI [of _ "s\<lparr>os := w\<rparr>"] exI [of _ "concat (map frame packets)"]) auto
qed

text \<open>An operating system for the witnesses: a loop-back stream that moves one byte per call.\<close>

definition loop_env :: "byte list env" where
  "loop_env = \<lparr>host_order = Little, os_socket = (\<lambda>w. (3, w)), os_pipe = (\<lambda>w. (Some (4, 5), w)),
     os_close = (\<lambda>_ w. w), os_bind = (\<lambda>_ _ _ w. (None, w)), os_listen = (\<lambda>_ _ w. (None, w)),
     os_getsockname = (\<lambda>_ _. Some (zero_sockaddr\<lparr>sa_family := 2, sin_port := 0x901f\<rparr>)),
     os_connect = (\<lambda>_ _ w. (Some ECONNREFUSED, w)), os_accept = (\<lambda>_ w. (None, w)),
     os_read = (\<lambda>_ _ w. if w = [] then ((0, []), w) else ((1, [hd w]), tl w)),
     os_write = (\<lambda>_ bs w. if bs = [] then (0, w) else (1, w @ [hd bs])),
     os_poll = (\<lambda>_ _ w. (if w = [] then Poll_ready 1 0 else Poll_ready 0 1, w)), os_ignore_sigpipe = (\<lambda>w. (True, w)), os_gethostname = (\<lambda>_. Some ''host''),
     os_gethostbyname = (\<lambda>_ _. Some 0x0100007f), lib_rand_r = (\<lambda>seed. (unat seed, seed + 1))\<rparr>"

abbreviation sample_peer :: sockaddr where
  "sample_peer \<equiv> zero_sockaddr\<lparr>sa_family := 2, sin_port := 0x5000, sin_addr := 0x0200007f\<rparr>"

text \<open>The sample context with the address of its peer, before and after the connection is made.\<close>

definition peered :: "bool \<Rightarrow> mysock_context" where
  "peered b = upd_impl (\<lambda>i. i\<lparr>connected := b\<rparr>) (upd_network (\<lambda>n. n\<lparr>peer_addr := sample_peer,
     peer_addr_len := 16, peer_addr_valid := True\<rparr>) sample_context)"

definition peered_sys :: "bool \<Rightarrow> 'os \<Rightarrow> 'os sys" where
  "peered_sys b w = \<lparr>ctxs = [Some (peered b)], global_ctx = Some 0 # replicate 63 None,
     listen_table = hash_empty 64, threads = [], os = w\<rparr>"

lemma peered_fields [simp]:
  "impl (peered b) = Some ((fresh_impl 0 3 4 5)\<lparr>connected := b\<rparr>)" "my_sd (peered b) = 0" "\<not> listening (peered b)"
  "network_state (peered b) = zero_network_context\<lparr>peer_addr := sample_peer, peer_addr_len := 16,
     peer_addr_valid := True, random_seed := 0x632a, is_reliable := True,
     impl_data := Some ((fresh_impl 0 3 4 5)\<lparr>connected := b\<rparr>)\<rparr>"
  "network_recv_queue (peered b) = empty_queue" "app_recv_queue (peered b) = empty_queue"
  "app_send_queue (peered b) = empty_queue"
  by (simp_all add: peered_def fresh_context_def upd_impl_def upd_network_def zero_context_def)

lemma peered_sys_ctxs [simp]: "ctxs (peered_sys b w) = [Some (peered b)]" "os (peered_sys b w) = w"
  "global_ctx (peered_sys b w) = Some 0 # replicate 63 None"
  by (simp_all add: peered_sys_def)

lemma loop_env_streams [simp]: "writes_to loop_env fd (\<lambda>w. w)" "reads_from loop_env fd (\<lambda>w. w)"
  by (auto simp: writes_to_def reads_from_def loop_env_def take_Suc drop_Suc neq_Nil_conv)

lemma peered_link_up: "link_up 0 3 (peered_sys True w)"
  by (simp add: link_up_def hload_def fresh_impl_def)

theorem packets_survive_framing_witness:
  "\<exists>s'. send_all loop_env 0 [[1, 2, 3], [], [4]] (peered_sys True []) = Done () s'
    \<and> (\<exists>t'. recv_all loop_env 0 3 (replicate 1500 0) s' = Done [[1, 2, 3], [], [4]] t' \<and> os t' = [])"
proof -
  define ps :: "byte list list" where "ps = [[1, 2, 3], [], [4]]"
  have ps: "length ps = 3" "\<forall>x \<in> set ps. length x \<le> 1500" "length (replicate 1500 0 :: byte list) = 1500"
    "\<forall>x \<in> set ps. length x < 65536" by (simp_all add: ps_def)
  from packets_survive_framing [where q = 0 and fd' = 3, OF loop_env_streams peered_link_up ps(2,3), unfolded ps(1), of "[]"]
  obtain s' stream where
    s': "send_all loop_env 0 ps (peered_sys True []) = Done () s'" "os s' = [] @ stream"
    and rcv: "\<And>t rest. link_up 0 3 t \<and> os t = stream @ rest \<Longrightarrow>
      \<exists>t'. recv_all loop_env 0 3 (replicate 1500 0) t = Done ps t' \<and> os t' = rest \<and> ctxs t' = ctxs t"
    unfolding peered_sys_ctxs by blast
  have "link_up 0 3 s'"
    using send_all_frames [OF loop_env_streams(1) peered_link_up ps(4), of "[]"] s'(1) peered_link_up by auto
  with rcv [of s' "[]"] s' show ?thesis unfolding ps_def by auto
qed

text \<open>A packet longer than the caller's buffer. \<open>_network_recv_packet\<close> fills the buffer with the
  first bytes, skips the others so that the next frame is in step, and returns the length of the
  packet, which is more than the buffer holds; a frame of length zero is reported as 0, like the
  end of the stream.\<close>

lemma recv_packet_reports_full_length:
  assumes "link_up p fd s" and "reads_from E fd unread" and "unread (os s) = frame packet @ rest"
    and "length packet < 65536" and "packet = [] \<or> length dst < length packet" and "0 < length dst"
  shows "\<exists>s' buf. network_recv_packet E p dst (length dst) s = Done (int (length packet), buf) s'
    \<and> buf = (if packet = [] then dst else take (length dst) packet) \<and> unread (os s') = rest \<and> ctxs s' = ctxs s"
  using recv_packet_frame [OF assms(1-4,6)] assms(5) by fastforce

text \<open>C35: A failed connect leaks the connection mutex. When the TCP connect fails,
  \<open>_network_send_packet\<close> returns -1 with connect\_lock held: every later send on this context
  waits forever, and releasing the context ends the process.\<close>

theorem failed_connect_leaks_lock:
  assumes "hload (ctxs s) p = Some c" and "wf_ctx p c" and "impl c = Some i"
    and "\<not> connected i" and "\<not> connect_lock i" and "0 \<le> socket i" and "0 < peer_addr_len (network_state c)"
    and "peer_addr_valid (network_state c)" and "sa_family (peer_addr (network_state c)) = 2"
    and "0 < sin_port (peer_addr (network_state c))"
    and "os_connect E (socket i) (peer_addr (network_state c)) (os s) = (Some e, w)"
  shows "\<exists>s'. network_send_packet E p src len s = Done (-1) s'
    \<and> (\<forall>src' len'. network_send_packet E p src' len' s' = Blocked s')
    \<and> mysock_free_context E p s' = Abort (Assertion ''mysock_impl.h'' 30)"
proof -
  let ?c = "upd_impl (\<lambda>i. i\<lparr>connect_lock := True\<rparr>) c"
  let ?s = "s\<lparr>os := w, ctxs := hstore (ctxs s) p ?c\<rparr>"
  have i: "impl ?c = Some (i\<lparr>connect_lock := True\<rparr>)" and n: "peer_addr_len (network_state ?c) = peer_addr_len (network_state c)"
    using assms(3) by (simp_all add: upd_impl_def upd_network_def)
  have l: "hload (ctxs ?s) p = Some ?c" using hload_bound [OF assms(1)] by (simp add: heap_simps)
  have "network_send_packet E p src len s = Done (-1) ?s"
    using assms hload_bound [OF assms(1)]
    by (simp add: network_send_packet_def verify_socket_def tcp_connect_def set_impl_def run_simps heap_simps)
  moreover have "network_send_packet E p src' len' ?s = Blocked ?s" for src' len'
    using assms(6,7) i l n by (simp add: network_send_packet_def verify_socket_def tcp_connect_def run_simps)
  moreover have "mysock_free_context E p ?s = Abort (Assertion ''mysock_impl.h'' 30)"
    by (rule free_context_locked [OF l wf_ctx_upd_impl [OF assms(2)] i]) simp_all
  ultimately show ?thesis by blast
qed

theorem failed_connect_leaks_lock_witness:
  "\<exists>s'. network_send_packet loop_env 0 [1] 1 (peered_sys False []) = Done (-1) s'
    \<and> network_send_packet loop_env 0 [2] 1 s' = Blocked s'"
proof -
  have c: "hload (ctxs (peered_sys False [])) 0 = Some (peered False)" by (simp add: hload_def)
  have "wf_ctx 0 (peered False)"
    by (simp add: peered_def wf_ctx_upd_impl wf_ctx_upd_network)
  from failed_connect_leaks_lock [OF c this peered_fields(1), of loop_env ECONNREFUSED "[]" "[1]" 1]
  show ?thesis by (auto simp: fresh_impl_def loop_env_def)
qed

end
