(* ===== verification/Network_Unreliable.thy ===== *)
theory Network_Unreliable
  imports Network_IO_Tcp
begin

text \<open>
  network.c: the simulation of an unreliable network on the sending side, and the receive
  call below stcp\_network\_recv. The contract of the sender is a channel that may drop, repeat
  and hold packets (\<open>channel\<close>); \<open>network_send\<close> refines it.
\<close>

section \<open>Operations\<close>

text \<open>The switch on the random number, and the function around it.\<close>

definition network_send_switch :: "'os env \<Rightarrow> ptr \<Rightarrow> byte list \<Rightarrow> nat \<Rightarrow> nat \<Rightarrow> ('os sys, int) prog" where
  "network_send_switch E p buf len r =
    (if r = 0 then ret (int len)
     else if r = 1 then
       bind (network_send_packet E p buf len) (\<lambda>_.
       network_send_packet E p buf len)
     else if r = 2 then
       bind (assert_at ''network.c'' 52 (len \<le> MAX_IP_PAYLOAD_LEN)) (\<lambda>_.
       bind (if length buf < len then abort (Out_of_bounds ''network.c'' 53) else ret ()) (\<lambda>_.
       bind (on_ctx ''network.c'' 53 p (modify (upd_network (\<lambda>n. n\<lparr>copy_buffer := take len buf @ drop len (copy_buffer n),
               copy_buf_len := len, copied := True\<rparr>)))) (\<lambda>_.
       ret (int len))))
     else if r = 3 then
       bind (get_ctx ''network.c'' 62 p) (\<lambda>c.
       bind (if copied (network_state c)
             then network_send_packet E p (copy_buffer (network_state c)) (copy_buf_len (network_state c))
             else network_send_packet E p buf len) (\<lambda>_.
       ret (int len)))
     else network_send_packet E p buf len)"

definition network_send :: "'os env \<Rightarrow> int \<Rightarrow> byte list \<Rightarrow> nat \<Rightarrow> ('os sys, int) prog" where
  "network_send E sd buf len =
     bind (mysock_get_context sd) (\<lambda>x.
     bind (the_or (Assertion ''network.c'' 30) x) (\<lambda>p.
     bind (get_ctx ''network.c'' 31 p) (\<lambda>c.
     if is_reliable (network_state c) then network_send_packet E p buf len
     else
     let (r, seed) = lib_rand_r E (random_seed (network_state c)) in
     bind (on_ctx ''network.c'' 36 p (modify (upd_network (\<lambda>n. n\<lparr>random_seed := seed\<rparr>)))) (\<lambda>_.
     network_send_switch E p buf len (r mod 32)))))"

definition network_recv :: "int \<Rightarrow> nat \<Rightarrow> ('os sys, nat \<times> byte list) prog" where
  "network_recv sd max_len =
     bind (mysock_get_context sd) (\<lambda>x.
     bind (the_or (Assertion ''network.c'' 90) x) (\<lambda>p.
     on_ctx ''network.c'' 91 p (on_network_recv_queue (mysock_dequeue_buffer max_len False))))"

section \<open>The channel\<close>

text \<open>
  The packets a send puts on the wire and the packet held afterwards, for the decision \<open>r\<close> of the
  random generator; and the packets a sequence of sends puts there.
\<close>

definition channel_step :: "nat \<Rightarrow> byte list option \<Rightarrow> byte list \<Rightarrow> byte list list \<times> byte list option" where
  "channel_step r hold packet =
     (if r = 0 then ([], hold)
      else if r = 1 then ([packet, packet], hold)
      else if r = 2 then ([], Some packet)
      else if r = 3 then ([case hold of None \<Rightarrow> packet | Some x \<Rightarrow> x], hold)
      else ([packet], hold))"

fun channel :: "(32 word \<Rightarrow> nat \<times> 32 word) \<Rightarrow> bool \<Rightarrow> 32 word \<Rightarrow> byte list option \<Rightarrow> byte list list \<Rightarrow> byte list list" where
  "channel rand reliable seed hold [] = []"
| "channel rand reliable seed hold (x # xs) =
     (if reliable then x # channel rand reliable seed hold xs
      else case channel_step (fst (rand seed) mod 32) hold x of
        (out, hold') \<Rightarrow> out @ channel rand reliable (snd (rand seed)) hold' xs)"

primrec network_send_all :: "'os env \<Rightarrow> int \<Rightarrow> byte list list \<Rightarrow> ('os sys, unit) prog" where
  "network_send_all E sd [] = ret ()"
| "network_send_all E sd (x # xs) = bind (network_send E sd x (length x)) (\<lambda>_. network_send_all E sd xs)"

definition held :: "network_context \<Rightarrow> byte list option" where
  "held n = (if copied n then Some (take (copy_buf_len n) (copy_buffer n)) else None)"

text \<open>The channel adds nothing of its own, and at most doubles the traffic.\<close>

lemma channel_step_set: "set (fst (channel_step r hold x)) \<subseteq> insert x (set_option hold)"
  "set_option (snd (channel_step r hold x)) \<subseteq> insert x (set_option hold)" "length (fst (channel_step r hold x)) \<le> 2"
  by (auto simp: channel_step_def split: option.splits)

lemma channel_set: "set (channel rand reliable seed hold xs) \<subseteq> set xs \<union> set_option hold"
proof (induction xs arbitrary: seed hold)
  case (Cons x xs)
  show ?case
  proof (cases reliable)
    case False
    let ?st = "channel_step (fst (rand seed) mod 32) hold x"
    from Cons.IH [of "snd (rand seed)" "snd ?st"] channel_step_set [of "fst (rand seed) mod 32" hold x] False
    show ?thesis by (auto simp: case_prod_unfold)
  qed (use Cons.IH in auto)
qed simp

lemma channel_length: "length (channel rand reliable seed hold xs) \<le> 2 * length xs"
proof (induction xs arbitrary: seed hold)
  case (Cons x xs)
  let ?st = "channel_step (fst (rand seed) mod 32) hold x"
  from Cons.IH [of seed hold] Cons.IH [of "snd (rand seed)" "snd ?st"] channel_step_set(3) [of "fst (rand seed) mod 32" hold x]
  show ?case by (cases reliable) (simp_all add: case_prod_unfold)
qed simp

lemma channel_reliable: "channel rand True seed hold xs = xs"
  by (induction xs) simp_all

section \<open>Refinement\<close>

lemma held_seed [simp]: "held (n\<lparr>random_seed := x\<rparr>) = held n"
  by (simp add: held_def)

text \<open>What a send needs: an open descriptor whose connection is up.\<close>

definition sendable :: "int \<Rightarrow> ptr \<Rightarrow> int \<Rightarrow> 'os sys \<Rightarrow> bool" where
  "sendable sd p fd s \<longleftrightarrow> open_socket sd p s \<and> link_up p fd s"

lemma sendable_os [simp]: "sendable sd p fd (s\<lparr>os := w\<rparr>) = sendable sd p fd s"
  by (simp add: sendable_def)

lemma sendable_store:
  assumes "sendable sd p fd s" "hload (ctxs s) p = Some c"
    "\<And>n. impl_data (f n) = impl_data n" "\<And>n. peer_addr_len (f n) = peer_addr_len n"
    "length (copy_buffer (f (network_state c))) = 1500" "copy_buf_len (f (network_state c)) \<le> 1500"
  shows "sendable sd p fd (s\<lparr>ctxs := hstore (ctxs s) p (upd_network f c)\<rparr>)"
proof -
  have "wf_ctx p c"
    using assms(1,2) by (auto simp: sendable_def elim: open_socketE)
  with assms(3,5,6) have "wf_ctx p (upd_network f c)" by (simp add: wf_ctx_def upd_network_def)
  then show ?thesis using assms open_socket_store [of sd p s p c "upd_network f c"] link_up_store [of p fd s c "upd_network f c"]
    by (simp add: sendable_def upd_network_def)
qed

lemma sendableE:
  assumes "sendable sd p fd s"
  obtains c where "hload (ctxs s) p = Some c" "link_up p fd s" "mysock_get_context sd s = Done (Some p) s"
    "length (copy_buffer (network_state c)) = 1500" "copy_buf_len (network_state c) \<le> 1500"
  using assms open_socket_context(1) [of sd p s]
  by (auto simp: sendable_def wf_ctx_def elim!: open_socketE)

definition net_of :: "ptr \<Rightarrow> 'os sys \<Rightarrow> network_context" where
  "net_of p s = (case hload (ctxs s) p of None \<Rightarrow> zero_network_context | Some c \<Rightarrow> network_state c)"

lemma net_of_os [simp]: "net_of p (s\<lparr>os := w\<rparr>) = net_of p s"
  by (simp add: net_of_def)

text \<open>What a context knows of its peer; no send changes it.\<close>

definition peer_of :: "network_context \<Rightarrow> sockaddr \<times> nat \<times> bool" where
  "peer_of n = (peer_addr n, peer_addr_len n, peer_addr_valid n)"

lemma network_send_reliable:
  assumes "sendable sd p fd s" "writes_to E fd sent" "length x \<le> 1500" "is_reliable (net_of p s)"
  shows "\<exists>w. network_send E sd x (length x) s = Done (int (length x)) (s\<lparr>os := w\<rparr>) \<and> sent w = sent (os s) @ frame x"
proof -
  from assms(1) obtain c where c: "hload (ctxs s) p = Some c" "link_up p fd s" "mysock_get_context sd s = Done (Some p) s"
    by (rule sendableE)
  from send_packet_frame [OF c(2) assms(2), of "length x" x] c(1,3) assms(3,4) show ?thesis
    by (simp add: network_send_def run_simps net_of_def)
qed

text \<open>The switch, in the state after the draw.\<close>

lemma network_send_switch_channel:
  assumes s: "sendable sd p fd s" and w: "writes_to E fd sent" and len: "length x \<le> 1500"
  shows "\<exists>s'. network_send_switch E p x (length x) r s = Done (int (length x)) s' \<and> sendable sd p fd s'
    \<and> is_reliable (net_of p s') = is_reliable (net_of p s) \<and> random_seed (net_of p s') = random_seed (net_of p s)
    \<and> peer_of (net_of p s') = peer_of (net_of p s)
    \<and> sent (os s') = sent (os s) @ concat (map frame (fst (channel_step r (held (net_of p s)) x)))
    \<and> held (net_of p s') = snd (channel_step r (held (net_of p s)) x)"
proof -
  from s obtain c where c: "hload (ctxs s) p = Some c" "length (copy_buffer (network_state c)) = 1500"
    "copy_buf_len (network_state c) \<le> 1500" by (rule sendableE)
  note n = net_of_def [of p s, unfolded c(1), simplified]
  have send: "\<exists>w'. network_send_packet E p y k (s\<lparr>os := v\<rparr>) = Done (int k) (s\<lparr>os := w'\<rparr>) \<and> sent w' = sent v @ frame (take k y)"
    if "k \<le> length y" "k \<le> 1500" for y k v
    using send_packet_frame [of p fd "s\<lparr>os := v\<rparr>" E sent k y] s w that by (simp add: sendable_def)
  have len': "length x \<le> length x" by simp
  consider "r = 0" | "r = 1" | "r = 2" | "r = 3" | "r > 3" by linarith
  then show ?thesis
  proof cases
    case 1
    with s show ?thesis by (simp add: network_send_switch_def channel_step_def run_simps)
  next
    case 2
    from send [OF len' len, of "os s"] obtain w1 where
      "network_send_packet E p x (length x) s = Done (int (length x)) (s\<lparr>os := w1\<rparr>)" "sent w1 = sent (os s) @ frame x" by auto
    with send [OF len' len, of w1] 2 s show ?thesis by (auto simp: network_send_switch_def channel_step_def run_simps)
  next
    case 3
    let ?f = "\<lambda>n. n\<lparr>copy_buffer := take (length x) x @ drop (length x) (copy_buffer n), copy_buf_len := length x, copied := True\<rparr>"
    have "sendable sd p fd (s\<lparr>ctxs := hstore (ctxs s) p (upd_network ?f c)\<rparr>)"
      by (rule sendable_store [OF s c(1)]) (use len c in simp_all)
    with 3 c len hload_bound [OF c(1)] show ?thesis
      by (simp add: network_send_switch_def channel_step_def run_simps n net_of_def heap_simps upd_network_def held_def peer_of_def)
  next
    case 4
    have hc: "held (network_state c) = (if copied (network_state c)
        then Some (take (copy_buf_len (network_state c)) (copy_buffer (network_state c))) else None)" by (simp add: held_def)
    from 4 hc send [OF len' len, of "os s"] send [of "copy_buf_len (network_state c)" "copy_buffer (network_state c)" "os s"] c s
    show ?thesis
      by (cases "copied (network_state c)") (auto simp: network_send_switch_def channel_step_def run_simps n)
  next
    case 5
    with send [OF len' len, of "os s"] s show ?thesis by (auto simp: network_send_switch_def channel_step_def run_simps)
  qed
qed

lemma network_send_step:
  assumes s: "sendable sd p fd s" and w: "writes_to E fd sent" and len: "length x \<le> 1500"
    and r: "\<not> is_reliable (net_of p s)" "lib_rand_r E (random_seed (net_of p s)) = (r, seed)"
  shows "\<exists>s'. network_send E sd x (length x) s = Done (int (length x)) s' \<and> sendable sd p fd s'
    \<and> \<not> is_reliable (net_of p s') \<and> random_seed (net_of p s') = seed
    \<and> peer_of (net_of p s') = peer_of (net_of p s)
    \<and> sent (os s') = sent (os s) @ concat (map frame (fst (channel_step (r mod 32) (held (net_of p s)) x)))
    \<and> held (net_of p s') = snd (channel_step (r mod 32) (held (net_of p s)) x)"
proof -
  from s obtain c where c: "hload (ctxs s) p = Some c" "mysock_get_context sd s = Done (Some p) s"
    "length (copy_buffer (network_state c)) = 1500" "copy_buf_len (network_state c) \<le> 1500" by (rule sendableE)
  have n: "net_of p s = network_state c" by (simp add: net_of_def c(1))
  let ?f = "\<lambda>n. n\<lparr>random_seed := seed\<rparr>"
  let ?s = "s\<lparr>ctxs := hstore (ctxs s) p (upd_network ?f c)\<rparr>"
  have s1: "sendable sd p fd ?s" by (rule sendable_store [OF s c(1)]) (simp_all add: c)
  have n1: "net_of p ?s = (network_state c)\<lparr>random_seed := seed\<rparr>"
    using hload_bound [OF c(1)] by (simp add: net_of_def upd_network_def heap_simps)
  have "network_send E sd x (length x) s = network_send_switch E p x (length x) (r mod 32) ?s"
    using c r n by (simp add: network_send_def run_simps)
  with network_send_switch_channel [OF s1 w len, of "r mod 32"] r n n1 show ?thesis by (simp add: peer_of_def)
qed

text \<open>One send is one step of the channel, in either mode.\<close>

abbreviation channel_from :: "'os env \<Rightarrow> network_context \<Rightarrow> byte list list \<Rightarrow> byte list list" where
  "channel_from E n \<equiv> channel (lib_rand_r E) (is_reliable n) (random_seed n) (held n)"

lemma network_send_out:
  assumes s: "sendable sd p fd s" and w: "writes_to E fd sent" and len: "length x \<le> 1500"
  shows "\<exists>s' out. network_send E sd x (length x) s = Done (int (length x)) s' \<and> sendable sd p fd s'
    \<and> peer_of (net_of p s') = peer_of (net_of p s) \<and> sent (os s') = sent (os s) @ concat (map frame out)
    \<and> (\<forall>xs. channel_from E (net_of p s) (x # xs) = out @ channel_from E (net_of p s') xs)"
proof (cases "is_reliable (net_of p s)")
  case True
  from network_send_reliable [OF s w len True] obtain w1 where
    "network_send E sd x (length x) s = Done (int (length x)) (s\<lparr>os := w1\<rparr>)" "sent w1 = sent (os s) @ frame x" by blast
  with s True show ?thesis by (intro exI [of _ "s\<lparr>os := w1\<rparr>"] exI [of _ "[x]"]) simp
next
  case False
  obtain r seed where r: "lib_rand_r E (random_seed (net_of p s)) = (r, seed)" by fastforce
  from network_send_step [OF s w len False r] obtain s1 where
    "network_send E sd x (length x) s = Done (int (length x)) s1" "sendable sd p fd s1"
    "\<not> is_reliable (net_of p s1)" "random_seed (net_of p s1) = seed" "peer_of (net_of p s1) = peer_of (net_of p s)"
    "sent (os s1) = sent (os s) @ concat (map frame (fst (channel_step (r mod 32) (held (net_of p s)) x)))"
    "held (net_of p s1) = snd (channel_step (r mod 32) (held (net_of p s)) x)" by blast
  with False r show ?thesis
    by (intro exI [of _ s1] exI [of _ "fst (channel_step (r mod 32) (held (net_of p s)) x)"]) (simp add: case_prod_unfold)
qed

lemma network_send_all_channel:
  assumes w: "writes_to E fd sent"
  shows "sendable sd p fd s \<Longrightarrow> \<forall>x \<in> set xs. length x \<le> 1500
    \<Longrightarrow> \<exists>s'. network_send_all E sd xs s = Done () s' \<and> sendable sd p fd s'
    \<and> sent (os s') = sent (os s) @ concat (map frame (channel_from E (net_of p s) xs))"
proof (induction xs arbitrary: s)
  case Nil
  then show ?case by (simp add: run_simps)
next
  case (Cons x xs)
  then have len: "length x \<le> 1500" by simp
  from network_send_out [OF Cons.prems(1) w len] obtain s1 out where
    s1: "network_send E sd x (length x) s = Done (int (length x)) s1" "sendable sd p fd s1"
    "sent (os s1) = sent (os s) @ concat (map frame out)"
    "\<forall>xs. channel_from E (net_of p s) (x # xs) = out @ channel_from E (net_of p s1) xs" by blast
  from Cons.IH [OF s1(2)] Cons.prems(2) obtain s' where
    "network_send_all E sd xs s1 = Done () s'" "sendable sd p fd s'"
    "sent (os s') = sent (os s1) @ concat (map frame (channel_from E (net_of p s1) xs))" by auto
  with s1 show ?case by (intro exI [of _ s']) (simp add: run_simps del: channel.simps)
qed

section \<open>Properties\<close>

lemma peered_sendable: "sendable 0 0 3 (peered_sys True w)"
proof -
  have "wf_ctx 0 (peered True)" by (simp add: peered_def wf_ctx_upd_impl wf_ctx_upd_network)
  moreover have "my_sd (peered True) = my_sd sample_context" by (simp add: fresh_context_def)
  moreover have "open_socket 0 0 sample_sys" "hload (ctxs sample_sys) 0 = Some sample_context"
    by (simp_all add: open_socket_def hload_def)
  ultimately have "open_socket 0 0 (sample_sys\<lparr>ctxs := hstore (ctxs sample_sys) 0 (peered True)\<rparr>)"
    by (intro open_socket_store)
  then have "open_socket 0 0 (peered_sys True w)"
    by (simp add: open_socket_def wf_sys_def peered_sys_def hstore_def)
  then show ?thesis using peered_link_up by (simp add: sendable_def)
qed

text \<open>The simulated network loses, repeats and reorders, but invents nothing: the packets on the
  wire after any sequence of sends are among those sent and the one held before; there are at
  most twice as many; on a reliable mysocket they are exactly those sent, in order.\<close>

lemma unreliable_network_invents_nothing:
  assumes "writes_to E fd sent" and "sendable sd p fd s" and "\<forall>x \<in> set xs. length x \<le> 1500"
  shows "\<exists>s' ys. network_send_all E sd xs s = Done () s' \<and> sent (os s') = sent (os s) @ concat (map frame ys)
    \<and> set ys \<subseteq> set xs \<union> set_option (held (net_of p s)) \<and> length ys \<le> 2 * length xs
    \<and> (is_reliable (net_of p s) \<longrightarrow> ys = xs)"
  using network_send_all_channel [OF assms] channel_set channel_length channel_reliable
  by (metis (full_types))

end
