(* ===== verification/Connection_Demux.thy ===== *)
theory Connection_Demux
  imports Network_IO_Tcp
begin

text \<open>
  connection_demux.c: the connection queue of each listening socket. An incoming SYN takes a
  slot of the queue and a new mysocket (\<open>mysock_enqueue_connection\<close>), the transport layer marks
  the connection complete (\<open>mysock_passive_connection_complete\<close>), the application takes it
  (\<open>mysock_dequeue_connection\<close>). The queues live in listen_table, keyed by the descriptor of the
  listening socket. \<open>_mysock_close_passive_socket\<close>, which calls myclose, is in Mysock_Api.

  A pointer to a listen_queue_t is the key of its entry: what the code writes through the pointer
  is an update of the entry. listen_lock and connection_lock make each call one step.
\<close>

section \<open>Access to listen_table\<close>

definition on_listen_table :: "((int, listen_queue) table, 'a) prog \<Rightarrow> ('os sys, 'a) prog" where
  "on_listen_table = zoom listen_table (\<lambda>t s. s\<lparr>listen_table := t\<rparr>)"

definition get_connection_queue :: "ptr \<Rightarrow> ('os sys, listen_queue option) prog" where
  "get_connection_queue p =
     bind (get_ctx ''connection_demux.c'' 403 p) (\<lambda>c.
     bind (assert_at ''connection_demux.c'' 403 (listening c \<and> bound c)) (\<lambda>_.
     on_listen_table (hash_lookup_ptr hash_default_hash_fn hash_default_key_equals MAX_NUM_CONNECTIONS (my_sd c))))"

text \<open>A write through the pointer to the queue of descriptor sd.\<close>

definition put_queue :: "int \<Rightarrow> listen_queue \<Rightarrow> ('os sys, unit) prog" where
  "put_queue sd q = on_listen_table (hash_set_entry hash_default_hash_fn hash_default_key_equals MAX_NUM_CONNECTIONS sd q)"

definition zero_request :: connect_request where
  "zero_request = \<lparr>req_peer_addr = zero_sockaddr, req_peer_addr_len = 0, req_sd = 0, req_user_data = None\<rparr>"

text \<open>INVALIDATE_CONNECT_REQUEST\<close>

definition invalid_request :: connect_request where
  "invalid_request = zero_request\<lparr>req_sd := -1\<rparr>"

definition zero_listen_queue :: listen_queue where
  "zero_listen_queue = \<lparr>local_port = 0, lq_max_len = 0, lq_cur_len = 0, connection_queue = [],
     queue_block = 0, completed_queue = []\<rparr>"

section \<open>Accepting a connection\<close>

definition mysock_dequeue_connection :: "ptr \<Rightarrow> ('os sys, ptr) prog" where
  "mysock_dequeue_connection p =
     bind (get_ctx ''connection_demux.c'' 81 p) (\<lambda>c.
     bind (assert_at ''connection_demux.c'' 81 (listening c \<and> bound c)) (\<lambda>_.
     bind (get_connection_queue p) (\<lambda>x.
     bind (the_or (Assertion ''connection_demux.c'' 86) x) (\<lambda>q.
     case completed_queue q of
       [] \<Rightarrow> block
     | (blk, k) # rest \<Rightarrow>
       if blk \<noteq> queue_block q \<or> k \<ge> length (connection_queue q) then abort (Dangling ''connection_demux.c'' 105)
       else
       bind (mysock_get_context (req_sd (connection_queue q ! k))) (\<lambda>y.
       bind (the_or (Assertion ''connection_demux.c'' 106) y) (\<lambda>new_ctx.
       bind (assert_at ''connection_demux.c'' 113 (lq_cur_len q > 0)) (\<lambda>_.
       bind (put_queue (my_sd c) (q\<lparr>completed_queue := rest,
               connection_queue := (connection_queue q)[k := invalid_request],
               lq_cur_len := lq_cur_len q - 1\<rparr>)) (\<lambda>_.
       ret new_ctx))))))))"

section \<open>An incoming SYN\<close>

text \<open>Outside a debugging build \<open>_debug_print_connection\<close> leaves only its assertion.\<close>

definition debug_print_connection :: "sockaddr \<Rightarrow> ('s, unit) prog" where
  "debug_print_connection peer = assert_at ''connection_demux.c'' 125 (sa_family peer = AF_INET)"

text \<open>The search for a queued request of the same peer.\<close>

fun retransmission :: "endian \<Rightarrow> sockaddr \<Rightarrow> nat \<Rightarrow> connect_request list \<Rightarrow> ('s, bool) prog" where
  "retransmission host peer peer_len [] = ret False"
| "retransmission host peer peer_len (r # rs) =
     bind (assert_at ''connection_demux.c'' 179 (req_sd r = -1 \<or> int peer_len = req_peer_addr_len r)) (\<lambda>_.
     if take peer_len (sockaddr_bytes host (req_peer_addr r)) = take peer_len (sockaddr_bytes host peer)
     then ret True
     else retransmission host peer peer_len rs)"

abbreviation (input) TH_SYN :: byte where "TH_SYN \<equiv> 2"

text \<open>The last steps for a new connection: the accepted socket, the threads, the SYN itself.\<close>

definition hand_over_connection :: "'os env \<Rightarrow> ptr \<Rightarrow> ptr \<Rightarrow> int \<Rightarrow> byte list \<Rightarrow> nat \<Rightarrow> nat option \<Rightarrow> ('os sys, unit) prog" where
  "hand_over_connection E p new_ctx sd packet packet_len user_data =
     bind (network_update_passive_state E new_ctx p user_data) (\<lambda>_.
     bind (mysock_transport_init E sd False) (\<lambda>_.
     on_ctx ''connection_demux.c'' 245 new_ctx
       (on_network_recv_queue (mysock_enqueue_buffer (Some packet) packet_len))))"

text \<open>The new context of a request in slot k, from the allocation of its mysocket on.\<close>

definition establish_connection ::
    "'os env \<Rightarrow> ptr \<Rightarrow> byte list \<Rightarrow> nat \<Rightarrow> sockaddr \<Rightarrow> nat \<Rightarrow> nat option \<Rightarrow> listen_queue \<Rightarrow> nat \<Rightarrow> ('os sys, bool) prog" where
  "establish_connection E p packet packet_len peer peer_len user_data q k =
     bind (get_ctx ''connection_demux.c'' 211 p) (\<lambda>c.
     bind (assert_at ''connection_demux.c'' 209 (req_sd (connection_queue q ! k) = -1)) (\<lambda>_.
     bind (mysock_new_mysocket E (is_reliable (network_state c))) (\<lambda>r.
     case r of
       Inl e \<Rightarrow>
         bind (debug_print_connection peer) (\<lambda>_.
         bind (put_queue (my_sd c) (q\<lparr>connection_queue := (connection_queue q)[k := invalid_request],
                 lq_cur_len := lq_cur_len q - 1\<rparr>)) (\<lambda>_.
         ret False))
     | Inr sd \<Rightarrow>
         bind (put_queue (my_sd c) (q\<lparr>connection_queue := (connection_queue q)[k :=
                 (connection_queue q ! k)\<lparr>req_sd := sd\<rparr>]\<rparr>)) (\<lambda>_.
         bind (ctx_of ''connection_demux.c'' 221 sd) (\<lambda>new_ctx.
         bind (on_ctx ''connection_demux.c'' 222 new_ctx (modify (\<lambda>d. upd_network (\<lambda>n. n\<lparr>peer_addr := peer,
                 peer_addr_len := peer_len, peer_addr_valid := True\<rparr>) (d\<lparr>listen_sd := my_sd c\<rparr>)))) (\<lambda>_.
         bind (put_queue (my_sd c) (q\<lparr>connection_queue := (connection_queue q)[k :=
                 \<lparr>req_peer_addr = peer, req_peer_addr_len = int peer_len, req_sd = sd, req_user_data = user_data\<rparr>]\<rparr>)) (\<lambda>_.
         bind (debug_print_connection peer) (\<lambda>_.
         bind (hand_over_connection E p new_ctx sd packet packet_len user_data) (\<lambda>_.
         ret True)))))))))"

definition mysock_enqueue_connection ::
    "'os env \<Rightarrow> ptr \<Rightarrow> byte list \<Rightarrow> nat \<Rightarrow> sockaddr \<Rightarrow> nat \<Rightarrow> nat option \<Rightarrow> ('os sys, bool) prog" where
  "mysock_enqueue_connection E p packet packet_len peer peer_len user_data =
     bind (get_ctx ''connection_demux.c'' 153 p) (\<lambda>c.
     bind (assert_at ''connection_demux.c'' 153 (listening c \<and> bound c)) (\<lambda>_.
     bind (assert_at ''connection_demux.c'' 155 (peer_len > 0)) (\<lambda>_.
     if packet_len < sizeof_tcphdr
     then bind (debug_print_connection peer) (\<lambda>_. ret False)
     else if length packet < packet_len then abort (Out_of_bounds ''connection_demux.c'' 162)
     else if packet ! off_th_flags AND TH_SYN = 0
     then bind (debug_print_connection peer) (\<lambda>_. ret False)
     else
     bind (get_connection_queue p) (\<lambda>x.
     case x of
       None \<Rightarrow> bind (debug_print_connection peer) (\<lambda>_. ret False)
     | Some q \<Rightarrow>
         if length (connection_queue q) < lq_max_len q then abort (Out_of_bounds ''connection_demux.c'' 177)
         else
         bind (retransmission (host_order E) peer peer_len (take (lq_max_len q) (connection_queue q))) (\<lambda>dup.
         if dup then bind (debug_print_connection peer) (\<lambda>_. ret False)
         else if lq_cur_len q < lq_max_len q
         then bind (the_or (Assertion ''connection_demux.c'' 200)
                     (find_pos (\<lambda>r. req_sd r < 0) (take (lq_max_len q) (connection_queue q)))) (\<lambda>k.
              let q' = q\<lparr>lq_cur_len := Suc (lq_cur_len q)\<rparr> in
              bind (put_queue (my_sd c) q') (\<lambda>_.
              establish_connection E p packet packet_len peer peer_len user_data q' k))
         else bind (debug_print_connection peer) (\<lambda>_. ret False))))))"

section \<open>Completion, and the length of the queue\<close>

definition mysock_passive_connection_complete :: "ptr \<Rightarrow> ('os sys, unit) prog" where
  "mysock_passive_connection_complete p =
     bind (get_ctx ''connection_demux.c'' 267 p) (\<lambda>c.
     bind (assert_at ''connection_demux.c'' 267 (listen_sd c \<ge> 0)) (\<lambda>_.
     bind (mysock_get_context (listen_sd c)) (\<lambda>y.
     bind (the_or (Assertion ''connection_demux.c'' 403) y) (\<lambda>lp.
     bind (get_connection_queue lp) (\<lambda>x.
     case x of
       None \<Rightarrow> ret ()
     | Some q \<Rightarrow>
         if length (connection_queue q) < lq_max_len q then abort (Out_of_bounds ''connection_demux.c'' 277)
         else
         bind (the_or (Assertion ''connection_demux.c'' 281)
                 (find_pos (\<lambda>r. req_sd r = my_sd c) (take (lq_max_len q) (connection_queue q)))) (\<lambda>k.
         put_queue (listen_sd c) (q\<lparr>completed_queue := completed_queue q @ [(queue_block q, k)]\<rparr>)))))))"

text \<open>
  realloc gives the array a new address: the pointers of the completed queue keep the number of
  the old one. backlog is converted to unsigned, and max_len wraps.
\<close>

definition mysock_set_backlog :: "'os env \<Rightarrow> ptr \<Rightarrow> 32 word \<Rightarrow> ('os sys, unit) prog" where
  "mysock_set_backlog E p backlog =
     bind (get_ctx ''connection_demux.c'' 316 p) (\<lambda>c.
     bind (assert_at ''connection_demux.c'' 316 (listening c \<and> bound c)) (\<lambda>_.
     bind (network_get_port E p) (\<lambda>port.
     let max_len = unat (backlog + 1); lport = unat (ntohs (host_order E) port) in
     bind (assert_at ''connection_demux.c'' 319 (lport > 0)) (\<lambda>_.
     bind (get_connection_queue p) (\<lambda>x.
     bind (case x of
             Some q \<Rightarrow> ret q
           | None \<Rightarrow>
               bind (on_listen_table (hash_insert hash_default_hash_fn hash_default_key_equals MAX_NUM_CONNECTIONS
                       (my_sd c) (zero_listen_queue\<lparr>local_port := lport\<rparr>))) (\<lambda>_.
               ret (zero_listen_queue\<lparr>local_port := lport\<rparr>))) (\<lambda>q.
     bind (assert_at ''connection_demux.c'' 339 (local_port q = lport)) (\<lambda>_.
     put_queue (my_sd c)
       (if max_len > lq_max_len q
        then q\<lparr>connection_queue := take (lq_max_len q) (connection_queue q)
                 @ replicate (max_len - lq_max_len q) invalid_request,
               queue_block := Suc (queue_block q), lq_max_len := max_len\<rparr>
        else q\<lparr>lq_max_len := max_len\<rparr>))))))))"

section \<open>The queue of a listening socket\<close>

definition listen_map :: "'os sys \<Rightarrow> int \<rightharpoonup> listen_queue" where
  "listen_map s = table_map hash_default_hash_fn 64 (listen_table s)"

lemma put_queue_run:
  assumes "wf_sys s" "0 \<le> sd"
  shows "\<exists>t. put_queue sd q s = Done () (s\<lparr>listen_table := t\<rparr>) \<and> wf_sys (s\<lparr>listen_table := t\<rparr>)
    \<and> listen_map (s\<lparr>listen_table := t\<rparr>) = (listen_map s)(sd \<mapsto> q)"
proof -
  have "wf_table hash_default_hash_fn 64 (listen_table s)" "valid_key sd"
    using assms by (simp_all add: wf_sys_def valid_key_def)
  from lt.pm.put_spec [OF this, of q] assms(1) show ?thesis
    by (auto simp: put_queue_def on_listen_table_def zoom_def listen_map_def wf_sys_def)
qed

text \<open>A listening descriptor and its queue.\<close>

definition listener :: "int \<Rightarrow> ptr \<Rightarrow> listen_queue \<Rightarrow> 'os sys \<Rightarrow> bool" where
  "listener sd p q s \<longleftrightarrow> open_socket sd p s \<and> listen_map s sd = Some q \<and> (case hload (ctxs s) p of None \<Rightarrow> False
     | Some c \<Rightarrow> listening c \<and> bound c)"

lemma listenerE:
  assumes "listener sd p q s"
  obtains c where "open_socket sd p s" "hload (ctxs s) p = Some c" "my_sd c = sd" "listening c" "bound c" "0 \<le> sd"
    "wf_sys s" "listen_map s sd = Some q"
  using assms by (auto simp: listener_def open_socket_def split: option.splits)
    (metis assms listener_def open_socketE option.inject)

lemma get_connection_queue_run:
  assumes "listener sd p q s"
  shows "get_connection_queue p s = Done (Some q) s"
proof -
  from assms obtain c where c: "hload (ctxs s) p = Some c" "my_sd c = sd" "listening c" "bound c" "0 \<le> sd"
    "wf_sys s" "listen_map s sd = Some q" by (rule listenerE)
  have "wf_table hash_default_hash_fn 64 (listen_table s)" "valid_key sd"
    using c(5,6) by (simp_all add: wf_sys_def valid_key_def)
  from lt.pm.look_spec [OF this] c show ?thesis
    by (simp add: get_connection_queue_def on_listen_table_def zoom_def run_simps listen_map_def)
qed

text \<open>The contexts do not see the table.\<close>

lemma open_socket_table: "open_socket sd p s \<Longrightarrow> wf_sys (s\<lparr>listen_table := t\<rparr>) \<Longrightarrow> open_socket sd p (s\<lparr>listen_table := t\<rparr>)"
  by (simp add: open_socket_def)

lemma listener_put:
  assumes "listener sd p q s"
  shows "\<exists>s'. put_queue sd q' s = Done () s' \<and> listener sd p q' s' \<and> ctxs s' = ctxs s \<and> global_ctx s' = global_ctx s
    \<and> threads s' = threads s \<and> os s' = os s \<and> (\<forall>d pd. open_socket d pd s \<longrightarrow> open_socket d pd s')
    \<and> (\<forall>x. x \<noteq> sd \<longrightarrow> listen_map s' x = listen_map s x)"
proof -
  from assms obtain c where c: "open_socket sd p s" "hload (ctxs s) p = Some c" "listening c" "bound c" "0 \<le> sd" "wf_sys s"
    by (rule listenerE)
  from put_queue_run [OF c(6,5), of q'] obtain t where
    t: "put_queue sd q' s = Done () (s\<lparr>listen_table := t\<rparr>)" "wf_sys (s\<lparr>listen_table := t\<rparr>)"
    "listen_map (s\<lparr>listen_table := t\<rparr>) = (listen_map s)(sd \<mapsto> q')" by blast
  then show ?thesis using c open_socket_table
    by (intro exI [of _ "s\<lparr>listen_table := t\<rparr>"]) (auto simp: listener_def)
qed

text \<open>
  A well-formed queue: as many slots as the backlog allows, cur_len of them taken, free slots
  cleared, distinct descriptors, and completed entries that point to distinct taken slots.
\<close>

definition wf_lq :: "listen_queue \<Rightarrow> bool" where
  "wf_lq q \<longleftrightarrow> length (connection_queue q) = lq_max_len q
     \<and> lq_cur_len q = length (filter (\<lambda>r. req_sd r \<noteq> -1) (connection_queue q))
     \<and> (\<forall>r \<in> set (connection_queue q). req_sd r \<ge> 0 \<or> r = invalid_request)
     \<and> distinct (filter (\<lambda>d. d \<noteq> -1) (map req_sd (connection_queue q)))
     \<and> distinct (completed_queue q)
     \<and> (\<forall>(b, k) \<in> set (completed_queue q). b = queue_block q \<and> k < lq_max_len q \<and> req_sd (connection_queue q ! k) \<noteq> -1)"

text \<open>The descriptors waiting in the queue, and those ready to be accepted, in order.\<close>

definition pending :: "listen_queue \<Rightarrow> int list" where
  "pending q = filter (\<lambda>d. d \<noteq> -1) (map req_sd (connection_queue q))"

definition ready :: "listen_queue \<Rightarrow> int list" where
  "ready q = map (\<lambda>(b, k). req_sd (connection_queue q ! k)) (completed_queue q)"

lemma wf_lq_cur_len: "wf_lq q \<Longrightarrow> lq_cur_len q = length (pending q) \<and> lq_cur_len q \<le> lq_max_len q"
  by (auto simp: wf_lq_def pending_def filter_map comp_def)
    (metis length_filter_le)

lemma filter_update:
  assumes "k < length xs"
  shows "filter P xs = filter P (take k xs) @ (if P (xs ! k) then [xs ! k] else []) @ filter P (drop (Suc k) xs)"
    and "filter P (xs[k := y]) = filter P (take k xs) @ (if P y then [y] else []) @ filter P (drop (Suc k) xs)"
proof -
  have "filter P xs = filter P (take k xs @ xs ! k # drop (Suc k) xs)" by (simp add: id_take_nth_drop [OF assms, symmetric])
  then show "filter P xs = filter P (take k xs) @ (if P (xs ! k) then [xs ! k] else []) @ filter P (drop (Suc k) xs)" by simp
  show "filter P (xs[k := y]) = filter P (take k xs) @ (if P y then [y] else []) @ filter P (drop (Suc k) xs)"
    using assms by (simp add: upd_conv_take_nth_drop)
qed

lemma invalid_request_sd [simp]: "req_sd invalid_request = -1"
  by (simp add: invalid_request_def)

lemma wf_lq_slot:
  assumes "wf_lq q" "k < length (connection_queue q)"
  shows "req_sd (connection_queue q ! k) \<noteq> -1 \<longleftrightarrow> 0 \<le> req_sd (connection_queue q ! k)"
  using assms nth_mem [OF assms(2)] by (fastforce simp: wf_lq_def)

text \<open>Taking the first completed connection out of the queue.\<close>

lemma wf_lq_accept:
  assumes wf: "wf_lq q" and cq: "completed_queue q = (b, k) # rest"
  defines "q' \<equiv> q\<lparr>completed_queue := rest, connection_queue := (connection_queue q)[k := invalid_request],
    lq_cur_len := lq_cur_len q - 1\<rparr>" and "d \<equiv> req_sd (connection_queue q ! k)"
  shows "b = queue_block q" "k < length (connection_queue q)" "0 \<le> d" "0 < lq_cur_len q" "wf_lq q'"
    "ready q = d # ready q'" "set (pending q') = set (pending q) - {d}"
proof -
  let ?xs = "connection_queue q"
  let ?P = "\<lambda>r. req_sd r \<noteq> -1" and ?N = "\<lambda>d. d \<noteq> (-1 :: int)"
  from wf cq show b: "b = queue_block q" and k: "k < length ?xs" and dn: "0 \<le> d"
    using wf_lq_slot [OF wf] by (auto simp: wf_lq_def d_def)
  from dn have P: "?P (?xs ! k)" by (simp add: d_def)
  have k': "k < length (map req_sd ?xs)" using k by simp
  have split: "filter ?P ?xs = filter ?P (take k ?xs) @ [?xs ! k] @ filter ?P (drop (Suc k) ?xs)"
    "filter ?P (?xs[k := invalid_request]) = filter ?P (take k ?xs) @ filter ?P (drop (Suc k) ?xs)"
    using filter_update [OF k, of ?P] P by simp_all
  have msplit: "filter ?N (map req_sd ?xs) = filter ?N (take k (map req_sd ?xs)) @ [d] @ filter ?N (drop (Suc k) (map req_sd ?xs))"
    "filter ?N (map req_sd (?xs[k := invalid_request])) = filter ?N (take k (map req_sd ?xs)) @ filter ?N (drop (Suc k) (map req_sd ?xs))"
    using filter_update [OF k', of ?N] P k by (simp_all add: map_update d_def)
  show len: "0 < lq_cur_len q" using wf split(1) by (simp add: wf_lq_def)
  have ne: "j \<noteq> k" if "(b', j) \<in> set rest" for b' j
    using wf cq that b by (auto simp: wf_lq_def)
  have r: "(\<lambda>(b, j). req_sd (?xs[k := invalid_request] ! j)) x = (\<lambda>(b, j). req_sd (?xs ! j)) x" if "x \<in> set rest" for x
    using that ne [of "fst x" "snd x"] by (simp add: case_prod_unfold)
  show "wf_lq q'"
    unfolding wf_lq_def q'_def
  proof (simp, intro conjI)
    show "length ?xs = lq_max_len q" "lq_cur_len q - Suc 0 = length (filter ?P (?xs[k := invalid_request]))"
      using wf split by (simp_all add: wf_lq_def)
    show "\<forall>r \<in> set (?xs[k := invalid_request]). 0 \<le> req_sd r \<or> r = invalid_request"
      using wf set_update_subset_insert [of ?xs k invalid_request] by (fastforce simp: wf_lq_def)
    show "distinct (filter ?N (map req_sd (?xs[k := invalid_request])))"
      using wf msplit by (simp add: wf_lq_def)
    show "distinct rest" using wf cq by (simp add: wf_lq_def)
    show "\<forall>x \<in> set rest. case x of (b, k') \<Rightarrow> b = queue_block q \<and> k' < lq_max_len q \<and> req_sd (?xs[k := invalid_request] ! k') \<noteq> -1"
      using wf cq ne by (fastforce simp: wf_lq_def)
  qed
  show "ready q = d # ready q'" using r by (simp add: ready_def cq q'_def d_def)
  show "set (pending q') = set (pending q) - {d}"
    using wf msplit by (auto simp: pending_def q'_def wf_lq_def)
qed

text \<open>Marking a waiting connection complete.\<close>

lemma wf_lq_complete:
  assumes wf: "wf_lq q" and k: "find_pos (\<lambda>r. req_sd r = d) (take (lq_max_len q) (connection_queue q)) = Some k"
    and d: "0 \<le> d" "d \<notin> set (ready q)"
  defines "q' \<equiv> q\<lparr>completed_queue := completed_queue q @ [(queue_block q, k)]\<rparr>"
  shows "wf_lq q'" "ready q' = ready q @ [d]" "pending q' = pending q"
proof -
  have len: "take (lq_max_len q) (connection_queue q) = connection_queue q" using wf by (simp add: wf_lq_def)
  from find_pos_Some [OF k] have kd: "k < length (connection_queue q)" "req_sd (connection_queue q ! k) = d" by (simp_all add: len)
  have "(queue_block q, k) \<notin> set (completed_queue q)" using d(2) kd by (auto simp: ready_def)
  then show "wf_lq q'" using wf kd d(1) by (auto simp: wf_lq_def q'_def)
  show "ready q' = ready q @ [d]" "pending q' = pending q" using kd by (simp_all add: ready_def pending_def q'_def)
qed

lemma pending_pos:
  assumes "wf_lq q" "d \<in> set (pending q)"
  obtains k where "find_pos (\<lambda>r. req_sd r = d) (take (lq_max_len q) (connection_queue q)) = Some k"
proof -
  have "\<not> (\<forall>r \<in> set (take (lq_max_len q) (connection_queue q)). req_sd r \<noteq> d)"
    using assms by (auto simp: pending_def wf_lq_def)
  then have "find_pos (\<lambda>r. req_sd r = d) (take (lq_max_len q) (connection_queue q)) \<noteq> None"
    by (simp add: find_pos_None)
  with that show ?thesis by blast
qed

text \<open>A new request in a free slot.\<close>

lemma wf_lq_enqueue:
  assumes wf: "wf_lq q" and k: "k < length (connection_queue q)" "req_sd (connection_queue q ! k) < 0"
    and d: "0 \<le> req_sd r" "req_sd r \<notin> set (pending q)"
  defines "q' \<equiv> q\<lparr>lq_cur_len := Suc (lq_cur_len q), connection_queue := (connection_queue q)[k := r]\<rparr>"
  shows "wf_lq q'" "ready q' = ready q" "set (pending q') = insert (req_sd r) (set (pending q))"
proof -
  let ?xs = "connection_queue q" and ?P = "\<lambda>r. req_sd r \<noteq> -1" and ?N = "\<lambda>d. d \<noteq> (-1 :: int)"
  have free: "req_sd (?xs ! k) = -1" using wf_lq_slot [OF wf k(1)] k(2) by auto
  have k': "k < length (map req_sd ?xs)" using k by simp
  note split = filter_update [OF k(1), of ?P] filter_update [OF k', of ?N]
  have msplit: "filter ?N (map req_sd ?xs) = filter ?N (take k (map req_sd ?xs)) @ filter ?N (drop (Suc k) (map req_sd ?xs))"
    "filter ?N (map req_sd (?xs[k := r])) = filter ?N (take k (map req_sd ?xs)) @ [req_sd r] @ filter ?N (drop (Suc k) (map req_sd ?xs))"
    using split(3) split(4) [of "req_sd r"] k free d by (simp_all add: map_update)
  have ne: "j \<noteq> k" if "(b, j) \<in> set (completed_queue q)" for b j
    using wf free that by (auto simp: wf_lq_def)
  show "wf_lq q'" unfolding wf_lq_def q'_def
  proof (simp, intro conjI)
    show "length ?xs = lq_max_len q" "Suc (lq_cur_len q) = length (filter ?P (?xs[k := r]))"
      using wf split(1) split(2) [of r] free d by (simp_all add: wf_lq_def)
    show "\<forall>r' \<in> set (?xs[k := r]). 0 \<le> req_sd r' \<or> r' = invalid_request"
      using wf d set_update_subset_insert [of ?xs k r] by (fastforce simp: wf_lq_def)
    show "distinct (filter ?N (map req_sd (?xs[k := r])))"
      using wf d(2) unfolding wf_lq_def pending_def msplit by auto
    show "distinct (completed_queue q)" using wf by (simp add: wf_lq_def)
    show "\<forall>x \<in> set (completed_queue q). case x of (b, j) \<Rightarrow> b = queue_block q \<and> j < lq_max_len q \<and> req_sd (?xs[k := r] ! j) \<noteq> -1"
      using wf ne by (fastforce simp: wf_lq_def)
  qed
  have "(\<lambda>(b, j). req_sd (?xs[k := r] ! j)) x = (\<lambda>(b, j). req_sd (?xs ! j)) x" if "x \<in> set (completed_queue q)" for x
    using that ne [of "fst x" "snd x"] by (simp add: case_prod_unfold)
  then show "ready q' = ready q" by (simp add: ready_def q'_def)
  show "set (pending q') = insert (req_sd r) (set (pending q))"
    unfolding pending_def q'_def using msplit by auto
qed

section \<open>Accepting and completing, on the process\<close>

lemma dequeue_connection_ready:
  assumes l: "listener sd p q s" and wf: "wf_lq q" and r: "ready q = d # ds" and o: "open_socket d pd s"
  shows "\<exists>s' q'. mysock_dequeue_connection p s = Done pd s' \<and> listener sd p q' s' \<and> wf_lq q' \<and> ready q' = ds
    \<and> set (pending q') = set (pending q) - {d} \<and> ctxs s' = ctxs s \<and> global_ctx s' = global_ctx s
    \<and> (\<forall>e pe. open_socket e pe s \<longrightarrow> open_socket e pe s')"
proof -
  from l obtain c where c: "hload (ctxs s) p = Some c" "my_sd c = sd" "listening c" "bound c" by (rule listenerE)
  from r obtain b k rest where cq: "completed_queue q = (b, k) # rest"
    by (cases "completed_queue q") (auto simp: ready_def)
  let ?q = "q\<lparr>completed_queue := rest, connection_queue := (connection_queue q)[k := invalid_request],
    lq_cur_len := lq_cur_len q - 1\<rparr>"
  note acc = wf_lq_accept [OF wf cq]
  have d: "req_sd (connection_queue q ! k) = d" "ready ?q = ds" using r acc(6) by simp_all
  from listener_put [OF l, of ?q] obtain s' where
    s': "put_queue sd ?q s = Done () s'" "listener sd p ?q s'" "ctxs s' = ctxs s" "global_ctx s' = global_ctx s"
    "\<forall>e pe. open_socket e pe s \<longrightarrow> open_socket e pe s'" by blast
  have "mysock_dequeue_connection p s = Done pd s'"
    using c cq acc(1,2,4) d(1) get_connection_queue_run [OF l] open_socket_context(1) [OF o] s'(1)
    by (simp add: mysock_dequeue_connection_def run_simps)
  then show ?thesis using s' acc(5,7) d by blast
qed

lemma dequeue_connection_wait:
  assumes l: "listener sd p q s" and r: "ready q = []"
  shows "mysock_dequeue_connection p s = Blocked s"
proof -
  from l obtain c where c: "hload (ctxs s) p = Some c" "my_sd c = sd" "listening c" "bound c" by (rule listenerE)
  with get_connection_queue_run [OF l] r show ?thesis
    by (simp add: mysock_dequeue_connection_def run_simps ready_def)
qed

lemma passive_connection_complete_run:
  assumes l: "listener sd p q s" and wf: "wf_lq q" and d: "d \<in> set (pending q)" "d \<notin> set (ready q)"
    and o: "open_socket d pd s" "hload (ctxs s) pd = Some c" "listen_sd c = sd"
  shows "\<exists>s' q'. mysock_passive_connection_complete pd s = Done () s' \<and> listener sd p q' s' \<and> wf_lq q'
    \<and> ready q' = ready q @ [d] \<and> pending q' = pending q \<and> ctxs s' = ctxs s \<and> global_ctx s' = global_ctx s
    \<and> (\<forall>e pe. open_socket e pe s \<longrightarrow> open_socket e pe s')"
proof -
  from l have sd: "open_socket sd p s" "0 \<le> sd" by (auto elim: listenerE)
  from o have my: "my_sd c = d" by (auto elim: open_socketE)
  have len: "length (connection_queue q) = lq_max_len q" "0 \<le> d"
    using wf d(1) by (auto simp: wf_lq_def pending_def)
  from pending_pos [OF wf d(1)] obtain k where
    k: "find_pos (\<lambda>r. req_sd r = d) (take (lq_max_len q) (connection_queue q)) = Some k" .
  let ?q = "q\<lparr>completed_queue := completed_queue q @ [(queue_block q, k)]\<rparr>"
  from listener_put [OF l, of ?q] obtain s' where
    s': "put_queue sd ?q s = Done () s'" "listener sd p ?q s'" "ctxs s' = ctxs s" "global_ctx s' = global_ctx s"
    "\<forall>e pe. open_socket e pe s \<longrightarrow> open_socket e pe s'" by blast
  have "mysock_passive_connection_complete pd s = Done () s'"
    using o my sd k len get_connection_queue_run [OF l] open_socket_context(1) [OF sd(1)] s'(1)
    by (simp add: mysock_passive_connection_complete_def run_simps)
  then show ?thesis using s' wf_lq_complete [OF wf k len(2) d(2)] by blast
qed

section \<open>A SYN that is queued\<close>

lemma update_passive_state_run:
  assumes "hload (ctxs s) n = Some d" "impl d = Some i" "sock_ctx i = n" "\<not> listening d" "\<not> is_active d"
    and "hload (ctxs s) p = Some c" "impl c = Some i2" "n \<noteq> p"
  shows "network_update_passive_state E n p None s = Done () (s\<lparr>os := os_close E (socket i) (os s),
    ctxs := hstore (hstore (ctxs s) n (upd_impl (\<lambda>i. i\<lparr>socket := new_socket i2, connected := True\<rparr>) d))
              p (upd_impl (\<lambda>i. i\<lparr>new_socket := -1\<rparr>) c)\<rparr>)"
  using assms hload_bound [OF assms(1)] hload_bound [OF assms(6)]
  by (simp add: network_update_passive_state_def set_impl_def run_simps heap_simps)

text \<open>
  The context of a connection made for a listening socket: what it knows of the listener and of the
  peer, and the packets received; once it is handed over, also its socket and its threads.
\<close>

definition child :: "int \<Rightarrow> sockaddr \<Rightarrow> nat \<Rightarrow> byte list list \<Rightarrow> mysock_context \<Rightarrow> bool" where
  "child sd peer peer_len packets d \<longleftrightarrow> listen_sd d = sd \<and> \<not> is_active d \<and> \<not> listening d \<and> blocking d
     \<and> stcp_errno d = 0 \<and> peer_addr (network_state d) = peer \<and> peer_addr_len (network_state d) = peer_len
     \<and> contents (network_recv_queue d) = packets"

definition established :: "int \<Rightarrow> sockaddr \<Rightarrow> nat \<Rightarrow> byte list \<Rightarrow> int \<Rightarrow> mysock_context \<Rightarrow> bool" where
  "established sd peer peer_len packet fd d \<longleftrightarrow> child sd peer peer_len [packet] d \<and> transport_thread_started d
     \<and> map_option socket (impl d) = Some fd \<and> map_option connected (impl d) = Some True
     \<and> map_option recv_thread_started (impl d) = Some True"

text \<open>The two threads of a connection, and that its context knows them by their numbers.\<close>

definition connection_threads :: "ptr \<Rightarrow> thread list" where
  "connection_threads n = [\<lparr>entry = Network_recv_thread_func, arg = n, exited = False\<rparr>,
     \<lparr>entry = Transport_thread_func, arg = n, exited = False\<rparr>]"

definition knows_threads :: "nat \<Rightarrow> mysock_context \<Rightarrow> bool" where
  "knows_threads t d \<longleftrightarrow> map_option recv_thread (impl d) = Some t \<and> transport_thread d = Suc t"

lemma transport_init_run:
  assumes o: "open_socket sd n s" and d: "hload (ctxs s) n = Some d" "\<not> listening d"
    and w: "os_ignore_sigpipe E (os s) = (True, w)"
  shows "\<exists>d'. mysock_transport_init E sd active s
      = Done () (s\<lparr>os := w, threads := threads s @ connection_threads n, ctxs := hstore (ctxs s) n d'\<rparr>)
    \<and> knows_threads (length (threads s)) d' \<and> map_option recv_thread_started (impl d') = Some True \<and> is_active d' = active \<and> transport_thread_started d' \<and> my_sd d' = my_sd d \<and> wf_ctx n d'
    \<and> (\<not> active \<longrightarrow> child l peer peer_len pks d \<longrightarrow> child l peer peer_len pks d') \<and> network_recv_queue d' = network_recv_queue d
    \<and> map_option socket (impl d') = map_option socket (impl d) \<and> map_option connected (impl d') = map_option connected (impl d)"
proof -
  from o d(1) obtain i where i: "impl d = Some i" "sock_ctx i = n" "wf_ctx n d" by (auto elim!: open_socketE)
  let ?d = "(upd_impl (\<lambda>i. i\<lparr>recv_thread := length (threads s), recv_thread_started := True\<rparr>) (d\<lparr>is_active := active\<rparr>))
    \<lparr>transport_thread := Suc (length (threads s)), transport_thread_started := True\<rparr>"
  let ?ts = "connection_threads n"
  have "wf_ctx n ?d" using i(3) by (auto simp: wf_ctx_def upd_impl_def upd_network_def)
  moreover have "mysock_transport_init E sd active s = Done () (s\<lparr>os := w, threads := threads s @ ?ts, ctxs := hstore (ctxs s) n ?d\<rparr>)"
    using d i w hload_bound [OF d(1)] open_socket_context(2) [OF o]
    by (simp add: mysock_transport_init_def network_start_recv_thread_def mysock_create_thread_def connection_threads_def
        run_simps heap_simps)
  ultimately show ?thesis using i
    by (intro exI [of _ ?d]) (simp add: upd_impl_def upd_network_def child_def knows_threads_def)
qed

lemma listener_store:
  assumes "listener sd p q s" "hload (ctxs s) n = Some c" "my_sd c' = my_sd c" "wf_ctx n c'"
    "n = p \<Longrightarrow> listening c' = listening c \<and> bound c' = bound c"
  shows "listener sd p q (s\<lparr>ctxs := hstore (ctxs s) n c'\<rparr>)"
  using assms open_socket_store [OF _ assms(2-4), of sd p] hload_bound [OF assms(2)]
  by (auto simp: listener_def listen_map_def heap_simps)

lemma listener_env [simp]:
  "listener sd p q (s\<lparr>os := w\<rparr>) = listener sd p q s" "listener sd p q (s\<lparr>threads := ts\<rparr>) = listener sd p q s"
  "open_socket sd p (s\<lparr>threads := ts\<rparr>) = open_socket sd p s"
  by (simp_all add: listener_def listen_map_def open_socket_def wf_sys_def)

lemma hand_over_run:
  assumes l: "listener sd p q s" and c: "hload (ctxs s) p = Some c" "impl c = Some i2"
    and n: "open_socket e n s" "hload (ctxs s) n = Some d1" "impl d1 = Some i" "n \<noteq> p" and d1: "child sd peer peer_len [] d1"
    and sp: "os_ignore_sigpipe E (os_close E (socket i) (os s)) = (True, w2)"
  shows "\<exists>s' d. hand_over_connection E p n e packet (length packet) None s = Done () s'
    \<and> listener sd p q s' \<and> (\<forall>e pe. open_socket e pe s \<longrightarrow> open_socket e pe s') \<and> hload (ctxs s') n = Some d
    \<and> established sd peer peer_len packet (new_socket i2) d \<and> knows_threads (length (threads s)) d
    \<and> threads s' = threads s @ connection_threads n \<and> global_ctx s' = global_ctx s \<and> listen_table s' = listen_table s
    \<and> ctxs s' = hstore (hstore (ctxs s) n d) p (upd_impl (\<lambda>i. i\<lparr>new_socket := -1\<rparr>) c)"
proof -
  from n(1,2) have wfd: "sock_ctx i = n" "wf_ctx n d1" using n(3) by (auto elim!: open_socketE)
  define d2 where "d2 = upd_impl (\<lambda>i. i\<lparr>socket := new_socket i2, connected := True\<rparr>) d1"
  define c2 where "c2 = upd_impl (\<lambda>i. i\<lparr>new_socket := -1\<rparr>) c"
  define s1 where "s1 = s\<lparr>ctxs := hstore (ctxs s) n d2\<rparr>"
  define s3 where "s3 = s1\<lparr>ctxs := hstore (ctxs s1) p c2, os := os_close E (socket i) (os s)\<rparr>"
  have ups: "network_update_passive_state E n p None s = Done () s3"
    using update_passive_state_run [OF n(2,3) wfd(1) _ _ c n(4), of E] d1
    by (simp add: s3_def s1_def d2_def c2_def child_def)
  have wfc: "wf_ctx p c" using l c(1) by (auto simp: listener_def elim: open_socketE)
  have wf2: "wf_ctx n d2" "wf_ctx p c2" "my_sd d2 = my_sd d1" "my_sd c2 = my_sd c" "listening c2 = listening c" "bound c2 = bound c"
    using wfd(2) wfc by (auto simp: d2_def c2_def wf_ctx_def upd_impl_def upd_network_def)
  have d2: "\<not> listening d2" "child sd peer peer_len [] d2" "map_option socket (impl d2) = Some (new_socket i2)"
    "map_option connected (impl d2) = Some True"
    using d1 n(3) by (simp_all add: d2_def upd_impl_def upd_network_def child_def)
  have cp: "hload (ctxs s1) p = Some c" using c(1) n(4) by (simp add: s1_def heap_simps)
  have s3: "listener sd p q s3" "\<And>e pe. open_socket e pe s \<Longrightarrow> open_socket e pe s3" "hload (ctxs s3) n = Some d2"
    using listener_store [OF l n(2) wf2(3,1)] listener_store [OF _ cp wf2(4,2), of sd p q] open_socket_store [OF _ n(2) wf2(3,1)]
      open_socket_store [OF _ cp wf2(4,2)] n(4) wf2(5,6) hload_bound [OF n(2)]
    by (auto simp: s3_def s1_def heap_simps)
  from transport_init_run [OF s3(2) [OF n(1)] s3(3) d2(1), of E w2 False sd peer peer_len "[]"] sp d2 obtain d3 where
    init: "mysock_transport_init E e False s3 = Done () (s3\<lparr>os := w2, threads := threads s3 @ connection_threads n, ctxs := hstore (ctxs s3) n d3\<rparr>)"
    and d3: "transport_thread_started d3" "my_sd d3 = my_sd d2" "wf_ctx n d3" "child sd peer peer_len [] d3"
      "map_option socket (impl d3) = Some (new_socket i2)" "map_option connected (impl d3) = Some True"
      "map_option recv_thread_started (impl d3) = Some True" "knows_threads (length (threads s)) d3"
    by (auto simp: s3_def s1_def)
  define s4 where "s4 = s3\<lparr>os := w2, threads := threads s3 @ connection_threads n\<rparr>"
  from wf_ctx_def d3(3) have "wf_queue (network_recv_queue d3)" by blast
  from pq.enq_spec [OF this, of packet] d3(4) obtain q5 where
    enq: "mysock_enqueue_buffer (Some packet) (length packet) (network_recv_queue d3) = Done () q5" "wf_queue q5" "contents q5 = [packet]"
    by (auto simp: child_def)
  define d4 where "d4 = d3\<lparr>network_recv_queue := q5\<rparr>"
  have d4: "my_sd d4 = my_sd d2" "wf_ctx n d4" "established sd peer peer_len packet (new_socket i2) d4"
      "knows_threads (length (threads s)) d4"
    using d3 enq by (simp_all add: d4_def established_def child_def wf_ctx_def knows_threads_def)
  have n4: "hload (ctxs s4) n = Some d2" using s3(3) by (simp add: s4_def)
  show ?thesis
  proof (intro exI conjI)
    show "hand_over_connection E p n e packet (length packet) None s = Done () (s4\<lparr>ctxs := hstore (ctxs s4) n d4\<rparr>)"
      using ups init enq hload_bound [OF s3(3)]
      by (simp add: hand_over_connection_def run_simps heap_simps on_network_recv_queue_def zoom_def d4_def s4_def)
    show "listener sd p q (s4\<lparr>ctxs := hstore (ctxs s4) n d4\<rparr>)"
      by (rule listener_store [OF _ n4 d4(1,2)]) (use s3(1) n(4) in \<open>simp_all add: s4_def\<close>)
    show "\<forall>e pe. open_socket e pe s \<longrightarrow> open_socket e pe (s4\<lparr>ctxs := hstore (ctxs s4) n d4\<rparr>)"
      using open_socket_store [OF _ n4 d4(1,2)] s3(2) by (simp add: s4_def)
    show "hload (ctxs (s4\<lparr>ctxs := hstore (ctxs s4) n d4\<rparr>)) n = Some d4"
      using hload_bound [OF n4] by (simp add: heap_simps)
    show "ctxs (s4\<lparr>ctxs := hstore (ctxs s4) n d4\<rparr>) = hstore (hstore (ctxs s) n d4) p (upd_impl (\<lambda>i. i\<lparr>new_socket := -1\<rparr>) c)"
      using n(4) by (simp add: s4_def s3_def s1_def hstore_def c2_def list_update_swap)
  qed (rule d4(3,4) | simp add: s4_def s3_def s1_def)+
qed

abbreviation (input) new_request :: "sockaddr \<Rightarrow> nat \<Rightarrow> int \<Rightarrow> connect_request" where
  "new_request peer peer_len d \<equiv> \<lparr>req_peer_addr = peer, req_peer_addr_len = int peer_len, req_sd = d, req_user_data = None\<rparr>"

text \<open>The new context, before it is handed over.\<close>

definition child_context :: "int \<Rightarrow> sockaddr \<Rightarrow> nat \<Rightarrow> mysock_context \<Rightarrow> mysock_context" where
  "child_context sd peer peer_len d = upd_network (\<lambda>n. n\<lparr>peer_addr := peer, peer_addr_len := peer_len, peer_addr_valid := True\<rparr>)
     (d\<lparr>listen_sd := sd\<rparr>)"

lemma child_context_fresh:
  "my_sd (child_context sd peer l (fresh_context n fd r u rel k)) = k"
  "wf_ctx n (child_context sd peer l (fresh_context n fd r u rel k))"
  "impl (child_context sd peer l (fresh_context n fd r u rel k)) = Some (fresh_impl n fd r u)"
  "child sd peer l [] (child_context sd peer l (fresh_context n fd r u rel k))"
  using wf_fresh_context [of n fd r u rel k]
  by (simp_all add: child_context_def upd_network_def wf_ctx_def child_def)
    (simp add: fresh_context_def zero_context_def)

lemma establish_connection_run:
  fixes peer_len :: nat
  assumes l: "listener sd p q s" and c: "hload (ctxs s) p = Some c" "impl c = Some i2"
    and k: "req_sd (connection_queue q ! k) = -1"
    and slot: "free_slot (global_ctx s) 0 = Some j" and g: "os_grants E (os s) fd r u w1"
    and sp: "os_ignore_sigpipe E (os_close E fd w1) = (True, w2)" and peer: "sa_family peer = 2"
  defines "q' \<equiv> q\<lparr>connection_queue := (connection_queue q)[k := new_request peer peer_len (int j)]\<rparr>"
  shows "\<exists>s' d. establish_connection E p packet (length packet) peer peer_len None q k s = Done True s'
    \<and> listener sd p q' s' \<and> open_socket (int j) (length (ctxs s)) s' \<and> (\<forall>e pe. open_socket e pe s \<longrightarrow> open_socket e pe s')
    \<and> hload (ctxs s') (length (ctxs s)) = Some d \<and> established sd peer peer_len packet (new_socket i2) d
    \<and> knows_threads (length (threads s)) d \<and> threads s' = threads s @ connection_threads (length (ctxs s))
    \<and> global_ctx s' = (global_ctx s)[j := Some (length (ctxs s))] \<and> (\<forall>x. x \<noteq> sd \<longrightarrow> listen_map s' x = listen_map s x)
    \<and> ctxs s' = hstore (ctxs s) p (upd_impl (\<lambda>i. i\<lparr>new_socket := -1\<rparr>) c) @ [Some d]"
proof -
  let ?n = "length (ctxs s)" and ?rel = "is_reliable (network_state c)"
  from l have lc: "wf_sys s" "my_sd c = sd" "?n \<noteq> p" "open_socket sd p s" "listening c" "bound c"
    using c(1) hload_bound [OF c(1)] by (auto elim!: listenerE)
  define d0 where "d0 = fresh_context ?n fd r u ?rel (int j)"
  define s1 where "s1 = s\<lparr>os := w1, global_ctx := (global_ctx s)[j := Some ?n], ctxs := ctxs s @ [Some d0]\<rparr>"
  have new: "mysock_new_mysocket E ?rel s = Done (Inr (int j)) s1"
    using new_mysocket_free [OF g slot] by (simp add: s1_def d0_def)
  have d0: "my_sd d0 = int j" "wf_ctx ?n d0" by (simp_all add: d0_def)
  note sock = open_socket_new [OF lc(1) slot d0(2,1), where w = w1, folded s1_def]
  have h1: "hload (ctxs s1) ?n = Some d0" "hload (ctxs s1) p = Some c" "os s1 = w1"
    using c(1) lc(3) by (simp_all add: s1_def heap_simps)
  have l1: "listener sd p q s1" using l sock(2) [OF lc(4)] lc(5,6) h1(2) by (simp add: listener_def listen_map_def s1_def)
  let ?q1 = "q\<lparr>connection_queue := (connection_queue q)[k := (connection_queue q ! k)\<lparr>req_sd := int j\<rparr>]\<rparr>"
  from listener_put [OF l1, of ?q1] obtain s2 where
    s2: "put_queue sd ?q1 s1 = Done () s2" "listener sd p ?q1 s2" "ctxs s2 = ctxs s1" "os s2 = w1"
    "\<forall>e pe. open_socket e pe s1 \<longrightarrow> open_socket e pe s2" "threads s2 = threads s1" "global_ctx s2 = global_ctx s1"
    "\<forall>x. x \<noteq> sd \<longrightarrow> listen_map s2 x = listen_map s1 x" using h1(3) by blast
  define d1 where "d1 = child_context sd peer peer_len d0"
  define s3 where "s3 = s2\<lparr>ctxs := hstore (ctxs s2) ?n d1\<rparr>"
  note d1 = child_context_fresh [where sd = sd and peer = peer and l = peer_len and n = ?n and fd = fd and r = r and u = u
      and rel = ?rel and k = "int j", folded d0_def d1_def]
  have h2: "hload (ctxs s2) ?n = Some d0" "hload (ctxs s2) p = Some c" using s2(3) h1 by simp_all
  have s3: "listener sd p ?q1 s3" "hload (ctxs s3) ?n = Some d1" "hload (ctxs s3) p = Some c" "os s3 = w1"
    "\<And>e pe. open_socket e pe s2 \<Longrightarrow> open_socket e pe s3"
    unfolding s3_def using listener_store [OF s2(2) h2(1), of d1] open_socket_store [OF _ h2(1), of _ _ d1] lc(3) d0 d1 s2(4)
      hload_bound [OF h2(1)] h2(2) by (auto simp: heap_simps)
  from listener_put [OF s3(1), of q'] obtain s4 where
    s4: "put_queue sd q' s3 = Done () s4" "listener sd p q' s4" "ctxs s4 = ctxs s3" "os s4 = w1"
    "\<forall>e pe. open_socket e pe s3 \<longrightarrow> open_socket e pe s4" "threads s4 = threads s3" "global_ctx s4 = global_ctx s3"
    "\<forall>x. x \<noteq> sd \<longrightarrow> listen_map s4 x = listen_map s3 x" using s3(4) by blast
  have o4: "open_socket (int j) ?n s4" using sock(1) s2(5) s3(5) s4(5) by blast
  have h4: "hload (ctxs s4) p = Some c" "hload (ctxs s4) ?n = Some d1" using s3(2,3) s4(3) by simp_all
  from hand_over_run [OF s4(2) h4(1) c(2) o4 h4(2) d1(3) lc(3) d1(4), of E w2 packet] sp s4(4) obtain s' d where
    s': "hand_over_connection E p ?n (int j) packet (length packet) None s4 = Done () s'" "listener sd p q' s'"
    "\<forall>e pe. open_socket e pe s4 \<longrightarrow> open_socket e pe s'" "hload (ctxs s') ?n = Some d"
    "established sd peer peer_len packet (new_socket i2) d" "knows_threads (length (threads s4)) d"
    "threads s' = threads s4 @ connection_threads ?n" "global_ctx s' = global_ctx s4" "listen_table s' = listen_table s4"
    "ctxs s' = hstore (hstore (ctxs s4) ?n d) p (upd_impl (\<lambda>i. i\<lparr>new_socket := -1\<rparr>) c)" by (auto simp: fresh_impl_def)
  have same: "threads s4 = threads s" "global_ctx s4 = (global_ctx s)[j := Some ?n]"
    using s4(6,7) s2(6,7) by (simp_all add: s3_def s1_def)
  have others: "listen_map s4 x = listen_map s x" if "x \<noteq> sd" for x
    using that s4(8) s2(8) by (simp add: s3_def s1_def listen_map_def)
  have "p < ?n" using hload_bound [OF c(1)] .
  then have heap: "ctxs s' = hstore (ctxs s) p (upd_impl (\<lambda>i. i\<lparr>new_socket := -1\<rparr>) c) @ [Some d]"
    using s'(10) s4(3) s2(3) by (simp add: s3_def s1_def hstore_def list_update_append)
  have "ctx_of f ln (int j) s2 = Done ?n s2" for f ln
    using open_socket_context(2) s2(5) sock(1) by blast
  then have "establish_connection E p packet (length packet) peer peer_len None q k s = Done True s'"
    using c(1) k new s2(1) h2(1) s4(1) s'(1) lc(2) peer
    by (simp add: establish_connection_def run_simps debug_print_connection_def d1_def child_context_def s3_def q'_def)
  moreover have "\<forall>e pe. open_socket e pe s \<longrightarrow> open_socket e pe s'" "open_socket (int j) ?n s'"
    using s'(3) o4 s2(5) s3(5) s4(5) sock(2) by blast+
  moreover have "\<forall>x. x \<noteq> sd \<longrightarrow> listen_map s' x = listen_map s x" using others s'(9) by (simp add: listen_map_def)
  ultimately show ?thesis using s'(2,4-8) heap same(1,2)
    by (intro exI [of _ s'] exI [of _ d]) simp
qed

lemma retransmission_run:
  "\<forall>r \<in> set rs. req_sd r = -1 \<or> req_peer_addr_len r = int l \<Longrightarrow>
   retransmission host peer l rs s
     = Done (\<exists>r \<in> set rs. take l (sockaddr_bytes host (req_peer_addr r)) = take l (sockaddr_bytes host peer)) s"
  by (induction rs) (auto simp: run_simps)

text \<open>Whether a request of this peer is in the queue, as the byte comparison sees it.\<close>

definition known_peer :: "endian \<Rightarrow> sockaddr \<Rightarrow> nat \<Rightarrow> listen_queue \<Rightarrow> bool" where
  "known_peer host peer l q \<longleftrightarrow> (\<exists>r \<in> set (connection_queue q).
     take l (sockaddr_bytes host (req_peer_addr r)) = take l (sockaddr_bytes host peer))"

definition same_family :: "nat \<Rightarrow> listen_queue \<Rightarrow> bool" where
  "same_family l q \<longleftrightarrow> (\<forall>r \<in> set (connection_queue q). req_sd r = -1 \<or> req_peer_addr_len r = int l)"

definition is_syn :: "byte list \<Rightarrow> bool" where
  "is_syn packet \<longleftrightarrow> 20 \<le> length packet \<and> packet ! 13 AND 2 \<noteq> 0"

lemma free_request:
  assumes "wf_lq q" "lq_cur_len q < lq_max_len q"
  obtains k where "find_pos (\<lambda>r. req_sd r < 0) (take (lq_max_len q) (connection_queue q)) = Some k"
    "k < length (connection_queue q)" "req_sd (connection_queue q ! k) = -1"
proof -
  let ?xs = "connection_queue q"
  have len: "take (lq_max_len q) ?xs = ?xs" "length (filter (\<lambda>r. req_sd r \<noteq> -1) ?xs) < length ?xs"
    using assms by (simp_all add: wf_lq_def)
  have "\<exists>r \<in> set ?xs. req_sd r = -1"
  proof (rule ccontr)
    assume "\<not> (\<exists>r \<in> set ?xs. req_sd r = -1)"
    then have "filter (\<lambda>r. req_sd r \<noteq> -1) ?xs = ?xs" by (intro filter_True) blast
    with len(2) show False by simp
  qed
  then obtain r where "r \<in> set ?xs" "req_sd r < 0" by force
  then have "find_pos (\<lambda>r. req_sd r < 0) ?xs \<noteq> None" unfolding find_pos_None by blast
  then obtain k where k: "find_pos (\<lambda>r. req_sd r < 0) ?xs = Some k" by blast
  from find_pos_Some [OF k] wf_lq_slot [OF assms(1), of k] have "k < length ?xs" "req_sd (?xs ! k) = -1" by auto
  with k len(1) that show ?thesis by simp
qed

lemma enqueue_connection_run:
  assumes l: "listener sd p q s" and len: "length (connection_queue q) = lq_max_len q" and pk: "is_syn packet"
    and pe: "sa_family peer = 2" "0 < peer_len" "same_family peer_len q"
  shows "mysock_enqueue_connection E p packet (length packet) peer peer_len None s =
    (if known_peer (host_order E) peer peer_len q then Done False s
     else if lq_cur_len q < lq_max_len q
     then bind (the_or (Assertion ''connection_demux.c'' 200) (find_pos (\<lambda>r. req_sd r < 0) (take (lq_max_len q) (connection_queue q)))) (\<lambda>k.
          let q' = q\<lparr>lq_cur_len := Suc (lq_cur_len q)\<rparr> in
          bind (put_queue sd q') (\<lambda>_. establish_connection E p packet (length packet) peer peer_len None q' k)) s
     else Done False s)"
proof -
  from l obtain c where c: "hload (ctxs s) p = Some c" "my_sd c = sd" "listening c" "bound c" by (rule listenerE)
  have "retransmission (host_order E) peer peer_len (take (lq_max_len q) (connection_queue q)) s
      = Done (known_peer (host_order E) peer peer_len q) s"
    using retransmission_run [of "connection_queue q" peer_len "host_order E" peer s] pe(3) len
    by (simp add: same_family_def known_peer_def)
  then show ?thesis using c len pk pe(1,2) get_connection_queue_run [OF l]
    by (simp add: mysock_enqueue_connection_def is_syn_def run_simps debug_print_connection_def)
qed

section \<open>Properties\<close>

text \<open>C36: A SYN for which there is room is queued. On a listening socket with a well-formed queue, a SYN
  segment from an unknown peer with a free slot and a free descriptor gets the lowest free
  descriptor. Its context is new: it belongs to this listener, has the peer's address, the accepted TCP
  socket and the SYN as its first packet, and its receive and its transport thread are started, run on this
  context and are the two that it remembers. The queue changes in one slot that was free, which now holds the peer's address
  and the descriptor, and in cur\_len; it stays well-formed, so it never holds more requests than the backlog
  allows. The listener has given its accepted socket away; every other context, descriptor, thread and listening
  queue is as it was.\<close>

theorem syn_gets_new_connection:
  assumes "listener sd p q s" and "wf_lq q" and "hload (ctxs s) p = Some c" and "impl c = Some i"
    and "is_syn packet" and "sa_family peer = 2" and "0 < peer_len" and "same_family peer_len q"
    and "\<not> known_peer (host_order E) peer peer_len q" and "lq_cur_len q < lq_max_len q"
    and "free_slot (global_ctx s) 0 = Some j" and "int j \<notin> set (pending q)"
    and "os_grants E (os s) fd r u w1" and "os_ignore_sigpipe E (os_close E fd w1) = (True, w2)"
  shows "\<exists>s' q' k d. mysock_enqueue_connection E p packet (length packet) peer peer_len None s = Done True s'
    \<and> listener sd p q' s' \<and> k < length (connection_queue q) \<and> req_sd (connection_queue q ! k) = -1
    \<and> q' = q\<lparr>lq_cur_len := Suc (lq_cur_len q), connection_queue := (connection_queue q)[k := new_request peer peer_len (int j)]\<rparr>
    \<and> wf_lq q' \<and> ready q' = ready q \<and> set (pending q') = insert (int j) (set (pending q)) \<and> lq_cur_len q' \<le> lq_max_len q
    \<and> open_socket (int j) (length (ctxs s)) s' \<and> hload (ctxs s') (length (ctxs s)) = Some d
    \<and> established sd peer peer_len packet (new_socket i) d \<and> knows_threads (length (threads s)) d
    \<and> threads s' = threads s @ connection_threads (length (ctxs s))
    \<and> ctxs s' = hstore (ctxs s) p (upd_impl (\<lambda>i. i\<lparr>new_socket := -1\<rparr>) c) @ [Some d]
    \<and> global_ctx s' = (global_ctx s)[j := Some (length (ctxs s))] \<and> (\<forall>x. x \<noteq> sd \<longrightarrow> listen_map s' x = listen_map s x)
    \<and> (\<forall>e pe. open_socket e pe s \<longrightarrow> open_socket e pe s')"
proof -
  let ?q1 = "q\<lparr>lq_cur_len := Suc (lq_cur_len q)\<rparr>"
  from free_request [OF assms(2,10)] obtain k where
    k: "find_pos (\<lambda>r. req_sd r < 0) (take (lq_max_len q) (connection_queue q)) = Some k"
    "k < length (connection_queue q)" "req_sd (connection_queue q ! k) = -1" .
  from listener_put [OF assms(1), of ?q1] obtain s1 where
    s1: "put_queue sd ?q1 s = Done () s1" "listener sd p ?q1 s1" "ctxs s1 = ctxs s" "global_ctx s1 = global_ctx s" "os s1 = os s"
    "\<forall>e pe. open_socket e pe s \<longrightarrow> open_socket e pe s1" "threads s1 = threads s"
    "\<forall>x. x \<noteq> sd \<longrightarrow> listen_map s1 x = listen_map s x" by blast
  have same: "hload (ctxs s1) p = Some c" "req_sd (connection_queue ?q1 ! k) = -1" "free_slot (global_ctx s1) 0 = Some j"
    "os_grants E (os s1) fd r u w1" using assms(3,11,13) k(3) s1(3-5) by simp_all
  from establish_connection_run [OF s1(2) same(1) assms(4) same(2,3,4) assms(14,6), where peer_len = peer_len and packet = packet] s1(3,4,7,8) obtain s' d where
    s': "establish_connection E p packet (length packet) peer peer_len None ?q1 k s1 = Done True s'"
    "listener sd p (?q1\<lparr>connection_queue := (connection_queue q)[k := new_request peer peer_len (int j)]\<rparr>) s'"
    "open_socket (int j) (length (ctxs s)) s'" "\<forall>e pe. open_socket e pe s1 \<longrightarrow> open_socket e pe s'"
    "hload (ctxs s') (length (ctxs s)) = Some d" "established sd peer peer_len packet (new_socket i) d"
    "knows_threads (length (threads s)) d" "threads s' = threads s @ connection_threads (length (ctxs s))"
    "global_ctx s' = (global_ctx s)[j := Some (length (ctxs s))]" "\<forall>x. x \<noteq> sd \<longrightarrow> listen_map s' x = listen_map s x"
    "ctxs s' = hstore (ctxs s) p (upd_impl (\<lambda>i. i\<lparr>new_socket := -1\<rparr>) c) @ [Some d]" by auto
  let ?q' = "?q1\<lparr>connection_queue := (connection_queue q)[k := new_request peer peer_len (int j)]\<rparr>"
  have len: "length (connection_queue q) = lq_max_len q" using assms(2) by (simp add: wf_lq_def)
  have run: "mysock_enqueue_connection E p packet (length packet) peer peer_len None s = Done True s'"
    using enqueue_connection_run [OF assms(1) len assms(5-8), of E] assms(9,10) k(1) s1(1) s'(1) by (simp add: run_simps Let_def)
  have q: "wf_lq ?q'" "ready ?q' = ready q" "set (pending ?q') = insert (int j) (set (pending q))"
    using wf_lq_enqueue [OF assms(2) k(2), of "new_request peer peer_len (int j)"] k(3) assms(12) by simp_all
  have "lq_cur_len ?q' \<le> lq_max_len q" using wf_lq_cur_len [OF q(1)] by simp
  moreover have "\<forall>e pe. open_socket e pe s \<longrightarrow> open_socket e pe s'" using s1(6) s'(4) by blast
  ultimately show ?thesis using run q k(2,3) s'(2,3,5-11)
    by (intro exI [of _ s'] exI [of _ ?q'] exI [of _ k] exI [of _ d]) simp
qed

text \<open>A listening socket for the witnesses: backlog 1, nothing queued, and an accepted TCP socket 9.\<close>

definition sample_listener :: mysock_context where
  "sample_listener = (upd_impl (\<lambda>i. i\<lparr>new_socket := 9\<rparr>) sample_context)\<lparr>bound := True, listening := True\<rparr>"

definition sample_queue :: listen_queue where
  "sample_queue = zero_listen_queue\<lparr>local_port := 8080, lq_max_len := 2, connection_queue := [invalid_request, invalid_request]\<rparr>"

definition listen_sys :: "listen_queue \<Rightarrow> nat sys" where
  "listen_sys q = \<lparr>ctxs = [Some sample_listener], global_ctx = Some 0 # replicate 63 None,
     listen_table = [(0, q)] # replicate 63 [], threads = [], os = 6\<rparr>"

lemma sample_listener_fields [simp]:
  "impl sample_listener = Some ((fresh_impl 0 3 4 5)\<lparr>new_socket := 9\<rparr>)" "listening sample_listener" "bound sample_listener"
  "my_sd sample_listener = 0" "wf_ctx 0 sample_listener" "\<not> is_active sample_listener"
  using wf_fresh_context [of 0 3 4 5 True 0]
  by (simp_all add: sample_listener_def upd_impl_def upd_network_def wf_ctx_def)

lemma listen_sys_simps [simp]:
  "ctxs (listen_sys q) = [Some sample_listener]" "global_ctx (listen_sys q) = Some 0 # replicate 63 None" "os (listen_sys q) = 6"
  by (simp_all add: listen_sys_def)

lemma listen_sys_listener: "listener 0 0 q (listen_sys q)"
proof -
  have "hload (ctxs sample_sys) 0 = Some sample_context" by (simp add: sample_load)
  then have "open_socket 0 0 (sample_sys\<lparr>ctxs := hstore (ctxs sample_sys) 0 sample_listener\<rparr>)"
    by (rule open_socket_store [OF sample_open]) simp_all
  then have d: "wf_descriptors (Some 0 # replicate 63 None) [Some sample_listener]"
    by (simp add: open_socket_def wf_sys_def hstore_def)
  have h: "hash_default_hash_fn 0 64 = 0" by (simp add: default_hash_valid)
  have "wf_table hash_default_hash_fn 64 ([(0, q)] # replicate 63 [])"
    by (auto simp: wf_table_def nth_Cons h split: nat.splits)
  with d have "open_socket 0 0 (listen_sys q)" by (simp add: open_socket_def wf_sys_def listen_sys_def)
  then show ?thesis by (simp add: listener_def listen_map_def table_map_def h sample_load) (simp add: listen_sys_def)
qed

lemma sample_queue_wf: "wf_lq sample_queue" "pending sample_queue = []"
  by (simp_all add: wf_lq_def sample_queue_def zero_listen_queue_def pending_def)

abbreviation sample_syn :: "byte list" where
  "sample_syn \<equiv> replicate 13 0 @ [2] @ replicate 6 0"

theorem syn_gets_new_connection_witness:
  "\<exists>s' d. mysock_enqueue_connection sample_env 0 sample_syn 20 sample_peer 16 None (listen_sys sample_queue) = Done True s'
    \<and> open_socket 1 1 s' \<and> hload (ctxs s') 1 = Some d \<and> established 0 sample_peer 16 sample_syn 9 d"
proof -
  have c: "hload (ctxs (listen_sys sample_queue)) 0 = Some sample_listener" by (simp add: sample_load)
  have sk: "is_syn sample_syn" "sa_family sample_peer = 2" "0 < (16 :: nat)" "length sample_syn = 20"
    by (simp_all add: is_syn_def nth_append)
  have q: "same_family 16 sample_queue" "lq_cur_len sample_queue < lq_max_len sample_queue"
    "\<not> known_peer (host_order sample_env) sample_peer 16 sample_queue"
    by (simp_all add: same_family_def sample_queue_def zero_listen_queue_def known_peer_def invalid_request_def zero_request_def
        zero_sockaddr_def sockaddr_bytes_def sample_env_def)
  have slot: "free_slot (global_ctx (listen_sys sample_queue)) 0 = Some 1" using replicate_Suc [of 62 "None :: ptr option"] by simp
  have g: "os_grants sample_env (os (listen_sys sample_queue)) 6 7 8 9" using sample_env_grants [of 6] by simp
  have sp: "os_ignore_sigpipe sample_env (os_close sample_env 6 9) = (True, 9)" by (simp add: sample_env_def)
  from syn_gets_new_connection [OF listen_sys_listener sample_queue_wf(1) c sample_listener_fields(1) sk(1-3) q(1,3,2) slot _ g sp]
  show ?thesis using sk(4) sample_queue_wf(2) by auto
qed

text \<open>C38: A SYN that is not queued blocks the listening socket. A segment without SYN, a SYN of a peer
  already in the queue and a SYN that finds the queue full are refused without any change of
  state; the TCP connection accepted for it then still occupies new\_socket, so that the next
  connection the listening socket accepts ends the process.\<close>

theorem refused_syn_poisons_listener:
  assumes "listener sd p q s" and "length (connection_queue q) = lq_max_len q" and "same_family peer_len q"
    and "sa_family peer = 2" and "0 < peer_len"
    and "\<not> is_syn packet \<or> known_peer (host_order E) peer peer_len q \<or> lq_max_len q \<le> lq_cur_len q"
    and "hload (ctxs s) p = Some c" and "impl c = Some i" and "\<not> is_active c" and "0 \<le> socket i" and "new_socket i \<noteq> -1"
    and "os_accept E (socket i) (os s) = (Some (fd, a, alen), w)"
  shows "mysock_enqueue_connection E p packet (length packet) peer peer_len None s = Done False s
    \<and> network_recv_packet E p dst max_len s = Abort (Assertion ''network_io_tcp.c'' 203)"
proof (rule conjI)
  from assms(1,7) have c: "listening c" "bound c" "sock_ctx i = p" using assms(8)
    by (auto simp: listener_def elim!: open_socketE)
  show "mysock_enqueue_connection E p packet (length packet) peer peer_len None s = Done False s"
  proof (cases "is_syn packet")
    case True
    then show ?thesis using enqueue_connection_run [OF assms(1,2) True assms(4,5,3), of E] assms(6) by auto
  next
    case False
    then show ?thesis using assms(4,5,7) c(1,2)
      by (simp add: mysock_enqueue_connection_def is_syn_def run_simps debug_print_connection_def)
  qed
  show "network_recv_packet E p dst max_len s = Abort (Assertion ''network_io_tcp.c'' 203)"
    using assms(7-) c hload_bound [OF assms(7)]
    by (simp add: network_recv_packet_def verify_socket_def run_simps heap_simps)
qed

definition accepting_env :: "nat env" where
  "accepting_env = sample_env\<lparr>os_accept := (\<lambda>_ n. (Some (int n, sample_peer, 16), Suc n))\<rparr>"

theorem refused_syn_poisons_listener_witness:
  "mysock_enqueue_connection accepting_env 0 [] 0 sample_peer 16 None (listen_sys sample_queue) = Done False (listen_sys sample_queue)
    \<and> network_recv_packet accepting_env 0 [] 0 (listen_sys sample_queue) = Abort (Assertion ''network_io_tcp.c'' 203)"
proof -
  have c: "hload (ctxs (listen_sys sample_queue)) 0 = Some sample_listener" by (simp add: sample_load)
  have q: "length (connection_queue sample_queue) = lq_max_len sample_queue" "same_family 16 sample_queue"
    by (simp_all add: same_family_def sample_queue_def zero_listen_queue_def)
  have i: "sa_family sample_peer = 2" "(0::nat) < 16" "0 \<le> socket ((fresh_impl 0 3 4 5)\<lparr>new_socket := 9\<rparr>)"
    "new_socket ((fresh_impl 0 3 4 5)\<lparr>new_socket := 9\<rparr>) \<noteq> -1" "\<not> is_syn []"
    by (simp_all add: fresh_impl_def is_syn_def)
  have a: "os_accept accepting_env (socket ((fresh_impl 0 3 4 5)\<lparr>new_socket := 9\<rparr>)) (os (listen_sys sample_queue))
    = (Some (6, sample_peer, 16), 7)" by (simp add: accepting_env_def)
  from refused_syn_poisons_listener [OF listen_sys_listener q i(1,2) _ c sample_listener_fields(1,6) i(3,4) a, of "[]" "[]" 0] i(5)
  show ?thesis by simp
qed

text \<open>Growing the backlog invalidates completed connections. When \<open>_mysock_set_backlog\<close> is called with a
  larger backlog on a socket with a completed connection, the request array moves, and the next
  \<open>_mysock_dequeue_connection\<close> reads through a pointer into the old array.\<close>

lemma larger_backlog_dangles_completed:
  assumes "listener sd p q s" and "ready q \<noteq> []" and "wf_lq q"
    and "network_get_port E p s = Done port s" and "unat (ntohs (host_order E) port) = local_port q" and "0 < local_port q"
    and "lq_max_len q < unat (backlog + 1)"
  shows "\<exists>s'. mysock_set_backlog E p backlog s = Done () s'
    \<and> mysock_dequeue_connection p s' = Abort (Dangling ''connection_demux.c'' 105)"
proof -
  from assms(1) obtain c where c: "hload (ctxs s) p = Some c" "my_sd c = sd" "listening c" "bound c" by (rule listenerE)
  let ?n = "unat (backlog + 1)"
  let ?q = "q\<lparr>connection_queue := take (lq_max_len q) (connection_queue q) @ replicate (?n - lq_max_len q) invalid_request,
    queue_block := Suc (queue_block q), lq_max_len := ?n\<rparr>"
  from listener_put [OF assms(1), of ?q] obtain s' where
    s': "put_queue sd ?q s = Done () s'" "listener sd p ?q s'" "ctxs s' = ctxs s" by blast
  have "mysock_set_backlog E p backlog s = Done () s'"
    using c assms(4-7) get_connection_queue_run [OF assms(1)] s'(1)
    by (simp add: mysock_set_backlog_def run_simps Let_def)
  moreover from assms(2) obtain b k rest where cq: "completed_queue q = (b, k) # rest"
    by (cases "completed_queue q") (auto simp: ready_def)
  then have "b = queue_block q" using assms(3) by (simp add: wf_lq_def)
  then have "mysock_dequeue_connection p s' = Abort (Dangling ''connection_demux.c'' 105)"
    using c s'(3) cq get_connection_queue_run [OF s'(2)] by (simp add: mysock_dequeue_connection_def run_simps)
  ultimately show ?thesis by blast
qed

text \<open>The sample queue with a completed connection in its first slot.\<close>

abbreviation full_queue :: listen_queue where
  "full_queue \<equiv> sample_queue\<lparr>lq_cur_len := 1, connection_queue := [new_request sample_peer 16 1, invalid_request],
     completed_queue := [(0, 0)]\<rparr>"

lemma full_queue_wf: "wf_lq full_queue" "ready full_queue = [1]" "pending full_queue = [1]"
  by (simp_all add: wf_lq_def sample_queue_def zero_listen_queue_def ready_def pending_def)

end
