(* ===== verification/Stcp_Api.thy ===== *)
theory Stcp_Api
  imports Network_Unreliable Connection_Demux
begin

text \<open>
  stcp_api.c, the interface of the transport layer, and the functions of tcp_sum.c that take a
  context. \<open>addr\<close> is the address in memory of a segment, which only the alignment assertion of the
  checksum looks at; \<open>err\<close> is the value of errno at a call.
\<close>

section \<open>Checksums of segments (tcp_sum.c)\<close>

definition mysock_set_checksum :: "'os env \<Rightarrow> mysock_context \<Rightarrow> 64 word \<Rightarrow> byte list \<Rightarrow> nat \<Rightarrow> ('os sys, byte list) prog" where
  "mysock_set_checksum E c addr packet len =
     bind (assert_at ''tcp_sum.c'' 74 (len \<ge> sizeof_tcphdr)) (\<lambda>_.
     bind (assert_at ''tcp_sum.c'' 76 (sa_family (peer_addr (network_state c)) = AF_INET)) (\<lambda>_.
     bind (network_get_local_addr E (network_state c)) (\<lambda>src.
     bind (mysock_tcp_checksum (host_order E) src (sin_addr (peer_addr (network_state c))) addr packet len) (\<lambda>s.
     ret (store16_at (host_order E) packet off_th_sum s)))))"

definition mysock_verify_checksum :: "'os env \<Rightarrow> mysock_context \<Rightarrow> 64 word \<Rightarrow> byte list \<Rightarrow> nat \<Rightarrow> ('os sys, bool) prog" where
  "mysock_verify_checksum E c addr packet len =
     bind (assert_at ''tcp_sum.c'' 93 (len \<ge> sizeof_tcphdr)) (\<lambda>_.
     bind (assert_at ''tcp_sum.c'' 95 (sa_family (peer_addr (network_state c)) = AF_INET)) (\<lambda>_.
     bind (network_get_local_addr E (network_state c)) (\<lambda>dst.
     bind (mysock_tcp_checksum (host_order E) (sin_addr (peer_addr (network_state c))) dst addr packet len) (\<lambda>my_sum.
     ret (my_sum = load16_at (host_order E) packet off_th_sum)))))"

section \<open>The state of the connection\<close>

definition stcp_unblock_application :: "errno \<Rightarrow> int \<Rightarrow> ('os sys, unit) prog" where
  "stcp_unblock_application err sd =
     bind (ctx_of ''stcp_api.c'' 35 sd) (\<lambda>p.
     bind (get_ctx ''stcp_api.c'' 36 p) (\<lambda>c.
     bind (assert_at ''stcp_api.c'' 36 (blocking c)) (\<lambda>_.
     bind (on_ctx ''stcp_api.c'' 37 p (modify (\<lambda>c. c\<lparr>blocking := False,
             stcp_errno := (if err = EINTR then 0 else err)\<rparr>))) (\<lambda>_.
     if \<not> is_active c then mysock_passive_connection_complete p else ret ()))))"

abbreviation (input) APP_DATA :: "32 word" where "APP_DATA \<equiv> 1"
abbreviation (input) NETWORK_DATA :: "32 word" where "NETWORK_DATA \<equiv> 2"
abbreviation (input) APP_CLOSE_REQUESTED :: "32 word" where "APP_CLOSE_REQUESTED \<equiv> 4"

text \<open>
  One round of the loop: without an event, the call returns 0 if it has a time limit that has
  passed, and waits otherwise. A wake-up starts the next round, which is the call again.
\<close>

definition wait_round :: "32 word \<Rightarrow> (mysock_context, 32 word) prog" where
  "wait_round flags = (\<lambda>c.
     let rc1 = (if flags AND APP_DATA \<noteq> 0 \<and> head (app_recv_queue c) \<noteq> None then APP_DATA else 0);
         rc2 = (if flags AND NETWORK_DATA \<noteq> 0 \<and> head (network_recv_queue c) \<noteq> None then rc1 OR NETWORK_DATA else rc1)
     in if close_requested c \<and> head (app_recv_queue c) = None
        then Done (rc2 OR APP_CLOSE_REQUESTED) (c\<lparr>close_requested := False\<rparr>)
        else Done rc2 c)"

definition stcp_wait_for_event :: "int \<Rightarrow> 32 word \<Rightarrow> bool \<Rightarrow> ('os sys, 32 word) prog" where
  "stcp_wait_for_event sd flags timed_out =
     bind (ctx_of ''stcp_api.c'' 69 sd) (\<lambda>p.
     bind (on_ctx ''stcp_api.c'' 72 p (wait_round flags)) (\<lambda>rc.
     if rc \<noteq> 0 then ret rc else if timed_out then ret 0 else block))"

definition stcp_set_context :: "int \<Rightarrow> nat option \<Rightarrow> ('os sys, unit) prog" where
  "stcp_set_context sd st =
     bind (ctx_of ''stcp_api.c'' 138 sd) (\<lambda>p.
     on_ctx ''stcp_api.c'' 138 p (modify (\<lambda>c. c\<lparr>stcp_state := st\<rparr>)))"

definition stcp_get_context :: "int \<Rightarrow> ('os sys, nat option) prog" where
  "stcp_get_context sd =
     bind (ctx_of ''stcp_api.c'' 144 sd) (\<lambda>p.
     bind (get_ctx ''stcp_api.c'' 144 p) (\<lambda>c. ret (stcp_state c)))"

section \<open>Segments to and from the network\<close>

text \<open>The value is the returned length with the bytes stored at dst.\<close>

definition stcp_network_recv :: "'os env \<Rightarrow> int \<Rightarrow> 64 word \<Rightarrow> nat \<Rightarrow> ('os sys, nat \<times> byte list) prog" where
  "stcp_network_recv E sd dst max_len =
     bind (network_recv sd max_len) (\<lambda>(len, bs).
     bind (if len = 0 then ret True
           else bind (ctx_of ''stcp_api.c'' 166 sd) (\<lambda>p.
                bind (get_ctx ''stcp_api.c'' 166 p) (\<lambda>c.
                mysock_verify_checksum E c dst bs len))) (\<lambda>ok.
     bind (assert_at ''stcp_api.c'' 165 ok) (\<lambda>_.
     ret (len, bs))))"

text \<open>The loop over the variable arguments: buffers and lengths up to a NULL pointer.\<close>

text \<open>The sum of the lengths, a size\_t, cannot wrap around, since they are lengths of objects in memory.\<close>

fun gather :: "byte list \<Rightarrow> (byte list \<times> nat) list \<Rightarrow> ('s, byte list) prog" where
  "gather packet [] = ret packet"
| "gather packet ((next_buf, next_len) # segs) =
     bind (assert_at ''stcp_api.c'' 212 (length packet + next_len \<le> MAX_IP_PAYLOAD_LEN)) (\<lambda>_.
     if length next_buf < next_len then abort (Out_of_bounds ''stcp_api.c'' 213)
     else gather (packet @ take next_len next_buf) segs)"

definition stcp_network_send ::
    "'os env \<Rightarrow> int \<Rightarrow> 64 word \<Rightarrow> byte list \<Rightarrow> nat \<Rightarrow> (byte list \<times> nat) list \<Rightarrow> ('os sys, int) prog" where
  "stcp_network_send E sd addr src src_len segs =
     bind (mysock_get_context sd) (\<lambda>x.
     bind (the_or (Assertion ''stcp_api.c'' 201) x) (\<lambda>p.
     bind (assert_at ''stcp_api.c'' 203 (src_len \<le> MAX_IP_PAYLOAD_LEN)) (\<lambda>_.
     bind (if length src < src_len then abort (Out_of_bounds ''stcp_api.c'' 204) else ret (take src_len src)) (\<lambda>packet0.
     bind (gather packet0 segs) (\<lambda>packet1.
     bind (assert_at ''stcp_api.c'' 219 (length packet1 \<ge> sizeof_tcphdr)) (\<lambda>_.
     bind (network_get_port E p) (\<lambda>port.
     bind (get_ctx ''stcp_api.c'' 225 p) (\<lambda>c.
     let peer = peer_addr (network_state c) in
     bind (assert_at ''stcp_api.c'' 225 (sa_family peer = AF_INET)) (\<lambda>_.
     bind (assert_at ''stcp_api.c'' 228 (sin_port peer > 0)) (\<lambda>_.
     let packet2 = store16_at (host_order E) (store16_at (host_order E) (store16_at (host_order E)
           (store16_at (host_order E) packet1 off_th_sport port) off_th_dport (sin_port peer))
           off_th_sum 0) off_th_urp 0 in
     bind (mysock_set_checksum E c addr packet2 (length packet2)) (\<lambda>packet3.
     network_send E sd packet3 (length packet3))))))))))))"

section \<open>Data to and from the application\<close>

definition stcp_app_recv :: "int \<Rightarrow> nat \<Rightarrow> ('os sys, nat \<times> byte list) prog" where
  "stcp_app_recv sd max_len =
     bind (mysock_get_context sd) (\<lambda>x.
     bind (the_or (Assertion ''stcp_api.c'' 243) x) (\<lambda>p.
     on_ctx ''stcp_api.c'' 249 p (on_app_recv_queue (mysock_dequeue_buffer max_len True))))"

definition stcp_app_send :: "int \<Rightarrow> byte list \<Rightarrow> nat \<Rightarrow> ('os sys, unit) prog" where
  "stcp_app_send sd src src_len =
     bind (mysock_get_context sd) (\<lambda>x.
     bind (the_or (Assertion ''stcp_api.c'' 257) x) (\<lambda>p.
     if src_len > 0
     then on_ctx ''stcp_api.c'' 262 p (on_app_send_queue (mysock_enqueue_buffer (Some src) src_len))
     else ret ()))"

definition stcp_fin_received :: "int \<Rightarrow> ('os sys, unit) prog" where
  "stcp_fin_received sd =
     bind (mysock_get_context sd) (\<lambda>x.
     bind (the_or (Assertion ''stcp_api.c'' 269) x) (\<lambda>p.
     on_ctx ''stcp_api.c'' 271 p (on_app_send_queue (mysock_enqueue_buffer None 0))))"

section \<open>Segments between peers\<close>

text \<open>The address of the local host, and a context that knows its peer.\<close>

definition local_ip :: "'os env \<Rightarrow> 'os \<Rightarrow> 32 word option" where
  "local_ip E w = Option.bind (os_gethostname E w) (\<lambda>h. os_gethostbyname E h w)"

definition knows_peer :: "mysock_context \<Rightarrow> 32 word \<Rightarrow> bool" where
  "knows_peer c ip \<longleftrightarrow> peer_addr_valid (network_state c) \<and> 0 < peer_addr_len (network_state c)
     \<and> sa_family (peer_addr (network_state c)) = AF_INET \<and> sin_addr (peer_addr (network_state c)) = ip"

lemma get_local_addr_run:
  assumes "knows_peer c ip" "local_ip E (os s) = Some a"
  shows "network_get_local_addr E (network_state c) s = Done a s"
  using assms by (auto simp: network_get_local_addr_def network_get_interface_ip_def knows_peer_def local_ip_def run_simps
      bind_eq_Some_conv)

lemma set_checksum_run:
  assumes "knows_peer c b" "local_ip E (os s) = Some a" "20 \<le> len" "len \<le> length packet" "0 < a" "0 < b" "addr AND 2 = 0"
  shows "mysock_set_checksum E c addr packet len s
    = Done (store16_at (host_order E) packet 16 (fold_sum (checksum_sum (host_order E) a b packet len))) s"
  using assms get_local_addr_run [OF assms(1,2)]
  by (simp add: mysock_set_checksum_def mysock_tcp_checksum_def run_simps knows_peer_def)

lemma verify_checksum_run:
  assumes "knows_peer c a" "local_ip E (os s) = Some b" "20 \<le> len" "len \<le> length packet" "0 < a" "0 < b" "addr AND 2 = 0"
  shows "mysock_verify_checksum E c addr packet len s
    = Done (fold_sum (checksum_sum (host_order E) a b packet len) = load16_at (host_order E) packet 16) s"
  using assms get_local_addr_run [OF assms(1,2)]
  by (simp add: mysock_verify_checksum_def mysock_tcp_checksum_def run_simps knows_peer_def)

text \<open>The two ends of a connection: each has the other's address, in its own byte order.\<close>

definition mirrored :: "'a env \<Rightarrow> mysock_context \<Rightarrow> 'a \<Rightarrow> 'b env \<Rightarrow> mysock_context \<Rightarrow> 'b \<Rightarrow> bool" where
  "mirrored E c w F d v \<longleftrightarrow> (case (local_ip E w, local_ip F v) of
       (Some a, Some b) \<Rightarrow> 0 < a \<and> 0 < b \<and> 0 < sin_addr (peer_addr (network_state c)) \<and> 0 < sin_addr (peer_addr (network_state d))
         \<and> knows_peer c (sin_addr (peer_addr (network_state c))) \<and> knows_peer d (sin_addr (peer_addr (network_state d)))
         \<and> store32 (host_order E) a = store32 (host_order F) (sin_addr (peer_addr (network_state d)))
         \<and> store32 (host_order E) (sin_addr (peer_addr (network_state c))) = store32 (host_order F) b
     | _ \<Rightarrow> False)"

lemma store16_at_order:
  assumes "store16 h w = store16 h' w'"
  shows "store16_at h bs i w = store16_at h' bs i w'"
  using assms by (simp add: store16_at_def)

lemma verify_set_checksum:
  assumes "mirrored E c (os s) F d (os t)" "20 \<le> len" "len \<le> 65524" "len \<le> length packet" "addr AND 2 = 0" "addr' AND 2 = 0"
  shows "\<exists>seg a b w. mysock_set_checksum E c addr packet len s = Done seg s
    \<and> seg = store16_at (host_order F) packet 16 w \<and> w = fold_sum (checksum_sum (host_order F) a b packet len)
    \<and> knows_peer d a \<and> local_ip F (os t) = Some b \<and> 0 < a \<and> 0 < b"
proof -
  from assms(1) obtain a b where ab: "local_ip E (os s) = Some a" "local_ip F (os t) = Some b" "0 < a" "0 < b"
    by (auto simp: mirrored_def split: option.splits)
  let ?c = "sin_addr (peer_addr (network_state c))" and ?d = "sin_addr (peer_addr (network_state d))"
  from assms(1) ab have pos: "0 < ?c" "0 < ?d" and kn: "knows_peer c ?c" "knows_peer d ?d"
    and bytes: "store32 (host_order E) a = store32 (host_order F) ?d" "store32 (host_order E) ?c = store32 (host_order F) b"
    by (simp_all add: mirrored_def)
  note run = set_checksum_run [OF kn(1) ab(1) assms(2,4) ab(3) pos(1) assms(5)]
  note ord = store16_at_order [OF checksum_bytes_order [OF assms(2-4) bytes], of packet 16]
  show ?thesis using run ord kn(2) ab pos by metis
qed

lemma seal_then_verify:
  assumes "mirrored E c (os s) F d (os t)" and "20 \<le> len" and "len \<le> 65524" and "len \<le> length packet"
    and "addr AND 2 = 0" and "addr' AND 2 = 0"
  shows "\<exists>seg. mysock_set_checksum E c addr packet len s = Done seg s \<and> length seg = length packet
    \<and> (\<forall>k. k \<noteq> 16 \<and> k \<noteq> 17 \<longrightarrow> seg ! k = packet ! k) \<and> mysock_verify_checksum F d addr' seg len t = Done True t"
proof -
  from verify_set_checksum [OF assms(1-4) assms(5,6)] obtain a b w where
    set: "mysock_set_checksum E c addr packet len s = Done (store16_at (host_order F) packet 16 w) s"
    and w: "w = fold_sum (checksum_sum (host_order F) a b packet len)"
    and ab: "knows_peer d a" "local_ip F (os t) = Some b" "0 < a" "0 < b" by blast
  have "mysock_verify_checksum F d addr' (store16_at (host_order F) packet 16 w) len t = Done True t"
    using verify_checksum_run [OF ab(1,2) assms(2) _ ab(3,4) assms(6), of "store16_at (host_order F) packet 16 w"]
      checksum_sum_ignores_field [OF assms(2,4)] w assms(2,4) by simp
  moreover have "store16_at (host_order F) packet 16 w ! k = packet ! k" if "k \<noteq> 16 \<and> k \<noteq> 17" for k
    using that by (simp add: store16_at_def)
  ultimately show ?thesis using set by simp
qed

section \<open>Properties: checksums\<close>

text \<open>C12: Every segment sealed by \<open>_mysock_set_checksum\<close> at one end of a connection passes
  \<open>_mysock_verify_checksum\<close> at the other end, for any contents and any length from 20 to 65524, also
  when the two hosts have different byte orders; sealing changes only the two checksum bytes. This holds where each host
  resolves its own host name to the address that the other end has recorded as its peer (\<open>mirrored\<close>), since both sums cover
  the address that \<open>_network_get_interface_ip\<close> finds, which network\_io\_socket.c calls completely broken for multi-homed
  hosts; and for packets at addresses whose bit 1 is clear, which tcp\_sum.c asserts.\<close>

theorem segment_verifies_at_peer:
  assumes "mirrored E c (os s) F d (os t)" and "20 \<le> len" and "len \<le> 65524" and "len \<le> length packet"
    and "addr AND 2 = 0" and "addr' AND 2 = 0"
  shows "\<exists>seg. mysock_set_checksum E c addr packet len s = Done seg s \<and> length seg = length packet
    \<and> (\<forall>k. k \<noteq> 16 \<and> k \<noteq> 17 \<longrightarrow> seg ! k = packet ! k) \<and> mysock_verify_checksum F d addr' seg len t = Done True t"
  by (rule seal_then_verify [OF assms])

text \<open>A peer for the sample context: a big endian host at 127.0.0.2.\<close>

definition peer_env :: "byte list env" where
  "peer_env = loop_env\<lparr>host_order := Big, os_gethostbyname := \<lambda>_ _. Some 0x7f000002\<rparr>"

definition peer_context :: mysock_context where
  "peer_context = upd_network (\<lambda>n. n\<lparr>peer_addr := sample_peer\<lparr>sin_addr := 0x7f000001\<rparr>\<rparr>) (peered True)"

lemma peers_mirrored: "mirrored loop_env (peered b) w peer_env peer_context v"
  by (simp add: mirrored_def local_ip_def knows_peer_def loop_env_def peer_env_def peer_context_def upd_network_def)

theorem segment_verifies_at_peer_witness:
  "\<exists>seg. mysock_set_checksum loop_env (peered True) 0x1000 sample_segment 23 (peered_sys True []) = Done seg (peered_sys True [])
    \<and> length seg = 23 \<and> mysock_verify_checksum peer_env peer_context 0x2000 seg 23 (peered_sys True []) = Done True (peered_sys True [])"
proof -
  have len: "(20::nat) \<le> 23" "(23::nat) \<le> 65524" "23 \<le> length sample_segment" "length sample_segment = 23"
    and al: "(0x1000 :: 64 word) AND 2 = 0" "(0x2000 :: 64 word) AND 2 = 0" by simp_all
  show ?thesis
    using segment_verifies_at_peer [OF peers_mirrored len(1-3) al, of True "peered_sys True []" "peered_sys True []"] len(4)
    by auto
qed

text \<open>C15: A valid segment in which one byte is changed, wherever it is (the checksum field
  included) and whatever the new value, never passes \<open>_mysock_verify_checksum\<close>.\<close>

theorem single_byte_corruption_detected:
  assumes "mysock_verify_checksum E c addr seg len s = Done True s" and "len \<le> 65524" and "len \<le> length seg"
    and "i < len" and "b \<noteq> seg ! i" and "knows_peer c a" and "local_ip E (os s) = Some a'"
    and "20 \<le> len" and "0 < a" and "0 < a'" and "addr AND 2 = 0"
  shows "mysock_verify_checksum E c addr (seg[i := b]) len s = Done False s"
proof -
  let ?h = "host_order E"
  note run = verify_checksum_run [OF assms(6,7,8) _ assms(9-11)]
  from assms(1) run [OF assms(3)] have ok: "fold_sum (checksum_sum ?h a a' seg len) = load16_at ?h seg 16" by simp
  have "fold_sum (checksum_sum ?h a a' (seg[i := b]) len) \<noteq> load16_at ?h (seg[i := b]) 16"
  proof (cases "i = 16 \<or> i = 17")
    case True
    then have "zero_sum_field (seg[i := b]) = zero_sum_field seg"
      by (auto simp: zero_sum_field_def list_update_swap)
    then have "checksum_sum ?h a a' (seg[i := b]) len = checksum_sum ?h a a' seg len"
      using assms(3,8) by (simp add: checksum_sum_words covered_def)
    moreover have "load16_at ?h (seg[i := b]) 16 \<noteq> load16_at ?h seg 16"
      using True assms(3-5) by (auto simp: load16_at_eq_iff)
    ultimately show ?thesis using ok by simp
  next
    case False
    then have "load16_at ?h (seg[i := b]) 16 = load16_at ?h seg 16" by (simp add: load16_at_eq_iff)
    moreover have "fold_sum (checksum_sum ?h a a' (seg[i := b]) len) \<noteq> fold_sum (checksum_sum ?h a a' seg len)"
    proof
      assume "fold_sum (checksum_sum ?h a a' (seg[i := b]) len) = fold_sum (checksum_sum ?h a a' seg len)"
      then have "65535 - oc_norm (covered_sum ?h a a' (seg[i := b]) len) = 65535 - oc_norm (covered_sum ?h a a' seg len)"
        using unat_checksum [OF assms(8,2), of seg ?h a a'] unat_checksum [OF assms(8,2), of "seg[i := b]" ?h a a'] assms(3)
        by simp
      then show False
        using single_byte_changes_sum [OF assms(8,3,4) _ _ assms(5), of ?h a a'] False
          oc_norm_le [of "covered_sum ?h a a' (seg[i := b]) len"] oc_norm_le [of "covered_sum ?h a a' seg len"] by simp
    qed
    ultimately show ?thesis using ok by simp
  qed
  then show ?thesis using run [of "seg[i := b]"] assms(3) by simp
qed

theorem single_byte_corruption_detected_witness:
  "\<exists>seg. mysock_verify_checksum peer_env peer_context 0x2000 seg 23 (peered_sys True []) = Done True (peered_sys True [])
    \<and> mysock_verify_checksum peer_env peer_context 0x2000 (seg[0 := seg ! 0 + 1]) 23 (peered_sys True []) = Done False (peered_sys True [])"
proof -
  have len: "(20::nat) \<le> 23" "(23::nat) \<le> 65524" "23 \<le> length sample_segment" "length sample_segment = 23"
    and al: "(0x1000 :: 64 word) AND 2 = 0" "(0x2000 :: 64 word) AND 2 = 0" by simp_all
  from seal_then_verify [OF peers_mirrored len(1-3) al, of True "peered_sys True []" "peered_sys True []"] len(4) obtain seg where
    v: "mysock_verify_checksum peer_env peer_context 0x2000 seg 23 (peered_sys True []) = Done True (peered_sys True [])"
    and l: "length seg = 23" by auto
  have "knows_peer peer_context 0x7f000001" "local_ip peer_env (os (peered_sys True [])) = Some 0x7f000002"
    by (simp_all add: knows_peer_def peer_context_def upd_network_def local_ip_def peer_env_def loop_env_def)
  from single_byte_corruption_detected [OF v _ _ _ _ this, of 0 "seg ! 0 + 1"] l v show ?thesis by auto
qed

section \<open>Events\<close>

lemma wait_round_run:
  assumes "wf_queue (app_recv_queue c)" "wf_queue (network_recv_queue c)"
  shows "wait_round flags c =
    Done ((if flags AND APP_DATA \<noteq> 0 \<and> contents (app_recv_queue c) \<noteq> [] then APP_DATA else 0)
       OR (if flags AND NETWORK_DATA \<noteq> 0 \<and> contents (network_recv_queue c) \<noteq> [] then NETWORK_DATA else 0)
       OR (if close_requested c \<and> contents (app_recv_queue c) = [] then APP_CLOSE_REQUESTED else 0))
      (if close_requested c \<and> contents (app_recv_queue c) = [] then c\<lparr>close_requested := False\<rparr> else c)"
  using enqueue_head [OF assms(1)] enqueue_head [OF assms(2)] by (simp add: wait_round_def Let_def)

lemma event_bits:
  "((if a then 1 else 0) OR (if b then 2 else 0) OR (if c then 4 else 0) :: 32 word) = 0 \<longleftrightarrow> \<not> a \<and> \<not> b \<and> \<not> c"
  "((if a then 1 else 0) OR (if b then 2 else 0) OR (if c then 4 else 0) :: 32 word) AND 1 \<noteq> 0 \<longleftrightarrow> a"
  "((if a then 1 else 0) OR (if b then 2 else 0) OR (if c then 4 else 0) :: 32 word) AND 2 \<noteq> 0 \<longleftrightarrow> b"
  "((if a then 1 else 0) OR (if b then 2 else 0) OR (if c then 4 else 0) :: 32 word) AND 4 \<noteq> 0 \<longleftrightarrow> c"
  by (cases a; cases b; cases c; simp)+

lemma wait_for_event_run:
  assumes "open_socket sd p s" "hload (ctxs s) p = Some c"
  shows "stcp_wait_for_event sd flags timed_out s =
    (let app = flags AND APP_DATA \<noteq> 0 \<and> contents (app_recv_queue c) \<noteq> [];
         net = flags AND NETWORK_DATA \<noteq> 0 \<and> contents (network_recv_queue c) \<noteq> [];
         cls = close_requested c \<and> contents (app_recv_queue c) = [];
         s' = (if cls then s\<lparr>ctxs := hstore (ctxs s) p (c\<lparr>close_requested := False\<rparr>)\<rparr> else s)
     in if app \<or> net \<or> cls
        then Done ((if app then APP_DATA else 0) OR (if net then NETWORK_DATA else 0) OR (if cls then APP_CLOSE_REQUESTED else 0)) s'
        else if timed_out then Done 0 s else Blocked s)"
proof -
  have "wf_ctx p c" using assms by (auto elim: open_socketE)
  then have wq: "wf_queue (app_recv_queue c)" "wf_queue (network_recv_queue c)" by (simp_all add: wf_ctx_def)
  show ?thesis using assms(2) wait_round_run [OF wq] open_socket_context(2) [OF assms(1)]
    by (simp add: stcp_wait_for_event_def run_simps Let_def event_bits(1) hstore_same)
qed

text \<open>Reads of the application's data: the queue operation on the context.\<close>

lemma wf_ctx_queue [simp]:
  "wf_ctx p c \<Longrightarrow> wf_queue q \<Longrightarrow> wf_ctx p (c\<lparr>app_recv_queue := q\<rparr>)"
  "wf_ctx p c \<Longrightarrow> wf_queue q \<Longrightarrow> wf_ctx p (c\<lparr>app_send_queue := q\<rparr>)"
  "wf_ctx p c \<Longrightarrow> wf_queue q \<Longrightarrow> wf_ctx p (c\<lparr>network_recv_queue := q\<rparr>)"
  "wf_ctx p (c\<lparr>close_requested := b\<rparr>) = wf_ctx p c"
  "wf_ctx p (c\<lparr>eof := b\<rparr>) = wf_ctx p c"
  by (simp_all add: wf_ctx_def)

lemma app_recv_run:
  assumes "open_socket sd p s" "hload (ctxs s) p = Some c"
  shows "stcp_app_recv sd n s = (case mysock_dequeue_buffer n True (app_recv_queue c) of
      Done r q \<Rightarrow> Done r (s\<lparr>ctxs := hstore (ctxs s) p (c\<lparr>app_recv_queue := q\<rparr>)\<rparr>)
    | Blocked q \<Rightarrow> Blocked (s\<lparr>ctxs := hstore (ctxs s) p (c\<lparr>app_recv_queue := q\<rparr>)\<rparr>)
    | Abort e \<Rightarrow> Abort e)"
  using assms open_socket_context(1) [OF assms(1)]
  by (simp add: stcp_app_recv_def run_simps on_app_recv_queue_def zoom_def split: outcome.split)

lemma app_recv_stream:
  assumes "open_socket sd p s" "hload (ctxs s) p = Some c"
  shows "(contents (app_recv_queue c) = [] \<and> stcp_app_recv sd n s = Blocked s) \<or>
    (\<exists>bs c' s'. stcp_app_recv sd n s = Done (length bs, bs) s' \<and> open_socket sd p s' \<and> hload (ctxs s') p = Some c'
       \<and> close_requested c' = close_requested c \<and> contents (app_recv_queue c) \<noteq> []
       \<and> bs @ concat (contents (app_recv_queue c')) = concat (contents (app_recv_queue c)))"
proof -
  have wf: "wf_ctx p c" using assms by (auto elim: open_socketE)
  then have wq: "wf_queue (app_recv_queue c)" by (simp add: wf_ctx_def)
  from pq.stream.deq_stream [OF wq, of n] show ?thesis
  proof (elim disjE exE conjE)
    assume "contents (app_recv_queue c) = []" "mysock_dequeue_buffer n True (app_recv_queue c) = Blocked (app_recv_queue c)"
    then show ?thesis using assms(2) by (simp add: app_recv_run [OF assms] hstore_same)
  next
    fix bs q assume d: "mysock_dequeue_buffer n True (app_recv_queue c) = Done (length bs, bs) q" "wf_queue q"
      "bs @ concat (contents q) = concat (contents (app_recv_queue c))"
    let ?s = "s\<lparr>ctxs := hstore (ctxs s) p (c\<lparr>app_recv_queue := q\<rparr>)\<rparr>"
    have "stcp_app_recv sd n s = Done (length bs, bs) ?s" using d by (simp add: app_recv_run [OF assms])
    moreover have "open_socket sd p ?s"
      by (rule open_socket_store [OF assms]) (use wf d in simp_all)
    moreover have "contents (app_recv_queue c) \<noteq> []"
      using d(1) pq.deq_wait [OF wq, of n True] by auto
    ultimately show ?thesis using d(3) hload_bound [OF assms(2)]
      by (intro disjI2 exI [of _ bs] exI [of _ "c\<lparr>app_recv_queue := q\<rparr>"] exI [of _ ?s]) (simp add: heap_simps)
  qed
qed

text \<open>What a transport layer does with the application's side: waits and reads, and what it sees.\<close>

datatype transport_call = Wait "32 word" | Recv nat
datatype transport_obs = Event "32 word" | Bytes "byte list"

fun transport_run :: "int \<Rightarrow> transport_call list \<Rightarrow> ('os sys, transport_obs list) prog" where
  "transport_run sd [] s = Done [] s"
| "transport_run sd (Wait flags # calls) s =
     (case stcp_wait_for_event sd flags False s of
        Done rc s' \<Rightarrow> (case transport_run sd calls s' of Done obs s'' \<Rightarrow> Done (Event rc # obs) s'' | x \<Rightarrow> x)
      | Blocked s' \<Rightarrow> transport_run sd calls s'
      | Abort e \<Rightarrow> Abort e)"
| "transport_run sd (Recv n # calls) s =
     (case stcp_app_recv sd n s of
        Done (len, bs) s' \<Rightarrow> (case transport_run sd calls s' of Done obs s'' \<Rightarrow> Done (Bytes bs # obs) s'' | x \<Rightarrow> x)
      | Blocked s' \<Rightarrow> transport_run sd calls s'
      | Abort e \<Rightarrow> Abort e)"

fun obs_bytes :: "transport_obs \<Rightarrow> byte list" where
  "obs_bytes (Event rc) = []"
| "obs_bytes (Bytes bs) = bs"

definition delivered :: "transport_obs list \<Rightarrow> byte list" where
  "delivered obs = concat (map obs_bytes obs)"

definition closes :: "transport_obs \<Rightarrow> bool" where
  "closes x = (case x of Event rc \<Rightarrow> rc AND APP_CLOSE_REQUESTED \<noteq> 0 | Bytes bs \<Rightarrow> False)"

text \<open>A socket on which a close is pending (or not), with the bytes the application left to be read.\<close>

definition app_side :: "int \<Rightarrow> ptr \<Rightarrow> bool \<Rightarrow> byte list list \<Rightarrow> 'os sys \<Rightarrow> bool" where
  "app_side sd p cls bufs s \<longleftrightarrow> open_socket sd p s \<and> (case hload (ctxs s) p of None \<Rightarrow> False
     | Some c \<Rightarrow> close_requested c = cls \<and> contents (app_recv_queue c) = bufs)"

lemma app_side_wait:
  assumes "app_side sd p cls bufs s"
  shows "(stcp_wait_for_event sd flags False s = Blocked s \<and> (cls \<longrightarrow> bufs \<noteq> [])) \<or>
    (\<exists>rc s'. stcp_wait_for_event sd flags False s = Done rc s' \<and> closes (Event rc) = (cls \<and> bufs = [])
       \<and> app_side sd p (cls \<and> bufs \<noteq> []) bufs s')"
proof -
  from assms obtain c where o: "open_socket sd p s" and c: "hload (ctxs s) p = Some c"
    "close_requested c = cls" "contents (app_recv_queue c) = bufs" by (auto simp: app_side_def split: option.splits)
  have wf: "wf_ctx p c" using o c(1) by (auto elim: open_socketE)
  have "open_socket sd p (s\<lparr>ctxs := hstore (ctxs s) p (c\<lparr>close_requested := False\<rparr>)\<rparr>)"
    by (rule open_socket_store [OF o c(1)]) (use wf in simp_all)
  then have s': "app_side sd p False bufs (s\<lparr>ctxs := hstore (ctxs s) p (c\<lparr>close_requested := False\<rparr>)\<rparr>)"
    using c hload_bound [OF c(1)] by (simp add: app_side_def heap_simps)
  show ?thesis unfolding wait_for_event_run [OF o c(1)] Let_def c(2,3)
    using assms s' by (auto simp: closes_def event_bits)
qed

lemma app_side_recv:
  assumes "app_side sd p cls bufs s"
  shows "(bufs = [] \<and> stcp_app_recv sd n s = Blocked s) \<or>
    (\<exists>bs bufs' s'. stcp_app_recv sd n s = Done (length bs, bs) s' \<and> bufs \<noteq> [] \<and> app_side sd p cls bufs' s'
      \<and> bs @ concat bufs' = concat bufs)"
proof -
  from assms obtain c where o: "open_socket sd p s" and c: "hload (ctxs s) p = Some c"
    "close_requested c = cls" "contents (app_recv_queue c) = bufs" by (auto simp: app_side_def split: option.splits)
  from app_recv_stream [OF o c(1), of n] c show ?thesis by (fastforce simp: app_side_def)
qed

lemma transport_quiet:
  "app_side sd p False bufs s \<Longrightarrow> \<exists>obs s'. transport_run sd calls s = Done obs s' \<and> list_all (\<lambda>x. \<not> closes x) obs
     \<and> (bufs = [] \<longrightarrow> delivered obs = [])"
proof (induction calls arbitrary: bufs s)
  case Nil
  show ?case by (simp add: delivered_def)
next
  case (Cons call calls)
  show ?case
  proof (cases call)
    case (Wait flags)
    from app_side_wait [OF Cons.prems, of flags] show ?thesis
    proof (elim disjE exE conjE)
      assume "stcp_wait_for_event sd flags False s = Blocked s"
      then show ?thesis using Cons.IH [OF Cons.prems] Wait by simp
    next
      fix rc s1 assume s1: "stcp_wait_for_event sd flags False s = Done rc s1" "closes (Event rc) = (False \<and> bufs = [])"
        "app_side sd p (False \<and> bufs \<noteq> []) bufs s1"
      from Cons.IH [of bufs s1] s1 Wait show ?thesis by (auto simp: delivered_def)
    qed
  next
    case (Recv n)
    from app_side_recv [OF Cons.prems, of n] show ?thesis
    proof (elim disjE exE conjE)
      assume "stcp_app_recv sd n s = Blocked s"
      then show ?thesis using Cons.IH [OF Cons.prems] Recv by simp
    next
      fix bs bufs' s1 assume s1: "stcp_app_recv sd n s = Done (length bs, bs) s1" "bufs \<noteq> []" "app_side sd p False bufs' s1"
      from Cons.IH [OF s1(3)] s1 Recv show ?thesis by (auto simp: closes_def)
    qed
  qed
qed

text \<open>
  \<open>orderly xs obs\<close>: every close event comes when exactly the bytes xs have been delivered, and after it
  there is no further close and no further data.
\<close>

definition orderly :: "byte list \<Rightarrow> transport_obs list \<Rightarrow> bool" where
  "orderly xs obs \<longleftrightarrow> (\<forall>i < length obs. closes (obs ! i) \<longrightarrow> delivered (take i obs) = xs
     \<and> delivered (drop (Suc i) obs) = [] \<and> list_all (\<lambda>x. \<not> closes x) (drop (Suc i) obs))"

lemma orderly_Cons:
  "orderly (obs_bytes x @ xs) (x # obs) \<longleftrightarrow> orderly xs obs" if "\<not> closes x"
  using that by (auto simp: orderly_def delivered_def nth_Cons split: nat.splits)

lemma orderly_close: "closes x \<Longrightarrow> list_all (\<lambda>x. \<not> closes x) obs \<Longrightarrow> delivered obs = [] \<Longrightarrow> orderly [] (x # obs)"
  by (auto simp: orderly_def delivered_def nth_Cons list_all_length split: nat.splits)

lemma transport_orderly:
  "app_side sd p True bufs s \<Longrightarrow> \<exists>obs s'. transport_run sd calls s = Done obs s' \<and> orderly (concat bufs) obs"
proof (induction calls arbitrary: bufs s)
  case Nil
  show ?case by (simp add: orderly_def)
next
  case (Cons call calls)
  show ?case
  proof (cases call)
    case (Wait flags)
    from app_side_wait [OF Cons.prems, of flags] show ?thesis
    proof (elim disjE exE conjE)
      assume "stcp_wait_for_event sd flags False s = Blocked s"
      then show ?thesis using Cons.IH [OF Cons.prems] Wait by simp
    next
      fix rc s1 assume s1: "stcp_wait_for_event sd flags False s = Done rc s1" "closes (Event rc) = (True \<and> bufs = [])"
        "app_side sd p (True \<and> bufs \<noteq> []) bufs s1"
      show ?thesis
      proof (cases "bufs = []")
        case True
        with transport_quiet [of sd p bufs s1 calls] s1 Wait show ?thesis by (auto intro: orderly_close)
      next
        case False
        with Cons.IH [of bufs s1] s1 Wait orderly_Cons [of "Event rc" "concat bufs"] show ?thesis by auto
      qed
    qed
  next
    case (Recv n)
    from app_side_recv [OF Cons.prems, of n] show ?thesis
    proof (elim disjE exE conjE)
      assume "stcp_app_recv sd n s = Blocked s"
      then show ?thesis using Cons.IH [OF Cons.prems] Recv by simp
    next
      fix bs bufs' s1 assume s1: "stcp_app_recv sd n s = Done (length bs, bs) s1" "app_side sd p True bufs' s1"
        "bs @ concat bufs' = concat bufs"
      from Cons.IH [OF s1(2)] s1(1,3) Recv orderly_Cons [of "Bytes bs" "concat bufs'"] show ?thesis
        by (auto simp: closes_def)
    qed
  qed
qed

section \<open>Properties: events\<close>

text \<open>\<open>stcp_wait_for_event\<close> on an open mysocket. It never ends the process; it returns exactly the
  events that hold (application data and network data only if asked for, the close request
  whether asked for or not, and only once no application data is left), it returns 0 only after
  its time limit, it waits only if nothing holds, and it clears the close request exactly when it
  reports it.\<close>

lemma wait_for_event_reports:
  assumes "open_socket sd p s" and "hload (ctxs s) p = Some c"
  shows "case stcp_wait_for_event sd flags timed_out s of
      Done rc s' \<Rightarrow> (rc AND 1 \<noteq> 0 \<longleftrightarrow> flags AND 1 \<noteq> 0 \<and> contents (app_recv_queue c) \<noteq> [])
        \<and> (rc AND 2 \<noteq> 0 \<longleftrightarrow> flags AND 2 \<noteq> 0 \<and> contents (network_recv_queue c) \<noteq> [])
        \<and> (rc AND 4 \<noteq> 0 \<longleftrightarrow> close_requested c \<and> contents (app_recv_queue c) = [])
        \<and> (rc = 0 \<longrightarrow> timed_out) \<and> (rc AND 1 = 0 \<and> rc AND 2 = 0 \<and> rc AND 4 = 0 \<longrightarrow> rc = 0)
        \<and> s' = (if rc AND 4 \<noteq> 0 then s\<lparr>ctxs := hstore (ctxs s) p (c\<lparr>close_requested := False\<rparr>)\<rparr> else s)
    | Blocked s' \<Rightarrow> s' = s \<and> \<not> timed_out \<and> \<not> (flags AND 1 \<noteq> 0 \<and> contents (app_recv_queue c) \<noteq> [])
        \<and> \<not> (flags AND 2 \<noteq> 0 \<and> contents (network_recv_queue c) \<noteq> [])
        \<and> \<not> (close_requested c \<and> contents (app_recv_queue c) = [])
    | Abort e \<Rightarrow> False"
  unfolding wait_for_event_run [OF assms] Let_def using assms(2)
  by (auto simp: event_bits)

text \<open>C14: A close request reaches the transport layer once, after all data. From any moment at which
  the application has asked for the close, whatever waits (with whatever flags) and reads the
  transport layer makes: no call ends the process, a close event is seen only after exactly the
  data the application left has been read, and after it neither another close event nor data.\<close>

theorem close_delivered_once_after_data:
  assumes "app_side sd p True bufs s"
  shows "\<exists>obs s'. transport_run sd calls s = Done obs s' \<and> orderly (concat bufs) obs"
  by (rule transport_orderly [OF assms])

text \<open>The sample context after the application has written two bytes and closed.\<close>

abbreviation closing_sys :: "nat sys" where
  "closing_sys \<equiv> sample_sys\<lparr>ctxs := [Some (sample_context\<lparr>app_recv_queue := two_byte_queue, close_requested := True\<rparr>)]\<rparr>"

lemma closing_app_side: "app_side 0 0 True [[7, 8]] closing_sys"
proof -
  have o: "open_socket 0 0 sample_sys" and c: "hload (ctxs sample_sys) 0 = Some sample_context"
    by (simp_all add: open_socket_def hload_def)
  have "open_socket 0 0 (sample_sys\<lparr>ctxs := hstore (ctxs sample_sys) 0
      (sample_context\<lparr>app_recv_queue := two_byte_queue, close_requested := True\<rparr>)\<rparr>)"
    by (rule open_socket_store [OF o c]) (simp_all add: two_byte_queue_wf)
  then show ?thesis using two_byte_queue_contents by (simp add: app_side_def hstore_def hload_def)
qed

theorem close_delivered_once_after_data_witness:
  "\<exists>obs s'. transport_run 0 [Wait 0, Recv 1, Wait 3, Recv 5, Wait 0, Wait 0] closing_sys = Done obs s' \<and> orderly [7, 8] obs"
  using close_delivered_once_after_data [OF closing_app_side, of "[Wait 0, Recv 1, Wait 3, Recv 5, Wait 0, Wait 0]"]
  by (simp del: transport_run.simps)

end
