(* ===== verification/Mysock_Api.thy ===== *)
theory Mysock_Api
  imports Stcp_Api
begin

text \<open>
  mysock_api.c, the interface of the application, with \<open>_mysock_close_passive_socket\<close> of
  connection_demux.c. A call that returns -1 is \<open>Inl errno\<close>. The two close functions call each
  other: a listening socket closes the connections of its queue. \<open>myclose_fuel\<close> bounds the nesting.
\<close>

section \<open>Creating and connecting mysockets\<close>

definition mysocket :: "'os env \<Rightarrow> bool \<Rightarrow> ('os sys, errno + int) prog" where
  "mysocket E reliable = mysock_new_mysocket E reliable"

definition mybind :: "'os env \<Rightarrow> int \<Rightarrow> sockaddr \<Rightarrow> int \<Rightarrow> ('os sys, errno + int) prog" where
  "mybind E sd addr addrlen =
     bind (mysock_get_context sd) (\<lambda>x.
     case x of None \<Rightarrow> ret (Inl EBADF) | Some p \<Rightarrow>
     if sa_family addr \<noteq> AF_INET then ret (Inl EADDRNOTAVAIL)
     else
     bind (get_ctx ''mysock_api.c'' 40 p) (\<lambda>c.
     bind (assert_at ''mysock_api.c'' 40 (\<not> listening c)) (\<lambda>_.
     bind (on_ctx ''mysock_api.c'' 41 p (modify (\<lambda>c. upd_network (\<lambda>n. n\<lparr>local_addr := addr\<rparr>) (c\<lparr>bound := True\<rparr>)))) (\<lambda>_.
     network_bind E p addr addrlen))))"

definition myconnect :: "'os env \<Rightarrow> int \<Rightarrow> sockaddr \<Rightarrow> nat \<Rightarrow> ('os sys, errno + int) prog" where
  "myconnect E sd name namelen =
     bind (mysock_get_context sd) (\<lambda>x.
     case x of None \<Rightarrow> ret (Inl EINVAL) | Some p \<Rightarrow>
     bind (get_ctx ''mysock_api.c'' 52 p) (\<lambda>c.
     if peer_addr_len (network_state c) \<noteq> 0 then ret (Inl EISCONN)
     else
     bind (on_ctx ''mysock_api.c'' 61 p (modify (upd_network (\<lambda>n. n\<lparr>peer_addr := name, peer_addr_len := namelen,
             peer_addr_valid := True\<rparr>)))) (\<lambda>_.
     bind (if \<not> bound c then mysock_bind_ephemeral E p else ret (Inr 0)) (\<lambda>rc.
     case rc of Inl e \<Rightarrow> ret (Inl e) | Inr _ \<Rightarrow>
     bind (mysock_transport_init E sd True) (\<lambda>_.
     on_ctx ''mysock_api.c'' 84 p mysock_wait_for_connection)))))"

text \<open>The address of the peer is reported when addr and addrlen are not NULL.\<close>

definition myaccept :: "int \<Rightarrow> ('os sys, errno + int \<times> sockaddr \<times> nat) prog" where
  "myaccept sd =
     bind (mysock_get_context sd) (\<lambda>x.
     case x of None \<Rightarrow> ret (Inl EBADF) | Some ap \<Rightarrow>
     bind (get_ctx ''mysock_api.c'' 93 ap) (\<lambda>ac.
     if \<not> listening ac then ret (Inl EINVAL)
     else
     bind (mysock_dequeue_connection ap) (\<lambda>p.
     bind (get_ctx ''mysock_api.c'' 108 p) (\<lambda>c.
     bind (assert_at ''mysock_api.c'' 111 (stcp_errno c \<noteq> 0 \<or> peer_addr_len (network_state c) > 0)) (\<lambda>_.
     bind (assert_at ''mysock_api.c'' 120 (listen_sd c = sd)) (\<lambda>_.
     ret (if stcp_errno c \<noteq> 0 then Inl (stcp_errno c)
          else Inr (my_sd c, peer_addr (network_state c), peer_addr_len (network_state c)))))))))"

definition mylisten :: "'os env \<Rightarrow> int \<Rightarrow> int \<Rightarrow> ('os sys, errno + int) prog" where
  "mylisten E sd backlog =
     bind (mysock_get_context sd) (\<lambda>x.
     bind (the_or (Null_pointer ''mysock_api.c'' 130) x) (\<lambda>p.
     bind (get_ctx ''mysock_api.c'' 130 p) (\<lambda>c.
     bind (assert_at ''mysock_api.c'' 130 (bound c)) (\<lambda>_.
     bind (on_ctx ''mysock_api.c'' 136 p (modify (\<lambda>c. c\<lparr>listening := True\<rparr>))) (\<lambda>_.
     bind (mysock_set_backlog E p (of_int backlog)) (\<lambda>_.
     bind (network_listen E p backlog) (\<lambda>rc.
     case rc of Inl e \<Rightarrow> ret (Inl e) | Inr _ \<Rightarrow>
     bind (network_start_recv_thread E p) (\<lambda>_.
     ret (Inr 0)))))))))"

section \<open>Closing\<close>

text \<open>The call of myclose on each queued connection, in the order of the slots.\<close>

fun close_all :: "(int \<Rightarrow> ('os sys, 'a) prog) \<Rightarrow> connect_request list \<Rightarrow> ('os sys, unit) prog" where
  "close_all cl [] = ret ()"
| "close_all cl (r # rs) = bind (if req_sd r \<noteq> -1 then bind (cl (req_sd r)) (\<lambda>_. ret ()) else ret ()) (\<lambda>_. close_all cl rs)"

definition mysock_close_passive_socket :: "(int \<Rightarrow> ('os sys, 'a) prog) \<Rightarrow> ptr \<Rightarrow> ('os sys, unit) prog" where
  "mysock_close_passive_socket cl p =
     bind (get_ctx ''connection_demux.c'' 364 p) (\<lambda>c.
     bind (assert_at ''connection_demux.c'' 364 (listening c \<and> bound c)) (\<lambda>_.
     bind (get_connection_queue p) (\<lambda>x.
     case x of None \<Rightarrow> ret () | Some q \<Rightarrow>
     if length (connection_queue q) < lq_max_len q then abort (Out_of_bounds ''connection_demux.c'' 377)
     else
     bind (close_all cl (take (lq_max_len q) (connection_queue q))) (\<lambda>_.
     on_listen_table (hash_delete hash_default_hash_fn hash_default_key_equals MAX_NUM_CONNECTIONS (my_sd c))))))"

fun myclose_fuel :: "nat \<Rightarrow> 'os env \<Rightarrow> int \<Rightarrow> ('os sys, errno + int) prog" where
  "myclose_fuel 0 E sd = block"
| "myclose_fuel (Suc n) E sd =
     bind (mysock_get_context sd) (\<lambda>x.
     case x of None \<Rightarrow> ret (Inl EBADF) | Some p \<Rightarrow>
     bind (on_ctx ''mysock_api.c'' 170 p (modify (\<lambda>c. c\<lparr>close_requested := True\<rparr>))) (\<lambda>_.
     bind (get_ctx ''mysock_api.c'' 175 p) (\<lambda>c.
     bind (if transport_thread_started c
           then bind (assert_at ''mysock_api.c'' 177 (\<not> listening c)) (\<lambda>_.
                bind (assert_at ''mysock_api.c'' 178 (is_active c \<or> listen_sd c \<noteq> -1)) (\<lambda>_.
                bind (pthread_join (transport_thread c)) (\<lambda>_.
                on_ctx ''mysock_api.c'' 180 p (modify (\<lambda>c. c\<lparr>transport_thread_started := False\<rparr>)))))
           else ret ()) (\<lambda>_.
     bind (network_stop_recv_thread E p) (\<lambda>_.
     bind (get_ctx ''mysock_api.c'' 185 p) (\<lambda>c.
     bind (if listening c then mysock_close_passive_socket (myclose_fuel n E) p else ret ()) (\<lambda>_.
     bind (mysock_free_context E p) (\<lambda>_.
     ret (Inr 0)))))))))"

text \<open>The connections of a queue are not listening themselves: two levels are all there is.\<close>

definition myclose :: "'os env \<Rightarrow> int \<Rightarrow> ('os sys, errno + int) prog" where
  "myclose = myclose_fuel 2"

section \<open>Data\<close>

text \<open>The number of bytes is returned as an int.\<close>

definition mywrite :: "int \<Rightarrow> byte list \<Rightarrow> nat \<Rightarrow> ('os sys, errno + int) prog" where
  "mywrite sd buf buf_len =
     bind (mysock_get_context sd) (\<lambda>x.
     case x of None \<Rightarrow> ret (Inl EBADF) | Some p \<Rightarrow>
     bind (get_ctx ''mysock_api.c'' 203 p) (\<lambda>c.
     if listening c then ret (Inl EINVAL)
     else
     bind (assert_at ''mysock_api.c'' 205 (\<not> close_requested c)) (\<lambda>_.
     bind (on_ctx ''mysock_api.c'' 206 p (on_app_recv_queue (mysock_enqueue_buffer (Some buf) buf_len))) (\<lambda>_.
     ret (Inr (int_of_size buf_len))))))"

text \<open>The value on success is the int len that is returned, with the bytes stored at buf.\<close>

definition myread :: "int \<Rightarrow> nat \<Rightarrow> ('os sys, errno + int \<times> byte list) prog" where
  "myread sd buf_len =
     bind (mysock_get_context sd) (\<lambda>x.
     case x of None \<Rightarrow> ret (Inl EBADF) | Some p \<Rightarrow>
     bind (get_ctx ''mysock_api.c'' 218 p) (\<lambda>c.
     if listening c then ret (Inl EINVAL)
     else
     bind (assert_at ''mysock_api.c'' 220 (\<not> close_requested c)) (\<lambda>_.
     if eof c then ret (Inr (0, []))
     else
     bind (on_ctx ''mysock_api.c'' 225 p (on_app_send_queue (mysock_dequeue_buffer buf_len True))) (\<lambda>(n, bs).
     let len = int_of_size n in
     bind (if len = 0 then on_ctx ''mysock_api.c'' 229 p (modify (\<lambda>c. c\<lparr>eof := True\<rparr>)) else ret ()) (\<lambda>_.
     ret (Inr (len, bs)))))))"

section \<open>Names\<close>

definition mygetsockname :: "'os env \<Rightarrow> int \<Rightarrow> ('os sys, errno + sockaddr) prog" where
  "mygetsockname E sd =
     bind (mysock_get_context sd) (\<lambda>x.
     case x of None \<Rightarrow> ret (Inl EBADF) | Some p \<Rightarrow>
     bind (get_ctx ''mysock_api.c'' 248 p) (\<lambda>c.
     let a = local_addr (network_state c) in
     bind (assert_at ''mysock_api.c'' 249 (sa_family a = 0 \<or> sa_family a = AF_INET)) (\<lambda>_.
     bind (network_get_port E p) (\<lambda>port.
     let a' = a\<lparr>sa_family := AF_INET, sin_port := port\<rparr> in
     if peer_addr_valid (network_state c)
     then bind (network_get_local_addr E (network_state c)) (\<lambda>ip. ret (Inr (a'\<lparr>sin_addr := ip\<rparr>)))
     else ret (Inr a')))))"

text \<open>
  The bytes that memcpy stores at name, and the new value of namelen; they are stored before
  the check that fails with ENOTCONN.
\<close>

definition mygetpeername :: "'os env \<Rightarrow> int \<Rightarrow> nat \<Rightarrow> ('os sys, (byte list \<times> nat) \<times> (errno + int)) prog" where
  "mygetpeername E sd namelen =
     bind (ctx_of ''mysock_api.c'' 275 sd) (\<lambda>p.
     bind (get_ctx ''mysock_api.c'' 275 p) (\<lambda>c.
     let n = network_state c in
     ret ((take (min namelen (peer_addr_len n)) (sockaddr_bytes (host_order E) (peer_addr n)), peer_addr_len n),
          if peer_addr_len n > 0 then Inr 0 else Inl ENOTCONN)))"

definition mylocalip :: "'os env \<Rightarrow> 32 word \<Rightarrow> ('os sys, 32 word) prog" where
  "mylocalip E peer = network_get_interface_ip E"

section \<open>From the application to the transport layer\<close>

text \<open>A mysocket the application may write to, and the buffers written and not yet read.\<close>

definition app_writable :: "int \<Rightarrow> ptr \<Rightarrow> 'os sys \<Rightarrow> bool" where
  "app_writable sd p s \<longleftrightarrow> open_socket sd p s \<and> (case hload (ctxs s) p of None \<Rightarrow> False
     | Some c \<Rightarrow> \<not> listening c \<and> \<not> close_requested c)"

definition app_buffers :: "ptr \<Rightarrow> 'os sys \<Rightarrow> byte list list" where
  "app_buffers p s = (case hload (ctxs s) p of None \<Rightarrow> [] | Some c \<Rightarrow> contents (app_recv_queue c))"

text \<open>A call of mywrite whose result is checked: anything but the number of bytes written is an error.\<close>

definition write_buffer :: "int \<Rightarrow> byte list \<Rightarrow> ('os sys, unit) prog" where
  "write_buffer sd b = bind (mywrite sd b (length b)) (\<lambda>r. assert_at ''write_buffer'' 0 (r = Inr (int (length b))))"

abbreviation int_sized :: "byte list \<Rightarrow> bool" where
  "int_sized b \<equiv> length b < 2 ^ 31"

lemma app_writableE:
  assumes "app_writable sd p s"
  obtains c where "open_socket sd p s" "hload (ctxs s) p = Some c" "\<not> listening c" "\<not> close_requested c"
    "wf_ctx p c" "wf_queue (app_recv_queue c)" "app_buffers p s = contents (app_recv_queue c)"
proof -
  from assms obtain c where c: "open_socket sd p s" "hload (ctxs s) p = Some c" "\<not> listening c" "\<not> close_requested c"
    by (auto simp: app_writable_def split: option.splits)
  then have "wf_ctx p c" by (auto elim: open_socketE)
  with c that show ?thesis by (simp add: wf_ctx_def app_buffers_def)
qed

lemma app_writable_store:
  assumes "app_writable sd p s" "hload (ctxs s) p = Some c" "wf_queue q"
  shows "app_writable sd p (s\<lparr>ctxs := hstore (ctxs s) p (c\<lparr>app_recv_queue := q\<rparr>)\<rparr>)"
    and "app_buffers p (s\<lparr>ctxs := hstore (ctxs s) p (c\<lparr>app_recv_queue := q\<rparr>)\<rparr>) = contents q"
proof -
  from assms(1,2) have c: "open_socket sd p s" "wf_ctx p c" "\<not> listening c" "\<not> close_requested c"
    by (auto elim: app_writableE)
  have "open_socket sd p (s\<lparr>ctxs := hstore (ctxs s) p (c\<lparr>app_recv_queue := q\<rparr>)\<rparr>)"
    by (rule open_socket_store [OF c(1) assms(2)]) (use c assms(3) in simp_all)
  then show "app_writable sd p (s\<lparr>ctxs := hstore (ctxs s) p (c\<lparr>app_recv_queue := q\<rparr>)\<rparr>)"
    "app_buffers p (s\<lparr>ctxs := hstore (ctxs s) p (c\<lparr>app_recv_queue := q\<rparr>)\<rparr>) = contents q"
    using c hload_bound [OF assms(2)] by (simp_all add: app_writable_def app_buffers_def heap_simps)
qed

lemma write_buffer_run:
  assumes "app_writable sd p s" "hload (ctxs s) p = Some c" "int_sized b"
    "mysock_enqueue_buffer (Some b) (length b) (app_recv_queue c) = Done () q"
  shows "write_buffer sd b s = Done () (s\<lparr>ctxs := hstore (ctxs s) p (c\<lparr>app_recv_queue := q\<rparr>)\<rparr>)"
  using assms open_socket_context(1) [of sd p s]
  by (auto simp: write_buffer_def mywrite_def assert_at_def run_simps on_app_recv_queue_def zoom_def elim: app_writableE)

interpretation aps: byte_stream int_sized "write_buffer sd" "stcp_app_recv sd" "app_writable sd p" "app_buffers p" for sd p
proof unfold_locales
  fix s :: "'a sys" and b assume s: "app_writable sd p s" and b: "int_sized b"
  from s obtain c where c: "hload (ctxs s) p = Some c" "wf_queue (app_recv_queue c)"
    "app_buffers p s = contents (app_recv_queue c)" by (rule app_writableE)
  from pq.enq_spec [OF c(2), of b] obtain q where
    "mysock_enqueue_buffer (Some b) (length b) (app_recv_queue c) = Done () q" "wf_queue q"
    "contents q = contents (app_recv_queue c) @ [b]" by blast
  with write_buffer_run [OF s c(1) b] app_writable_store [OF s c(1)] c(3)
  show "\<exists>s'. write_buffer sd b s = Done () s' \<and> app_writable sd p s' \<and> app_buffers p s' = app_buffers p s @ [b]" by auto
next
  fix s :: "'a sys" and n assume s: "app_writable sd p s" "app_buffers p s = []"
  then obtain c where c: "open_socket sd p s" "hload (ctxs s) p = Some c" "wf_queue (app_recv_queue c)"
    "contents (app_recv_queue c) = []" by (auto elim: app_writableE)
  from pq.deq_wait [OF c(3,4)] show "stcp_app_recv sd n s = Blocked s"
    using c(2) by (simp add: app_recv_run [OF c(1,2)] hstore_same)
next
  fix s :: "'a sys" and b bs n assume s: "app_writable sd p s" "app_buffers p s = b # bs" and n: "n < length b"
  then obtain c where c: "open_socket sd p s" "hload (ctxs s) p = Some c" "wf_queue (app_recv_queue c)"
    "contents (app_recv_queue c) = b # bs" by (auto elim: app_writableE)
  from pq.deq_part [OF c(3,4) n] app_writable_store [OF s(1) c(2)] show
    "\<exists>s'. stcp_app_recv sd n s = Done (n, take n b) s' \<and> app_writable sd p s' \<and> app_buffers p s' = drop n b # bs"
    by (auto simp: app_recv_run [OF c(1,2)])
next
  fix s :: "'a sys" and b bs n assume s: "app_writable sd p s" "app_buffers p s = b # bs" and n: "length b \<le> n"
  then obtain c where c: "open_socket sd p s" "hload (ctxs s) p = Some c" "wf_queue (app_recv_queue c)"
    "contents (app_recv_queue c) = b # bs" by (auto elim: app_writableE)
  from pq.deq_whole [OF c(3,4), of n True] n app_writable_store [OF s(1) c(2)] show
    "\<exists>s'. stcp_app_recv sd n s = Done (length b, take n b) s' \<and> app_writable sd p s' \<and> app_buffers p s' = bs"
    by (auto simp: app_recv_run [OF c(1,2)])
qed

text \<open>C10: What the application writes reaches the transport layer. Over any interleaving of mywrite
  (buffers of less than \<open>2 ^ 31\<close> bytes, so that their length is an int) and stcp\_app\_recv (destinations of
  any size) on an open, writable mysocket no call fails, every mywrite returns the length of its buffer (the test in
  \<open>write_buffer\<close> never stops the run), and the bytes received so far followed by those still queued are the
  bytes queued at the start followed by the bytes written, in order.\<close>

theorem app_bytes_reach_transport:
  assumes "app_writable sd p s" and "writes_fit int_sized es"
  shows "\<exists>out s'. run_history (write_buffer sd) (stcp_app_recv sd) es s = Done out s' \<and> app_writable sd p s'
    \<and> out @ concat (app_buffers p s') = concat (app_buffers p s) @ written es"
  by (rule aps.history_conserves [OF assms])

lemma sample_writable: "app_writable 0 0 sample_sys"
  by (simp add: app_writable_def sample_load)

theorem app_bytes_reach_transport_witness:
  "\<exists>out s'. run_history (write_buffer 0) (stcp_app_recv 0) [Write [1, 2, 3], Read 2, Write [4], Read 9] sample_sys = Done out s'
    \<and> out @ concat (app_buffers 0 s') = [1, 2, 3, 4]"
proof -
  have "app_buffers 0 sample_sys = []" by (simp add: app_buffers_def sample_load)
  with app_bytes_reach_transport [OF sample_writable, of "[Write [1, 2, 3], Read 2, Write [4], Read 9]"] show ?thesis by auto
qed

section \<open>From the transport layer to the application\<close>

text \<open>A mysocket the application may read from: whether it has seen the end, and the buffers queued.\<close>

definition app_readable :: "int \<Rightarrow> ptr \<Rightarrow> bool \<Rightarrow> byte list list \<Rightarrow> 'os sys \<Rightarrow> bool" where
  "app_readable sd p e bufs s \<longleftrightarrow> open_socket sd p s \<and> (case hload (ctxs s) p of None \<Rightarrow> False
     | Some c \<Rightarrow> \<not> listening c \<and> \<not> close_requested c \<and> eof c = e \<and> contents (app_send_queue c) = bufs)"

lemma app_readableE:
  assumes "app_readable sd p e bufs s"
  obtains c where "open_socket sd p s" "hload (ctxs s) p = Some c" "\<not> listening c" "\<not> close_requested c"
    "eof c = e" "contents (app_send_queue c) = bufs" "wf_ctx p c" "wf_queue (app_send_queue c)"
proof -
  from assms obtain c where c: "open_socket sd p s" "hload (ctxs s) p = Some c" "\<not> listening c" "\<not> close_requested c"
    "eof c = e" "contents (app_send_queue c) = bufs" by (auto simp: app_readable_def split: option.splits)
  then have "wf_ctx p c" by (auto elim: open_socketE)
  with c that show ?thesis by (simp add: wf_ctx_def)
qed

lemma app_readable_store:
  assumes "app_readable sd p e bufs s" "hload (ctxs s) p = Some c" "wf_queue q"
  shows "app_readable sd p e' (contents q) (s\<lparr>ctxs := hstore (ctxs s) p (c\<lparr>app_send_queue := q, eof := e'\<rparr>)\<rparr>)"
proof -
  from assms(1,2) have c: "open_socket sd p s" "wf_ctx p c" "\<not> listening c" "\<not> close_requested c"
    by (auto elim: app_readableE)
  have "open_socket sd p (s\<lparr>ctxs := hstore (ctxs s) p (c\<lparr>app_send_queue := q, eof := e'\<rparr>)\<rparr>)"
    by (rule open_socket_store [OF c(1) assms(2)]) (use c assms(3) in simp_all)
  then show ?thesis using c hload_bound [OF assms(2)] by (simp add: app_readable_def heap_simps)
qed

lemma eof_same [simp]: "eof c = e \<Longrightarrow> c\<lparr>eof := e\<rparr> = c"
  by (cases c) simp

lemma myread_eof: "app_readable sd p True bufs s \<Longrightarrow> myread sd n s = Done (Inr (0, [])) s"
  using open_socket_context(1) [of sd p s] by (auto simp: myread_def run_simps elim!: app_readableE)

lemma myread_wait:
  assumes "app_readable sd p False [] s"
  shows "myread sd n s = Blocked s"
proof -
  from assms obtain c where c: "open_socket sd p s" "hload (ctxs s) p = Some c" "\<not> listening c" "\<not> close_requested c"
    "\<not> eof c" "contents (app_send_queue c) = []" "wf_queue (app_send_queue c)" by (auto elim: app_readableE)
  then show ?thesis using open_socket_context(1) [OF c(1)] pq.deq_wait [OF c(7,6)]
    by (simp add: myread_def run_simps on_app_send_queue_def zoom_def hstore_same)
qed

lemma myread_data:
  assumes "app_readable sd p False (b # bs) s" and n: "n < 2 ^ 31"
  shows "\<exists>s'. myread sd n s = Done (Inr (int (min n (length b)), take n b)) s'
    \<and> app_readable sd p (min n (length b) = 0) (if n < length b then drop n b # bs else bs) s'
    \<and> os s' = os s \<and> app_buffers p s' = app_buffers p s"
proof -
  from assms obtain c where c: "open_socket sd p s" "hload (ctxs s) p = Some c" "\<not> listening c" "\<not> close_requested c"
    "\<not> eof c" "contents (app_send_queue c) = b # bs" "wf_queue (app_send_queue c)" by (auto elim: app_readableE)
  have "\<exists>q. mysock_dequeue_buffer n True (app_send_queue c) = Done (min n (length b), take n b) q \<and> wf_queue q
      \<and> contents q = (if n < length b then drop n b # bs else bs)"
    using pq.deq_part [OF c(7,6), of n] pq.deq_whole [OF c(7,6), of n True] by (cases "n < length b") (auto simp: min_def)
  then obtain q where q: "mysock_dequeue_buffer n True (app_send_queue c) = Done (min n (length b), take n b) q" "wf_queue q"
    "contents q = (if n < length b then drop n b # bs else bs)" by blast
  let ?e = "min n (length b) = 0"
  have "int_of_size (min n (length b)) = int (min n (length b))" using n by (intro int_of_size_small) simp
  then have "myread sd n s = Done (Inr (int (min n (length b)), take n b)) (s\<lparr>ctxs := hstore (ctxs s) p (c\<lparr>app_send_queue := q, eof := ?e\<rparr>)\<rparr>)"
    using c open_socket_context(1) [OF c(1)] q(1) hload_bound [OF c(2)]
    by (cases "min n (length b)") (simp_all add: myread_def run_simps on_app_send_queue_def zoom_def heap_simps Let_def)
  moreover have "app_buffers p (s\<lparr>ctxs := hstore (ctxs s) p (c\<lparr>app_send_queue := q, eof := ?e\<rparr>)\<rparr>) = app_buffers p s"
    using c(2) hload_bound [OF c(2)] by (simp add: app_buffers_def heap_simps)
  ultimately show ?thesis using app_readable_store [OF assms(1) c(2) q(2), of ?e] unfolding q(3) [symmetric] by auto
qed

lemma deliver_run:
  assumes "app_readable sd p e bufs s"
  shows "\<exists>s'. stcp_app_send sd x (length x) s = Done () s' \<and> app_readable sd p e (if x = [] then bufs else bufs @ [x]) s'"
    and "\<exists>s'. stcp_fin_received sd s = Done () s' \<and> app_readable sd p e (bufs @ [[]]) s'"
proof -
  from assms obtain c where c: "open_socket sd p s" "hload (ctxs s) p = Some c" "eof c = e"
    "contents (app_send_queue c) = bufs" "wf_queue (app_send_queue c)" by (auto elim: app_readableE)
  note run = open_socket_context(1) [OF c(1)] c(2) hload_bound [OF c(2)]
  have store: "app_readable sd p e (contents q) (s\<lparr>ctxs := hstore (ctxs s) p (c\<lparr>app_send_queue := q\<rparr>)\<rparr>)" if "wf_queue q" for q
    using app_readable_store [OF assms c(2) that, of e] c(3) by simp
  from pq.enq_spec [OF c(5), of x] obtain q where
    "mysock_enqueue_buffer (Some x) (length x) (app_send_queue c) = Done () q" "wf_queue q" "contents q = bufs @ [x]"
    using c(4) by auto
  then show "\<exists>s'. stcp_app_send sd x (length x) s = Done () s' \<and> app_readable sd p e (if x = [] then bufs else bufs @ [x]) s'"
    using run store [of q] assms by (simp add: stcp_app_send_def run_simps on_app_send_queue_def zoom_def)
  from pq.enq_spec [OF c(5), of "[]", folded enqueue_null] obtain q where
    "mysock_enqueue_buffer None 0 (app_send_queue c) = Done () q" "wf_queue q" "contents q = bufs @ [[]]"
    using c(4) by blast
  then show "\<exists>s'. stcp_fin_received sd s = Done () s' \<and> app_readable sd p e (bufs @ [[]]) s'"
    using run store [of q] by (simp add: stcp_fin_received_def run_simps on_app_send_queue_def zoom_def)
qed

text \<open>
  A history of the receiving side: data and the peer's FIN passed up by the transport layer, reads
  by the application. The value has an outcome for every event, the failed reads and the reads that wait
  included.
\<close>

datatype read_event = Deliver "byte list" | Fin | App_read nat

datatype read_outcome =
    Passed                   \<comment> \<open>the transport layer has passed the data or the FIN up\<close>
  | Got int "byte list"      \<comment> \<open>myread has returned this int and these bytes\<close>
  | Failed errno             \<comment> \<open>myread has returned -1\<close>
  | Waits                    \<comment> \<open>myread waits\<close>

fun read_event_run :: "int \<Rightarrow> read_event \<Rightarrow> ('os sys, read_outcome) prog" where
  "read_event_run sd (Deliver x) s = bind (stcp_app_send sd x (length x)) (\<lambda>_. ret Passed) s"
| "read_event_run sd Fin s = bind (stcp_fin_received sd) (\<lambda>_. ret Passed) s"
| "read_event_run sd (App_read n) s =
     (case myread sd n s of
        Done (Inr (len, bs)) s' \<Rightarrow> Done (Got len bs) s'
      | Done (Inl e) s' \<Rightarrow> Done (Failed e) s'
      | Blocked s' \<Rightarrow> Done Waits s'
      | Abort e \<Rightarrow> Abort e)"

fun read_run :: "int \<Rightarrow> read_event list \<Rightarrow> ('os sys, read_outcome list) prog" where
  "read_run sd [] s = Done [] s"
| "read_run sd (e # es) s = bind (read_event_run sd e) (\<lambda>r. bind (read_run sd es) (\<lambda>rs. ret (r # rs))) s"

text \<open>The bytes of the reads that returned.\<close>

fun data_read :: "read_outcome list \<Rightarrow> byte list list" where
  "data_read [] = []"
| "data_read (Got len bs # rs) = bs # data_read rs"
| "data_read (r # rs) = data_read rs"

text \<open>The buffers the transport layer passes up, and the stream before the first FIN.\<close>

fun passed_up :: "read_event list \<Rightarrow> byte list list" where
  "passed_up [] = []"
| "passed_up (Deliver x # es) = (if x = [] then passed_up es else x # passed_up es)"
| "passed_up (Fin # es) = [] # passed_up es"
| "passed_up (App_read n # es) = passed_up es"

definition stream_before_fin :: "byte list list \<Rightarrow> byte list" where
  "stream_before_fin bufs = concat (takeWhile (\<lambda>b. b \<noteq> []) bufs)"

fun positive_reads :: "read_event list \<Rightarrow> bool" where
  "positive_reads [] = True"
| "positive_reads (App_read n # es) = (0 < n \<and> n < 2 ^ 31 \<and> positive_reads es)"
| "positive_reads (e # es) = positive_reads es"

lemma stream_before_fin_simps [simp]:
  "stream_before_fin [] = []" "stream_before_fin ([] # bs) = []"
  "b \<noteq> [] \<Longrightarrow> stream_before_fin (b # bs) = b @ stream_before_fin bs"
  by (simp_all add: stream_before_fin_def)

lemma stream_before_fin_part:
  "0 < n \<Longrightarrow> b \<noteq> [] \<Longrightarrow> take n b @ stream_before_fin ((if n < length b then drop n b # bs else bs) @ cs)
     = stream_before_fin (b # bs @ cs)"
  by simp

text \<open>\<open>reads_stream xs rs\<close>: the reads deliver a prefix of \<open>xs\<close>, and a read returns nothing only when
  all of \<open>xs\<close> has been read.\<close>

definition reads_stream :: "byte list \<Rightarrow> byte list list \<Rightarrow> bool" where
  "reads_stream xs rs \<longleftrightarrow> take (length (concat rs)) xs = concat rs \<and>
     (\<forall>i < length rs. rs ! i = [] \<longrightarrow> concat (take i rs) = xs)"

lemma reads_stream_Cons: "r \<noteq> [] \<Longrightarrow> reads_stream xs rs \<Longrightarrow> reads_stream (r @ xs) (r # rs)"
  by (auto simp: reads_stream_def nth_Cons split: nat.splits)

lemma reads_stream_eof: "concat rs = [] \<Longrightarrow> reads_stream [] ([] # rs)"
  by (auto simp: reads_stream_def nth_Cons split: nat.splits) (metis in_set_takeD)

text \<open>
  \<open>outcome_ok bufs es rs i\<close>: event \<open>i\<close> has the outcome it should have. A read has returned the
  number of its bytes, at most what it has room for, or it waits, and then there is no FIN among what was
  queued at the start and passed up until then, and all of it has been read.
\<close>

definition outcome_ok :: "byte list list \<Rightarrow> read_event list \<Rightarrow> read_outcome list \<Rightarrow> nat \<Rightarrow> bool" where
  "outcome_ok bufs es rs i \<longleftrightarrow> (case es ! i of
       App_read n \<Rightarrow> (\<exists>bs. rs ! i = Got (int (length bs)) bs \<and> length bs \<le> n)
         \<or> rs ! i = Waits \<and> [] \<notin> set (bufs @ passed_up (take i es))
           \<and> concat (data_read (take i rs)) = concat (bufs @ passed_up (take i es))
     | _ \<Rightarrow> rs ! i = Passed)"

definition outcomes_ok :: "byte list list \<Rightarrow> read_event list \<Rightarrow> read_outcome list \<Rightarrow> bool" where
  "outcomes_ok bufs es rs \<longleftrightarrow> length rs = length es \<and> (\<forall>i < length es. outcome_ok bufs es rs i)"

lemma outcomes_ok_Nil [simp]: "outcomes_ok bufs [] []"
  by (simp add: outcomes_ok_def)

lemma outcomes_ok_Cons:
  assumes "outcomes_ok bufs' es rs" "outcome_ok bufs (e # es) (r # rs) 0"
    and "\<And>xs ys. [] \<notin> set (bufs' @ passed_up xs) \<Longrightarrow> concat (data_read ys) = concat (bufs' @ passed_up xs)
      \<Longrightarrow> [] \<notin> set (bufs @ passed_up (e # xs)) \<and> concat (data_read (r # ys)) = concat (bufs @ passed_up (e # xs))"
  shows "outcomes_ok bufs (e # es) (r # rs)"
  unfolding outcomes_ok_def
proof (intro conjI allI impI)
  show "length (r # rs) = length (e # es)" using assms(1) by (simp add: outcomes_ok_def)
  fix i assume "i < length (e # es)"
  then show "outcome_ok bufs (e # es) (r # rs) i"
  proof (cases i)
    case 0
    with assms(2) show ?thesis by simp
  next
    case (Suc j)
    with \<open>i < length (e # es)\<close> assms(1) have "outcome_ok bufs' es rs j" by (simp add: outcomes_ok_def)
    with Suc assms(3) [of "take j es" "take j rs"] show ?thesis
      unfolding outcome_ok_def by (auto simp del: concat_append set_append split: read_event.splits)
  qed
qed

lemma reads_after_eof:
  "app_readable sd p True bufs s \<Longrightarrow> \<exists>rs s'. read_run sd es s = Done rs s' \<and> concat (data_read rs) = []
     \<and> length rs = length es \<and> (\<forall>i < length es. case es ! i of App_read n \<Rightarrow> rs ! i = Got 0 [] | _ \<Rightarrow> rs ! i = Passed)"
proof (induction es arbitrary: bufs s)
  case (Cons e es)
  have "\<exists>r s1 bufs'. read_event_run sd e s = Done r s1 \<and> app_readable sd p True bufs' s1
      \<and> (case e of App_read n \<Rightarrow> r = Got 0 [] | _ \<Rightarrow> r = Passed)"
  proof (cases e)
    case (Deliver x)
    with deliver_run(1) [OF Cons.prems, of x] show ?thesis by (auto simp: run_simps)
  next
    case Fin
    with deliver_run(2) [OF Cons.prems] show ?thesis by (auto simp: run_simps)
  next
    case (App_read n)
    with myread_eof [OF Cons.prems, of n] Cons.prems show ?thesis by auto
  qed
  then obtain r s1 bufs' where r: "read_event_run sd e s = Done r s1" "app_readable sd p True bufs' s1"
    "case e of App_read n \<Rightarrow> r = Got 0 [] | _ \<Rightarrow> r = Passed" by blast
  from Cons.IH [OF r(2)] obtain rs s' where
    rs: "read_run sd es s1 = Done rs s'" "concat (data_read rs) = []" "length rs = length es"
    "\<forall>i < length es. case es ! i of App_read n \<Rightarrow> rs ! i = Got 0 [] | _ \<Rightarrow> rs ! i = Passed" by blast
  from r rs show ?case
    by (intro exI [of _ "r # rs"] exI [of _ s']) (cases e; simp add: run_simps All_less_Suc2 cong: read_event.case_cong)
qed simp

lemma reads_deliver:
  "app_readable sd p False bufs s \<Longrightarrow> positive_reads es \<Longrightarrow>
   \<exists>rs s'. read_run sd es s = Done rs s' \<and> reads_stream (stream_before_fin (bufs @ passed_up es)) (data_read rs)
     \<and> outcomes_ok bufs es rs"
proof (induction es arbitrary: bufs s)
  case Nil
  show ?case by (simp add: reads_stream_def)
next
  case (Cons e es)
  show ?case
  proof (cases e)
    case (Deliver x)
    let ?b = "if x = [] then bufs else bufs @ [x]"
    from Deliver deliver_run(1) [OF Cons.prems(1), of x] obtain s1 where
      s1: "read_event_run sd e s = Done Passed s1" "app_readable sd p False ?b s1" by (auto simp: run_simps)
    from Cons.IH [OF s1(2)] Cons.prems(2) Deliver obtain rs s' where
      rs: "read_run sd es s1 = Done rs s'" "reads_stream (stream_before_fin (?b @ passed_up es)) (data_read rs)" "outcomes_ok ?b es rs"
      by auto
    have "outcomes_ok bufs (e # es) (Passed # rs)"
      by (rule outcomes_ok_Cons [OF rs(3)]) (auto simp: Deliver outcome_ok_def split: if_splits)
    with s1 rs Deliver show ?thesis by (intro exI [of _ "Passed # rs"] exI [of _ s']) (auto simp: run_simps split: if_splits)
  next
    case Fin
    from Fin deliver_run(2) [OF Cons.prems(1)] obtain s1 where
      s1: "read_event_run sd e s = Done Passed s1" "app_readable sd p False (bufs @ [[]]) s1" by (auto simp: run_simps)
    from Cons.IH [OF s1(2)] Cons.prems(2) Fin obtain rs s' where
      rs: "read_run sd es s1 = Done rs s'" "reads_stream (stream_before_fin ((bufs @ [[]]) @ passed_up es)) (data_read rs)"
        "outcomes_ok (bufs @ [[]]) es rs" by auto
    have "outcomes_ok bufs (e # es) (Passed # rs)"
      by (rule outcomes_ok_Cons [OF rs(3)]) (auto simp: Fin outcome_ok_def)
    with s1 rs Fin show ?thesis by (intro exI [of _ "Passed # rs"] exI [of _ s']) (auto simp: run_simps)
  next
    case (App_read n)
    with Cons.prems(2) have n: "0 < n" "n < 2 ^ 31" "positive_reads es" by simp_all
    show ?thesis
    proof (cases bufs)
      case Nil
      with Cons.IH [OF Cons.prems(1) n(3)] obtain rs s' where
        rs: "read_run sd es s = Done rs s'" "reads_stream (stream_before_fin (passed_up es)) (data_read rs)" "outcomes_ok [] es rs"
        by auto
      have "outcomes_ok [] (e # es) (Waits # rs)"
        by (rule outcomes_ok_Cons [OF rs(3)]) (auto simp: App_read outcome_ok_def)
      moreover have "read_event_run sd e s = Done Waits s" using myread_wait [of sd p s n] Cons.prems(1) Nil App_read by simp
      ultimately show ?thesis using rs Nil App_read by (intro exI [of _ "Waits # rs"] exI [of _ s']) (simp add: run_simps)
    next
      case (Cons b bs)
      note s = Cons.prems(1) [unfolded Cons]
      let ?b = "if n < length b then drop n b # bs else bs"
      from myread_data [OF s n(2)] obtain s1 where
        r: "myread sd n s = Done (Inr (int (min n (length b)), take n b)) s1"
          "app_readable sd p (min n (length b) = 0) ?b s1" by blast
      then have e: "read_event_run sd e s = Done (Got (int (length (take n b))) (take n b)) s1" using App_read by (simp add: min.commute)
      show ?thesis
      proof (cases "b = []")
        case True
        with r(2) reads_after_eof [of sd p bs s1 es] obtain rs s' where
          rs: "read_run sd es s1 = Done rs s'" "concat (data_read rs) = []" "length rs = length es"
          "\<forall>i < length es. case es ! i of App_read n \<Rightarrow> rs ! i = Got 0 [] | _ \<Rightarrow> rs ! i = Passed" by auto
        have "outcomes_ok bufs (e # es) (Got 0 [] # rs)"
          using rs(3,4) App_read by (auto simp: outcomes_ok_def outcome_ok_def All_less_Suc2 split: read_event.splits)
        with rs e App_read Cons True show ?thesis
          by (intro exI [of _ "Got 0 [] # rs"] exI [of _ s']) (auto simp: run_simps intro: reads_stream_eof)
      next
        case False
        then have "(min n (length b) = 0) = False" using n by simp
        with Cons.IH [of ?b s1] r n obtain rs s2 where
          rs: "read_run sd es s1 = Done rs s2" "reads_stream (stream_before_fin (?b @ passed_up es)) (data_read rs)"
          "outcomes_ok ?b es rs" by auto
        let ?r = "Got (int (length (take n b))) (take n b)"
        have ne: "take n b \<noteq> []" using False n by simp
        from reads_stream_Cons [OF ne rs(2)] have "reads_stream (stream_before_fin (bufs @ passed_up es)) (data_read (?r # rs))"
          unfolding stream_before_fin_part [OF n(1) False] Cons by simp
        moreover have "outcomes_ok bufs (e # es) (?r # rs)"
          by (rule outcomes_ok_Cons [OF rs(3)]) (use False in \<open>auto simp: App_read Cons outcome_ok_def split: if_splits\<close>)
        ultimately show ?thesis using rs(1) e App_read by (intro exI [of _ "?r # rs"] exI [of _ s2]) (simp add: run_simps)
      qed
    qed
  qed
qed

text \<open>C11: What the transport layer passes up is what the application reads. Take any interleaving of
  stcp\_app\_send, stcp\_fin\_received and myread calls on an open mysocket, each read with room for at least
  one byte and less than \<open>2 ^ 31\<close>, so that its result is an int. No call fails: every myread has
  returned the number of bytes it stored, at most what it has room for, or it waits, and it waits only when no FIN has been passed
  up and everything passed up until then has been read. The reads deliver, in order, a prefix of the bytes passed up
  before the first FIN, and a read returns 0 only when all of them have been read.\<close>

theorem reads_deliver_stream_then_eof:
  assumes "app_readable sd p False bufs s" and "positive_reads es"
  shows "\<exists>rs s'. read_run sd es s = Done rs s' \<and> reads_stream (stream_before_fin (bufs @ passed_up es)) (data_read rs)
    \<and> length rs = length es
    \<and> (\<forall>i < length es. case es ! i of
         App_read n \<Rightarrow> (\<exists>bs. rs ! i = Got (int (length bs)) bs \<and> length bs \<le> n)
           \<or> rs ! i = Waits \<and> [] \<notin> set (bufs @ passed_up (take i es))
             \<and> concat (data_read (take i rs)) = concat (bufs @ passed_up (take i es))
       | _ \<Rightarrow> rs ! i = Passed)"
  using reads_deliver [OF assms] unfolding outcomes_ok_def outcome_ok_def by blast

lemma sample_readable: "app_readable 0 0 False [] sample_sys"
  by (simp add: app_readable_def sample_load)

theorem reads_deliver_stream_then_eof_witness:
  "\<exists>rs s'. read_run 0 [App_read 4, Deliver [1, 2, 3], App_read 2, Fin, App_read 9, App_read 9] sample_sys = Done rs s'
    \<and> reads_stream [1, 2, 3] (data_read rs) \<and> length rs = 6"
proof -
  let ?es = "[App_read 4, Deliver [1, 2, 3], App_read 2, Fin, App_read 9, App_read 9]"
  have "positive_reads ?es" by simp
  from reads_deliver_stream_then_eof [OF sample_readable this] obtain rs and s' :: "nat sys" where
    "read_run 0 ?es sample_sys = Done rs s'" "reads_stream (stream_before_fin ([] @ passed_up ?es)) (data_read rs)"
    "length rs = length ?es" by blast
  then show ?thesis by auto
qed

text \<open>A read of length 0 ends the stream. While data is queued, myread with buf\_len 0 returns 0 and
  marks the end of the stream: from then on every read returns 0 and the queued data is never read.\<close>

lemma zero_length_read_ends_stream:
  assumes "app_readable sd p False (b # bs) s" and "b \<noteq> []"
  shows "\<exists>s'. myread sd 0 s = Done (Inr (0, [])) s' \<and> app_readable sd p True (b # bs) s'
    \<and> (\<forall>n. myread sd n s' = Done (Inr (0, [])) s')"
proof -
  from myread_data [OF assms(1), of 0] assms(2) obtain s' where
    "myread sd 0 s = Done (Inr (0, [])) s'" "app_readable sd p True (b # bs) s'" by auto
  with myread_eof show ?thesis by blast
qed

text \<open>The sample context with two bytes to read.\<close>

lemma unread_readable:
  "app_readable 0 0 False [[7, 8]] (sample_sys\<lparr>ctxs := [Some (sample_context\<lparr>app_send_queue := two_byte_queue\<rparr>)]\<rparr>)"
  using app_readable_store [OF sample_readable _ two_byte_queue_wf, of sample_context False] two_byte_queue_contents
  by (simp add: sample_load hstore_def)

section \<open>Accepting connections\<close>

text \<open>A connection of the listening socket sd with descriptor d, whose context satisfies \<open>P\<close>.\<close>

definition connection :: "int \<Rightarrow> (mysock_context \<Rightarrow> bool) \<Rightarrow> 'os sys \<Rightarrow> int \<Rightarrow> bool" where
  "connection sd P s d \<longleftrightarrow> (\<exists>pd c. open_socket d pd s \<and> hload (ctxs s) pd = Some c \<and> listen_sd c = sd \<and> P c)"

definition in_handshake :: "mysock_context \<Rightarrow> bool" where
  "in_handshake c \<longleftrightarrow> blocking c \<and> \<not> is_active c \<and> 0 < peer_addr_len (network_state c)"

definition acceptable :: "mysock_context \<Rightarrow> bool" where
  "acceptable c \<longleftrightarrow> stcp_errno c = 0 \<and> 0 < peer_addr_len (network_state c)"

lemma open_socket_unique:
  assumes "open_socket d pd s" "open_socket e pd s"
  shows "d = e"
  using assms by (metis open_socketE option.inject)

lemma unblock_run:
  assumes l: "listener sd p q s" "wf_lq q" and d: "d \<in> set (pending q)" "d \<notin> set (ready q)" and cn: "connection sd in_handshake s d"
  shows "\<exists>s' q'. stcp_unblock_application 0 d s = Done () s' \<and> listener sd p q' s' \<and> wf_lq q'
    \<and> ready q' = ready q @ [d] \<and> pending q' = pending q \<and> connection sd acceptable s' d
    \<and> (\<forall>P e. e \<noteq> d \<longrightarrow> connection sd P s e \<longrightarrow> connection sd P s' e)"
proof -
  from cn obtain pd c where o: "open_socket d pd s" and c: "hload (ctxs s) pd = Some c" "listen_sd c = sd" "blocking c"
    "\<not> is_active c" "0 < peer_addr_len (network_state c)" by (auto simp: connection_def in_handshake_def)
  let ?c = "c\<lparr>blocking := False, stcp_errno := 0\<rparr>"
  let ?s = "s\<lparr>ctxs := hstore (ctxs s) pd ?c\<rparr>"
  have wf: "wf_ctx pd ?c" using o c(1) by (auto simp: wf_ctx_def elim!: open_socketE)
  have l1: "listener sd p q ?s" by (rule listener_store [OF l(1) c(1) _ wf]) simp_all
  note o1 = open_socket_store [OF _ c(1) _ wf, simplified]
  have h1: "hload (ctxs ?s) pd = Some ?c" using hload_bound [OF c(1)] by (simp add: heap_simps)
  from passive_connection_complete_run [OF l1 l(2) d o1 [OF o] h1] c(2) obtain s' q' where
    s': "mysock_passive_connection_complete pd ?s = Done () s'" "listener sd p q' s'" "wf_lq q'" "ready q' = ready q @ [d]"
    "pending q' = pending q" "ctxs s' = ctxs ?s" "\<forall>e pe. open_socket e pe ?s \<longrightarrow> open_socket e pe s'" by auto
  have "stcp_unblock_application 0 d s = Done () s'"
    using c s'(1) open_socket_context(2) [OF o] by (simp add: stcp_unblock_application_def run_simps)
  moreover have "connection sd acceptable s' d"
    unfolding connection_def using s'(6,7) h1 c(2,5) o1 [OF o] by (intro exI [of _ pd] exI [of _ ?c]) (auto simp: acceptable_def)
  moreover have "connection sd P s' e" if e: "e \<noteq> d" "connection sd P s e" for P e
  proof -
    from e(2) obtain pe x where x: "open_socket e pe s" "hload (ctxs s) pe = Some x" "listen_sd x = sd" "P x"
      by (auto simp: connection_def)
    with e(1) open_socket_unique o have "pe \<noteq> pd" by blast
    with x s'(6,7) o1 [OF x(1)] show ?thesis by (auto simp: connection_def heap_simps)
  qed
  ultimately show ?thesis using s'(2-5) by blast
qed

lemma accept_ready:
  assumes l: "listener sd p q s" "wf_lq q" and r: "ready q = d # ds" and cn: "connection sd acceptable s d"
  shows "\<exists>s' q' a n. myaccept sd s = Done (Inr (d, a, n)) s' \<and> listener sd p q' s' \<and> wf_lq q' \<and> ready q' = ds
    \<and> set (pending q') = set (pending q) - {d} \<and> (\<forall>P e. connection sd P s e \<longrightarrow> connection sd P s' e)"
proof -
  from cn obtain pd c where o: "open_socket d pd s" and c: "hload (ctxs s) pd = Some c" "listen_sd c = sd" "stcp_errno c = 0"
    "0 < peer_addr_len (network_state c)" by (auto simp: connection_def acceptable_def)
  have my: "my_sd c = d" using o c(1) by (auto elim: open_socketE)
  from l(1) obtain lc where lc: "open_socket sd p s" "hload (ctxs s) p = Some lc" "listening lc" by (rule listenerE)
  from dequeue_connection_ready [OF l r o] obtain s' q' where
    s': "mysock_dequeue_connection p s = Done pd s'" "listener sd p q' s'" "wf_lq q'" "ready q' = ds"
    "set (pending q') = set (pending q) - {d}" "ctxs s' = ctxs s" "\<forall>e pe. open_socket e pe s \<longrightarrow> open_socket e pe s'" by blast
  have "myaccept sd s = Done (Inr (d, peer_addr (network_state c), peer_addr_len (network_state c))) s'"
    using lc c my s'(1,6) open_socket_context(1) [OF lc(1)] by (simp add: myaccept_def run_simps)
  moreover have "connection sd P s e \<longrightarrow> connection sd P s' e" for P e
    using s'(6,7) by (auto simp: connection_def)
  ultimately show ?thesis using s'(2-5) by blast
qed

lemma accept_wait:
  assumes "listener sd p q s" "ready q = []"
  shows "myaccept sd s = Blocked s"
proof -
  from assms(1) obtain lc where lc: "open_socket sd p s" "hload (ctxs s) p = Some lc" "listening lc" by (rule listenerE)
  then show ?thesis using dequeue_connection_wait [OF assms] open_socket_context(1) [OF lc(1)]
    by (simp add: myaccept_def run_simps)
qed

text \<open>A history of a listening socket: transport threads that announce a connection, calls of myaccept.
  The value has an outcome for every event, the failed calls and the calls that wait included.\<close>

datatype accept_event = Unblock int | Accept

datatype accept_outcome =
    Announced          \<comment> \<open>the connection is announced\<close>
  | Accepted int       \<comment> \<open>myaccept has returned this descriptor\<close>
  | Refused errno      \<comment> \<open>myaccept has returned -1\<close>
  | Accept_waits       \<comment> \<open>myaccept waits\<close>

fun accept_event_run :: "int \<Rightarrow> accept_event \<Rightarrow> ('os sys, accept_outcome) prog" where
  "accept_event_run sd (Unblock d) s = bind (stcp_unblock_application 0 d) (\<lambda>_. ret Announced) s"
| "accept_event_run sd Accept s =
     (case myaccept sd s of
        Done (Inr (d, a, n)) s' \<Rightarrow> Done (Accepted d) s'
      | Done (Inl e) s' \<Rightarrow> Done (Refused e) s'
      | Blocked s' \<Rightarrow> Done Accept_waits s'
      | Abort e \<Rightarrow> Abort e)"

fun accept_run :: "int \<Rightarrow> accept_event list \<Rightarrow> ('os sys, accept_outcome list) prog" where
  "accept_run sd [] s = Done [] s"
| "accept_run sd (e # es) s = bind (accept_event_run sd e) (\<lambda>r. bind (accept_run sd es) (\<lambda>rs. ret (r # rs))) s"

fun accepted :: "accept_outcome list \<Rightarrow> int list" where
  "accepted [] = []"
| "accepted (Accepted d # rs) = d # accepted rs"
| "accepted (r # rs) = accepted rs"

fun unblocked :: "accept_event list \<Rightarrow> int list" where
  "unblocked [] = []"
| "unblocked (Unblock d # es) = d # unblocked es"
| "unblocked (Accept # es) = unblocked es"

text \<open>What a history needs: a well-formed queue whose ready connections can be accepted, and distinct
  pending connections in their handshake for the announcements.\<close>

definition accept_ok :: "int \<Rightarrow> ptr \<Rightarrow> listen_queue \<Rightarrow> int list \<Rightarrow> 'os sys \<Rightarrow> bool" where
  "accept_ok sd p q us s \<longleftrightarrow> listener sd p q s \<and> wf_lq q \<and> distinct us
     \<and> (\<forall>d \<in> set (ready q). connection sd acceptable s d)
     \<and> (\<forall>d \<in> set us. d \<in> set (pending q) \<and> d \<notin> set (ready q) \<and> connection sd in_handshake s d)"

text \<open>The outcome of each event: an accept returns a connection, or it waits and everything ready has been accepted.\<close>

definition accepts_meet :: "int list \<Rightarrow> accept_event list \<Rightarrow> accept_outcome list \<Rightarrow> bool" where
  "accepts_meet ds es rs \<longleftrightarrow> length rs = length es \<and> (\<forall>i < length es. case es ! i of
       Unblock d \<Rightarrow> rs ! i = Announced
     | Accept \<Rightarrow> (\<exists>d. rs ! i = Accepted d) \<or> rs ! i = Accept_waits \<and> accepted (take i rs) = ds @ unblocked (take i es))"

lemma accepts_meet_simps [simp]:
  "accepts_meet ds [] []"
  "accepts_meet ds (Unblock d # es) (Announced # rs) = accepts_meet (ds @ [d]) es rs"
  "accepts_meet (d # ds) (Accept # es) (Accepted d # rs) = accepts_meet ds es rs"
  "accepts_meet [] (Accept # es) (Accept_waits # rs) = accepts_meet [] es rs"
  by (simp_all add: accepts_meet_def All_less_Suc2 cong: accept_event.case_cong)

lemma accept_step:
  assumes "accept_ok sd p q (unblocked (e # es)) s"
  shows "\<exists>r s' q'. accept_event_run sd e s = Done r s' \<and> accept_ok sd p q' (unblocked es) s'
    \<and> accepted [r] @ ready q' = ready q @ unblocked [e] \<and> set (pending q') = set (pending q) - set (accepted [r])
    \<and> (\<forall>rs. accepts_meet (ready q') es rs \<longrightarrow> accepts_meet (ready q) (e # es) (r # rs))"
proof (cases e)
  case (Unblock d)
  with assms have d: "listener sd p q s" "wf_lq q" "d \<in> set (pending q)" "d \<notin> set (ready q)" "connection sd in_handshake s d"
    by (simp_all add: accept_ok_def)
  from unblock_run [OF d] obtain s1 q1 where
    s1: "stcp_unblock_application 0 d s = Done () s1" "listener sd p q1 s1" "wf_lq q1" "ready q1 = ready q @ [d]" "pending q1 = pending q"
    "connection sd acceptable s1 d"
    and keep: "\<And>P e. e \<noteq> d \<Longrightarrow> connection sd P s e \<Longrightarrow> connection sd P s1 e" by blast
  have "accept_ok sd p q1 (unblocked es) s1"
    using assms Unblock s1 d(4) by (auto simp: accept_ok_def intro!: keep)
  with s1 Unblock show ?thesis by (intro exI [of _ Announced] exI [of _ s1] exI [of _ q1]) (simp add: run_simps)
next
  case Accept
  show ?thesis
  proof (cases "ready q")
    case Nil
    with assms Accept accept_wait [of sd p q s] show ?thesis
      by (intro exI [of _ Accept_waits] exI [of _ s] exI [of _ q]) (simp add: accept_ok_def)
  next
    case (Cons d ds)
    with assms Accept have l: "listener sd p q s" "wf_lq q" "connection sd acceptable s d" by (simp_all add: accept_ok_def)
    from accept_ready [OF l(1,2) Cons l(3)] obtain s1 q1 a n where
      s1: "myaccept sd s = Done (Inr (d, a, n)) s1" "listener sd p q1 s1" "wf_lq q1" "ready q1 = ds"
      "set (pending q1) = set (pending q) - {d}" and keep: "\<And>P e. connection sd P s e \<Longrightarrow> connection sd P s1 e" by blast
    have "accept_ok sd p q1 (unblocked es) s1"
      using assms Accept s1 Cons by (auto simp: accept_ok_def intro!: keep)
    with s1 Accept Cons show ?thesis by (intro exI [of _ "Accepted d"] exI [of _ s1] exI [of _ q1]) simp
  qed
qed

lemma accepted_unblocked_append:
  "accepted (r # rs) = accepted [r] @ accepted rs" "unblocked (e # es) = unblocked [e] @ unblocked es"
  by (cases r; simp) (cases e; simp)

lemma accept_history:
  "accept_ok sd p q (unblocked es) s \<Longrightarrow> \<exists>rs s' q'. accept_run sd es s = Done rs s' \<and> accept_ok sd p q' [] s'
     \<and> accepted rs @ ready q' = ready q @ unblocked es \<and> set (pending q') = set (pending q) - set (accepted rs)
     \<and> accepts_meet (ready q) es rs"
proof (induction es arbitrary: q s)
  case Nil
  then show ?case by auto
next
  case (Cons e es)
  from accept_step [OF Cons.prems] obtain r s1 q1 where
    r: "accept_event_run sd e s = Done r s1" "accept_ok sd p q1 (unblocked es) s1"
    "accepted [r] @ ready q1 = ready q @ unblocked [e]" "set (pending q1) = set (pending q) - set (accepted [r])"
    "\<forall>rs. accepts_meet (ready q1) es rs \<longrightarrow> accepts_meet (ready q) (e # es) (r # rs)" by blast
  from Cons.IH [OF r(2)] obtain rs s' q' where
    rs: "accept_run sd es s1 = Done rs s'" "accept_ok sd p q' [] s'" "accepted rs @ ready q' = ready q1 @ unblocked es"
    "set (pending q') = set (pending q1) - set (accepted rs)" "accepts_meet (ready q1) es rs" by blast
  have "accept_run sd (e # es) s = Done (r # rs) s'" using r(1) rs(1) by (simp add: run_simps)
  moreover have "accepted (r # rs) @ ready q' = ready q @ unblocked (e # es)"
    using r(3) rs(3) by (metis accepted_unblocked_append append.assoc)
  moreover have "set (pending q') = set (pending q) - set (accepted (r # rs))"
    using r(4) rs(4) accepted_unblocked_append(1) [of r rs] by auto
  ultimately show ?case using rs(2,5) r(5) by blast
qed


text \<open>The sample listening socket with a connection in its handshake.\<close>

abbreviation pending_queue :: listen_queue where
  "pending_queue \<equiv> sample_queue\<lparr>lq_cur_len := 1, connection_queue := [new_request sample_peer 16 1, invalid_request]\<rparr>"

abbreviation sample_child :: mysock_context where
  "sample_child \<equiv> child_context 0 sample_peer 16 (fresh_context 1 6 7 8 True 1)"

abbreviation handshake_sys :: "nat sys" where
  "handshake_sys \<equiv> (listen_sys pending_queue)\<lparr>os := 9, global_ctx := Some 0 # Some 1 # replicate 62 None,
     ctxs := [Some sample_listener, Some sample_child]\<rparr>"

lemma handshake_ok: "accept_ok 0 0 pending_queue [1] handshake_sys"
proof -
  let ?s = "listen_sys pending_queue"
  have o: "open_socket 0 0 ?s" "wf_sys ?s" using listen_sys_listener [of pending_queue]
    by (auto simp: listener_def open_socket_def)
  have r: "replicate 63 None = None # replicate 62 (None :: ptr option)" using replicate_Suc [of 62 "None :: ptr option"] by simp
  have "free_slot (global_ctx ?s) 0 = Some 1" "wf_ctx (length (ctxs ?s)) sample_child" "my_sd sample_child = int 1"
    using child_context_fresh(2) [of 1 0 sample_peer 16 6 7 8 True 1] child_context_fresh(1) [of 0 sample_peer 16 1 6 7 8 True 1]
    by (simp_all add: r)
  note new = open_socket_new [OF o(2) this, where w = 9]
  have n: "open_socket 1 1 handshake_sys" "open_socket 0 0 handshake_sys"
    using new(1) new(2) [OF o(1)] by (simp_all add: r)
  have q: "wf_lq pending_queue" "ready pending_queue = []" "pending pending_queue = [1]"
    by (simp_all add: wf_lq_def sample_queue_def zero_listen_queue_def ready_def pending_def)
  have l: "listener 0 0 pending_queue handshake_sys"
    using n(2) listen_sys_listener [of pending_queue] by (simp add: listener_def listen_map_def hload_def)
  have "child 0 sample_peer 16 [] sample_child" by (rule child_context_fresh(4))
  then have "connection 0 in_handshake handshake_sys 1"
    unfolding connection_def using n(1) by (intro exI [of _ 1] exI [of _ sample_child]) (simp add: hload_def child_def in_handshake_def)
  with l q show ?thesis by (simp add: accept_ok_def)
qed


end
