(* ===== verification/Mysock_Close.thy ===== *)
theory Mysock_Close
  imports Mysock_Api
begin

text \<open>
  What myclose does to the process: the descriptor of a connection whose threads have finished is
  released and nothing else changes; a listening socket first closes every connection of its queue.
\<close>

section \<open>Closing\<close>

declare myclose_fuel.simps [simp del]

text \<open>The exit pipe takes the byte that wakes the receive thread.\<close>

definition pipe_ok :: "'os env \<Rightarrow> bool" where
  "pipe_ok E \<longleftrightarrow> (\<forall>fd w. 0 \<le> fst (os_write E fd [88] w))"

text \<open>A descriptor whose threads have finished, as far as they were started; and one that moreover has connect\_lock
  free, as every context has on which no connect has failed.\<close>

definition threads_finished :: "'os sys \<Rightarrow> mysock_context \<Rightarrow> bool" where
  "threads_finished s c \<longleftrightarrow> (transport_thread_started c \<longrightarrow> \<not> listening c \<and> (is_active c \<or> listen_sd c \<noteq> -1)
       \<and> thread_exited (threads s) (transport_thread c))
     \<and> (case impl c of None \<Rightarrow> False | Some i \<Rightarrow> recv_thread_started i \<longrightarrow> thread_exited (threads s) (recv_thread i))"

definition threads_done :: "'os sys \<Rightarrow> mysock_context \<Rightarrow> bool" where
  "threads_done s c \<longleftrightarrow> (transport_thread_started c \<longrightarrow> \<not> listening c \<and> (is_active c \<or> listen_sd c \<noteq> -1)
       \<and> thread_exited (threads s) (transport_thread c))
     \<and> (case impl c of None \<Rightarrow> False | Some i \<Rightarrow> \<not> connect_lock i \<and> (recv_thread_started i \<longrightarrow> thread_exited (threads s) (recv_thread i)))"

definition closable :: "'os sys \<Rightarrow> int \<Rightarrow> bool" where
  "closable s d \<longleftrightarrow> (\<exists>p c. open_socket d p s \<and> hload (ctxs s) p = Some c \<and> \<not> listening c \<and> threads_done s c)"

text \<open>What closing the descriptor d with context p leaves of the process.\<close>

definition closed_one :: "int \<Rightarrow> ptr \<Rightarrow> 'os sys \<Rightarrow> 'os sys \<Rightarrow> bool" where
  "closed_one d p s s' \<longleftrightarrow> wf_sys s' \<and> global_ctx s' = (global_ctx s)[nat d := None] \<and> hload (ctxs s') p = None
     \<and> (\<forall>q. q \<noteq> p \<longrightarrow> hload (ctxs s') q = hload (ctxs s) q) \<and> threads s' = threads s"

lemma threads_done_iff: "threads_done s c \<longleftrightarrow> threads_finished s c \<and> map_option connect_lock (impl c) = Some False"
  by (auto simp: threads_done_def threads_finished_def split: option.splits)

text \<open>myclose up to the point where the threads have been joined.\<close>

lemma stop_recv_thread_run:
  assumes "hload (ctxs s) p = Some c" "threads_finished s c" "pipe_ok E"
  shows "\<exists>w i. network_stop_recv_thread E p s
      = Done () (s\<lparr>os := w, ctxs := hstore (ctxs s) p (upd_network (\<lambda>n. n\<lparr>impl_data := Some i\<rparr>) c)\<rparr>)
    \<and> map_option sock_ctx (impl c) = Some (sock_ctx i) \<and> map_option connect_lock (impl c) = Some (connect_lock i)"
proof -
  from assms(2) obtain i where i: "impl c = Some i"
    "recv_thread_started i \<Longrightarrow> thread_exited (threads s) (recv_thread i)" by (auto simp: threads_finished_def split: option.splits)
  have same: "upd_network (\<lambda>n. n\<lparr>impl_data := Some i\<rparr>) c = c"
    using i(1) by (cases c; cases "network_state c") (simp add: upd_network_def)
  have pipe: "0 \<le> fst (os_write E fd [88] w)" for fd w using assms(3) by (simp add: pipe_ok_def)
  show ?thesis
  proof (cases "recv_thread_started i")
    case True
    let ?i = "i\<lparr>recv_thread_started := False\<rparr>"
    have "upd_impl (\<lambda>i. i\<lparr>recv_thread_started := False\<rparr>) c = upd_network (\<lambda>n. n\<lparr>impl_data := Some ?i\<rparr>) c"
      using i(1) by (simp add: upd_impl_def upd_network_def)
    with True show ?thesis using assms(1) i pipe
      by (intro exI [of _ "snd (os_write E (exit_pipe_write i) [88] (os s))"] exI [of _ ?i])
        (simp add: network_stop_recv_thread_def pthread_join_def run_simps)
  next
    case False
    then show ?thesis using assms(1) i same
      by (intro exI [of _ "os s"] exI [of _ i]) (simp add: network_stop_recv_thread_def run_simps hstore_same)
  qed
qed

lemma myclose_unfold:
  assumes o: "open_socket d p s" "hload (ctxs s) p = Some c" and td: "threads_finished s c" and pipe: "pipe_ok E"
  shows "\<exists>s1 c1 i. open_socket d p s1 \<and> hload (ctxs s1) p = Some c1 \<and> impl c1 = Some i \<and> map_option connect_lock (impl c) = Some (connect_lock i)
    \<and> listening c1 = listening c \<and> bound c1 = bound c \<and> my_sd c1 = d
    \<and> (\<forall>q. q \<noteq> p \<longrightarrow> hload (ctxs s1) q = hload (ctxs s) q) \<and> global_ctx s1 = global_ctx s \<and> threads s1 = threads s
    \<and> listen_table s1 = listen_table s
    \<and> (\<forall>n. myclose_fuel (Suc n) E d s = bind (if listening c then mysock_close_passive_socket (myclose_fuel n E) p else ret ())
         (\<lambda>_. bind (mysock_free_context E p) (\<lambda>_. ret (Inr 0))) s1)"
proof -
  let ?c = "c\<lparr>close_requested := True, transport_thread_started := False\<rparr>"
  let ?s = "s\<lparr>ctxs := hstore (ctxs s) p ?c\<rparr>"
  have sock: "wf_ctx p c" "my_sd c = d" using o by (auto elim: open_socketE)
  have "wf_ctx p ?c" using sock(1) by (simp add: wf_ctx_def)
  then have o1: "open_socket d p ?s" by (intro open_socket_store [OF o]) simp_all
  have h1: "hload (ctxs ?s) p = Some ?c" using hload_bound [OF o(2)] by (simp add: heap_simps)
  have td1: "threads_finished ?s ?c" using td by (auto simp: threads_finished_def split: option.splits)
  from stop_recv_thread_run [OF h1 td1 pipe] obtain w i where
    st: "network_stop_recv_thread E p ?s
      = Done () (?s\<lparr>os := w, ctxs := hstore (ctxs ?s) p (upd_network (\<lambda>n. n\<lparr>impl_data := Some i\<rparr>) ?c)\<rparr>)"
    and i: "map_option sock_ctx (impl c) = Some (sock_ctx i)" "map_option connect_lock (impl c) = Some (connect_lock i)" by auto
  let ?c1 = "upd_network (\<lambda>n. n\<lparr>impl_data := Some i\<rparr>) ?c"
  let ?s1 = "?s\<lparr>os := w, ctxs := hstore (ctxs ?s) p ?c1\<rparr>"
  have "wf_ctx p ?c1" using sock(1) i(1) by (simp add: wf_ctx_def upd_network_def)
  then have o2: "open_socket d p ?s1" using open_socket_store [OF o1 h1, of ?c1] by (simp add: upd_network_def open_socket_def wf_sys_def)
  have t: "transport_thread_started c \<Longrightarrow> \<not> listening c \<and> (is_active c \<or> listen_sd c \<noteq> -1) \<and> thread_exited (threads s) (transport_thread c)"
    using td by (simp add: threads_finished_def)
  have e: "?c = c\<lparr>close_requested := True\<rparr>" if "\<not> transport_thread_started c" using that by (cases c) simp
  have run: "myclose_fuel (Suc n) E d s = bind (if listening c then mysock_close_passive_socket (myclose_fuel n E) p else ret ())
         (\<lambda>_. bind (mysock_free_context E p) (\<lambda>_. ret (Inr 0))) ?s1" for n
    using o(2) hload_bound [OF o(2)] open_socket_context(1) [OF o(1)] t st
    by (cases "transport_thread_started c") (simp_all add: myclose_fuel.simps e run_simps heap_simps pthread_join_def upd_network_def)
  show ?thesis
    using o2 hload_bound [OF o(2)] i(2) sock(2) run
    by (intro exI [of _ ?s1] exI [of _ ?c1] exI [of _ i]) (simp add: heap_simps upd_network_def)
qed

lemma myclose_plain:
  assumes "open_socket d p s" "hload (ctxs s) p = Some c" "\<not> listening c" "threads_done s c" "pipe_ok E"
  shows "\<exists>s'. (\<forall>n. myclose_fuel (Suc n) E d s = Done (Inr 0) s') \<and> closed_one d p s s' \<and> listen_table s' = listen_table s"
proof -
  from assms(4) have td: "threads_finished s c" "map_option connect_lock (impl c) = Some False" by (simp_all add: threads_done_iff)
  from myclose_unfold [OF assms(1,2) td(1) assms(5)] assms(3) td(2) obtain s1 c1 i where
    s1: "open_socket d p s1" "hload (ctxs s1) p = Some c1" "impl c1 = Some i" "\<not> connect_lock i" "my_sd c1 = d"
    "\<forall>q. q \<noteq> p \<longrightarrow> hload (ctxs s1) q = hload (ctxs s) q" "global_ctx s1 = global_ctx s" "threads s1 = threads s"
    "listen_table s1 = listen_table s"
    and run: "\<forall>n. myclose_fuel (Suc n) E d s = bind (mysock_free_context E p) (\<lambda>_. ret (Inr 0)) s1" by auto
  have "wf_sys s1" using s1(1) by (simp add: open_socket_def)
  from release_context [OF this s1(2-4), of E] s1 run show ?thesis by (auto simp: run_simps closed_one_def)
qed

lemma myclose_locked:
  assumes "open_socket d p s" "hload (ctxs s) p = Some c" "\<not> listening c" "threads_finished s c" "pipe_ok E"
    and "map_option connect_lock (impl c) = Some True"
  shows "myclose_fuel (Suc n) E d s = Abort (Assertion ''mysock_impl.h'' 30)"
proof -
  from myclose_unfold [OF assms(1,2,4,5)] assms(3,6) obtain s1 c1 i where
    s1: "open_socket d p s1" "hload (ctxs s1) p = Some c1" "impl c1 = Some i" "connect_lock i"
    and run: "\<forall>n. myclose_fuel (Suc n) E d s = bind (mysock_free_context E p) (\<lambda>_. ret (Inr 0)) s1" by auto
  from s1(1,2) have "wf_ctx p c1" by (auto elim: open_socketE)
  from free_context_locked [OF s1(2) this s1(3,4)] run show ?thesis by (simp add: run_simps)
qed

lemma closed_one_others:
  assumes "open_socket d p s" "closed_one d p s s'" "open_socket e pe s" "e \<noteq> d"
  shows "open_socket e pe s' \<and> hload (ctxs s') pe = hload (ctxs s) pe"
proof -
  have "pe \<noteq> p" using open_socket_unique assms(1,3,4) by blast
  moreover have "nat e \<noteq> nat d" using assms(1,3,4) by (auto simp: open_socket_def)
  ultimately show ?thesis using assms by (simp add: open_socket_def closed_one_def)
qed

lemma closable_others:
  assumes "open_socket d p s" "closed_one d p s s'" "closable s e" "e \<noteq> d"
  shows "closable s' e"
proof -
  from assms(3) obtain pe c where c: "open_socket e pe s" "hload (ctxs s) pe = Some c" "\<not> listening c" "threads_done s c"
    by (auto simp: closable_def)
  have "threads s' = threads s" using assms(2) by (simp add: closed_one_def)
  with c(4) have "threads_done s' c" by (simp add: threads_done_def split: option.splits)
  with c closed_one_others [OF assms(1,2) c(1) assms(4)] show ?thesis by (auto simp: closable_def)
qed

text \<open>What closing the descriptors ds leaves: they are free, their contexts are gone, every other open descriptor is untouched.\<close>

definition closed_all :: "int list \<Rightarrow> 'os sys \<Rightarrow> 'os sys \<Rightarrow> bool" where
  "closed_all ds s s' \<longleftrightarrow> wf_sys s' \<and> threads s' = threads s
     \<and> (\<forall>k. global_ctx s ! k = None \<longrightarrow> global_ctx s' ! k = None)
     \<and> (\<forall>d \<in> set ds. global_ctx s' ! nat d = None)
     \<and> (\<forall>x. hload (ctxs s) x = None \<longrightarrow> hload (ctxs s') x = None)
     \<and> (\<forall>d \<in> set ds. \<forall>pd. open_socket d pd s \<longrightarrow> hload (ctxs s') pd = None)
     \<and> (\<forall>e pe. open_socket e pe s \<and> e \<notin> set ds \<longrightarrow> open_socket e pe s' \<and> hload (ctxs s') pe = hload (ctxs s) pe)"

lemma closed_all_refl: "wf_sys s \<Longrightarrow> closed_all [] s s"
  by (simp add: closed_all_def)

lemma closed_all_one:
  assumes o: "open_socket d p s" and d: "closed_one d p s s'"
  shows "closed_all [d] s s'"
proof -
  have "nat d < length (global_ctx s)"
    using o wf_descriptors_length [of "global_ctx s" "ctxs s"] by (auto simp: open_socket_def wf_sys_def)
  moreover have "pd = p" if "open_socket d pd s" for pd using that o by (simp add: open_socket_def)
  moreover have "hload (ctxs s') x = None" if "hload (ctxs s) x = None" for x
    using that d by (cases "x = p") (simp_all add: closed_one_def)
  ultimately show ?thesis using d closed_one_others [OF o d]
    by (auto simp: closed_all_def closed_one_def nth_list_update)
qed

lemma closed_all_trans:
  assumes "closed_all ds s s'" "closed_all es s' s''"
  shows "closed_all (ds @ es) s s''"
proof -
  have "hload (ctxs s'') pd = None" if "d \<in> set (ds @ es)" "open_socket d pd s" for d pd
  proof (cases "d \<in> set ds")
    case True
    with assms that(2) show ?thesis by (simp add: closed_all_def)
  next
    case False
    with assms(1) that(2) have "open_socket d pd s'" by (simp add: closed_all_def)
    with assms(2) that(1) False show ?thesis by (auto simp: closed_all_def)
  qed
  moreover have "global_ctx s'' ! nat d = None" if "d \<in> set (ds @ es)" for d
    using that assms by (auto simp: closed_all_def)
  moreover have "\<forall>e pe. open_socket e pe s \<and> e \<notin> set (ds @ es) \<longrightarrow> open_socket e pe s'' \<and> hload (ctxs s'') pe = hload (ctxs s) pe"
  proof (intro allI impI, elim conjE)
    fix e pe assume e: "open_socket e pe s" "e \<notin> set (ds @ es)"
    then have "e \<notin> set ds" "e \<notin> set es" by simp_all
    with assms(1) e(1) have "open_socket e pe s'" "hload (ctxs s') pe = hload (ctxs s) pe" unfolding closed_all_def by blast+
    with assms(2) \<open>e \<notin> set es\<close> show "open_socket e pe s'' \<and> hload (ctxs s'') pe = hload (ctxs s) pe" unfolding closed_all_def by metis
  qed
  ultimately show ?thesis using assms by (simp add: closed_all_def)
qed

lemma close_all_run:
  assumes "pipe_ok E"
  shows "distinct (filter (\<lambda>d. d \<noteq> -1) (map req_sd rs)) \<Longrightarrow> wf_sys s
    \<Longrightarrow> \<forall>d \<in> set (filter (\<lambda>d. d \<noteq> -1) (map req_sd rs)). closable s d
    \<Longrightarrow> \<exists>s'. (\<forall>n. close_all (myclose_fuel (Suc n) E) rs s = Done () s')
      \<and> closed_all (filter (\<lambda>d. d \<noteq> -1) (map req_sd rs)) s s' \<and> listen_table s' = listen_table s"
proof (induction rs arbitrary: s)
  case Nil
  then show ?case by (simp add: run_simps closed_all_refl)
next
  case (Cons r rs)
  let ?ds = "filter (\<lambda>d. d \<noteq> -1) (map req_sd rs)"
  show ?case
  proof (cases "req_sd r = -1")
    case True
    with Cons.IH [of s] Cons.prems show ?thesis by (simp add: run_simps)
  next
    case False
    with Cons.prems(3) have "closable s (req_sd r)" by simp
    then obtain p c where c: "open_socket (req_sd r) p s" "hload (ctxs s) p = Some c" "\<not> listening c" "threads_done s c"
      by (auto simp: closable_def)
    from myclose_plain [OF c assms] obtain s1 where
      s1: "\<forall>n. myclose_fuel (Suc n) E (req_sd r) s = Done (Inr 0) s1" "closed_one (req_sd r) p s s1" "listen_table s1 = listen_table s" by blast
    have rest: "\<forall>d \<in> set ?ds. closable s1 d"
    proof
      fix d assume d: "d \<in> set ?ds"
      with Cons.prems(1) False have "d \<noteq> req_sd r" by force
      moreover from d Cons.prems(3) have "closable s d" by auto
      ultimately show "closable s1 d" by (intro closable_others [OF c(1) s1(2)])
    qed
    have "wf_sys s1" "distinct ?ds" using s1(2) Cons.prems(1) False by (simp_all add: closed_one_def)
    from Cons.IH [OF this(2,1) rest] obtain s2 where
      s2: "\<forall>n. close_all (myclose_fuel (Suc n) E) rs s1 = Done () s2" "closed_all ?ds s1 s2" "listen_table s2 = listen_table s1" by blast
    have "\<forall>n. close_all (myclose_fuel (Suc n) E) (r # rs) s = Done () s2"
      using False s1(1) s2(1) by (simp add: run_simps)
    with closed_all_trans [OF closed_all_one [OF c(1) s1(2)] s2(2)] s2(3) s1(3) False show ?thesis by auto
  qed
qed

text \<open>The listening socket: the queued connections, the table entry, the context.\<close>

lemma delete_listener:
  assumes "wf_sys s" "0 \<le> sd"
  shows "\<exists>t. on_listen_table (hash_delete hash_default_hash_fn hash_default_key_equals MAX_NUM_CONNECTIONS sd) s
      = Done () (s\<lparr>listen_table := t\<rparr>) \<and> wf_sys (s\<lparr>listen_table := t\<rparr>)
    \<and> listen_map (s\<lparr>listen_table := t\<rparr>) = (listen_map s)(sd := None)"
proof -
  have "wf_table hash_default_hash_fn 64 (listen_table s)" "valid_key sd"
    using assms by (simp_all add: wf_sys_def valid_key_def)
  from lt.pm.del_spec [OF this] assms(1) show ?thesis
    by (auto simp: on_listen_table_def zoom_def listen_map_def wf_sys_def)
qed

lemma pending_closable_not_listener:
  assumes "listener sd p q s" "closable s d"
  shows "d \<noteq> sd"
  using assms by (auto simp: closable_def elim!: listenerE) (metis open_socket_def option.inject)

lemma closed_all_start:
  assumes "closed_all ds s1 s2" "global_ctx s1 = global_ctx s" "threads s1 = threads s" "wf_sys s" "wf_sys s1"
    "\<And>x. x \<noteq> p \<Longrightarrow> hload (ctxs s1) x = hload (ctxs s) x" "open_socket sd p s" "sd \<in> set ds"
  shows "closed_all ds s s2"
proof -
  have "\<forall>e pe. open_socket e pe s \<and> e \<notin> set ds \<longrightarrow> hload (ctxs s1) pe = hload (ctxs s) pe"
    using assms(6-8) open_socket_unique [of sd p s] by metis
  moreover have "open_socket e pe s1 = open_socket e pe s" for e pe
    using assms(2,4,5) by (simp add: open_socket_def)
  moreover have "hload (ctxs s1) x = None" if "hload (ctxs s) x = None" for x
    using that assms(6) [of x] open_socketE [OF assms(7)] by (cases "x = p") auto
  ultimately show ?thesis using assms(1-3) by (simp add: closed_all_def)
qed

lemma closable_carry:
  assumes "closable s d" "listening c" "hload (ctxs s) p = Some c"
    and "global_ctx s1 = global_ctx s" "threads s1 = threads s" "wf_sys s1"
    and "\<And>x. x \<noteq> p \<Longrightarrow> hload (ctxs s1) x = hload (ctxs s) x"
  shows "closable s1 d"
proof -
  from assms(1) obtain pd cd where pd: "open_socket d pd s" "hload (ctxs s) pd = Some cd" "\<not> listening cd" "threads_done s cd"
    by (auto simp: closable_def)
  then have "pd \<noteq> p" using assms(2,3) by auto
  with pd assms(4-7) show ?thesis
    by (auto simp: closable_def open_socket_def threads_done_def intro!: exI [of _ pd] exI [of _ cd] split: option.splits)
qed

lemma myclose_listener:
  assumes l: "listener sd p q s" and wf: "wf_lq q" and c: "hload (ctxs s) p = Some c" "threads_done s c"
    and ds: "\<forall>d \<in> set (pending q). closable s d" and pipe: "pipe_ok E"
  shows "\<exists>s'. (\<forall>n. myclose_fuel (Suc (Suc n)) E sd s = Done (Inr 0) s') \<and> closed_all (pending q @ [sd]) s s'
    \<and> listen_map s' = (listen_map s)(sd := None)"
proof -
  have cl: "listening c" "bound c" "open_socket sd p s" "0 \<le> sd" "wf_sys s" using l c(1) by (auto elim: listenerE)
  from c(2) have td: "threads_finished s c" "map_option connect_lock (impl c) = Some False" by (simp_all add: threads_done_iff)
  from myclose_unfold [OF cl(3) c(1) td(1) pipe, unfolded td(2) option.inject simp_thms] obtain s1 c1 i where
    s1: "open_socket sd p s1" "hload (ctxs s1) p = Some c1" "impl c1 = Some i" "\<not> connect_lock i"
    "listening c1 = listening c" "bound c1 = bound c" "my_sd c1 = sd"
    "\<forall>x. x \<noteq> p \<longrightarrow> hload (ctxs s1) x = hload (ctxs s) x" "global_ctx s1 = global_ctx s" "threads s1 = threads s"
    "listen_table s1 = listen_table s"
    and run: "\<forall>n. myclose_fuel (Suc n) E sd s = bind (if listening c then mysock_close_passive_socket (myclose_fuel n E) p else ret ())
         (\<lambda>_. bind (mysock_free_context E p) (\<lambda>_. ret (Inr 0))) s1" by blast
  have l1: "listener sd p q s1" using l s1 cl by (simp add: listener_def listen_map_def)
  have w1: "wf_sys s1" using s1(1) by (simp add: open_socket_def)
  have ds1: "\<forall>d \<in> set (pending q). closable s1 d"
    using ds closable_carry [OF _ cl(1) c(1) s1(9,10) w1] s1(8) by blast
  have len: "length (connection_queue q) = lq_max_len q" "distinct (pending q)" using wf by (simp_all add: wf_lq_def pending_def)
  from close_all_run [OF pipe, of "connection_queue q" s1] len(2) w1 ds1 obtain s2 where
    s2: "\<forall>n. close_all (myclose_fuel (Suc n) E) (connection_queue q) s1 = Done () s2" "closed_all (pending q) s1 s2"
    "listen_table s2 = listen_table s1" unfolding pending_def by blast
  have sd: "sd \<notin> set (pending q)" using ds pending_closable_not_listener [OF l] by blast
  then have p2: "open_socket sd p s2" "hload (ctxs s2) p = Some c1"
    using s2(2) s1(1,2) by (simp_all add: closed_all_def)
  then have w2: "wf_sys s2" by (simp add: open_socket_def)
  from delete_listener [OF w2 cl(4)] obtain t where
    t: "on_listen_table (hash_delete hash_default_hash_fn hash_default_key_equals MAX_NUM_CONNECTIONS sd) s2
      = Done () (s2\<lparr>listen_table := t\<rparr>)" "wf_sys (s2\<lparr>listen_table := t\<rparr>)"
    "listen_map (s2\<lparr>listen_table := t\<rparr>) = (listen_map s2)(sd := None)" by blast
  have pas: "mysock_close_passive_socket (myclose_fuel (Suc n) E) p s1 = Done () (s2\<lparr>listen_table := t\<rparr>)" for n
    using s1(2,5-7) cl(1,2) get_connection_queue_run [OF l1] len(1) s2(1) t(1)
    by (simp add: mysock_close_passive_socket_def run_simps)
  let ?s3 = "s2\<lparr>listen_table := t\<rparr>"
  have o3: "open_socket sd p ?s3" using p2(1) t(2) by (rule open_socket_table)
  have "hload (ctxs ?s3) p = Some c1" using p2(2) by simp
  from release_context [OF t(2) this s1(3,4), of E] s1(7) obtain s4 where
    s4: "mysock_free_context E p ?s3 = Done () s4" "closed_one sd p ?s3 s4" "listen_table s4 = t"
    by (auto simp: closed_one_def)
  have "closed_all (pending q) s1 ?s3" using s2(2) t(2) by (auto simp: closed_all_def open_socket_def)
  from closed_all_trans [OF this closed_all_one [OF o3 s4(2)]]
  have "closed_all (pending q @ [sd]) s s4"
    by (rule closed_all_start) (use s1 cl w1 in auto)
  moreover have "myclose_fuel (Suc (Suc n)) E sd s = Done (Inr 0) s4" for n
    using run cl(1) pas [of n] s4(1) by (simp add: run_simps)
  moreover have "listen_map s4 = (listen_map s)(sd := None)"
    using t(3) s4(3) s2(3) s1(11) by (simp add: listen_map_def)
  ultimately show ?thesis by blast
qed

section \<open>Properties\<close>

text \<open>C39: myclose on a connection whose transport and receive threads have finished, which depends on connect\_lock.
  When the lock is free, myclose returns 0 and
  releases exactly that mysocket: its context is gone, its descriptor free, every other
  context, every other descriptor, the threads and the table of listening sockets are as before,
  and the process is well-formed. When a failed connect has left the lock held (network\_io\_tcp.c), the release of the
  context destroys a locked mutex, and the process ends at the assertion of PTHREAD\_CALL. While the transport thread is
  still running, myclose waits, with the close request recorded and nothing else changed. (The write that wakes the
  receive thread is taken to succeed.)\<close>

theorem myclose_connection:
  assumes "open_socket d p s" "hload (ctxs s) p = Some c" "\<not> listening c" "pipe_ok E"
  shows "(threads_finished s c \<and> map_option connect_lock (impl c) = Some False
        \<longrightarrow> (\<exists>s'. myclose E d s = Done (Inr 0) s' \<and> closed_one d p s s' \<and> listen_table s' = listen_table s))
    \<and> (threads_finished s c \<and> map_option connect_lock (impl c) = Some True
        \<longrightarrow> myclose E d s = Abort (Assertion ''mysock_impl.h'' 30))
    \<and> (transport_thread_started c \<and> (is_active c \<or> listen_sd c \<noteq> -1) \<and> \<not> thread_exited (threads s) (transport_thread c) \<longrightarrow>
        myclose E d s = Blocked (s\<lparr>ctxs := hstore (ctxs s) p (c\<lparr>close_requested := True\<rparr>)\<rparr>))"
proof (intro conjI impI)
  assume "threads_finished s c \<and> map_option connect_lock (impl c) = Some False"
  then have "threads_done s c" by (simp add: threads_done_iff)
  from myclose_plain [OF assms(1-3) this assms(4)] obtain s' where
    s': "\<forall>n. myclose_fuel (Suc n) E d s = Done (Inr 0) s'" "closed_one d p s s'" "listen_table s' = listen_table s" by blast
  from s'(1) have "myclose E d s = Done (Inr 0) s'" unfolding myclose_def numeral_2_eq_2 by blast
  with s' show "\<exists>s'. myclose E d s = Done (Inr 0) s' \<and> closed_one d p s s' \<and> listen_table s' = listen_table s" by blast
next
  assume "threads_finished s c \<and> map_option connect_lock (impl c) = Some True"
  with myclose_locked [OF assms(1-3) _ assms(4)] show "myclose E d s = Abort (Assertion ''mysock_impl.h'' 30)"
    unfolding myclose_def numeral_2_eq_2 by blast
next
  assume t: "transport_thread_started c \<and> (is_active c \<or> listen_sd c \<noteq> -1) \<and> \<not> thread_exited (threads s) (transport_thread c)"
  then show "myclose E d s = Blocked (s\<lparr>ctxs := hstore (ctxs s) p (c\<lparr>close_requested := True\<rparr>)\<rparr>)"
    using assms(2,3) hload_bound [OF assms(2)] open_socket_context(1) [OF assms(1)]
    by (simp add: myclose_def numeral_2_eq_2 myclose_fuel.simps run_simps heap_simps pthread_join_def)
qed

lemma sample_env_pipe: "pipe_ok sample_env"
  by (simp add: pipe_ok_def sample_env_def)

text \<open>The sample mysocket with a transport thread that has not exited.\<close>

abbreviation running_context :: mysock_context where
  "running_context \<equiv> sample_context\<lparr>is_active := True, transport_thread_started := True\<rparr>"

abbreviation running_sys :: "nat sys" where
  "running_sys \<equiv> sample_sys\<lparr>ctxs := [Some running_context], threads := [\<lparr>entry = Transport_thread_func, arg = 0, exited = False\<rparr>]\<rparr>"

lemma running_open: "open_socket 0 0 running_sys"
proof -
  have "wf_ctx 0 running_context" using wf_fresh_context [of 0 3 4 5 True 0] by (simp add: wf_ctx_def)
  then have "open_socket 0 0 (sample_sys\<lparr>ctxs := hstore (ctxs sample_sys) 0 running_context\<rparr>)"
    by (intro open_socket_store [OF sample_open, of _ sample_context]) (simp_all add: sample_load)
  then show ?thesis by (simp add: open_socket_def wf_sys_def hstore_def)
qed

theorem myclose_connection_witness:
  "(\<exists>s'. myclose sample_env 0 sample_sys = Done (Inr 0) s' \<and> closed_one 0 0 sample_sys s')
    \<and> (\<exists>s'. myclose sample_env 0 running_sys = Blocked s')"
proof
  have c: "hload (ctxs sample_sys) 0 = Some sample_context" "\<not> listening sample_context"
    "threads_finished sample_sys sample_context \<and> map_option connect_lock (impl sample_context) = Some False"
    by (simp_all add: sample_load threads_finished_def fresh_impl_def)
  from myclose_connection [OF sample_open c(1,2) sample_env_pipe] c(3)
  show "\<exists>s'. myclose sample_env 0 sample_sys = Done (Inr 0) s' \<and> closed_one 0 0 sample_sys s'" by blast
  have r: "hload (ctxs running_sys) 0 = Some running_context" "\<not> listening running_context"
    "\<not> thread_exited (threads running_sys) (transport_thread running_context)"
    by (simp_all add: sample_load thread_exited_def fresh_context_def zero_context_def)
  from myclose_connection [OF running_open r(1,2) sample_env_pipe] r(3)
  show "\<exists>s'. myclose sample_env 0 running_sys = Blocked s'" by auto
qed

text \<open>C40: myclose on a listening socket whose queued connections and receive thread have finished, with
  connect\_lock free in all their contexts (\<open>threads_done\<close>), returns 0: every connection still waiting in the queue, completed or not, is closed with it, in
  any number, the entry of listen\_table is removed and no other entry changes, every mysocket
  outside the queue is untouched, and the process is well-formed. Since connections do not listen
  themselves, the mutual recursion of myclose and \<open>_mysock_close_passive_socket\<close> ends at depth
  two: any larger bound gives the same outcome.\<close>

theorem myclose_listening_socket:
  assumes "listener sd p q s" "wf_lq q" "hload (ctxs s) p = Some c" "threads_done s c"
    and "\<forall>d \<in> set (pending q). closable s d" "pipe_ok E"
  shows "\<exists>s'. myclose E sd s = Done (Inr 0) s' \<and> (\<forall>n. myclose_fuel (2 + n) E sd s = Done (Inr 0) s')
    \<and> closed_all (pending q @ [sd]) s s' \<and> listen_map s' = (listen_map s)(sd := None)"
  using myclose_listener [OF assms] unfolding myclose_def by (metis add_2_eq_Suc numeral_2_eq_2)

theorem myclose_listening_socket_witness:
  "\<exists>s'. myclose sample_env 0 handshake_sys = Done (Inr 0) s' \<and> closed_all [1, 0] handshake_sys s' \<and> listen_map s' 0 = None"
proof -
  have l: "listener 0 0 pending_queue handshake_sys" "wf_lq pending_queue" "connection 0 in_handshake handshake_sys 1"
    using handshake_ok by (simp_all add: accept_ok_def)
  have c: "hload (ctxs handshake_sys) 0 = Some sample_listener" "threads_done handshake_sys sample_listener"
    by (simp_all add: hload_def threads_done_def fresh_impl_def)
      (simp add: sample_listener_def upd_impl_def upd_network_def)
  have p: "pending pending_queue = [1]" by (simp add: pending_def)
  from l(3) obtain pd where pd: "open_socket 1 pd handshake_sys" by (auto simp: connection_def)
  then have "wf_sys handshake_sys" unfolding open_socket_def by blast
  then have o1: "open_socket 1 1 handshake_sys" by (simp add: open_socket_def)
  have h1: "hload (ctxs handshake_sys) 1 = Some sample_child" by (simp add: hload_def)
  have "\<not> listening sample_child" "\<not> transport_thread_started sample_child" "impl sample_child = Some (fresh_impl 1 6 7 8)"
    by (simp_all add: child_context_def upd_network_def)
  then have "\<not> listening sample_child" "threads_done handshake_sys sample_child"
    by (simp_all add: threads_done_def fresh_impl_def)
  with o1 h1 have "closable handshake_sys 1" unfolding closable_def by blast
  then have "\<forall>d \<in> set (pending pending_queue). closable handshake_sys d" unfolding p by simp
  from myclose_listening_socket [OF l(1,2) c this sample_env_pipe] obtain s' where
    s': "myclose sample_env 0 handshake_sys = Done (Inr 0) s'" "closed_all (pending pending_queue @ [0]) handshake_sys s'"
    "listen_map s' = (listen_map handshake_sys)(0 := None)" by blast
  from s'(2) have "closed_all [1, 0] handshake_sys s'" unfolding p append.simps .
  moreover from s'(3) have "listen_map s' 0 = None" by (simp only: fun_upd_same)
  ultimately show ?thesis using s'(1) by blast
qed

text \<open>A connection that failed before it was accepted is lost for good. When the transport layer
  has announced an error for it, myaccept fails with that error, and the connection leaves the
  queue of the listening socket; its mysocket stays open, with its descriptor taken, although the
  application was never given the descriptor and closing the listening socket no longer reaches it.\<close>

lemma failed_accept_leaks_descriptor:
  assumes "listener sd p q s" "wf_lq q" "ready q = d # ds"
    and "connection sd (\<lambda>c. stcp_errno c = e) s d" "e \<noteq> 0"
  shows "\<exists>s' q' pd. myaccept sd s = Done (Inl e) s' \<and> listener sd p q' s' \<and> wf_lq q' \<and> ready q' = ds
    \<and> set (pending q') = set (pending q) - {d} \<and> open_socket d pd s' \<and> ctxs s' = ctxs s"
proof -
  from assms(4) obtain pd c where o: "open_socket d pd s" and c: "hload (ctxs s) pd = Some c" "listen_sd c = sd" "stcp_errno c = e"
    by (auto simp: connection_def)
  from assms(1) obtain lc where lc: "open_socket sd p s" "hload (ctxs s) p = Some lc" "listening lc" by (rule listenerE)
  from dequeue_connection_ready [OF assms(1-3) o] obtain s' q' where
    s': "mysock_dequeue_connection p s = Done pd s'" "listener sd p q' s'" "wf_lq q'" "ready q' = ds"
    "set (pending q') = set (pending q) - {d}" "ctxs s' = ctxs s" "\<forall>e pe. open_socket e pe s \<longrightarrow> open_socket e pe s'" by blast
  have "myaccept sd s = Done (Inl e) s'"
    using lc c assms(5) s'(1,6) open_socket_context(1) [OF lc(1)] by (simp add: myaccept_def run_simps)
  then show ?thesis using s' o by blast
qed

abbreviation failed_queue :: listen_queue where
  "failed_queue \<equiv> pending_queue\<lparr>completed_queue := [(0, 0)]\<rparr>"

abbreviation failed_child :: mysock_context where
  "failed_child \<equiv> sample_child\<lparr>stcp_errno := 103\<rparr>"

abbreviation failed_sys :: "nat sys" where
  "failed_sys \<equiv> (listen_sys failed_queue)\<lparr>os := 9, global_ctx := Some 0 # Some 1 # replicate 62 None,
     ctxs := [Some sample_listener, Some failed_child]\<rparr>"

lemma failed_sys_ok: "listener 0 0 failed_queue failed_sys" "open_socket 1 1 failed_sys"
proof -
  let ?s = "listen_sys failed_queue"
  have o: "open_socket 0 0 ?s" "wf_sys ?s" using listen_sys_listener [of failed_queue] by (auto elim: listenerE)
  have r: "replicate 63 (None :: ptr option) = None # replicate 62 None" by (simp flip: replicate_Suc)
  have "free_slot (global_ctx ?s) 0 = Some 1" "wf_ctx (length (ctxs ?s)) failed_child" "my_sd failed_child = int 1"
    using child_context_fresh(2) [of 1 0 sample_peer 16 6 7 8 True 1] child_context_fresh(1) [of 0 sample_peer 16 1 6 7 8 True 1]
    by (simp_all add: r wf_ctx_def)
  note new = open_socket_new [OF o(2) this, where w = 9]
  show n: "open_socket 1 1 failed_sys" using new(1) by (simp add: r)
  have "open_socket 0 0 failed_sys" using new(2) [OF o(1)] by (simp add: r)
  then show "listener 0 0 failed_queue failed_sys"
    using listen_sys_listener [of failed_queue] by (simp add: listener_def listen_map_def hload_def)
qed

end
