(* ===== verification/Stcp_Threads.thy ===== *)
theory Stcp_Threads
  imports Mysock_Close
begin

text \<open>
  The threads behind a mysocket: the receive thread (network_io_socket.c), the transport thread
  (mysock.c) and the transport layer that comes with the repository, a skeleton (transport.c).
  The loops are watched for a number of rounds (\<open>iterate\<close>); a thread has returned when its value
  is \<open>Some\<close>. \<open>transport_init\<close> is an argument of the transport thread: the skeleton is one
  instance, an implementation that replaces it is another.
\<close>

section \<open>The receive thread (network_io_socket.c)\<close>

abbreviation (input) POLLERR :: "16 word" where "POLLERR \<equiv> 8"

text \<open>One poll: the flags done and packet\_ready once one of them is set.\<close>

definition poll_round :: "'os env \<Rightarrow> int \<Rightarrow> int \<Rightarrow> unit \<Rightarrow> ('os sys, (unit + bool \<times> bool) option) prog" where
  "poll_round E pipe_fd sock_fd _ =
     bind (syscall (os_poll E pipe_fd sock_fd)) (\<lambda>r.
     case r of
       Poll_waiting \<Rightarrow> block
     | Poll_error e \<Rightarrow> bind (assert_at ''network_io_socket.c'' 238 (e = EINTR)) (\<lambda>_. ret (Some (Inl ())))
     | Poll_timeout \<Rightarrow> abort (Assertion ''network_io_socket.c'' 242)
     | Poll_ready r0 r1 \<Rightarrow>
         bind (assert_at ''network_io_socket.c'' 246 (r0 AND POLLERR = 0)) (\<lambda>_.
         bind (assert_at ''network_io_socket.c'' 247 (r1 AND POLLERR = 0)) (\<lambda>_.
         ret (Some (if r0 \<noteq> 0 \<or> r1 \<noteq> 0 then Inr (r0 \<noteq> 0, r1 \<noteq> 0) else Inl ())))))"

text \<open>One round of the outer loop; packet\_buf is the local buffer.\<close>

definition recv_round :: "nat \<Rightarrow> 'os env \<Rightarrow> ptr \<Rightarrow> byte list \<Rightarrow> ('os sys, (byte list + unit) option) prog" where
  "recv_round n E p packet_buf =
     bind (get_ctx ''network_io_socket.c'' 228 p) (\<lambda>c.
     bind (the_or (Null_pointer ''network_io_socket.c'' 228) (impl c)) (\<lambda>i.
     bind (iterate n (poll_round E (exit_pipe_read i) (socket i)) ()) (\<lambda>x.
     case x of
       None \<Rightarrow> ret None
     | Some (leave, _) \<Rightarrow>
         if leave then ret (Some (Inr ()))
         else
         bind (network_recv_packet E p packet_buf MAX_IP_PAYLOAD_LEN) (\<lambda>(bytes_read, packet_buf').
         if bytes_read \<le> 0 then ret (Some (Inr ()))
         else
         bind (assert_at ''network_io_socket.c'' 271 (bytes_read \<le> int MAX_IP_PAYLOAD_LEN)) (\<lambda>_.
         bind (get_ctx ''network_io_socket.c'' 272 p) (\<lambda>c.
         bind (if listening c
               then bind (mysock_enqueue_connection E p packet_buf' (nat bytes_read)
                      (peer_addr (network_state c)) (peer_addr_len (network_state c)) None) (\<lambda>_. ret ())
               else on_ctx ''network_io_socket.c'' 285 p
                      (on_network_recv_queue (mysock_enqueue_buffer (Some packet_buf') (nat bytes_read)))) (\<lambda>_.
         ret (Some (Inl packet_buf')))))))))"

text \<open>\<open>packet_buf\<close> stands for what the stack holds when the thread starts.\<close>

definition network_recv_thread_func :: "nat \<Rightarrow> 'os env \<Rightarrow> byte list \<Rightarrow> ptr \<Rightarrow> ('os sys, unit option) prog" where
  "network_recv_thread_func n E packet_buf p =
     bind (get_ctx ''network_io_socket.c'' 218 p) (\<lambda>c.
     bind (assert_at ''network_io_socket.c'' 219 (impl c \<noteq> None)) (\<lambda>_.
     iterate n (recv_round n E p) packet_buf))"

section \<open>The transport thread (mysock.c)\<close>

text \<open>
  The transport layer yields the value of errno when it returns. eof\_packet is never
  initialised; none of its bytes is used.
\<close>

definition transport_thread_func :: "(int \<Rightarrow> bool \<Rightarrow> ('os sys, errno option) prog) \<Rightarrow> ptr \<Rightarrow> ('os sys, unit option) prog" where
  "transport_thread_func init p =
     bind (get_ctx ''mysock.c'' 349 p) (\<lambda>c.
     bind (verify_mysocket_descriptor (Some p) (my_sd c)) (\<lambda>_.
     bind (init (my_sd c) (is_active c)) (\<lambda>x.
     case x of
       None \<Rightarrow> ret None
     | Some err \<Rightarrow>
         bind (get_ctx ''mysock.c'' 366 p) (\<lambda>c.
         bind (if blocking c
               then stcp_unblock_application
                      (if err = 0 \<or> err = EINTR then (if is_active c then ECONNREFUSED else ECONNABORTED) else err)
                      (my_sd c)
               else ret ()) (\<lambda>_.
         bind (on_ctx ''mysock.c'' 391 p (on_app_send_queue (mysock_enqueue_buffer (Some [0]) 0))) (\<lambda>_.
         ret (Some ())))))))"

section \<open>The skeleton of the transport layer (transport.c)\<close>

abbreviation (input) CSTATE_ESTABLISHED :: nat where "CSTATE_ESTABLISHED \<equiv> 0"

record transport_context =
  finished :: bool                       \<comment> \<open>done\<close>
  connection_state :: nat
  initial_sequence_num :: "32 word"

definition zero_transport_context :: transport_context where
  "zero_transport_context = \<lparr>finished = False, connection_state = 0, initial_sequence_num = 0\<rparr>"

text \<open>\<open>fixed\<close>: whether FIXED\_INITNUM is defined.\<close>

definition generate_initial_seq_num :: "bool \<Rightarrow> transport_context \<Rightarrow> transport_context" where
  "generate_initial_seq_num fixed ctx = (if fixed then ctx\<lparr>initial_sequence_num := 1\<rparr> else ctx)"

definition control_loop :: "nat \<Rightarrow> int \<Rightarrow> transport_context \<Rightarrow> ('os sys, transport_context option) prog" where
  "control_loop n sd = iterate n (\<lambda>ctx.
     if \<not> finished ctx
     then bind (stcp_wait_for_event sd 0 False) (\<lambda>event.
          ret (Some (Inl (if event AND APP_DATA \<noteq> 0 then ctx else ctx))))
     else ret (Some (Inr ctx)))"

definition transport_init :: "nat \<Rightarrow> bool \<Rightarrow> errno \<Rightarrow> int \<Rightarrow> bool \<Rightarrow> ('os sys, errno option) prog" where
  "transport_init n fixed err sd active =
     (let ctx = (generate_initial_seq_num fixed zero_transport_context)\<lparr>connection_state := CSTATE_ESTABLISHED\<rparr> in
     bind (stcp_unblock_application err sd) (\<lambda>_.
     bind (control_loop n sd ctx) (\<lambda>x.
     ret (map_option (\<lambda>_. err) x))))"

section \<open>What the receive thread delivers\<close>

text \<open>poll reports the socket as soon as bytes are on their way, unless the exit pipe is readable.\<close>

definition data_polled :: "'os env \<Rightarrow> int \<Rightarrow> int \<Rightarrow> ('os \<Rightarrow> byte list) \<Rightarrow> bool" where
  "data_polled E a fd unread \<longleftrightarrow> (\<forall>w. unread w \<noteq> [] \<longrightarrow>
     (\<exists>r w'. os_poll E a fd w = (Poll_ready 0 r, w') \<and> r \<noteq> 0 \<and> r AND POLLERR = 0 \<and> unread w' = unread w))"

text \<open>A connected context with the exit pipe \<open>a\<close> and the packets \<open>ps\<close> in its queue.\<close>

definition receiving :: "ptr \<Rightarrow> int \<Rightarrow> int \<Rightarrow> byte list list \<Rightarrow> 'os sys \<Rightarrow> bool" where
  "receiving p fd a ps s \<longleftrightarrow> link_up p fd s \<and> (case hload (ctxs s) p of None \<Rightarrow> False | Some c \<Rightarrow>
     wf_queue (network_recv_queue c) \<and> contents (network_recv_queue c) = ps \<and> map_option exit_pipe_read (impl c) = Some a)"

lemma receivingE:
  assumes "receiving p fd a ps s"
  obtains c i where "hload (ctxs s) p = Some c" "impl c = Some i" "socket i = fd" "exit_pipe_read i = a"
    "wf_queue (network_recv_queue c)" "contents (network_recv_queue c) = ps" "link_up p fd s" "\<not> listening c"
  using assms by (auto simp: receiving_def link_up_def split: option.splits)

lemma receiving_os [simp]: "receiving p fd a ps (s\<lparr>os := w\<rparr>) = receiving p fd a ps s"
  by (simp add: receiving_def)

lemma receiving_store:
  assumes "receiving p fd a ps s" "hload (ctxs s) p = Some c" "wf_queue q"
  shows "receiving p fd a (contents q) (s\<lparr>ctxs := hstore (ctxs s) p (c\<lparr>network_recv_queue := q\<rparr>)\<rparr>)"
  using assms hload_bound [OF assms(2)] by (simp add: receiving_def link_up_def heap_simps)

lemma frame_Nil [simp]: "frame x \<noteq> []"
  by (simp add: frame_def)

text \<open>A round that finds data reads one frame.\<close>

lemma poll_data:
  assumes "data_polled E a fd unread" "unread (os s) \<noteq> []"
  shows "\<exists>w. (\<forall>n. iterate (Suc n) (poll_round E a fd) () s = Done (Some (False, True)) (s\<lparr>os := w\<rparr>)) \<and> unread w = unread (os s)"
  using assms by (fastforce simp: data_polled_def poll_round_def run_simps)

definition take_frame :: "ptr \<Rightarrow> byte list \<Rightarrow> byte list \<Rightarrow> ('os sys, (byte list + unit) option) prog" where
  "take_frame p buf packet =
    (if packet = [] then ret (Some (Inr ()))
     else bind (assert_at ''network_io_socket.c'' 271 (length packet \<le> 1500)) (\<lambda>_.
          bind (on_ctx ''network_io_socket.c'' 285 p (on_network_recv_queue
            (mysock_enqueue_buffer (Some (take 1500 packet @ drop (length packet) buf)) (length packet)))) (\<lambda>_.
          ret (Some (Inl (take 1500 packet @ drop (length packet) buf))))))"

lemma recv_round_frame:
  assumes r: "receiving p fd a ps s" and E: "reads_from E fd unread" "data_polled E a fd unread"
    and u: "unread (os s) = frame packet @ rest" and len: "length packet < 65536" "length buf = 1500"
  shows "\<exists>w. unread w = rest \<and> (\<forall>n. recv_round (Suc n) E p buf s = take_frame p buf packet (s\<lparr>os := w\<rparr>))"
proof -
  from r obtain c i where c: "hload (ctxs s) p = Some c" "impl c = Some i" "socket i = fd" "exit_pipe_read i = a"
    "link_up p fd s" "\<not> listening c" by (rule receivingE)
  from poll_data [OF E(2), of s] u obtain w where
    w: "\<forall>n. iterate (Suc n) (poll_round E a fd) () s = Done (Some (False, True)) (s\<lparr>os := w\<rparr>)" "unread w = frame packet @ rest" by auto
  have "link_up p fd (s\<lparr>os := w\<rparr>)" "unread (os (s\<lparr>os := w\<rparr>)) = frame packet @ rest" using c(5) w(2) by simp_all
  from recv_packet_frame [OF this(1) E(1) this(2) len(1), of buf] len(2) obtain w' where
    w': "network_recv_packet E p buf 1500 (s\<lparr>os := w\<rparr>) = Done (int (length packet), take 1500 packet @ drop (length packet) buf) (s\<lparr>os := w'\<rparr>)"
    "unread w' = rest" by auto
  have "recv_round (Suc n) E p buf s = take_frame p buf packet (s\<lparr>os := w'\<rparr>)" for n
    using c w(1) w'(1) by (simp add: recv_round_def take_frame_def run_simps del: iterate.simps)
  with w'(2) show ?thesis by blast
qed

text \<open>A queue of p may have changed: the rest of the process has not.\<close>

definition undisturbed :: "ptr \<Rightarrow> 'os sys \<Rightarrow> 'os sys \<Rightarrow> bool" where
  "undisturbed p s s' \<longleftrightarrow> global_ctx s' = global_ctx s \<and> threads s' = threads s
     \<and> (\<forall>x. x \<noteq> p \<longrightarrow> hload (ctxs s') x = hload (ctxs s) x) \<and> net_of p s' = net_of p s
     \<and> (\<forall>sd. open_socket sd p s \<longrightarrow> open_socket sd p s')"

lemma undisturbed_refl: "undisturbed p s s"
  by (simp add: undisturbed_def)

lemma undisturbed_trans: "undisturbed p s s' \<Longrightarrow> undisturbed p s' s'' \<Longrightarrow> undisturbed p s s''"
  by (simp add: undisturbed_def)

lemma undisturbed_queue:
  assumes "hload (ctxs s) p = Some c" "wf_queue q"
  shows "undisturbed p s (s\<lparr>os := w, ctxs := hstore (ctxs s) p (c\<lparr>network_recv_queue := q\<rparr>)\<rparr>)"
proof -
  have "open_socket sd p (s\<lparr>os := w, ctxs := hstore (ctxs s) p (c\<lparr>network_recv_queue := q\<rparr>)\<rparr>)" if o: "open_socket sd p s" for sd
  proof -
    have "wf_ctx p c" using o assms(1) by (auto elim: open_socketE)
    with assms(2) have "open_socket sd p (s\<lparr>ctxs := hstore (ctxs s) p (c\<lparr>network_recv_queue := q\<rparr>)\<rparr>)"
      by (intro open_socket_store [OF o assms(1)]) simp_all
    then show ?thesis by (simp add: open_socket_def wf_sys_def)
  qed
  then show ?thesis using assms(1) hload_bound [OF assms(1)] by (simp add: undisturbed_def heap_simps net_of_def)
qed

lemma recv_round_packet:
  assumes r: "receiving p fd a ps s" and E: "reads_from E fd unread" "data_polled E a fd unread"
    and u: "unread (os s) = frame packet @ rest" and len: "0 < length packet" "length packet \<le> 1500" "length buf = 1500"
  shows "\<exists>s'. (\<forall>n. recv_round (Suc n) E p buf s = Done (Some (Inl (packet @ drop (length packet) buf))) s')
    \<and> receiving p fd a (ps @ [packet]) s' \<and> unread (os s') = rest \<and> undisturbed p s s'"
proof -
  from r obtain c where c: "hload (ctxs s) p = Some c" "wf_queue (network_recv_queue c)"
    "contents (network_recv_queue c) = ps" by (rule receivingE)
  have "length packet < 65536" using len(2) by simp
  from recv_round_frame [OF r E u this len(3)] obtain w where
    w: "unread w = rest" and run: "\<forall>n. recv_round (Suc n) E p buf s = take_frame p buf packet (s\<lparr>os := w\<rparr>)" by blast
  from pq.enq_spec [OF c(2), of packet] obtain q where q: "mysock_enqueue_buffer (Some packet) (length packet) (network_recv_queue c) = Done () q"
    "wf_queue q" "contents q = ps @ [packet]" using c(3) by blast
  let ?buf = "packet @ drop (length packet) buf"
  let ?s = "s\<lparr>os := w, ctxs := hstore (ctxs s) p (c\<lparr>network_recv_queue := q\<rparr>)\<rparr>"
  have "mysock_enqueue_buffer (Some ?buf) (length packet) (network_recv_queue c) = Done () q"
    using q(1) by (subst enqueue_take) simp_all
  then have "\<forall>n. recv_round (Suc n) E p buf s = Done (Some (Inl ?buf)) ?s"
    using run len c(1) by (simp add: take_frame_def run_simps on_network_recv_queue_def zoom_def)
  moreover have "receiving p fd a (ps @ [packet]) ?s"
    using receiving_store [OF _ _ q(2), of p fd a ps "s\<lparr>os := w\<rparr>" c] r c(1) q(3) by simp
  ultimately show ?thesis using w undisturbed_queue [OF c(1) q(2), of w] by (intro exI [of _ ?s]) simp
qed

lemma recv_rounds:
  assumes E: "reads_from E fd unread" "data_polled E a fd unread"
  shows "receiving p fd a ps s \<Longrightarrow> unread (os s) = concat (map frame packets) @ rest \<Longrightarrow> length buf = 1500
    \<Longrightarrow> \<forall>x \<in> set packets. 0 < length x \<and> length x \<le> 1500
    \<Longrightarrow> \<exists>buf' s'. (\<forall>n m. iterate (length packets + m) (recv_round (Suc n) E p) buf s = iterate m (recv_round (Suc n) E p) buf' s')
      \<and> length buf' = 1500 \<and> receiving p fd a (ps @ packets) s' \<and> unread (os s') = rest \<and> undisturbed p s s'"
proof (induction packets arbitrary: ps s buf)
  case Nil
  then show ?case using undisturbed_refl by (intro exI [of _ buf] exI [of _ s]) simp
next
  case (Cons x xs)
  then have u: "unread (os s) = frame x @ (concat (map frame xs) @ rest)" and x: "0 < length x" "length x \<le> 1500" by simp_all
  from recv_round_packet [OF Cons.prems(1) E u x Cons.prems(3)] obtain s1 where
    s1: "\<forall>n. recv_round (Suc n) E p buf s = Done (Some (Inl (x @ drop (length x) buf))) s1" "receiving p fd a (ps @ [x]) s1"
    "unread (os s1) = concat (map frame xs) @ rest" "undisturbed p s s1" by blast
  have "length (x @ drop (length x) buf) = 1500" "\<forall>x \<in> set xs. 0 < length x \<and> length x \<le> 1500"
    using x Cons.prems by simp_all
  from Cons.IH [OF s1(2,3) this] obtain buf' s' where
    s': "\<forall>n m. iterate (length xs + m) (recv_round (Suc n) E p) (x @ drop (length x) buf) s1 = iterate m (recv_round (Suc n) E p) buf' s'"
    "length buf' = 1500" "receiving p fd a ((ps @ [x]) @ xs) s'" "unread (os s') = rest" "undisturbed p s1 s'" by blast
  from undisturbed_trans [OF s1(4) s'(5)] s'(1-4) s1(1) show ?case
    by (intro exI [of _ buf'] exI [of _ s']) (simp add: run_simps)
qed

lemma recv_thread_loop:
  "receiving p fd a ps s \<Longrightarrow> network_recv_thread_func n E buf p s = iterate n (recv_round n E p) buf s"
  by (auto simp: network_recv_thread_func_def run_simps elim!: receivingE)

lemma recv_thread_last_round:
  assumes "receiving p fd a ps s"
  shows "os_poll E a fd (os s) = (Poll_ready r0 r1, w) \<Longrightarrow> r0 \<noteq> 0 \<Longrightarrow> r0 AND POLLERR = 0 \<Longrightarrow> r1 AND POLLERR = 0
      \<Longrightarrow> recv_round (Suc n) E p buf s = Done (Some (Inr ())) (s\<lparr>os := w\<rparr>)"
    and "os_poll E a fd (os s) = (Poll_waiting, w) \<Longrightarrow> recv_round (Suc n) E p buf s = Blocked (s\<lparr>os := w\<rparr>)"
  using assms by (auto simp: recv_round_def poll_round_def run_simps elim!: receivingE)

section \<open>Properties of the receive thread\<close>

text \<open>The receive thread delivers. On a connected mysocket whose stream carries the frames of any
  packets of 1 to 1500 bytes, cut by the system in any way, the thread appends exactly these
  packets, in order, to network\_recv\_queue, one per round, and touches no other context; then it
  waits if nothing has happened, and returns once the exit pipe is readable. Any larger number of
  rounds gives the same outcome.\<close>

lemma recv_thread_delivers_packets:
  assumes "receiving p fd a ps s" "reads_from E fd unread" "data_polled E a fd unread" "length buf = 1500"
    and "unread (os s) = concat (map frame packets) @ rest" "\<forall>x \<in> set packets. 0 < length x \<and> length x \<le> 1500"
  shows "\<exists>s'. receiving p fd a (ps @ packets) s' \<and> unread (os s') = rest
    \<and> global_ctx s' = global_ctx s \<and> threads s' = threads s \<and> (\<forall>x. x \<noteq> p \<longrightarrow> hload (ctxs s') x = hload (ctxs s) x)
    \<and> (\<forall>n r0 r1 w. length packets < n \<longrightarrow>
        (os_poll E a fd (os s') = (Poll_waiting, w) \<longrightarrow> network_recv_thread_func n E buf p s = Blocked (s'\<lparr>os := w\<rparr>))
      \<and> (os_poll E a fd (os s') = (Poll_ready r0 r1, w) \<and> r0 \<noteq> 0 \<and> r0 AND POLLERR = 0 \<and> r1 AND POLLERR = 0 \<longrightarrow>
          network_recv_thread_func n E buf p s = Done (Some ()) (s'\<lparr>os := w\<rparr>)))"
proof -
  from recv_rounds [OF assms(2,3,1,5,4,6)] obtain buf' s' where
    it: "\<forall>n m. iterate (length packets + m) (recv_round (Suc n) E p) buf s = iterate m (recv_round (Suc n) E p) buf' s'"
    and s': "receiving p fd a (ps @ packets) s'" "unread (os s') = rest" "global_ctx s' = global_ctx s" "threads s' = threads s"
    "\<forall>x. x \<noteq> p \<longrightarrow> hload (ctxs s') x = hload (ctxs s) x" unfolding undisturbed_def by blast
  have "network_recv_thread_func n E buf p s = iterate (Suc m) (recv_round (Suc (length packets + m)) E p) buf' s'"
    if "n = length packets + Suc m" for n m
    using it recv_thread_loop [OF assms(1)] that by (metis add_Suc_right)
  then have run: "\<exists>m k. network_recv_thread_func n E buf p s = iterate (Suc m) (recv_round (Suc k) E p) buf' s'"
    if "length packets < n" for n using less_imp_Suc_add [OF that] by (metis add_Suc_right)
  have "network_recv_thread_func n E buf p s = Blocked (s'\<lparr>os := w\<rparr>)"
    if "length packets < n" "os_poll E a fd (os s') = (Poll_waiting, w)" for n w
    using run [OF that(1)] recv_thread_last_round(2) [OF s'(1) that(2)] by (auto simp: run_simps)
  moreover have "network_recv_thread_func n E buf p s = Done (Some ()) (s'\<lparr>os := w\<rparr>)"
    if "length packets < n" "os_poll E a fd (os s') = (Poll_ready r0 r1, w)" "r0 \<noteq> 0" "r0 AND POLLERR = 0" "r1 AND POLLERR = 0" for n r0 r1 w
    using run [OF that(1)] recv_thread_last_round(1) [OF s'(1) that(2-)] by (auto simp: run_simps)
  ultimately show ?thesis using s' by blast
qed

text \<open>The loop-back system delivers what is on its stream and then reports the exit pipe.\<close>

lemma loop_env_polls: "data_polled loop_env a fd (\<lambda>w. w)"
  by (simp add: data_polled_def loop_env_def)

lemma peered_receiving: "receiving 0 3 4 [] (peered_sys True w)"
  using peered_link_up by (simp add: receiving_def hload_def fresh_impl_def)

text \<open>What a peer can do to the receive thread with a bad frame, whatever it sent before. A frame of
  length 0 ends the thread as if the stream had ended: what follows stays unread. A frame of more
  than 1500 bytes ends the whole process, at the assertion after \<open>_network_recv_packet\<close>.\<close>

lemma bad_frame_stops_receive_thread:
  assumes "receiving p fd a ps s" "reads_from E fd unread" "data_polled E a fd unread" "length buf = 1500"
    and "\<forall>x \<in> set packets. 0 < length x \<and> length x \<le> 1500" "length bad < 65536" "length packets < n"
    and "unread (os s) = concat (map frame packets) @ frame bad @ rest"
  shows "(bad = [] \<longrightarrow> (\<exists>s'. network_recv_thread_func n E buf p s = Done (Some ()) s' \<and> receiving p fd a (ps @ packets) s' \<and> unread (os s') = rest))
    \<and> (1500 < length bad \<longrightarrow> network_recv_thread_func n E buf p s = Abort (Assertion ''network_io_socket.c'' 271))"
proof -
  from recv_rounds [OF assms(2,3,1,8,4,5)] obtain buf' s' where
    it: "\<forall>n m. iterate (length packets + m) (recv_round (Suc n) E p) buf s = iterate m (recv_round (Suc n) E p) buf' s'"
    and s': "length buf' = 1500" "receiving p fd a (ps @ packets) s'" "unread (os s') = frame bad @ rest" by blast
  from less_imp_Suc_add [OF assms(7)] obtain m where n: "n = length packets + Suc m" by auto
  from recv_round_frame [OF s'(2) assms(2,3) s'(3) assms(6) s'(1)] obtain w where
    w: "unread w = rest" "\<forall>n. recv_round (Suc n) E p buf' s' = take_frame p buf' bad (s'\<lparr>os := w\<rparr>)" by blast
  have run: "network_recv_thread_func n E buf p s = iterate (Suc m) (recv_round (Suc (length packets + m)) E p) buf' s'"
    using it recv_thread_loop [OF assms(1)] n by (metis add_Suc_right)
  show ?thesis using w s'(2) by (auto simp: run run_simps take_frame_def)
qed

section \<open>The transport thread\<close>

lemma unblock_active_run:
  assumes "open_socket sd p s" "hload (ctxs s) p = Some c" "blocking c" "is_active c"
  shows "stcp_unblock_application err sd s
    = Done () (s\<lparr>ctxs := hstore (ctxs s) p (c\<lparr>blocking := False, stcp_errno := (if err = EINTR then 0 else err)\<rparr>)\<rparr>)"
  using assms open_socket_context [OF assms(1)] by (simp add: stcp_unblock_application_def run_simps)

lemma descriptor_verified:
  assumes "open_socket sd p s" "hload (ctxs s) p = Some c"
  shows "verify_mysocket_descriptor (Some p) sd s = Done () s" "my_sd c = sd"
proof -
  show "my_sd c = sd" using assms by (auto elim: open_socketE)
  with assms show "verify_mysocket_descriptor (Some p) sd s = Done () s"
    by (simp add: verify_mysocket_descriptor_def run_simps open_socket_def)
qed

text \<open>What the application is told when the transport layer has returned with \<open>err\<close>.\<close>

definition final_errno :: "mysock_context \<Rightarrow> errno \<Rightarrow> errno" where
  "final_errno c err = (if \<not> blocking c then stcp_errno c
     else if err = 0 \<or> err = EINTR then (if is_active c then ECONNREFUSED else ECONNABORTED) else err)"

lemma transport_thread_active_run:
  assumes s: "open_socket sd p s" "hload (ctxs s) p = Some c" and i: "init sd (is_active c) s = Done (Some err) s1"
    and s1: "open_socket sd p s1" "hload (ctxs s1) p = Some c1" "is_active c1"
  shows "\<exists>q. transport_thread_func init p s = Done (Some ()) (s1\<lparr>ctxs := hstore (ctxs s1) p
      (c1\<lparr>blocking := False, stcp_errno := final_errno c1 err, app_send_queue := q\<rparr>)\<rparr>)
    \<and> wf_queue q \<and> contents q = contents (app_send_queue c1) @ [[]]"
proof -
  have "wf_queue (app_send_queue c1)" using s1(1,2) by (auto simp: wf_ctx_def elim!: open_socketE)
  from pq.enq_spec [OF this, of "[]"] obtain q where
    q: "mysock_enqueue_buffer (Some []) 0 (app_send_queue c1) = Done () q" "wf_queue q"
    "contents q = contents (app_send_queue c1) @ [[]]" by auto
  have e: "mysock_enqueue_buffer (Some [0]) 0 (app_send_queue c1) = Done () q"
    using q(1) enqueue_take [of 0 "[0]"] by simp
  have same: "c1\<lparr>blocking := False, stcp_errno := stcp_errno c1, app_send_queue := q\<rparr> = c1\<lparr>app_send_queue := q\<rparr>" if "\<not> blocking c1"
    using that by (cases c1) simp
  note v = descriptor_verified [OF s] descriptor_verified(2) [OF s1(1,2)]
  have "transport_thread_func init p s = Done (Some ()) (s1\<lparr>ctxs := hstore (ctxs s1) p
      (c1\<lparr>blocking := False, stcp_errno := final_errno c1 err, app_send_queue := q\<rparr>)\<rparr>)"
  proof (cases "blocking c1")
    case True
    then show ?thesis using s(2) v i e s1(2,3) unblock_active_run [OF s1(1,2) True s1(3)] hload_bound [OF s1(2)]
      by (simp add: transport_thread_func_def final_errno_def run_simps heap_simps on_app_send_queue_def zoom_def)
  next
    case False
    then have "transport_thread_func init p s = Done (Some ()) (s1\<lparr>ctxs := hstore (ctxs s1) p (c1\<lparr>app_send_queue := q\<rparr>)\<rparr>)"
      using s(2) v i e s1(2) by (simp add: transport_thread_func_def run_simps on_app_send_queue_def zoom_def)
    with False show ?thesis by (simp only: final_errno_def same if_True not_False_eq_True)
  qed
  with q show ?thesis by blast
qed

text \<open>The transport thread never leaves the application hanging. Whatever transport layer is
  plugged in, once it returns on an active connection, connected or not: a caller waiting in myconnect
  goes on, with the error the transport layer left in errno, or ECONNREFUSED if it left none, if it
  never announced the connection, and with what it announced otherwise; and the stream to the
  application ends: after the bytes queued so far a zero-length buffer follows, so myread reports the
  end. Nothing else changes.\<close>

lemma transport_thread_releases_application:
  assumes "open_socket sd p s" "hload (ctxs s) p = Some c" "init sd (is_active c) s = Done (Some err) s1"
    and "open_socket sd p s1" "hload (ctxs s1) p = Some c1" "is_active c1"
  shows "\<exists>s' c'. transport_thread_func init p s = Done (Some ()) s' \<and> open_socket sd p s' \<and> hload (ctxs s') p = Some c'
    \<and> contents (app_send_queue c') = contents (app_send_queue c1) @ [[]]
    \<and> on_ctx ''mysock_api.c'' 84 p mysock_wait_for_connection s'
       = Done (if blocking c1 then Inl (if err = 0 \<or> err = EINTR then ECONNREFUSED else err)
               else if stcp_errno c1 \<noteq> 0 then Inl (stcp_errno c1) else Inr 0) s'
    \<and> (\<forall>x. x \<noteq> p \<longrightarrow> hload (ctxs s') x = hload (ctxs s1) x) \<and> global_ctx s' = global_ctx s1 \<and> os s' = os s1"
proof -
  from transport_thread_active_run [where init = init, OF assms] obtain q where
    q: "transport_thread_func init p s = Done (Some ()) (s1\<lparr>ctxs := hstore (ctxs s1) p
      (c1\<lparr>blocking := False, stcp_errno := final_errno c1 err, app_send_queue := q\<rparr>)\<rparr>)"
    "wf_queue q" "contents q = contents (app_send_queue c1) @ [[]]" by blast
  let ?c = "c1\<lparr>blocking := False, stcp_errno := final_errno c1 err, app_send_queue := q\<rparr>"
  let ?s = "s1\<lparr>ctxs := hstore (ctxs s1) p ?c\<rparr>"
  have "wf_ctx p ?c" using assms(4,5) q(2) by (auto simp: wf_ctx_def elim!: open_socketE)
  then have o: "open_socket sd p ?s" by (intro open_socket_store [OF assms(4,5)]) simp_all
  have h: "hload (ctxs ?s) p = Some ?c" using hload_bound [OF assms(5)] by (simp add: heap_simps)
  have "on_ctx ''mysock_api.c'' 84 p mysock_wait_for_connection ?s
      = Done (if blocking c1 then Inl (if err = 0 \<or> err = EINTR then ECONNREFUSED else err)
               else if stcp_errno c1 \<noteq> 0 then Inl (stcp_errno c1) else Inr 0) ?s"
    using h assms(6) by (simp add: mysock_wait_for_connection_def run_simps final_errno_def hstore_same)
  then show ?thesis using q o h by (intro exI [of _ ?s] exI [of _ ?c]) (simp add: heap_simps)
qed

section \<open>The skeleton\<close>

lemma wait_no_flags:
  assumes "open_socket sd p s" "hload (ctxs s) p = Some c"
  shows "stcp_wait_for_event sd 0 False s = (if close_requested c \<and> head (app_recv_queue c) = None
    then Done APP_CLOSE_REQUESTED (s\<lparr>ctxs := hstore (ctxs s) p (c\<lparr>close_requested := False\<rparr>)\<rparr>) else Blocked s)"
  using assms open_socket_context [OF assms(1)]
  by (simp add: stcp_wait_for_event_def wait_round_def run_simps Let_def hstore_same)

lemma control_loop_running: "\<not> finished ctx \<Longrightarrow> control_loop n sd ctx s \<noteq> Done (Some x) s'"
proof (induction n arbitrary: s)
  case 0
  show ?case by (simp add: control_loop_def run_simps)
next
  case (Suc n)
  then show ?case by (auto simp: control_loop_def run_simps split: outcome.splits)
qed

text \<open>The skeleton of the transport layer, as it stands in the repository. On an active connection it
  announces success at once, without a single packet, so that a myconnect that waits returns; then it
  waits for ever, taking one close request if there is one and leaving application and network data
  where they are. It never returns, so its thread never exits and myclose, which joins it, waits for
  ever too.\<close>

lemma transport_skeleton_never_returns:
  assumes "open_socket sd p s" "hload (ctxs s) p = Some c" "blocking c" "is_active c" "err = 0 \<or> err = EINTR"
  shows "\<exists>s' c'. (\<forall>n. transport_thread_func (transport_init (2 + n) fixed err) p s = Blocked s') \<and> hload (ctxs s') p = Some c'
    \<and> c' = c\<lparr>blocking := False, stcp_errno := 0, close_requested := (close_requested c \<and> head (app_recv_queue c) \<noteq> None)\<rparr>
    \<and> os s' = os s \<and> threads s' = threads s \<and> (\<forall>x. x \<noteq> p \<longrightarrow> hload (ctxs s') x = hload (ctxs s) x)
    \<and> (\<forall>n q t t'. transport_thread_func (transport_init n fixed err) q t \<noteq> Done (Some ()) t')"
proof -
  let ?c1 = "c\<lparr>blocking := False, stcp_errno := 0\<rparr>" let ?s1 = "s\<lparr>ctxs := hstore (ctxs s) p ?c1\<rparr>"
  let ?b = "close_requested c \<and> head (app_recv_queue c) \<noteq> None"
  let ?c2 = "c\<lparr>blocking := False, stcp_errno := 0, close_requested := ?b\<rparr>" let ?s2 = "s\<lparr>ctxs := hstore (ctxs s) p ?c2\<rparr>"
  have w: "wf_ctx p ?c1" "wf_ctx p ?c2" using assms(1,2) by (auto simp: wf_ctx_def elim!: open_socketE)
  have o: "open_socket sd p ?s1" "open_socket sd p ?s2" by (intro open_socket_store [OF assms(1,2)] w; simp)+
  have h: "hload (ctxs ?s1) p = Some ?c1" "hload (ctxs ?s2) p = Some ?c2" using hload_bound [OF assms(2)] by (simp_all add: heap_simps)
  have un: "stcp_unblock_application err sd s = Done () ?s1" using unblock_active_run [OF assms(1-4)] assms(5) by auto
  have loop: "control_loop (2 + n) sd ctx ?s1 = Blocked ?s2" if "\<not> finished ctx" for n ctx
  proof (cases "close_requested c \<and> head (app_recv_queue c) = None")
    case True
    with that wait_no_flags [OF o(1) h(1)] wait_no_flags [OF o(2) h(2)] show ?thesis
      by (simp add: control_loop_def run_simps heap_simps numeral_2_eq_2)
  next
    case False
    then have "?c2 = ?c1" by (cases c) auto
    moreover from False that wait_no_flags [OF o(1) h(1)] have "control_loop (2 + n) sd ctx ?s1 = Blocked ?s1"
      by (auto simp: control_loop_def run_simps numeral_2_eq_2)
    ultimately show ?thesis by (simp only:)
  qed
  have "transport_thread_func (transport_init (2 + n) fixed err) p s = Blocked ?s2" for n
    using assms(2) descriptor_verified [OF assms(1,2)] un loop
    by (simp add: transport_thread_func_def transport_init_def run_simps Let_def generate_initial_seq_num_def zero_transport_context_def)
  moreover have "transport_thread_func (transport_init n fixed err) q t \<noteq> Done (Some ()) t'" for n q t t'
    by (auto simp: transport_thread_func_def transport_init_def run_simps Let_def generate_initial_seq_num_def
        zero_transport_context_def control_loop_running split: outcome.splits option.splits)
  ultimately show ?thesis using h(2) by (intro exI [of _ ?s2] exI [of _ ?c2] conjI allI impI) (simp_all add: heap_simps)
qed

end
