(* ===== verification/App_Lines.thy ===== *)
theory App_Lines
  imports Stcp_Threads
begin

text \<open>
  What client.c and server.c share: C strings in character arrays, the decimal numbers of printf
  and scanf, and \<open>get_nvt_line\<close>, which both files define in the same way. The locale
  \<open>line_source\<close> states what reading lines needs of myread; the interpretation \<open>ms\<close> is myread on an
  open mysocket, with the stream the application has not read yet.
\<close>

section \<open>Strings\<close>

type_synonym site = "string \<times> nat"  \<comment> \<open>file and line of a statement\<close>

abbreviation (input) CR :: byte where "CR \<equiv> 13"
abbreviation (input) LF :: byte where "LF \<equiv> 10"
abbreviation (input) comma :: byte where "comma \<equiv> 44"

definition ascii :: "string \<Rightarrow> byte list" where
  "ascii s = map of_char s"

text \<open>The string that starts at the beginning of a character array.\<close>

definition c_string :: "byte list \<Rightarrow> byte list" where
  "c_string buf = takeWhile (\<lambda>b. b \<noteq> 0) buf"

text \<open>A store to an array element.\<close>

definition put_char :: "site \<Rightarrow> byte list \<Rightarrow> nat \<Rightarrow> byte \<Rightarrow> ('s, byte list) prog" where
  "put_char site buf i ch = (if i < length buf then ret (buf[i := ch]) else abort (Out_of_bounds (fst site) (snd site)))"

text \<open>A store of a whole string with its terminator at the beginning of an array: sprintf, strcpy, fgets.\<close>

definition put_string :: "site \<Rightarrow> byte list \<Rightarrow> byte list \<Rightarrow> ('s, byte list) prog" where
  "put_string site buf str =
     (if length str < length buf then ret (str @ 0 # drop (Suc (length str)) buf)
      else abort (Out_of_bounds (fst site) (snd site)))"

definition isspace :: "byte \<Rightarrow> bool" where
  "isspace b \<longleftrightarrow> b = 32 \<or> 9 \<le> b \<and> b \<le> 13"

definition isdigit :: "byte \<Rightarrow> bool" where
  "isdigit b \<longleftrightarrow> 48 \<le> b \<and> b \<le> 57"

fun strrchr :: "byte \<Rightarrow> byte list \<Rightarrow> nat option" where
  "strrchr c [] = None"
| "strrchr c (x # xs) = (case strrchr c xs of Some i \<Rightarrow> Some (Suc i) | None \<Rightarrow> if x = c then Some 0 else None)"

fun strchr :: "byte \<Rightarrow> byte list \<Rightarrow> nat option" where
  "strchr c [] = None"
| "strchr c (x # xs) = (if x = c then Some 0 else map_option Suc (strchr c xs))"

text \<open>printf of an unsigned number.\<close>

fun decimal :: "nat \<Rightarrow> byte list" where
  "decimal n = (if n < 10 then [48 + of_nat n] else decimal (n div 10) @ [48 + of_nat (n mod 10)])"

declare decimal.simps [simp del]

text \<open>scanf of a number: white space, a sign, digits; the value before it is stored.\<close>

definition digits_value :: "byte list \<Rightarrow> nat" where
  "digits_value ds = foldl (\<lambda>v d. 10 * v + (unat d - 48)) 0 ds"

definition scan_int :: "byte list \<Rightarrow> int option" where
  "scan_int str =
     (let s = dropWhile isspace str;
          neg = (s \<noteq> [] \<and> hd s = 45);
          t = (if s \<noteq> [] \<and> (hd s = 43 \<or> hd s = 45) then tl s else s);
          ds = takeWhile isdigit t
      in if ds = [] then None else Some (if neg then - int (digits_value ds) else int (digits_value ds)))"

section \<open>\<open>get_nvt_line\<close>\<close>

text \<open>
  One round of the loop. The local variables are the array line, how far the pointer has moved,
  and last\_char; the three sites are the stores of the end of the stream, of the end of the line
  and of a character. \<open>rd\<close> is myread on the mysocket.
\<close>

definition nvt_round ::
    "site \<times> site \<times> site \<Rightarrow> (nat \<Rightarrow> ('s, errno + int \<times> byte list) prog) \<Rightarrow> byte list \<times> nat \<times> byte
      \<Rightarrow> ('s, ((byte list \<times> nat \<times> byte) + int \<times> byte list) option) prog" where
  "nvt_round sites rd = (\<lambda>(line, pos, last_char).
     case sites of (at_eof, at_end, at_char) \<Rightarrow>
     bind (rd 1) (\<lambda>r.
     case r of
       Inl e \<Rightarrow> ret (Some (Inr (-1, line)))
     | Inr (len, bs) \<Rightarrow>
         if len < 0 then ret (Some (Inr (-1, line)))
         else if len = 0 then bind (put_char at_eof line pos 0) (\<lambda>line'. ret (Some (Inr (0, line'))))
         else
         let this_char = bs ! 0 in
         if last_char = CR \<and> this_char = LF
         then (if pos = 0 then abort (Out_of_bounds (fst at_end) (snd at_end))
               else bind (put_char at_end line (pos - 1) 0) (\<lambda>line'. ret (Some (Inr (0, line')))))
         else bind (put_char at_char line pos this_char) (\<lambda>line'.
              ret (Some (Inl (line', Suc pos, this_char))))))"

definition get_nvt_line :: "nat \<Rightarrow> site \<times> site \<times> site \<Rightarrow> int \<Rightarrow> byte list \<Rightarrow> ('os sys, (int \<times> byte list) option) prog" where
  "get_nvt_line n sites sd line = iterate n (nvt_round sites (myread sd)) (line, 0, 0)"

section \<open>Reading lines from a stream\<close>

lemma nvt_round_run:
  "rd 1 s = Done (Inr (0, [])) s' \<Longrightarrow> nvt_round sites rd (line, pos, l) s
    = bind (put_char (fst sites) line pos 0) (\<lambda>line'. ret (Some (Inr (0, line')))) s'"
  "rd 1 s = Done (Inr (1, [ch])) s' \<Longrightarrow> nvt_round sites rd (line, pos, l) s
    = (if l = CR \<and> ch = LF
       then (if pos = 0 then abort (Out_of_bounds (fst (fst (snd sites))) (snd (fst (snd sites))))
             else bind (put_char (fst (snd sites)) line (pos - 1) 0) (\<lambda>line'. ret (Some (Inr (0, line')))))
       else bind (put_char (snd (snd sites)) line pos ch) (\<lambda>line'. ret (Some (Inl (line', Suc pos, ch))))) s'"
  by (cases sites; simp add: nvt_round_def run_simps Let_def)+

text \<open>No CR LF pair, where the character before is \<open>l\<close>.\<close>

fun crlf_free :: "byte \<Rightarrow> byte list \<Rightarrow> bool" where
  "crlf_free l [] = True"
| "crlf_free l (x # xs) = (\<not> (l = CR \<and> x = LF) \<and> crlf_free x xs)"

lemma crlf_free_append: "crlf_free l (xs @ ys) = (crlf_free l xs \<and> crlf_free (last (l # xs)) ys)"
  by (induction xs arbitrary: l) auto

lemma upd_head_drop: "k < length xs \<Longrightarrow> (drop k xs)[0 := y] = y # drop (Suc k) xs"
  by (simp flip: Cons_nth_drop_Suc)

text \<open>
  A stream: \<open>src st cl s\<close> says that \<open>st\<close> is still to be read and whether the end follows; \<open>obs\<close> is
  the part of the state that reading leaves alone.
\<close>

locale line_source =
  fixes rd :: "nat \<Rightarrow> ('s, errno + int \<times> byte list) prog"
    and src :: "byte list \<Rightarrow> bool \<Rightarrow> 's \<Rightarrow> bool"
    and obs :: "'s \<Rightarrow> 'o"
  assumes read_data: "src st cl s \<Longrightarrow> st \<noteq> [] \<Longrightarrow> 0 < n \<Longrightarrow> n < 2 ^ 31 \<Longrightarrow> \<exists>k s'. 0 < k \<and> k \<le> n \<and> k \<le> length st
      \<and> rd n s = Done (Inr (int k, take k st)) s' \<and> src (drop k st) cl s' \<and> obs s' = obs s"
    and read_end: "src [] True s \<Longrightarrow> n < 2 ^ 31 \<Longrightarrow> \<exists>s'. rd n s = Done (Inr (0, [])) s' \<and> src [] True s' \<and> obs s' = obs s"
    and read_wait: "src [] False s \<Longrightarrow> rd n s = Blocked s"
begin

lemmas round_run = nvt_round_run [where rd = rd]

lemma read_char: "src (ch # st) cl s \<Longrightarrow> \<exists>s'. rd 1 s = Done (Inr (1, [ch])) s' \<and> src st cl s' \<and> obs s' = obs s"
  using read_data [of "ch # st" cl s 1] by (auto simp: take_Suc drop_Suc le_Suc_eq)

text \<open>Characters up to the end of the array are stored one by one; the next one is out of bounds.\<close>

lemma nvt_chars:
  "src (xs @ st) cl s \<Longrightarrow> crlf_free l xs \<Longrightarrow> pos + length xs \<le> length line
    \<Longrightarrow> \<exists>s'. src st cl s' \<and> obs s' = obs s \<and> (\<forall>m. iterate (length xs + m) (nvt_round sites rd) (line, pos, l) s
      = iterate m (nvt_round sites rd) (take pos line @ xs @ drop (pos + length xs) line, pos + length xs, last (l # xs)) s')"
proof (induction xs arbitrary: s l pos line)
  case Nil
  then show ?case by auto
next
  case (Cons x xs)
  from read_char [of x "xs @ st" cl s] Cons.prems obtain s1 where
    s1: "rd 1 s = Done (Inr (1, [x])) s1" "src (xs @ st) cl s1" "obs s1 = obs s" by auto
  have p: "pos < length line" "Suc pos + length xs \<le> length (line[pos := x])" "crlf_free x xs" using Cons.prems by simp_all
  have t: "take (Suc pos) (line[pos := x]) = take pos line @ [x]" using p(1) by (simp add: take_Suc_conv_app_nth)
  from Cons.IH [OF s1(2) p(3,2)] obtain s' where
    s': "src st cl s'" "obs s' = obs s" "\<forall>m. iterate (length xs + m) (nvt_round sites rd) (line[pos := x], Suc pos, x) s1
      = iterate m (nvt_round sites rd) (take (Suc pos) (line[pos := x]) @ xs @ drop (Suc pos + length xs) (line[pos := x]),
          Suc pos + length xs, last (x # xs)) s'"
    using s1(3) by auto
  have "iterate (length (x # xs) + m) (nvt_round sites rd) (line, pos, l) s
      = iterate (length xs + m) (nvt_round sites rd) (line[pos := x], Suc pos, x) s1" for m
    using round_run(2) [OF s1(1), of sites line pos l] Cons.prems(2) p(1) by (auto simp: run_simps put_char_def)
  with s' t show ?case by (intro exI [of _ s']) simp
qed

lemma nvt_overflow:
  assumes "src (xs @ y # st) cl s" "crlf_free l (xs @ [y])" "pos + length xs = length line"
  shows "iterate (Suc (length xs + m)) (nvt_round sites rd) (line, pos, l) s
    = Abort (Out_of_bounds (fst (snd (snd sites))) (snd (snd (snd sites))))"
proof -
  have c: "crlf_free l xs" "\<not> (last (l # xs) = CR \<and> y = LF)" using assms(2) by (auto simp: crlf_free_append)
  from nvt_chars [OF assms(1) c(1), of pos line sites] assms(3) obtain s' where
    s': "src (y # st) cl s'" "\<forall>m. iterate (length xs + m) (nvt_round sites rd) (line, pos, l) s
      = iterate m (nvt_round sites rd) (take pos line @ xs, length line, last (l # xs)) s'" by auto
  from read_char [OF s'(1)] obtain s2 where "rd 1 s' = Done (Inr (1, [y])) s2" by blast
  from round_run(2) [OF this, of sites "take pos line @ xs" "length line" "last (l # xs)"] c(2) assms(3)
  have "iterate (Suc m) (nvt_round sites rd) (take pos line @ xs, length line, last (l # xs)) s'
    = Abort (Out_of_bounds (fst (snd (snd sites))) (snd (snd (snd sites))))" by (auto simp: run_simps put_char_def)
  with s'(2) [rule_format, of "Suc m"] show ?thesis by simp
qed

lemma nvt_line:
  assumes "src (xs @ [CR, LF] @ st) cl s" "crlf_free 0 xs" "length xs < length line"
  shows "\<exists>s'. src st cl s' \<and> obs s' = obs s \<and> (\<forall>m. iterate (length xs + Suc (Suc m)) (nvt_round sites rd) (line, 0, 0) s
    = Done (Some (0, xs @ 0 # drop (Suc (length xs)) line)) s')"
proof -
  have "src ((xs @ [CR]) @ LF # st) cl s" "crlf_free 0 (xs @ [CR])" "0 + length (xs @ [CR]) \<le> length line"
    using assms by (simp_all add: crlf_free_append)
  from nvt_chars [OF this, of sites] obtain s1 where
    s1: "src (LF # st) cl s1" "obs s1 = obs s" "\<forall>m. iterate (length (xs @ [CR]) + m) (nvt_round sites rd) (line, 0, 0) s
      = iterate m (nvt_round sites rd) (xs @ CR # drop (Suc (length xs)) line, Suc (length xs), CR) s1" by auto
  from read_char [OF s1(1)] obtain s2 where "rd 1 s1 = Done (Inr (1, [LF])) s2" "src st cl s2" "obs s2 = obs s1" by blast
  then have "iterate (Suc m) (nvt_round sites rd) (xs @ CR # drop (Suc (length xs)) line, Suc (length xs), CR) s1
      = Done (Some (0, xs @ 0 # drop (Suc (length xs)) line)) s2" "src st cl s2" "obs s2 = obs s" for m
    using assms(3) s1(2) round_run(2) [of s1 LF s2 sites "xs @ CR # drop (Suc (length xs)) line" "Suc (length xs)" CR]
    by (simp_all add: run_simps put_char_def list_update_append)
  with s1(3) [rule_format, of "Suc m" for m] show ?thesis
    by (intro exI [of _ s2] conjI allI) (simp_all del: iterate.simps)
qed

lemma nvt_eof:
  assumes "src xs True s" "crlf_free 0 xs" "length xs < length line"
  shows "\<exists>s'. src [] True s' \<and> obs s' = obs s \<and> (\<forall>m. iterate (length xs + Suc m) (nvt_round sites rd) (line, 0, 0) s
    = Done (Some (0, xs @ 0 # drop (Suc (length xs)) line)) s')"
proof -
  from nvt_chars [of xs "[]" True s 0 0 line sites] assms obtain s1 where
    s1: "src [] True s1" "obs s1 = obs s" "\<forall>m. iterate (length xs + m) (nvt_round sites rd) (line, 0, 0) s
      = iterate m (nvt_round sites rd) (xs @ drop (length xs) line, length xs, last (0 # xs)) s1" by auto
  from read_end [OF s1(1), of 1] obtain s2 where "rd 1 s1 = Done (Inr (0, [])) s2" "src [] True s2" "obs s2 = obs s1" by auto
  then have "iterate (Suc m) (nvt_round sites rd) (xs @ drop (length xs) line, length xs, last (0 # xs)) s1
      = Done (Some (0, xs @ 0 # drop (Suc (length xs)) line)) s2" "src [] True s2" "obs s2 = obs s" for m
    using assms(3) s1(2) round_run(1) [of s1 s2 sites "xs @ drop (length xs) line" "length xs" "last (0 # xs)"]
    by (simp_all add: run_simps put_char_def list_update_append upd_head_drop)
  with s1(3) [rule_format, of "Suc m" for m] show ?thesis
    by (intro exI [of _ s2] conjI allI) (simp_all del: iterate.simps)
qed

end

section \<open>A mysocket as a stream\<close>

text \<open>What the application can still read from a mysocket, and whether the end follows.\<close>

definition session :: "int \<Rightarrow> ptr \<Rightarrow> byte list \<Rightarrow> bool \<Rightarrow> 'os sys \<Rightarrow> bool" where
  "session sd p st cl s \<longleftrightarrow> (\<exists>e bufs. app_readable sd p e bufs s
     \<and> st = (if e then [] else stream_before_fin bufs) \<and> cl = (e \<or> [] \<in> set bufs))"

lemma app_readable_os [simp]: "app_readable sd p e bufs (s\<lparr>os := w\<rparr>) = app_readable sd p e bufs s"
  by (simp add: app_readable_def)

lemma app_buffers_os [simp]: "app_buffers p (s\<lparr>os := w\<rparr>) = app_buffers p s"
  by (simp add: app_buffers_def)

lemma session_os [simp]: "session sd p st cl (s\<lparr>os := w\<rparr>) = session sd p st cl s"
  by (simp add: session_def)

lemma stream_empty: "stream_before_fin bufs = [] \<longleftrightarrow> bufs = [] \<or> (\<exists>bs. bufs = [] # bs)"
  by (cases bufs) (auto simp: stream_before_fin_def)

interpretation ms: line_source "myread sd" "session sd p" "\<lambda>s. (os s, app_buffers p s)" for sd p
proof unfold_locales
  fix st cl and n :: nat and s :: "'a sys" assume s: "session sd p st cl s" "st \<noteq> []" "0 < n" "n < 2 ^ 31"
  then obtain e bufs where e: "app_readable sd p e bufs s" "st = (if e then [] else stream_before_fin bufs)" "cl = (e \<or> [] \<in> set bufs)"
    unfolding session_def by blast
  from e s(2) have b: "app_readable sd p False bufs s" "st = stream_before_fin bufs" "cl = ([] \<in> set bufs)" by (cases e; simp)+
  with s(2) have "bufs \<noteq> []" "hd bufs \<noteq> []" by (auto simp: stream_empty neq_Nil_conv)
  then obtain x bs where x: "bufs = x # bs" "x \<noteq> []" by (cases bufs) simp_all
  have m: "(min n (length x) = 0) = False" using x(2) s(3) by simp
  from myread_data [OF _ s(4), of sd p x bs s, unfolded m] b(1) x obtain s' where
    s': "myread sd n s = Done (Inr (int (min n (length x)), take n x)) s'" "os s' = os s" "app_buffers p s' = app_buffers p s"
    "app_readable sd p False (if n < length x then drop n x # bs else bs) s'" by auto
  have "session sd p (drop (min n (length x)) st) cl s'"
    unfolding session_def using s'(4) b x by (intro exI [of _ False] exI [of _ "if n < length x then drop n x # bs else bs"]) auto
  moreover have "take n x = take (min n (length x)) st" using b(2) x by (auto simp: min_def)
  ultimately show "\<exists>k s'. 0 < k \<and> k \<le> n \<and> k \<le> length st \<and> myread sd n s = Done (Inr (int k, take k st)) s'
      \<and> session sd p (drop k st) cl s' \<and> (os s', app_buffers p s') = (os s, app_buffers p s)"
    using s' s(3) x b(2) by (intro exI [of _ "min n (length x)"] exI [of _ s']) auto
next
  fix n :: nat and s :: "'a sys" assume s: "session sd p [] True s" and n: "n < 2 ^ 31"
  from s obtain e bufs where b: "app_readable sd p e bufs s" "e \<or> [] \<in> set bufs" "e \<or> stream_before_fin bufs = []"
    by (auto simp: session_def split: if_splits)
  show "\<exists>s'. myread sd n s = Done (Inr (0, [])) s' \<and> session sd p [] True s' \<and> (os s', app_buffers p s') = (os s, app_buffers p s)"
  proof (cases e)
    case True
    with b(1) myread_eof [of sd p bufs s n] show ?thesis by (auto simp: session_def)
  next
    case False
    with b obtain bs where "bufs = [] # bs" by (auto simp: stream_empty)
    with False b(1) myread_data [OF _ n, of sd p "[]" bs s] obtain s' where
      "myread sd n s = Done (Inr (0, [])) s'" "app_readable sd p True bs s'" "os s' = os s" "app_buffers p s' = app_buffers p s" by auto
    then show ?thesis unfolding session_def by auto
  qed
next
  fix n and s :: "'a sys" assume "session sd p [] False s"
  then obtain bufs where "app_readable sd p False bufs s" "stream_before_fin bufs = []" "[] \<notin> set bufs"
    unfolding session_def by (metis (full_types))
  then have "app_readable sd p False [] s" by (auto simp: stream_empty)
  then show "myread sd n s = Blocked s" by (rule myread_wait)
qed

text \<open>Writing does not disturb what can be read.\<close>

lemma mywrite_session:
  assumes "session sd p st cl s" "n \<le> length b" "n < 2 ^ 31"
  shows "\<exists>s'. mywrite sd b n s = Done (Inr (int n)) s' \<and> session sd p st cl s' \<and> os s' = os s
    \<and> app_buffers p s' = app_buffers p s @ [take n b]"
proof -
  from assms(1) obtain e bufs where b: "app_readable sd p e bufs s" "st = (if e then [] else stream_before_fin bufs)" "cl = (e \<or> [] \<in> set bufs)"
    by (auto simp: session_def)
  then obtain c where c: "open_socket sd p s" "hload (ctxs s) p = Some c" "\<not> listening c" "\<not> close_requested c" "eof c = e"
    "contents (app_send_queue c) = bufs" "wf_ctx p c" by (auto elim: app_readableE)
  have "wf_queue (app_recv_queue c)" using c(7) by (simp add: wf_ctx_def)
  from pq.enq_spec [OF this, of "take n b"] obtain q where
    q: "mysock_enqueue_buffer (Some (take n b)) (length (take n b)) (app_recv_queue c) = Done () q" "wf_queue q"
    "contents q = contents (app_recv_queue c) @ [take n b]" by blast
  let ?c = "c\<lparr>app_recv_queue := q\<rparr>" let ?s = "s\<lparr>ctxs := hstore (ctxs s) p ?c\<rparr>"
  have "mysock_enqueue_buffer (Some b) n (app_recv_queue c) = Done () q" using q(1) enqueue_take [OF assms(2)] by simp
  then have "mywrite sd b n s = Done (Inr (int n)) ?s"
    using c assms(3) open_socket_context(1) [OF c(1)] by (simp add: mywrite_def run_simps on_app_recv_queue_def zoom_def)
  moreover have "open_socket sd p ?s"
    by (rule open_socket_store [OF c(1,2)]) (use c(7) q(2) in \<open>simp_all add: wf_ctx_def\<close>)
  then have "app_readable sd p e bufs ?s" using c hload_bound [OF c(2)] by (simp add: app_readable_def heap_simps)
  then have "session sd p st cl ?s" unfolding session_def using b(2,3) by blast
  moreover have "app_buffers p ?s = app_buffers p s @ [take n b]"
    using c(2) q(3) hload_bound [OF c(2)] by (simp add: app_buffers_def heap_simps)
  ultimately show ?thesis by (intro exI [of _ ?s]) simp
qed

section \<open>Numbers and strings\<close>

lemma c_string_end: "0 \<notin> set str \<Longrightarrow> c_string (str @ 0 # rest) = str"
  unfolding c_string_def by (induction str) auto

lemma strrchr_None: "c \<notin> set xs \<Longrightarrow> strrchr c xs = None"
  by (induction xs) auto

lemma strrchr_last: "c \<notin> set ys \<Longrightarrow> strrchr c (xs @ c # ys) = Some (length xs)"
  by (induction xs) (auto simp: strrchr_None)

lemma isdigit_digit: "k < 10 \<Longrightarrow> isdigit (48 + of_nat k) \<and> unat (48 + of_nat k :: byte) = 48 + k"
proof -
  assume k: "k < 10"
  then have "unat (of_nat k :: byte) = k" by (simp add: unat_of_nat take_bit_eq_mod)
  with k have "unat (48 + of_nat k :: byte) = 48 + k" by (subst unat_add_lem [THEN iffD1]) simp_all
  with k show ?thesis by (simp add: isdigit_def word_le_nat_alt)
qed

lemma decimal_digits: "decimal n \<noteq> [] \<and> (\<forall>d \<in> set (decimal n). isdigit d)"
proof (induction n rule: decimal.induct)
  case (1 n)
  then show ?case using isdigit_digit [of n] isdigit_digit [of "n mod 10"] by (auto simp: decimal.simps [of n])
qed

lemma digits_value_snoc: "digits_value (ds @ [d]) = 10 * digits_value ds + (unat d - 48)"
  by (simp add: digits_value_def)

lemma digits_value_decimal: "digits_value (decimal n) = n"
proof (induction n rule: decimal.induct)
  case (1 n)
  show ?case
  proof (cases "n < 10")
    case True
    then show ?thesis using isdigit_digit [of n] by (simp add: decimal.simps [of n] digits_value_def)
  next
    case False
    then show ?thesis using 1 isdigit_digit [of "n mod 10"] by (simp add: decimal.simps [of n] digits_value_snoc)
  qed
qed

lemma decimal_length: "n < 10 ^ k \<Longrightarrow> 0 < k \<Longrightarrow> length (decimal n) \<le> k"
proof (induction n arbitrary: k rule: decimal.induct)
  case (1 n)
  show ?case
  proof (cases "n < 10")
    case True
    with 1 show ?thesis by (simp add: decimal.simps [of n])
  next
    case False
    with "1.prems" obtain j where k: "k = Suc j" "0 < j" by (cases k; cases "k - 1") auto
    with "1.prems" have "n div 10 < 10 ^ j" by (simp add: less_mult_imp_div_less mult.commute)
    from "1.IH" [OF False this k(2)] False k show ?thesis by (simp add: decimal.simps [of n])
  qed
qed

lemma decimal_nonzero: "0 \<notin> set (decimal n)" "comma \<notin> set (decimal n)"
  using decimal_digits [of n] by (auto simp: isdigit_def)

lemma ascii_simps [simp]: "ascii [] = []" "ascii (c # cs) = of_char c # ascii cs" "ascii (xs @ ys) = ascii xs @ ascii ys"
  by (simp_all add: ascii_def)

lemma c_string_nonzero: "0 \<notin> set (c_string line)"
  unfolding c_string_def by (metis (mono_tags, lifting) set_takeWhileD)

lemma scan_decimal:
  assumes "rest = [] \<or> \<not> isdigit (hd rest)"
  shows "scan_int (decimal n @ rest) = Some (int n)"
proof -
  obtain d ds where d: "decimal n = d # ds" using decimal_digits [of n] by (cases "decimal n") auto
  have "isdigit d" using decimal_digits [of n] d by simp
  then have "\<not> isspace d" "d \<noteq> 45" "d \<noteq> 43" by (auto simp: isdigit_def isspace_def word_le_nat_alt)
  moreover have "takeWhile isdigit rest = []" using assms by (cases rest) auto
  then have "takeWhile isdigit (decimal n @ rest) = decimal n" using decimal_digits [of n] by (simp add: takeWhile_append2)
  ultimately show ?thesis using d digits_value_decimal [of n] by (simp add: scan_int_def Let_def)
qed

section \<open>The line reader\<close>

lemma get_nvt_line_run:
  assumes "session sd p (xs @ [CR, LF] @ st) cl s" "crlf_free 0 xs" "length xs < length line"
  shows "\<exists>s'. (\<forall>n \<ge> length xs + 2. get_nvt_line n sites sd line s = Done (Some (0, xs @ 0 # drop (Suc (length xs)) line)) s')
    \<and> session sd p st cl s' \<and> os s' = os s \<and> app_buffers p s' = app_buffers p s"
proof -
  from ms.nvt_line [OF assms, of sites] obtain s' where
    s': "session sd p st cl s'" "os s' = os s" "app_buffers p s' = app_buffers p s"
    "\<forall>m. iterate (length xs + Suc (Suc m)) (nvt_round sites (myread sd)) (line, 0, 0) s = Done (Some (0, xs @ 0 # drop (Suc (length xs)) line)) s'"
    by auto
  have "get_nvt_line n sites sd line s = Done (Some (0, xs @ 0 # drop (Suc (length xs)) line)) s'" if "n \<ge> length xs + 2" for n
    unfolding get_nvt_line_def by (rule iterate_more [OF s'(4) [rule_format, of 0]]) (use that in simp)
  with s' show ?thesis by blast
qed

lemma get_nvt_line_end:
  assumes "session sd p xs True s" "crlf_free 0 xs" "length xs < length line"
  shows "\<exists>s'. (\<forall>n \<ge> length xs + 1. get_nvt_line n sites sd line s = Done (Some (0, xs @ 0 # drop (Suc (length xs)) line)) s')
    \<and> session sd p [] True s' \<and> os s' = os s \<and> app_buffers p s' = app_buffers p s"
proof -
  from ms.nvt_eof [OF assms, of sites] obtain s' where
    s': "session sd p [] True s'" "os s' = os s" "app_buffers p s' = app_buffers p s"
    "\<forall>m. iterate (length xs + Suc m) (nvt_round sites (myread sd)) (line, 0, 0) s = Done (Some (0, xs @ 0 # drop (Suc (length xs)) line)) s'"
    by auto
  have "get_nvt_line n sites sd line s = Done (Some (0, xs @ 0 # drop (Suc (length xs)) line)) s'" if "n \<ge> length xs + 1" for n
    unfolding get_nvt_line_def by (rule iterate_more [OF s'(4) [rule_format, of 0]]) (use that in simp)
  with s' show ?thesis by blast
qed

lemma crlf_free_no_LF: "LF \<notin> set xs \<Longrightarrow> crlf_free l xs"
  by (induction xs arbitrary: l) auto

text \<open>C26: \<open>get_nvt_line\<close> reads one line. When the stream of the mysocket starts with a line, its
  terminator CR LF and more, and the line fits the array with one character to spare, the call returns
  0, the array holds exactly the line and a terminator, nothing after CR LF has been read, and the rest of the
  system and what is queued for the transport layer have not changed; the access to \<open>line[-1]\<close> is always inside the array. A stream that ends inside a
  line gives what there was of it. Nothing bounds the writes, though: a line of as many characters as
  the array has, or more, is written past its end. In each case one round per character read is enough.\<close>

theorem get_nvt_line_reads_line:
  assumes "crlf_free 0 xs"
  shows "(session sd p (xs @ [CR, LF] @ st) cl s \<and> length xs < length line \<longrightarrow>
      (\<exists>s'. (\<forall>n \<ge> length xs + 2. get_nvt_line n sites sd line s = Done (Some (0, xs @ 0 # drop (Suc (length xs)) line)) s')
         \<and> session sd p st cl s' \<and> os s' = os s \<and> app_buffers p s' = app_buffers p s))
    \<and> (session sd p xs True s \<and> length xs < length line \<longrightarrow>
      (\<exists>s'. (\<forall>n \<ge> length xs + 1. get_nvt_line n sites sd line s = Done (Some (0, xs @ 0 # drop (Suc (length xs)) line)) s')
         \<and> session sd p [] True s'))
    \<and> (session sd p (xs @ [CR, LF] @ st) cl s \<and> length line \<le> length xs \<longrightarrow>
      (\<forall>n > length line. get_nvt_line n sites sd line s = Abort (Out_of_bounds (fst (snd (snd sites))) (snd (snd (snd sites))))))"
proof (intro conjI impI)
  assume "session sd p (xs @ [CR, LF] @ st) cl s \<and> length xs < length line"
  with get_nvt_line_run [OF _ assms] show "\<exists>s'. (\<forall>n \<ge> length xs + 2. get_nvt_line n sites sd line s = Done (Some (0, xs @ 0 # drop (Suc (length xs)) line)) s')
         \<and> session sd p st cl s' \<and> os s' = os s \<and> app_buffers p s' = app_buffers p s" by blast
next
  assume "session sd p xs True s \<and> length xs < length line"
  with get_nvt_line_end [OF _ assms] show "\<exists>s'. (\<forall>n \<ge> length xs + 1. get_nvt_line n sites sd line s = Done (Some (0, xs @ 0 # drop (Suc (length xs)) line)) s')
         \<and> session sd p [] True s'" by blast
next
  assume a: "session sd p (xs @ [CR, LF] @ st) cl s \<and> length line \<le> length xs"
  let ?xs = "xs @ [CR]" and ?k = "length line"
  have "crlf_free 0 ?xs" using assms by (simp add: crlf_free_append)
  moreover have split: "?xs = take ?k ?xs @ ?xs ! ?k # drop (Suc ?k) ?xs" using a by (intro id_take_nth_drop) simp
  ultimately have f: "crlf_free 0 (take ?k ?xs @ [?xs ! ?k])"
    by (metis append.assoc append_Cons append_Nil crlf_free_append)
  have "session sd p (take ?k ?xs @ ?xs ! ?k # (drop (Suc ?k) ?xs @ LF # st)) cl s"
    using a split by (metis append.assoc append_Cons append_Nil)
  from ms.nvt_overflow [OF this f, of 0 line] a show "\<forall>n > length line. get_nvt_line n sites sd line s
      = Abort (Out_of_bounds (fst (snd (snd sites))) (snd (snd (snd sites))))"
    by (cases sites) (auto simp: get_nvt_line_def dest!: less_imp_Suc_add simp del: iterate.simps)
qed

abbreviation server_sites :: "site \<times> site \<times> site" where
  "server_sites \<equiv> ((''server.c'', 182), (''server.c'', 190), (''server.c'', 194))"

abbreviation client_sites :: "site \<times> site \<times> site" where
  "client_sites \<equiv> ((''client.c'', 363), (''client.c'', 372), (''client.c'', 376))"

text \<open>The copy of the function in client.c.\<close>

definition client_get_nvt_line :: "nat \<Rightarrow> int \<Rightarrow> byte list \<Rightarrow> ('os sys, (int \<times> byte list) option) prog" where
  "client_get_nvt_line n = get_nvt_line n client_sites"

text \<open>The sample mysocket with buffers for the application.\<close>

lemma sample_stream:
  "\<exists>s :: 'os sys. session 0 0 (stream_before_fin bufs) ([] \<in> set bufs) s \<and> os s = w \<and> app_buffers 0 s = []"
proof -
  have "\<exists>q. wf_queue q \<and> contents q = bufs"
  proof (induction bufs rule: rev_induct)
    case Nil
    show ?case by (intro exI [of _ empty_queue]) simp
  next
    case (snoc x xs)
    then show ?case using pq.enq_spec by blast
  qed
  then obtain q where q: "wf_queue q" "contents q = bufs" by blast
  let ?c = "sample_context\<lparr>app_send_queue := q\<rparr>"
  let ?s = "\<lparr>ctxs = [Some ?c], global_ctx = Some 0 # replicate 63 None, listen_table = hash_empty 64, threads = [], os = w\<rparr>"
  have "hload (ctxs sample_sys) 0 = Some sample_context" by (simp add: sample_load)
  then have "open_socket 0 0 (sample_sys\<lparr>ctxs := hstore (ctxs sample_sys) 0 ?c\<rparr>)"
    by (rule open_socket_store [OF sample_open]) (use q(1) wf_fresh_context [of 0 3 4 5 True 0] in \<open>simp_all add: wf_ctx_def\<close>)
  then have "open_socket 0 0 ?s" by (simp add: open_socket_def wf_sys_def hstore_def)
  then have "app_readable 0 0 False bufs ?s" using q(2) by (simp add: app_readable_def hload_def)
  then have "session 0 0 (stream_before_fin bufs) ([] \<in> set bufs) ?s" unfolding session_def by (intro exI [of _ False] exI [of _ bufs]) simp
  then show ?thesis by (intro exI [of _ ?s]) (simp add: app_buffers_def hload_def)
qed

lemma sample_session:
  assumes "\<forall>b \<in> set bufs. b \<noteq> []"
  shows "\<exists>s :: 'os sys. session 0 0 (concat bufs) False s \<and> os s = w \<and> app_buffers 0 s = []"
proof -
  have "stream_before_fin bufs = concat bufs" using assms by (simp add: stream_before_fin_def takeWhile_eq_all_conv [THEN iffD2])
  moreover have "([] \<in> set bufs) = False" using assms by auto
  ultimately show ?thesis using sample_stream [of bufs w] by simp
qed

theorem get_nvt_line_reads_line_witness:
  "\<exists>s s' :: nat sys. get_nvt_line 256 server_sites 0 (replicate 256 0) s = Done (Some (0, [97, 98] @ 0 # replicate 253 0)) s'
    \<and> session 0 0 [99] False s'"
proof -
  obtain s :: "nat sys" where "session 0 0 (concat [[97, 98, CR], [LF, 99]]) False s"
    using sample_session [of "[[97, 98, CR], [LF, 99]]" 6] by auto
  then have "session 0 0 ([97, 98] @ [CR, LF] @ [99]) False s \<and> length [97, 98 :: byte] < length (replicate 256 (0 :: byte))" by simp
  moreover have "crlf_free 0 [97, 98]" by simp
  ultimately obtain s' where s': "session 0 0 [99] False s'" "\<forall>n \<ge> length [97, 98 :: byte] + 2. get_nvt_line n server_sites 0 (replicate 256 0) s
      = Done (Some (0, [97, 98] @ 0 # drop (Suc (length [97, 98 :: byte])) (replicate 256 0))) s'"
    using get_nvt_line_reads_line [of "[97, 98]" 0 0 "[99]" False s "replicate 256 0" server_sites] by blast
  from s'(2) [rule_format, of 256] have "get_nvt_line 256 server_sites 0 (replicate 256 0) s
      = Done (Some (0, [97, 98] @ 0 # replicate 253 0)) s'" by (simp only: drop_replicate) simp
  with s'(1) show ?thesis by blast
qed

end
