(* ===== verification/File_Server.thy ===== *)
theory File_Server
  imports App_Lines
begin

text \<open>
  server.c: the options, the set-up of the listening socket, the loop over connections, the loop
  over the requests of a connection, and \<open>process_line\<close>, which answers a request with a status line and
  the contents of a file. Arrays the functions declare without initialising are arguments. What is
  printed on the terminal is left out; exit is an end of the process.
\<close>

section \<open>Files\<close>

text \<open>The calls on files beside read and close: success of access, the descriptor of open, the offset of lseek.\<close>

datatype whence = SEEK_SET | SEEK_END

record 'os files =
  fs_access :: "byte list \<Rightarrow> 'os \<Rightarrow> bool \<times> 'os"
  fs_open :: "byte list \<Rightarrow> 'os \<Rightarrow> int \<times> 'os"
  fs_lseek :: "int \<Rightarrow> int \<Rightarrow> whence \<Rightarrow> 'os \<Rightarrow> int \<times> 'os"

definition close_fd :: "'os env \<Rightarrow> int \<Rightarrow> ('os sys, unit) prog" where
  "close_fd E fd = modify (\<lambda>s. s\<lparr>os := os_close E fd (os s)\<rparr>)"

section \<open>One request\<close>

definition response_missing :: "byte list \<Rightarrow> byte list" where
  "response_missing name = name @ ascii '',-1,File does not exist or access denied'' @ [CR, LF]"

definition response_unopened :: "byte list \<Rightarrow> byte list" where
  "response_unopened name = name @ ascii '',-1,File could not be opened'' @ [CR, LF]"

definition response_ok :: "byte list \<Rightarrow> 64 word \<Rightarrow> byte list" where
  "response_ok name len = name @ ascii '','' @ decimal (unat len) @ ascii '',Ok'' @ [CR, LF]"

abbreviation (input) RESP_LEN :: nat where "RESP_LEN \<equiv> 5000"

text \<open>One round of the loop that copies the file; the array is used again and again.\<close>

definition send_chunk :: "'os env \<Rightarrow> int \<Rightarrow> int \<Rightarrow> byte list \<Rightarrow> ('os sys, (byte list + int) option) prog" where
  "send_chunk E sd fd resp =
     bind (syscall (os_read E fd RESP_LEN)) (\<lambda>(len, bs).
     let resp' = bs @ drop (length bs) resp in
     if len = 0 then ret (Some (Inr 0))
     else if len = -1 then ret (Some (Inr (-1)))
     else if len < 0 then abort (Out_of_bounds ''server.c'' 260)
     else bind (mywrite sd resp' (nat len)) (\<lambda>r.
          ret (Some (if negative_result r then Inr (-1) else Inl resp'))))"

definition process_line ::
    "nat \<Rightarrow> 'os files \<Rightarrow> 'os env \<Rightarrow> byte list \<Rightarrow> int \<Rightarrow> byte list \<Rightarrow> ('os sys, int option) prog" where
  "process_line n F E resp0 sd line =
     (let name = c_string line in
     bind (if name = [] then ret False else syscall (fs_access F name)) (\<lambda>readable.
     bind (if \<not> readable
           then bind (put_string (''server.c'', 219) resp0 (response_missing name)) (\<lambda>resp. ret (-1, resp))
           else bind (syscall (fs_open F name)) (\<lambda>fd.
             if fd < 0
             then bind (put_string (''server.c'', 225) resp0 (response_unopened name)) (\<lambda>resp. ret (fd, resp))
             else bind (syscall (fs_lseek F fd 0 SEEK_END)) (\<lambda>len.
                  bind (put_string (''server.c'', 229) resp0 (response_ok name (of_int len))) (\<lambda>resp.
                  bind (syscall (fs_lseek F fd 0 SEEK_SET)) (\<lambda>_.
                  ret (fd, resp)))))) (\<lambda>(fd, resp).
     bind (mywrite sd resp (length (c_string resp))) (\<lambda>r.
     if negative_result r
     then bind (if fd \<noteq> -1 then close_fd E fd else ret ()) (\<lambda>_. ret (Some (-1)))
     else if fd = -1 then ret (Some 0)
     else bind (iterate n (send_chunk E sd fd) resp) (\<lambda>x.
          case x of
            None \<Rightarrow> ret None
          | Some rc \<Rightarrow> bind (close_fd E fd) (\<lambda>_. ret (Some rc)))))))"

section \<open>Connections\<close>

definition request_round ::
    "nat \<Rightarrow> 'os files \<Rightarrow> 'os env \<Rightarrow> byte list \<Rightarrow> int \<Rightarrow> byte list \<Rightarrow> ('os sys, (byte list + unit) option) prog" where
  "request_round n F E resp0 sd line =
     bind (get_nvt_line n server_sites sd line) (\<lambda>x.
     case x of
       None \<Rightarrow> ret None
     | Some (rc, line') \<Rightarrow>
         if rc < 0 \<or> line' ! 0 = 0 then ret (Some (Inr ()))
         else bind (process_line n F E resp0 sd line') (\<lambda>y.
              ret (map_option (\<lambda>rc. if rc < 0 then Inr () else Inl line') y)))"

definition do_connection ::
    "nat \<Rightarrow> 'os files \<Rightarrow> 'os env \<Rightarrow> byte list \<Rightarrow> byte list \<Rightarrow> int \<Rightarrow> ('os sys, unit option) prog" where
  "do_connection n F E resp0 line0 sd =
     bind (iterate n (request_round n F E resp0 sd) line0) (\<lambda>z.
     case z of
       None \<Rightarrow> ret None
     | Some _ \<Rightarrow> bind (myclose E sd) (\<lambda>_. ret (Some ())))"

text \<open>name is an array of the caller.\<close>

definition local_name :: "'os env \<Rightarrow> int \<Rightarrow> byte list \<Rightarrow> ('os sys, byte list) prog" where
  "local_name E sd name =
     bind (mygetsockname E sd) (\<lambda>r.
     case r of
       Inl _ \<Rightarrow> abort (Assertion ''server.c'' 295)
     | Inr sin \<Rightarrow>
         bind (gets os) (\<lambda>w.
         bind (the_or (Assertion ''server.c'' 302) (os_gethostname E w)) (\<lambda>myhostname.
         put_string (''server.c'', 306) name
           (ascii myhostname @ ascii '':'' @ decimal (unat (ntohs (host_order E) (sin_port sin)))))))"

text \<open>The loop over the option characters getopt returns: whether the network is reliable, and the errors.\<close>

fun server_options :: "char list \<Rightarrow> bool \<times> nat \<Rightarrow> bool \<times> nat" where
  "server_options [] opts = opts"
| "server_options (opt # rest) (reliable, errflg) =
     server_options rest (if opt = CHR ''U'' then (False, errflg)
                          else if opt = CHR ''?'' then (reliable, Suc errflg)
                          else (reliable, errflg))"

definition server_setup :: "'os env \<Rightarrow> bool \<Rightarrow> byte list \<Rightarrow> ('os sys, int) prog" where
  "server_setup E reliable localname =
     bind (mysocket E reliable) (\<lambda>r.
     case r of
       Inl _ \<Rightarrow> abort (Exit ''server.c'' 71)
     | Inr bindsd \<Rightarrow>
         bind (mybind E bindsd (zero_sockaddr\<lparr>sa_family := AF_INET\<rparr>) (int sizeof_sockaddr)) (\<lambda>r.
         case r of
           Inl _ \<Rightarrow> abort (Exit ''server.c'' 83)
         | Inr _ \<Rightarrow>
             bind (mylisten E bindsd 5) (\<lambda>r.
             case r of
               Inl _ \<Rightarrow> abort (Exit ''server.c'' 89)
             | Inr _ \<Rightarrow> bind (local_name E bindsd localname) (\<lambda>_. ret bindsd))))"

text \<open>main: \<open>more\_args\<close> says whether arguments are left over after the options.\<close>

definition server_main ::
    "nat \<Rightarrow> 'os files \<Rightarrow> 'os env \<Rightarrow> char list \<Rightarrow> bool \<Rightarrow> byte list \<Rightarrow> byte list \<Rightarrow> byte list \<Rightarrow> ('os sys, unit option) prog" where
  "server_main n F E opts more_args localname line0 resp0 =
     (case server_options opts (True, 0) of (reliable, errflg) \<Rightarrow>
     if errflg \<noteq> 0 \<or> more_args then abort (Exit ''server.c'' 64)
     else
     bind (server_setup E reliable localname) (\<lambda>bindsd.
     iterate n (\<lambda>_.
       bind (myaccept bindsd) (\<lambda>r.
       case r of
         Inl _ \<Rightarrow> abort (Exit ''server.c'' 107)
       | Inr (sd, sin, len) \<Rightarrow>
           bind (assert_at ''server.c'' 110 (sa_family sin = AF_INET)) (\<lambda>_.
           bind (do_connection n F E resp0 line0 sd) (\<lambda>x.
           ret (map_option Inl x))))) ()))"

section \<open>What a request sends\<close>

text \<open>\<open>file_reads E fd w bs w'\<close>: the reads of an open file from \<open>w\<close> on return \<open>bs\<close> in pieces, each no longer
  than was asked for, and then its end.\<close>

inductive file_reads :: "'os env \<Rightarrow> int \<Rightarrow> 'os \<Rightarrow> byte list \<Rightarrow> 'os \<Rightarrow> bool" for E fd where
  at_end: "os_read E fd RESP_LEN w = ((0, []), w') \<Longrightarrow> file_reads E fd w [] w'"
| piece: "os_read E fd RESP_LEN w = ((int (length bs), bs), w1) \<Longrightarrow> bs \<noteq> [] \<Longrightarrow> length bs \<le> RESP_LEN \<Longrightarrow> file_reads E fd w1 rest w'
    \<Longrightarrow> file_reads E fd w (bs @ rest) w'"

lemma send_chunk_piece:
  assumes "session sd p st cl s" "os_read E fd RESP_LEN (os s) = ((int (length bs), bs), w1)" "bs \<noteq> []" "length bs \<le> RESP_LEN"
  shows "\<exists>s'. send_chunk E sd fd resp s = Done (Some (Inl (bs @ drop (length bs) resp))) s' \<and> session sd p st cl s'
    \<and> os s' = w1 \<and> app_buffers p s' = app_buffers p s @ [bs]"
proof -
  have "session sd p st cl (s\<lparr>os := w1\<rparr>)" using assms(1) by simp
  from mywrite_session [OF this, of "length bs" "bs @ drop (length bs) resp"] obtain s' where
    "mywrite sd (bs @ drop (length bs) resp) (length bs) (s\<lparr>os := w1\<rparr>) = Done (Inr (int (length bs))) s'" "session sd p st cl s'" "os s' = w1"
    "app_buffers p s' = app_buffers p s @ [bs]" using assms(4) by auto
  then show ?thesis using assms(2,3) by (intro exI [of _ s']) (simp add: send_chunk_def run_simps Let_def)
qed

lemma send_file_run:
  assumes "file_reads E fd w content w'"
  shows "session sd p st cl s \<Longrightarrow> os s = w \<Longrightarrow> \<exists>N s'. (\<forall>n \<ge> N. iterate n (send_chunk E sd fd) resp s = Done (Some 0) s')
    \<and> session sd p st cl s' \<and> os s' = w' \<and> concat (app_buffers p s') = concat (app_buffers p s) @ content"
  using assms
proof (induction arbitrary: s resp rule: file_reads.induct)
  case (at_end w w')
  have "iterate (Suc 0) (send_chunk E sd fd) resp s = Done (Some 0) (s\<lparr>os := w'\<rparr>)"
    using at_end by (simp add: send_chunk_def run_simps Let_def)
  then have "\<forall>n \<ge> 1. iterate n (send_chunk E sd fd) resp s = Done (Some 0) (s\<lparr>os := w'\<rparr>)"
    using iterate_more by (metis One_nat_def)
  then show ?case using at_end by (intro exI [of _ 1] exI [of _ "s\<lparr>os := w'\<rparr>"]) simp
next
  case (piece w bs w1 rest w')
  from send_chunk_piece [OF piece.prems(1), of E fd bs w1 resp] piece.hyps(1-3) piece.prems(2) obtain s1 where
    s1: "send_chunk E sd fd resp s = Done (Some (Inl (bs @ drop (length bs) resp))) s1" "session sd p st cl s1" "os s1 = w1"
    "app_buffers p s1 = app_buffers p s @ [bs]" by auto
  from piece.IH [OF s1(2,3), of "bs @ drop (length bs) resp"] obtain N s' where
    s': "\<forall>n \<ge> N. iterate n (send_chunk E sd fd) (bs @ drop (length bs) resp) s1 = Done (Some 0) s'" "session sd p st cl s'" "os s' = w'"
    "concat (app_buffers p s') = concat (app_buffers p s1) @ rest" by blast
  have "iterate n (send_chunk E sd fd) resp s = Done (Some 0) s'" if "n \<ge> Suc N" for n
    using that s1(1) s'(1) by (cases n) (simp_all add: run_simps)
  then show ?case using s' s1(4) by (intro exI [of _ "Suc N"] exI [of _ s']) simp
qed

lemma response_bytes:
  assumes "0 \<notin> set name" "length name \<le> 255"
  shows "0 \<notin> set (response_ok name len)" "length (response_ok name len) < RESP_LEN"
    "0 \<notin> set (response_missing name)" "length (response_missing name) < RESP_LEN"
    "0 \<notin> set (response_unopened name)" "length (response_unopened name) < RESP_LEN"
proof -
  have "unat len < 2 ^ 64" using unsigned_less [of len, where ?'a = nat] by simp
  then have "unat len < 10 ^ 20" by simp
  from decimal_length [OF this] have "length (decimal (unat len)) \<le> 20" by simp
  then show "length (response_ok name len) < RESP_LEN" using assms(2) by (simp add: response_ok_def)
  show "0 \<notin> set (response_ok name len)" using assms(1) decimal_nonzero(1) [of "unat len"] by (simp add: response_ok_def of_char_def)
  show "0 \<notin> set (response_missing name)" "length (response_missing name) < RESP_LEN"
    using assms by (simp_all add: response_missing_def of_char_def)
  show "0 \<notin> set (response_unopened name)" "length (response_unopened name) < RESP_LEN"
    using assms by (simp_all add: response_unopened_def of_char_def)
qed

text \<open>The write of a response from the array.\<close>

lemma respond:
  assumes "session sd p st cl s" "0 \<notin> set resp" "length resp < length resp0" "length resp < 2 ^ 31"
  shows "\<exists>s' buf. put_string at resp0 resp s = Done buf s \<and> length (c_string buf) = length resp
    \<and> mywrite sd buf (length resp) s = Done (Inr (int (length resp))) s'
    \<and> session sd p st cl s' \<and> os s' = os s \<and> concat (app_buffers p s') = concat (app_buffers p s) @ resp"
proof -
  let ?buf = "resp @ 0 # drop (Suc (length resp)) resp0"
  from mywrite_session [OF assms(1), of "length resp" ?buf] obtain s' where
    s': "mywrite sd ?buf (length resp) s = Done (Inr (int (length resp))) s'" "session sd p st cl s'" "os s' = os s"
    "app_buffers p s' = app_buffers p s @ [take (length resp) ?buf]" using assms(4) by auto
  then show ?thesis using assms(2,3) c_string_end [OF assms(2), of "drop (Suc (length resp)) resp0"]
    by (intro exI [of _ s'] exI [of _ ?buf]) (simp add: put_string_def run_simps)
qed

text \<open>A file that can be read: access, open, its length, and its contents from the beginning.\<close>

definition serves :: "'os files \<Rightarrow> 'os env \<Rightarrow> byte list \<Rightarrow> byte list \<Rightarrow> 'os \<Rightarrow> 'os \<Rightarrow> bool" where
  "serves F E name content w w' \<longleftrightarrow> (\<exists>fd w1 w2 w3 w4 w5 pos. fs_access F name w = (True, w1) \<and> fs_open F name w1 = (fd, w2)
     \<and> 0 \<le> fd \<and> fs_lseek F fd 0 SEEK_END w2 = (int (length content), w3) \<and> fs_lseek F fd 0 SEEK_SET w3 = (pos, w4)
     \<and> file_reads E fd w4 content w5 \<and> w' = os_close E fd w5)"

lemma process_file:
  assumes s: "session sd p st cl s" and nm: "name \<noteq> []" "c_string line = name" "length name \<le> 255" "length resp0 = RESP_LEN"
    and f: "serves F E name content (os s) w'"
  shows "\<exists>N s'. (\<forall>n \<ge> N. process_line n F E resp0 sd line s = Done (Some 0) s') \<and> session sd p st cl s' \<and> os s' = w'
    \<and> concat (app_buffers p s') = concat (app_buffers p s) @ response_ok name (of_nat (length content)) @ content"
proof -
  from f obtain fd w1 w2 w3 w4 w5 pos where
    w: "fs_access F name (os s) = (True, w1)" "fs_open F name w1 = (fd, w2)" "0 \<le> fd"
    "fs_lseek F fd 0 SEEK_END w2 = (int (length content), w3)" "fs_lseek F fd 0 SEEK_SET w3 = (pos, w4)"
    "file_reads E fd w4 content w5" "w' = os_close E fd w5" by (auto simp: serves_def)
  let ?r = "response_ok name (of_nat (length content))" let ?buf = "?r @ 0 # drop (Suc (length ?r)) resp0"
  have z: "0 \<notin> set name" using c_string_nonzero [of line] nm(2) by simp
  note rb = response_bytes(1,2) [OF z nm(3), of "of_nat (length content)"]
  have "session sd p st cl (s\<lparr>os := w4\<rparr>)" using s by simp
  from mywrite_session [OF this, of "length ?r" ?buf] obtain s1 where
    s1: "mywrite sd ?buf (length ?r) (s\<lparr>os := w4\<rparr>) = Done (Inr (int (length ?r))) s1" "session sd p st cl s1" "os s1 = w4"
    "app_buffers p s1 = app_buffers p s @ [?r]" using rb(2) by auto
  from send_file_run [OF w(6) s1(2,3), of ?buf] obtain N s2 where
    s2: "\<forall>n \<ge> N. iterate n (send_chunk E sd fd) ?buf s1 = Done (Some 0) s2" "session sd p st cl s2" "os s2 = w5"
    "concat (app_buffers p s2) = concat (app_buffers p s1) @ content" by blast
  have "process_line n F E resp0 sd line s = Done (Some 0) (s2\<lparr>os := w'\<rparr>)" if "n \<ge> N" for n
    using that nm rb s1(1) s2(1,3) w c_string_end [OF rb(1), of "drop (Suc (length ?r)) resp0"]
    by (simp add: process_line_def run_simps Let_def put_string_def close_fd_def)
  then show ?thesis using s2 s1(4) by (intro exI [of _ N] exI [of _ "s2\<lparr>os := w'\<rparr>"]) simp
qed

lemma process_missing:
  assumes "session sd p st cl s" "c_string line = name" "length name \<le> 255" "length resp0 = RESP_LEN"
    and a: "name = [] \<and> w1 = os s \<or> name \<noteq> [] \<and> fs_access F name (os s) = (False, w1)"
  shows "\<exists>s'. (\<forall>n. process_line n F E resp0 sd line s = Done (Some 0) s') \<and> session sd p st cl s' \<and> os s' = w1
    \<and> concat (app_buffers p s') = concat (app_buffers p s) @ response_missing name"
proof -
  have z: "0 \<notin> set name" using c_string_nonzero [of line] assms(2) by simp
  note rb = response_bytes [OF z assms(3)]
  have "session sd p st cl (s\<lparr>os := w1\<rparr>)" using assms(1) by simp
  from respond [OF this rb(3), of resp0 "(''server.c'', 219)"] rb(4) assms(4) obtain s' buf where
    r: "put_string (''server.c'', 219) resp0 (response_missing name) (s\<lparr>os := w1\<rparr>) = Done buf (s\<lparr>os := w1\<rparr>)"
    "length (c_string buf) = length (response_missing name)"
    "mywrite sd buf (length (response_missing name)) (s\<lparr>os := w1\<rparr>) = Done (Inr (int (length (response_missing name)))) s'"
    "session sd p st cl s'" "os s' = w1" "concat (app_buffers p s') = concat (app_buffers p s) @ response_missing name" by auto
  have "process_line n F E resp0 sd line s = Done (Some 0) s'" for n
    using a r(1-3) assms(2) by (auto simp: process_line_def run_simps Let_def)
  with r show ?thesis by blast
qed

lemma process_unopened:
  assumes "session sd p st cl s" "c_string line = name" "length name \<le> 255" "length resp0 = RESP_LEN"
    and a: "name \<noteq> []" "fs_access F name (os s) = (True, w1)" "fs_open F name w1 = (-1, w2)"
  shows "\<exists>s'. (\<forall>n. process_line n F E resp0 sd line s = Done (Some 0) s') \<and> session sd p st cl s' \<and> os s' = w2
    \<and> concat (app_buffers p s') = concat (app_buffers p s) @ response_unopened name"
proof -
  have z: "0 \<notin> set name" using c_string_nonzero [of line] assms(2) by simp
  note rb = response_bytes [OF z assms(3)]
  have "session sd p st cl (s\<lparr>os := w2\<rparr>)" using assms(1) by simp
  from respond [OF this rb(5), of resp0 "(''server.c'', 225)"] rb(6) assms(4) obtain s' buf where
    r: "put_string (''server.c'', 225) resp0 (response_unopened name) (s\<lparr>os := w2\<rparr>) = Done buf (s\<lparr>os := w2\<rparr>)"
    "length (c_string buf) = length (response_unopened name)"
    "mywrite sd buf (length (response_unopened name)) (s\<lparr>os := w2\<rparr>) = Done (Inr (int (length (response_unopened name)))) s'"
    "session sd p st cl s'" "os s' = w2" "concat (app_buffers p s') = concat (app_buffers p s) @ response_unopened name" by auto
  have "process_line n F E resp0 sd line s = Done (Some 0) s'" for n
    using a r(1-3) assms(2) by (auto simp: process_line_def run_simps Let_def)
  with r show ?thesis by blast
qed

text \<open>C25: The server answers every request with one status line. For a request whose name fits the
  server's line array, on an open mysocket: if the file can be read, \<open>process_line\<close> returns 0 after
  finitely many rounds and has written exactly the status line with its length and then its contents,
  however read cuts them, and has closed the file; if the name is empty or the file is not accessible, or
  cannot be opened, it returns 0 and has written exactly the corresponding status line with length -1.
  The 5000 bytes of the response array are always enough for the status line.\<close>

theorem server_answers_request:
  assumes "session sd p st cl s" "c_string line = name" "length name \<le> 255" "length resp0 = RESP_LEN"
  shows "(name \<noteq> [] \<and> serves F E name content (os s) w' \<longrightarrow>
      (\<exists>N s'. (\<forall>n \<ge> N. process_line n F E resp0 sd line s = Done (Some 0) s') \<and> session sd p st cl s' \<and> os s' = w'
        \<and> concat (app_buffers p s') = concat (app_buffers p s) @ response_ok name (of_nat (length content)) @ content))
    \<and> (name = [] \<and> w1 = os s \<or> name \<noteq> [] \<and> fs_access F name (os s) = (False, w1) \<longrightarrow>
      (\<exists>s'. (\<forall>n. process_line n F E resp0 sd line s = Done (Some 0) s') \<and> session sd p st cl s' \<and> os s' = w1
        \<and> concat (app_buffers p s') = concat (app_buffers p s) @ response_missing name))
    \<and> (name \<noteq> [] \<and> fs_access F name (os s) = (True, w1) \<and> fs_open F name w1 = (-1, w2) \<longrightarrow>
      (\<exists>s'. (\<forall>n. process_line n F E resp0 sd line s = Done (Some 0) s') \<and> session sd p st cl s' \<and> os s' = w2
        \<and> concat (app_buffers p s') = concat (app_buffers p s) @ response_unopened name))"
  by (intro conjI impI; (elim conjE)?; rule process_file [OF assms(1) _ assms(2-4)] process_missing [OF assms] process_unopened [OF assms])

text \<open>A file system for the witnesses: one file, whose contents are the state of the loop-back system.\<close>

definition one_file :: "byte list files" where
  "one_file = \<lparr>fs_access = (\<lambda>_ w. (True, w)), fs_open = (\<lambda>_ w. (3, w)),
     fs_lseek = (\<lambda>_ _ wh w. (case wh of SEEK_END \<Rightarrow> int (length w) | SEEK_SET \<Rightarrow> 0, w))\<rparr>"

lemma loop_file_reads: "file_reads loop_env fd w w []"
proof (induction w)
  case Nil
  show ?case by (rule at_end) (simp add: loop_env_def)
next
  case (Cons x w)
  then have "file_reads loop_env fd (x # w) ([x] @ w) []" by (intro piece) (simp_all add: loop_env_def)
  then show ?case by simp
qed

lemma one_file_serves: "serves one_file loop_env name w w []"
  unfolding serves_def using loop_file_reads [of 3 w] by (intro exI [of _ 3] exI [of _ w] exI [of _ "[]"] exI [of _ 0])
    (simp add: one_file_def loop_env_def)

theorem server_answers_request_witness:
  "\<exists>s N s'. (\<forall>n \<ge> N. process_line n one_file loop_env (replicate 5000 0) 0 [102, 0] s = Done (Some 0) s')
    \<and> concat (app_buffers 0 s') = response_ok [102] 2 @ [7, 8]"
proof -
  obtain s :: "byte list sys" where s: "session 0 0 [] False s" "os s = [7, 8]" "app_buffers 0 s = []"
    using sample_session [of "[]" "[7, 8]"] by auto
  have "c_string [102, 0] = [102]" "length [102 :: byte] \<le> 255" "length (replicate 5000 0 :: byte list) = 5000"
    by (simp_all add: c_string_def)
  from server_answers_request [OF s(1) this, of one_file loop_env "[7, 8]" "[]" "[]" "[]"] one_file_serves [of "[102]" "[7, 8]"] s
  obtain N s' where "\<forall>n \<ge> N. process_line n one_file loop_env (replicate 5000 0) 0 [102, 0] s = Done (Some 0) s'"
    "concat (app_buffers 0 s') = concat (app_buffers 0 s) @ response_ok [102] (of_nat (length [7, 8 :: byte])) @ [7, 8]" by auto
  with s(3) show ?thesis by auto
qed

end
