(* ===== verification/File_Client.thy ===== *)
theory File_Client
  imports File_Server
begin

text \<open>
  client.c: the options, \<open>parse_address\<close>, and \<open>loop_until_end\<close> with its parts: reading a request from
  the user or the command line, sending it, parsing the status line of the server, and storing the
  file. The variables that live across rounds of the loop are its local state: the array line, and
  length, which is not set before the first successful sscanf.
\<close>

section \<open>The user's side\<close>

text \<open>Streams of the C library, and the resolver. A write yields the count and errno.\<close>

record 'os stdio =
  std_fgets :: "nat \<Rightarrow> 'os \<Rightarrow> byte list option \<times> 'os"
  std_fopen :: "byte list \<Rightarrow> 'os \<Rightarrow> nat option \<times> 'os"
  std_fwrite :: "nat \<Rightarrow> byte list \<Rightarrow> 'os \<Rightarrow> (nat \<times> errno) \<times> 'os"
  std_fclose :: "nat \<Rightarrow> 'os \<Rightarrow> 'os"
  lib_inet_addr :: "byte list \<Rightarrow> 32 word"
  lib_gethostbyname :: "byte list \<Rightarrow> 'os \<Rightarrow> (16 word \<times> nat \<times> 32 word) option"

abbreviation (input) LINE_LEN :: nat where "LINE_LEN \<equiv> 1000"

section \<open>Requests\<close>

datatype request =
    Stop                     \<comment> \<open>end of input\<close>
  | Skip "byte list"         \<comment> \<open>the line is ignored\<close>
  | Ask "byte list" nat      \<comment> \<open>the array and the number of bytes to send\<close>

definition trim_right :: "byte list \<Rightarrow> byte list" where
  "trim_right str = rev (dropWhile isspace (rev str))"

text \<open>CR LF and the terminator after the first \<open>t\<close> characters.\<close>

definition terminate :: "byte list \<Rightarrow> nat \<Rightarrow> ('s, request) prog" where
  "terminate line t =
     bind (put_char (''client.c'', 168) line t CR) (\<lambda>line.
     bind (put_char (''client.c'', 169) line (Suc t) LF) (\<lambda>line.
     bind (put_char (''client.c'', 170) line (Suc (Suc t)) 0) (\<lambda>line.
     ret (Ask line (Suc (Suc t))))))"

definition client_request :: "'os stdio \<Rightarrow> byte list option \<Rightarrow> byte list \<Rightarrow> ('os sys, request) prog" where
  "client_request S filename line =
     (case filename of
        None \<Rightarrow>
          bind (syscall (std_fgets S LINE_LEN)) (\<lambda>g.
          case g of
            None \<Rightarrow> ret Stop
          | Some str \<Rightarrow>
              bind (put_string (''client.c'', 152) line str) (\<lambda>line.
              let t = length (trim_right (c_string line)) in
              if t \<le> 1 then ret (Skip line) else terminate line t))
      | Some name \<Rightarrow>
          bind (put_string (''client.c'', 165) line name) (\<lambda>line.
          terminate line (length (c_string line))))"

section \<open>Responses\<close>

text \<open>The two commas are overwritten; the value is the array and the string of the length.\<close>

definition parse_response :: "byte list \<Rightarrow> (byte list \<times> byte list) option" where
  "parse_response line =
     (case strrchr comma (c_string line) of
        None \<Rightarrow> None
      | Some i \<Rightarrow>
          let line1 = line[i := 0] in
          case strrchr comma (c_string line1) of
            None \<Rightarrow> None
          | Some j \<Rightarrow> let line2 = line1[j := 0] in Some (line2, c_string (drop (Suc j) line2)))"

text \<open>sscanf leaves the variable alone when there is no number; a number that no int holds is undefined.\<close>

definition scan_length :: "byte list \<Rightarrow> int option \<Rightarrow> ('s, int option) prog" where
  "scan_length lenstr len =
     (case scan_int lenstr of
        None \<Rightarrow> ret len
      | Some v \<Rightarrow> if - (2 ^ 31) \<le> v \<and> v < 2 ^ 31 then ret (Some v) else abort (Indeterminate ''client.c'' 207))"

text \<open>One round of the loop around fwrite: it ends with a write, or with an error other than EINTR.\<close>

definition write_round :: "'os stdio \<Rightarrow> nat \<Rightarrow> byte list \<Rightarrow> unit \<Rightarrow> ('os sys, (unit + unit) option) prog" where
  "write_round S file bs _ =
     bind (syscall (std_fwrite S file bs)) (\<lambda>(k, err).
     ret (Some (if k = 0 \<and> err = EINTR then Inl () else Inr ())))"

text \<open>
  One round of the loop that stores the file. A negative count is converted to size\_t for myread and
  fwrite.
\<close>

definition recv_chunk ::
    "nat \<Rightarrow> 'os stdio \<Rightarrow> bool \<Rightarrow> int \<Rightarrow> nat \<Rightarrow> byte list \<times> int \<Rightarrow> ('os sys, ((byte list \<times> int) + byte list \<times> int) option) prog" where
  "recv_chunk n S quiet sd file = (\<lambda>(line, remaining).
     if remaining = 0 then ret (Some (Inr (line, remaining)))
     else
     let to_read = min remaining (int LINE_LEN) in
     bind (myread sd (nat (to_read mod 2 ^ 64))) (\<lambda>r.
     case r of
       Inl _ \<Rightarrow> ret (Some (Inr (line, remaining)))
     | Inr (got, bs) \<Rightarrow>
         if length line < length bs then abort (Out_of_bounds ''client.c'' 231)
         else
         let line' = bs @ drop (length bs) line in
         if got \<le> 0 then ret (Some (Inr (line', remaining)))
         else
         let to_read' = (if got < to_read then got else to_read) in
         bind (if quiet then ret (Some ())
               else if to_read' < 0 then abort (Out_of_bounds ''client.c'' 250)
               else iterate n (write_round S file (take (nat to_read') line')) ()) (\<lambda>x.
         ret (map_option (\<lambda>_. Inl (line', remaining - to_read')) x))))"

definition close_file :: "'os stdio \<Rightarrow> nat \<Rightarrow> ('os sys, unit) prog" where
  "close_file S file = modify (\<lambda>s. s\<lparr>os := std_fclose S file (os s)\<rparr>)"

text \<open>The part of a round after the length is known.\<close>

definition receive_file ::
    "nat \<Rightarrow> 'os stdio \<Rightarrow> 'os env \<Rightarrow> byte list option \<Rightarrow> bool \<Rightarrow> int \<Rightarrow> byte list \<Rightarrow> int
      \<Rightarrow> ('os sys, ((byte list \<times> int option) + unit) option) prog" where
  "receive_file n S E filename quiet sd line len =
     (if len = -1
      then ret (Some (if filename = None then Inl (line, Some len) else Inr ()))
      else
      bind (syscall (std_fopen S (ascii ''rcvd''))) (\<lambda>f.
      case f of
        None \<Rightarrow> ret (Some (Inr ()))
      | Some file \<Rightarrow>
          bind (iterate n (recv_chunk n S quiet sd file) (line, len)) (\<lambda>x.
          case x of
            None \<Rightarrow> ret None
          | Some (line', remaining) \<Rightarrow>
              if remaining \<noteq> 0
              then bind (close_file S file) (\<lambda>_.
                   bind (myclose E sd) (\<lambda>_.
                   abort (Exit ''client.c'' 270)))
              else bind (close_file S file) (\<lambda>_.
                   ret (Some (if filename \<noteq> None then Inr () else Inl (line', Some remaining)))))))"

text \<open>The part of a round after the request is sent.\<close>

definition client_answer ::
    "nat \<Rightarrow> 'os stdio \<Rightarrow> 'os env \<Rightarrow> byte list option \<Rightarrow> bool \<Rightarrow> int \<Rightarrow> byte list \<Rightarrow> int option
      \<Rightarrow> ('os sys, ((byte list \<times> int option) + unit) option) prog" where
  "client_answer n S E filename quiet sd line len =
     bind (client_get_nvt_line n sd line) (\<lambda>x.
     case x of
       None \<Rightarrow> ret None
     | Some (rc, line) \<Rightarrow>
         if rc < 0 then ret (Some (Inr ()))
         else
         case parse_response line of
           None \<Rightarrow> ret (Some (Inr ()))
         | Some (line, lenstr) \<Rightarrow>
             bind (scan_length lenstr len) (\<lambda>len.
             bind (the_or (Indeterminate ''client.c'' 208) len) (\<lambda>v.
             receive_file n S E filename quiet sd line v)))"

definition client_round ::
    "nat \<Rightarrow> 'os stdio \<Rightarrow> 'os env \<Rightarrow> byte list option \<Rightarrow> bool \<Rightarrow> int \<Rightarrow> byte list \<times> int option
      \<Rightarrow> ('os sys, ((byte list \<times> int option) + unit) option) prog" where
  "client_round n S E filename quiet sd = (\<lambda>(line, len).
     bind (client_request S filename line) (\<lambda>q.
     case q of
       Stop \<Rightarrow> ret (Some (Inr ()))
     | Skip line \<Rightarrow> ret (Some (Inl (line, len)))
     | Ask line k \<Rightarrow>
         bind (mywrite sd line k) (\<lambda>r.
         if negative_result r then ret (Some (Inr ()))
         else client_answer n S E filename quiet sd line len)))"

definition loop_until_end ::
    "nat \<Rightarrow> 'os stdio \<Rightarrow> 'os env \<Rightarrow> byte list option \<Rightarrow> bool \<Rightarrow> byte list \<Rightarrow> int \<Rightarrow> ('os sys, unit option) prog" where
  "loop_until_end n S E filename quiet line0 sd = iterate n (client_round n S E filename quiet sd) (line0, None)"

section \<open>Addresses, options, main\<close>

definition parse_address :: "'os stdio \<Rightarrow> 'os env \<Rightarrow> byte list \<Rightarrow> ('os sys, errno + sockaddr) prog" where
  "parse_address S E address =
     bind (case strchr 58 address of
             None \<Rightarrow> ret (Inr (0, address))
           | Some i \<Rightarrow>
               (case scan_int (drop (Suc i) address) of
                  None \<Rightarrow> ret (Inl EINVAL)
                | Some v \<Rightarrow> if - (2 ^ 32) < v \<and> v < 2 ^ 32
                    then ret (Inr (htons (host_order E) (of_int v), take i address))
                    else abort (Indeterminate ''client.c'' 306))) (\<lambda>x.
     case x of
       Inl e \<Rightarrow> ret (Inl e)
     | Inr (port, host) \<Rightarrow>
         let sin = zero_sockaddr\<lparr>sa_family := AF_INET, sin_port := port\<rparr>; a = lib_inet_addr S host in
         if a \<noteq> -1 then ret (Inr (sin\<lparr>sin_addr := a\<rparr>))
         else
         bind (gets os) (\<lambda>w.
         ret (case lib_gethostbyname S host w of
                None \<Rightarrow> Inl EADDRNOTAVAIL
              | Some (h_addrtype, h_length, h_addr) \<Rightarrow>
                  if h_addrtype \<noteq> AF_INET \<or> h_length \<noteq> 4 then Inl EADDRNOTAVAIL
                  else Inr (sin\<lparr>sin_addr := h_addr\<rparr>))))"

record client_opts =
  opt_filename :: "byte list option"
  opt_quiet :: nat
  opt_reliable :: bool
  opt_errflg :: nat

text \<open>The loop over the options getopt returns, with their arguments.\<close>

fun client_options :: "(char \<times> byte list) list \<Rightarrow> client_opts \<Rightarrow> client_opts" where
  "client_options [] co = co"
| "client_options ((opt, optarg) # rest) co =
     client_options rest
       (if opt = CHR ''f'' then co\<lparr>opt_filename := Some optarg\<rparr>
        else if opt = CHR ''q'' then co\<lparr>opt_quiet := Suc (opt_quiet co)\<rparr>
        else if opt = CHR ''U'' then co\<lparr>opt_reliable := False\<rparr>
        else if opt = CHR ''?'' then co\<lparr>opt_errflg := Suc (opt_errflg co)\<rparr>
        else co)"

text \<open>main: the descriptor is overwritten with the value of myconnect.\<close>

definition client_main ::
    "nat \<Rightarrow> 'os stdio \<Rightarrow> 'os env \<Rightarrow> (char \<times> byte list) list \<Rightarrow> byte list list \<Rightarrow> byte list \<Rightarrow> ('os sys, unit option) prog" where
  "client_main n S E opts args line0 =
     (let co = client_options opts \<lparr>opt_filename = None, opt_quiet = 0, opt_reliable = True, opt_errflg = 0\<rparr> in
      if opt_errflg co \<noteq> 0 \<or> length args \<noteq> 1 then abort (Exit ''client.c'' 87)
      else
      bind (parse_address S E (args ! 0)) (\<lambda>x.
      case x of
        Inl _ \<Rightarrow> abort (Exit ''client.c'' 95)
      | Inr sin \<Rightarrow>
          if sin_port sin = 0 then abort (Exit ''client.c'' 101)
          else
          bind (mysocket E (opt_reliable co)) (\<lambda>r.
          case r of
            Inl _ \<Rightarrow> abort (Exit ''client.c'' 107)
          | Inr sd \<Rightarrow>
              bind (myconnect E sd sin sizeof_sockaddr) (\<lambda>r.
              case r of
                Inl _ \<Rightarrow> abort (Exit ''client.c'' 114)
              | Inr sd \<Rightarrow>
                  bind (loop_until_end n S E (opt_filename co) (opt_quiet co \<noteq> 0) line0 sd) (\<lambda>y.
                  case y of
                    None \<Rightarrow> ret None
                  | Some _ \<Rightarrow> bind (myclose E sd) (\<lambda>_. ret (Some ())))))))"

section \<open>The status line\<close>

lemma parse_response_fields:
  assumes "0 \<notin> set name" "0 \<notin> set d" "0 \<notin> set r" "comma \<notin> set d" "comma \<notin> set r"
  shows "parse_response ((name @ comma # d @ comma # r) @ 0 # tl0) = Some (name @ 0 # d @ 0 # r @ 0 # tl0, d)"
proof -
  let ?str = "name @ comma # d @ comma # r"
  have c: "c_string (?str @ 0 # tl0) = ?str" using assms by (intro c_string_end) auto
  have i: "strrchr comma ?str = Some (length name + Suc (length d))"
    using strrchr_last [OF assms(5), of "name @ comma # d"] by simp
  have l1: "(?str @ 0 # tl0)[length name + Suc (length d) := 0] = (name @ comma # d) @ 0 # r @ 0 # tl0"
    by (simp add: list_update_append)
  have c1: "c_string ((name @ comma # d) @ 0 # r @ 0 # tl0) = name @ comma # d" using assms by (intro c_string_end) auto
  have j: "strrchr comma (name @ comma # d) = Some (length name)" by (rule strrchr_last [OF assms(4)])
  have l2: "((name @ comma # d) @ 0 # r @ 0 # tl0)[length name := 0] = name @ 0 # d @ 0 # r @ 0 # tl0"
    by (simp add: list_update_append)
  have d: "c_string (drop (Suc (length name)) (name @ 0 # d @ 0 # r @ 0 # tl0)) = d"
    using c_string_end [OF assms(2)] by simp
  show ?thesis unfolding parse_response_def c i option.case Let_def l1 c1 j l2 d ..
qed

definition ok_line :: "byte list \<Rightarrow> 64 word \<Rightarrow> byte list" where
  "ok_line name len = name @ comma # decimal (unat len) @ comma # ascii ''Ok''"

lemma response_ok_line: "response_ok name len = ok_line name len @ [CR, LF]"
  by (simp add: response_ok_def ok_line_def of_char_def)

lemma parse_ok_line:
  assumes "0 \<notin> set name"
  shows "\<exists>line. parse_response (ok_line name len @ 0 # tl0) = Some (line, decimal (unat len))
    \<and> length line = length (ok_line name len @ 0 # tl0)"
  using parse_response_fields [OF assms decimal_nonzero(1) _ decimal_nonzero(2), of "ascii ''Ok''" "unat len" tl0]
  unfolding ok_line_def by (auto simp: of_char_def)

lemma scan_length_decimal:
  "scan_length (decimal n) v s = (if n < 2 ^ 31 then Done (Some (int n)) s else Abort (Indeterminate ''client.c'' 207))"
  using scan_decimal [of "[]" n] by (simp add: scan_length_def run_simps)

text \<open>C27: The client understands what the server says. For every file name, commas in it included, the
  status lines of server.c without their CR LF, read into an array, are parsed by client.c: the two error
  lines give the length -1, and the line of a file gives exactly its length when that is less than \<open>2 ^ 31\<close>; for a
  longer file the number does not fit the int that sscanf stores into, which is undefined.\<close>

theorem status_line_round_trip:
  assumes "0 \<notin> set name"
  shows "(\<exists>xs line lenstr. response_ok name len = xs @ [CR, LF] \<and> parse_response (xs @ 0 # tl0) = Some (line, lenstr)
      \<and> (\<forall>v (s :: 's). scan_length lenstr v s =
           (if unat len < 2 ^ 31 then Done (Some (int (unat len))) s else Abort (Indeterminate ''client.c'' 207))))
    \<and> (\<exists>xs line lenstr. response_missing name = xs @ [CR, LF] \<and> parse_response (xs @ 0 # tl0) = Some (line, lenstr)
      \<and> (\<forall>v (s :: 's). scan_length lenstr v s = Done (Some (-1)) s))
    \<and> (\<exists>xs line lenstr. response_unopened name = xs @ [CR, LF] \<and> parse_response (xs @ 0 # tl0) = Some (line, lenstr)
      \<and> (\<forall>v (s :: 's). scan_length lenstr v s = Done (Some (-1)) s))"
proof (intro conjI)
  have "scan_length (decimal (unat len)) v s =
      (if unat len < 2 ^ 31 then Done (Some (int (unat len))) s else Abort (Indeterminate ''client.c'' 207))" for v and s :: 's
    by (rule scan_length_decimal)
  with parse_ok_line [OF assms, of len tl0] response_ok_line [of name len]
  show "\<exists>xs line lenstr. response_ok name len = xs @ [CR, LF] \<and> parse_response (xs @ 0 # tl0) = Some (line, lenstr)
      \<and> (\<forall>v (s :: 's). scan_length lenstr v s =
           (if unat len < 2 ^ 31 then Done (Some (int (unat len))) s else Abort (Indeterminate ''client.c'' 207)))" by blast
  have "scan_int (ascii ''-1'') = Some (-1)"
    by (simp add: scan_int_def Let_def isspace_def isdigit_def digits_value_def of_char_def)
  then have m1: "scan_length (ascii ''-1'') v s = Done (Some (-1)) s" for v and s :: 's by (simp add: scan_length_def run_simps)
  have err: "\<exists>xs line lenstr. name @ comma # ascii ''-1'' @ comma # r @ [CR, LF] = xs @ [CR, LF]
      \<and> parse_response (xs @ 0 # tl0) = Some (line, lenstr) \<and> (\<forall>v (s :: 's). scan_length lenstr v s = Done (Some (-1)) s)"
    if "0 \<notin> set r" "comma \<notin> set r" for r
    using parse_response_fields [OF assms _ that(1) _ that(2), of "ascii ''-1''" tl0] m1
    by (intro exI [of _ "name @ comma # ascii ''-1'' @ comma # r"] exI [of _ "name @ 0 # ascii ''-1'' @ 0 # r @ 0 # tl0"]
        exI [of _ "ascii ''-1''"]) (simp add: of_char_def)
  show "\<exists>xs line lenstr. response_missing name = xs @ [CR, LF] \<and> parse_response (xs @ 0 # tl0) = Some (line, lenstr)
      \<and> (\<forall>v (s :: 's). scan_length lenstr v s = Done (Some (-1)) s)"
    using err [of "ascii ''File does not exist or access denied''"] by (simp add: response_missing_def of_char_def)
  show "\<exists>xs line lenstr. response_unopened name = xs @ [CR, LF] \<and> parse_response (xs @ 0 # tl0) = Some (line, lenstr)
      \<and> (\<forall>v (s :: 's). scan_length lenstr v s = Done (Some (-1)) s)"
    using err [of "ascii ''File could not be opened''"] by (simp add: response_unopened_def of_char_def)
qed

theorem status_line_round_trip_witness:
  "\<exists>xs line lenstr. response_ok (ascii ''a,b'') 42 = xs @ [CR, LF] \<and> parse_response (xs @ [0, 7]) = Some (line, lenstr)
    \<and> scan_length lenstr None (0 :: nat) = Done (Some 42) 0"
proof -
  have "0 \<notin> set (ascii ''a,b'')" by (simp add: of_char_def)
  from status_line_round_trip [where ?'s = nat, OF this, of 42 "[7]"] show ?thesis by fastforce
qed

section \<open>Storing the file\<close>

text \<open>A file that takes what is written to it; \<open>rcvd\<close> is what it holds.\<close>

definition stores :: "'os stdio \<Rightarrow> ('os \<Rightarrow> byte list) \<Rightarrow> bool" where
  "stores S rcvd \<longleftrightarrow> (\<forall>name w. \<exists>f w'. std_fopen S name w = (Some f, w') \<and> rcvd w' = [])
     \<and> (\<forall>f bs w. bs \<noteq> [] \<longrightarrow> (\<exists>e w'. std_fwrite S f bs w = ((length bs, e), w') \<and> rcvd w' = rcvd w @ bs))
     \<and> (\<forall>f w. rcvd (std_fclose S f w) = rcvd w)"

lemma recv_chunk_data:
  assumes "stores S rcvd" "session sd p st cl s" "st \<noteq> []" "0 < r" "length line = LINE_LEN"
  shows "\<exists>k line' s'. 0 < k \<and> k \<le> r \<and> k \<le> length st \<and> length line' = LINE_LEN
    \<and> (\<forall>n. recv_chunk (Suc n) S False sd fh (line, int r) s = Done (Some (Inl (line', int (r - k)))) s')
    \<and> session sd p (drop k st) cl s' \<and> app_buffers p s' = app_buffers p s \<and> rcvd (os s') = rcvd (os s) @ take k st"
proof -
  let ?r = "min r LINE_LEN"
  have "0 < ?r" "?r < 2 ^ 31" using assms(4) by simp_all
  from ms.read_data [OF assms(2,3) this] obtain k s1 where
    k: "0 < k" "k \<le> ?r" "k \<le> length st" "myread sd ?r s = Done (Inr (int k, take k st)) s1" "session sd p (drop k st) cl s1"
    "os s1 = os s" "app_buffers p s1 = app_buffers p s" by auto
  have "take k st \<noteq> []" using k(1) assms(3) by simp
  with assms(1) obtain e w' where w: "std_fwrite S fh (take k st) (os s1) = ((length (take k st), e), w')"
    "rcvd w' = rcvd (os s1) @ take k st" unfolding stores_def by metis
  have m: "nat (min (int r) 1000 mod 18446744073709551616) = ?r"
    by (simp add: min_def nat_mod_distrib)
  let ?line = "take k st @ drop k line"
  have "(if int k < min (int r) 1000 then int k else min (int r) 1000) = int k"
    using k(2) by auto
  then have "recv_chunk (Suc n) S False sd fh (line, int r) s
      = Done (Some (Inl (?line, int (r - k)))) (s1\<lparr>os := w'\<rparr>)" for n
    using k(1-4) w(1) m assms(4,5) by (simp add: recv_chunk_def run_simps Let_def write_round_def of_nat_diff)
  then show ?thesis using k w assms(5)
    by (intro exI [of _ k] exI [of _ ?line] exI [of _ "s1\<lparr>os := w'\<rparr>"]) auto
qed

lemma recv_chunk_round:
  assumes "stores S rcvd" "session sd p (content @ rest) cl s" "content \<noteq> []" "length line = LINE_LEN"
  shows "\<exists>k line' s'. 0 < k \<and> k \<le> length content \<and> length line' = LINE_LEN
    \<and> (\<forall>n. recv_chunk (Suc n) S False sd fh (line, int (length content)) s = Done (Some (Inl (line', int (length (drop k content))))) s')
    \<and> session sd p (drop k content @ rest) cl s' \<and> app_buffers p s' = app_buffers p s \<and> rcvd (os s') = rcvd (os s) @ take k content"
  using recv_chunk_data [OF assms(1,2) _ _ assms(4), of "length content" fh] assms(3) by fastforce

text \<open>The stream ends before the announced length is reached.\<close>

lemma recv_cut_run:
  assumes "stores S rcvd"
  shows "session sd p part True s \<Longrightarrow> length line = LINE_LEN \<Longrightarrow> length part < r
    \<Longrightarrow> \<exists>line' s'. (\<forall>m n. length part < m \<longrightarrow> 0 < n \<longrightarrow>
        iterate m (recv_chunk n S False sd fh) (line, int r) s = Done (Some (line', int (r - length part))) s')
      \<and> session sd p [] True s' \<and> rcvd (os s') = rcvd (os s) @ part"
proof (induction "length part" arbitrary: part s line r rule: less_induct)
  case less
  show ?case
  proof (cases "part = []")
    case True
    from ms.read_end [of sd p s "min r 1000"] less.prems(1) True obtain s' where
      s': "myread sd (min r 1000) s = Done (Inr (0, [])) s'" "session sd p [] True s'" "os s' = os s" by force
    have m: "nat (min (int r) 1000 mod 18446744073709551616) = min r 1000" by (simp add: min_def nat_mod_distrib)
    have "iterate m (recv_chunk n S False sd fh) (line, int r) s = Done (Some (line, int r)) s'" if "0 < m" for m n
      using that s'(1) m less.prems(3) by (cases m) (simp_all add: recv_chunk_def run_simps Let_def)
    with True s' show ?thesis by (intro exI [of _ line] exI [of _ s']) simp
  next
    case False
    have "0 < r" using less.prems(3) by simp
    from recv_chunk_data [where fh = fh, OF assms less.prems(1) False this less.prems(2)] obtain k line1 s1 where
      k: "0 < k" "k \<le> length part" "length line1 = LINE_LEN"
      "\<forall>n. recv_chunk (Suc n) S False sd fh (line, int r) s = Done (Some (Inl (line1, int (r - k)))) s1"
      "session sd p (drop k part) True s1" "rcvd (os s1) = rcvd (os s) @ take k part" by blast
    have l: "length (drop k part) < length part" "length (drop k part) < r - k" "r - k - length (drop k part) = r - length part"
      using k(1,2) False less.prems(3) by simp_all
    from less.hyps [OF l(1) k(5,3) l(2)] l(3) obtain line' s' where
      s': "\<forall>m n. length (drop k part) < m \<longrightarrow> 0 < n \<longrightarrow>
        iterate m (recv_chunk n S False sd fh) (line1, int (r - k)) s1 = Done (Some (line', int (r - length part))) s'"
      "session sd p [] True s'" "rcvd (os s') = rcvd (os s1) @ drop k part" by auto
    have "iterate m (recv_chunk n S False sd fh) (line, int r) s = Done (Some (line', int (r - length part))) s'"
      if "length part < m" "0 < n" for m n
    proof -
      from that obtain m' n' where mn: "m = Suc m'" "n = Suc n'" by (cases m; cases n) auto
      have "length (drop k part) < m'" using that(1) k(1,2) mn(1) by simp
      with s'(1) k(4) mn show ?thesis by (simp add: run_simps)
    qed
    then show ?thesis using s'(2,3) k(6) by (intro exI [of _ line'] exI [of _ s']) (simp del: iterate.simps)
  qed
qed

lemma recv_file_run:
  assumes "stores S rcvd"
  shows "session sd p (content @ rest) cl s \<Longrightarrow> length line = LINE_LEN
    \<Longrightarrow> \<exists>line' s'. (\<forall>m n. length content < m \<longrightarrow> 0 < n \<longrightarrow>
        iterate m (recv_chunk n S False sd fh) (line, int (length content)) s = Done (Some (line', 0)) s')
      \<and> session sd p rest cl s' \<and> app_buffers p s' = app_buffers p s \<and> rcvd (os s') = rcvd (os s) @ content \<and> length line' = LINE_LEN"
proof (induction "length content" arbitrary: content s line rule: less_induct)
  case less
  show ?case
  proof (cases "content = []")
    case True
    have "iterate m (recv_chunk n S False sd fh) (line, 0) s = Done (Some (line, 0)) s" if "0 < m" for m n
      using that by (cases m) (simp_all add: recv_chunk_def run_simps)
    with True less.prems show ?thesis by (intro exI [of _ line] exI [of _ s]) simp
  next
    case False
    from recv_chunk_round [where fh = fh, OF assms less.prems(1) False less.prems(2)] obtain k line1 s1 where
      k: "0 < k" "k \<le> length content" "length line1 = LINE_LEN"
      "\<forall>n. recv_chunk (Suc n) S False sd fh (line, int (length content)) s = Done (Some (Inl (line1, int (length (drop k content))))) s1"
      "session sd p (drop k content @ rest) cl s1" "app_buffers p s1 = app_buffers p s" "rcvd (os s1) = rcvd (os s) @ take k content" by blast
    have "length (drop k content) < length content" using k(1) False by simp
    from less.hyps [OF this k(5,3)] obtain line' s' where
      s': "\<forall>m n. length (drop k content) < m \<longrightarrow> 0 < n \<longrightarrow>
        iterate m (recv_chunk n S False sd fh) (line1, int (length (drop k content))) s1 = Done (Some (line', 0)) s'"
      "session sd p rest cl s'" "app_buffers p s' = app_buffers p s1" "rcvd (os s') = rcvd (os s1) @ drop k content" "length line' = LINE_LEN" by blast
    have "iterate m (recv_chunk n S False sd fh) (line, int (length content)) s = Done (Some (line', 0)) s'"
      if "length content < m" "0 < n" for m n
    proof -
      from that obtain m' n' where mn: "m = Suc m'" "n = Suc n'" by (cases m; cases n) auto
      have "length (drop k content) < m'" using that(1) k(1,2) mn(1) by simp
      with s'(1) k(4) mn show ?thesis by (simp add: run_simps)
    qed
    then show ?thesis using s'(2-5) k(6,7) by (intro exI [of _ line'] exI [of _ s']) (simp del: iterate.simps)
  qed
qed

lemma receive_file_run:
  assumes "stores S rcvd" "session sd p (content @ rest) cl s" "length line = LINE_LEN"
  shows "\<exists>line' s'. (\<forall>n. length content < n \<longrightarrow> receive_file n S E filename False sd line (int (length content)) s
        = Done (Some (if filename \<noteq> None then Inr () else Inl (line', Some 0))) s')
    \<and> session sd p rest cl s' \<and> app_buffers p s' = app_buffers p s \<and> rcvd (os s') = content"
proof -
  from assms(1) obtain f w where w: "std_fopen S (ascii ''rcvd'') (os s) = (Some f, w)" "rcvd w = []" unfolding stores_def by metis
  have "session sd p (content @ rest) cl (s\<lparr>os := w\<rparr>)" using assms(2) by simp
  from recv_file_run [OF assms(1) this assms(3), of f] obtain line' s' where
    s': "\<forall>m n. length content < m \<longrightarrow> 0 < n \<longrightarrow>
        iterate m (recv_chunk n S False sd f) (line, int (length content)) (s\<lparr>os := w\<rparr>) = Done (Some (line', 0)) s'"
    "session sd p rest cl s'" "app_buffers p s' = app_buffers p s" "rcvd (os s') = content" using w(2) by auto
  let ?s = "s'\<lparr>os := std_fclose S f (os s')\<rparr>"
  have "receive_file n S E filename False sd line (int (length content)) s
        = Done (Some (if filename \<noteq> None then Inr () else Inl (line', Some 0))) ?s" if "length content < n" for n
    using w(1) s'(1) that by (simp add: receive_file_def close_file_def run_simps)
  moreover have "rcvd (os ?s) = content" using s'(4) assms(1) by (simp add: stores_def)
  ultimately show ?thesis using s'(2,3) by (intro exI [of _ line'] exI [of _ ?s]) simp
qed

lemma ok_line_fits:
  assumes "0 \<notin> set name" "crlf_free 0 name" "length name \<le> 255"
  shows "crlf_free 0 (ok_line name len)" "length (ok_line name len) < LINE_LEN"
proof -
  have "LF \<notin> set (decimal (unat len))" using decimal_digits [of "unat len"] by (auto simp: isdigit_def)
  then have "crlf_free (last (0 # name)) (comma # decimal (unat len) @ comma # ascii ''Ok'')"
    by (intro crlf_free_no_LF) (simp add: of_char_def)
  then show "crlf_free 0 (ok_line name len)" unfolding ok_line_def crlf_free_append using assms(2) by simp
  have "unat len < 2 ^ 64" using unsigned_less [of len, where ?'a = nat] by simp
  then have "unat len < 10 ^ 20" by simp
  from decimal_length [OF this] assms(3) show "length (ok_line name len) < LINE_LEN" by (simp add: ok_line_def)
qed

lemma client_answer_status:
  assumes s: "session sd p (response_ok name (of_nat len) @ st) cl s"
    and nm: "0 \<notin> set name" "crlf_free 0 name" "length name \<le> 255" and len: "len < 2 ^ 31" "length line = LINE_LEN"
  shows "\<exists>N line' s'. (\<forall>n \<ge> N. client_answer n S E filename quiet sd line v s = receive_file n S E filename quiet sd line' (int len) s')
    \<and> length line' = LINE_LEN \<and> session sd p st cl s' \<and> os s' = os s \<and> app_buffers p s' = app_buffers p s"
proof -
  let ?len = "of_nat len :: 64 word" let ?xs = "ok_line name ?len"
  let ?line = "?xs @ 0 # drop (Suc (length ?xs)) line"
  have "session sd p (?xs @ [CR, LF] @ st) cl s" using s by (simp add: response_ok_line)
  from get_nvt_line_run [OF this ok_line_fits(1) [OF nm], of line client_sites] ok_line_fits(2) [OF nm, of ?len] len(2) obtain s1 where
    s1: "\<forall>n \<ge> length ?xs + 2. get_nvt_line n client_sites sd line s = Done (Some (0, ?line)) s1"
    "session sd p st cl s1" "os s1 = os s" "app_buffers p s1 = app_buffers p s" by auto
  from parse_ok_line [OF nm(1), of ?len "drop (Suc (length ?xs)) line"] ok_line_fits(2) [OF nm, of ?len] len(2) obtain line2 where
    l2: "parse_response ?line = Some (line2, decimal (unat ?len))" "length line2 = LINE_LEN" by auto
  have u: "unat ?len = len" using len(1) by (simp add: unat_of_nat take_bit_eq_mod)
  have sc: "scan_length (decimal len) v s1 = Done (Some (int len)) s1"
    using scan_decimal [of "[]" len] len(1) by (simp add: scan_length_def run_simps)
  have "client_answer n S E filename quiet sd line v s = receive_file n S E filename quiet sd line2 (int len) s1"
    if "n \<ge> length ?xs + 2" for n
    using s1(1) l2(1) sc u that by (simp add: client_answer_def client_get_nvt_line_def run_simps)
  then show ?thesis using l2(2) s1 by (intro exI [of _ "length ?xs + 2"] exI [of _ line2] exI [of _ s1]) simp
qed

lemma client_answer_run:
  assumes S: "stores S rcvd" and s: "session sd p (response_ok name (of_nat (length content)) @ content @ rest) cl s"
    and nm: "0 \<notin> set name" "crlf_free 0 name" "length name \<le> 255" and len: "length content < 2 ^ 31" "length line = LINE_LEN"
  shows "\<exists>N line' s'. (\<forall>n \<ge> N. client_answer n S E filename False sd line v s
        = Done (Some (if filename \<noteq> None then Inr () else Inl (line', Some 0))) s')
    \<and> session sd p rest cl s' \<and> app_buffers p s' = app_buffers p s \<and> rcvd (os s') = content"
proof -
  from client_answer_status [OF s nm len, of S E filename False v] obtain N line2 s1 where
    s1: "\<forall>n \<ge> N. client_answer n S E filename False sd line v s = receive_file n S E filename False sd line2 (int (length content)) s1"
    "length line2 = LINE_LEN" "session sd p (content @ rest) cl s1" "app_buffers p s1 = app_buffers p s" by blast
  from receive_file_run [OF S s1(3,2), of E filename] obtain line' s' where
    s': "\<forall>n. length content < n \<longrightarrow> receive_file n S E filename False sd line2 (int (length content)) s1
        = Done (Some (if filename \<noteq> None then Inr () else Inl (line', Some 0))) s'"
    "session sd p rest cl s'" "app_buffers p s' = app_buffers p s1" "rcvd (os s') = content" by blast
  have "client_answer n S E filename False sd line v s = Done (Some (if filename \<noteq> None then Inr () else Inl (line', Some 0))) s'"
    if "n \<ge> max N (Suc (length content))" for n
    using s1(1) s'(1) that by simp
  then show ?thesis using s' s1(4) by (intro exI [of _ "max N (Suc (length content))"] exI [of _ line'] exI [of _ s']) simp
qed


section \<open>Sending the request\<close>

lemma terminate_run:
  "t + 2 < length line \<Longrightarrow> terminate line t s = Done (Ask (take t line @ [CR, LF, 0] @ drop (t + 3) line) (t + 2)) s"
  "length line \<le> t + 2 \<Longrightarrow> \<exists>l. terminate line t s = Abort (Out_of_bounds ''client.c'' l)"
proof -
  assume t: "t + 2 < length line"
  have "line[t := CR, Suc t := LF, Suc (Suc t) := 0] = take t line @ [CR, LF, 0] @ drop (t + 3) line"
    using t by (intro nth_equalityI) (auto simp: nth_list_update nth_append nth_Cons' numeral_3_eq_3 intro!: arg_cong [where f = "nth line"])
  then show "terminate line t s = Done (Ask (take t line @ [CR, LF, 0] @ drop (t + 3) line) (t + 2)) s"
    using t by (simp add: terminate_def put_char_def run_simps)
next
  assume "length line \<le> t + 2"
  then show "\<exists>l. terminate line t s = Abort (Out_of_bounds ''client.c'' l)"
    by (auto simp: terminate_def put_char_def run_simps)
qed

text \<open>The first characters of an array, terminated and sent.\<close>

lemma ask_run:
  assumes "session sd p st cl s" "take t line = name" "t + 2 < length line" "t + 2 < 2 ^ 31"
  shows "\<exists>line1 s1. terminate line t s = Done (Ask line1 (t + 2)) s \<and> length line1 = length line
    \<and> mywrite sd line1 (t + 2) s = Done (Inr (int (t + 2))) s1 \<and> session sd p st cl s1 \<and> os s1 = os s
    \<and> app_buffers p s1 = app_buffers p s @ [name @ [CR, LF]]"
proof -
  let ?line = "name @ [CR, LF, 0] @ drop (t + 3) line"
  have n: "length name = t" using assms(2,3) by auto
  from mywrite_session [OF assms(1), of "t + 2" ?line] n obtain s1 where
    s1: "mywrite sd ?line (t + 2) s = Done (Inr (int (t + 2))) s1" "session sd p st cl s1" "os s1 = os s"
    "app_buffers p s1 = app_buffers p s @ [name @ [CR, LF]]" using assms(4) by auto
  have "terminate line t s = Done (Ask ?line (t + 2)) s" using terminate_run(1) [OF assms(3), of s] assms(2) by simp
  moreover have "length ?line = length line" using assms(3) n by simp
  ultimately show ?thesis using s1 by blast
qed

lemma request_sent:
  assumes "session sd p st cl s" "0 \<notin> set name" "length name + 2 < length line" "length name + 2 < 2 ^ 31"
  shows "\<exists>line1 s1. client_request S (Some name) line s = Done (Ask line1 (length name + 2)) s \<and> length line1 = length line
    \<and> mywrite sd line1 (length name + 2) s = Done (Inr (int (length name + 2))) s1 \<and> session sd p st cl s1 \<and> os s1 = os s
    \<and> app_buffers p s1 = app_buffers p s @ [name @ [CR, LF]]"
proof -
  let ?l = "name @ 0 # drop (Suc (length name)) line"
  have "client_request S (Some name) line s = terminate ?l (length name) s"
    using assms(3) c_string_end [OF assms(2), of "drop (Suc (length name)) line"]
    by (simp add: client_request_def put_string_def run_simps)
  moreover have "length ?l = length line" using assms(3) by simp
  ultimately show ?thesis using ask_run [OF assms(1), of "length name" ?l name] assms(3,4) by simp
qed

lemma trim_right_prefix: "take (length (trim_right str)) str = trim_right str"
proof -
  have "trim_right str @ rev (takeWhile isspace (rev str)) = str"
    unfolding trim_right_def by (metis rev_append rev_rev_ident takeWhile_dropWhile_id)
  then show ?thesis by (metis append_eq_conv_conj)
qed

lemma trim_right_length: "length (trim_right str) \<le> length str"
  by (metis trim_right_prefix length_take min.cobounded1 min.commute)

text \<open>What the client sends for a line the user types, with trailing white space removed. A name of 2
  to 997 characters is sent followed by CR LF, and nothing else is; a name of one character is ignored like
  an empty line, and nothing is sent; a longer name, which fgets still accepts, is extended past the end of
  the array. At the end of the input the loop stops.\<close>

lemma client_request_from_user:
  assumes "session sd p st cl s" "length line = LINE_LEN"
  shows "(std_fgets S LINE_LEN (os s) = (None, w) \<longrightarrow> client_request S None line s = Done Stop (s\<lparr>os := w\<rparr>))
    \<and> (std_fgets S LINE_LEN (os s) = (Some str, w) \<and> 0 \<notin> set str \<and> length str < LINE_LEN \<longrightarrow>
      (length (trim_right str) \<le> 1 \<longrightarrow> (\<exists>line1. client_request S None line s = Done (Skip line1) (s\<lparr>os := w\<rparr>)))
    \<and> (2 \<le> length (trim_right str) \<and> length (trim_right str) \<le> 997 \<longrightarrow>
        (\<exists>line1 k s1. client_request S None line s = Done (Ask line1 k) (s\<lparr>os := w\<rparr>) \<and> mywrite sd line1 k (s\<lparr>os := w\<rparr>) = Done (Inr (int k)) s1
          \<and> session sd p st cl s1 \<and> app_buffers p s1 = app_buffers p s @ [trim_right str @ [CR, LF]]))
    \<and> (998 \<le> length (trim_right str) \<longrightarrow> (\<exists>l. client_request S None line s = Abort (Out_of_bounds ''client.c'' l))))"
proof (intro conjI impI; (elim conjE)?)
  assume "std_fgets S LINE_LEN (os s) = (None, w)"
  then show "client_request S None line s = Done Stop (s\<lparr>os := w\<rparr>)" by (simp add: client_request_def run_simps)
next
  assume g: "std_fgets S LINE_LEN (os s) = (Some str, w)" "0 \<notin> set str" "length str < LINE_LEN"
  let ?l = "str @ 0 # drop (Suc (length str)) line" and ?t = "length (trim_right str)"
  have run: "client_request S None line s = (if ?t \<le> 1 then Done (Skip ?l) (s\<lparr>os := w\<rparr>) else terminate ?l ?t (s\<lparr>os := w\<rparr>))"
    using g assms(2) c_string_end [OF g(2), of "drop (Suc (length str)) line"]
    by (simp add: client_request_def put_string_def run_simps)
  show "\<exists>line1. client_request S None line s = Done (Skip line1) (s\<lparr>os := w\<rparr>)" if "?t \<le> 1" using run that by simp
  have tl: "take ?t ?l = trim_right str" "length ?l = LINE_LEN"
    using trim_right_prefix [of str] trim_right_length [of str] g(3) assms(2) by simp_all
  show "\<exists>l. client_request S None line s = Abort (Out_of_bounds ''client.c'' l)" if "998 \<le> ?t"
    using run that terminate_run(2) [of ?l ?t "s\<lparr>os := w\<rparr>"] tl(2) by simp
  assume t: "2 \<le> ?t" "?t \<le> 997"
  have "session sd p st cl (s\<lparr>os := w\<rparr>)" "?t + 2 < length ?l" "?t + 2 < 2 ^ 31" using assms(1) tl(2) t(2) by simp_all
  from ask_run [OF this(1) tl(1) this(2,3)] obtain line1 s1 where
    "terminate ?l ?t (s\<lparr>os := w\<rparr>) = Done (Ask line1 (?t + 2)) (s\<lparr>os := w\<rparr>)" "mywrite sd line1 (?t + 2) (s\<lparr>os := w\<rparr>) = Done (Inr (int (?t + 2))) s1"
    "session sd p st cl s1" "app_buffers p s1 = app_buffers p s @ [trim_right str @ [CR, LF]]" by auto
  with run t(1) show "\<exists>line1 k s1. client_request S None line s = Done (Ask line1 k) (s\<lparr>os := w\<rparr>) \<and> mywrite sd line1 k (s\<lparr>os := w\<rparr>) = Done (Inr (int k)) s1
          \<and> session sd p st cl s1 \<and> app_buffers p s1 = app_buffers p s @ [trim_right str @ [CR, LF]]" by auto
qed

text \<open>For the witnesses: the user types one line, and the file is the state.\<close>

definition typed :: "byte list \<Rightarrow> byte list stdio" where
  "typed str = \<lparr>std_fgets = (\<lambda>_ w. (Some str, w)), std_fopen = (\<lambda>_ _. (Some 0, [])),
     std_fwrite = (\<lambda>_ bs w. ((length bs, 0), w @ bs)), std_fclose = (\<lambda>_ w. w),
     lib_inet_addr = (\<lambda>_. 0x0100007f), lib_gethostbyname = (\<lambda>_ _. None)\<rparr>"

lemma typed_stores: "stores (typed str) (\<lambda>w. w)"
  by (simp add: stores_def typed_def)


end
