(* ===== verification/Server_Session.thy ===== *)
theory Server_Session
  imports File_Server
begin

text \<open>
  A whole connection of the server: the requests of a client, one line each, are answered in their
  order until the stream ends. \<open>answers\<close> says what a file system answers to a list of requests, one
  after the other.
\<close>

section \<open>Answers\<close>

definition answered :: "'os files \<Rightarrow> 'os env \<Rightarrow> byte list \<Rightarrow> byte list \<Rightarrow> 'os \<Rightarrow> 'os \<Rightarrow> bool" where
  "answered F E name resp w w' \<longleftrightarrow>
     (\<exists>content. serves F E name content w w' \<and> resp = response_ok name (of_nat (length content)) @ content)
     \<or> fs_access F name w = (False, w') \<and> resp = response_missing name
     \<or> (\<exists>w1. fs_access F name w = (True, w1) \<and> fs_open F name w1 = (-1, w') \<and> resp = response_unopened name)"

fun answers :: "'os files \<Rightarrow> 'os env \<Rightarrow> (byte list \<times> byte list) list \<Rightarrow> 'os \<Rightarrow> 'os \<Rightarrow> bool" where
  "answers F E [] w w' = (w' = w)"
| "answers F E ((name, resp) # rs) w w' = (\<exists>w1. answered F E name resp w w1 \<and> answers F E rs w1 w')"

text \<open>A name that can be sent as a line and fits the array of the server.\<close>

definition good_name :: "byte list \<Rightarrow> bool" where
  "good_name name \<longleftrightarrow> name \<noteq> [] \<and> length name \<le> 255 \<and> 0 \<notin> set name \<and> crlf_free 0 name"

definition request_lines :: "(byte list \<times> byte list) list \<Rightarrow> byte list" where
  "request_lines rs = concat (map (\<lambda>r. fst r @ [CR, LF]) rs)"

lemma process_answered:
  assumes "session sd p st cl s" "name \<noteq> []" "c_string line = name" "length name \<le> 255" "length resp0 = RESP_LEN"
    and "answered F E name resp (os s) w'"
  shows "\<exists>N s'. (\<forall>n \<ge> N. process_line n F E resp0 sd line s = Done (Some 0) s') \<and> session sd p st cl s' \<and> os s' = w'
    \<and> concat (app_buffers p s') = concat (app_buffers p s) @ resp"
  using assms(6) unfolding answered_def
proof (elim disjE exE conjE)
  fix content assume "serves F E name content (os s) w'" "resp = response_ok name (of_nat (length content)) @ content"
  with process_file [OF assms(1-5)] show ?thesis by blast
next
  assume "fs_access F name (os s) = (False, w')" "resp = response_missing name"
  with process_missing [OF assms(1,3-5), of w' F E] assms(2) show ?thesis by auto
next
  fix w1 assume "fs_access F name (os s) = (True, w1)" "fs_open F name w1 = (-1, w')" "resp = response_unopened name"
  with process_unopened [OF assms(1,3-5,2)] show ?thesis by blast
qed

section \<open>The loop over the requests\<close>

lemma request_round_run:
  assumes "session sd p (name @ [CR, LF] @ st) cl s" "good_name name" "length line = 256" "length resp0 = RESP_LEN"
    and "answered F E name resp (os s) w'"
  shows "\<exists>N line' s'. (\<forall>n \<ge> N. request_round n F E resp0 sd line s = Done (Some (Inl line')) s') \<and> length line' = 256
    \<and> session sd p st cl s' \<and> os s' = w' \<and> concat (app_buffers p s') = concat (app_buffers p s) @ resp"
proof -
  let ?line = "name @ 0 # drop (Suc (length name)) line"
  have nm: "name \<noteq> []" "length name \<le> 255" "0 \<notin> set name" "crlf_free 0 name" using assms(2) by (simp_all add: good_name_def)
  have "length name < length line" using nm(2) assms(3) by simp
  from get_nvt_line_run [OF assms(1) nm(4) this, of server_sites] obtain s1 where
    s1: "\<forall>n \<ge> length name + 2. get_nvt_line n server_sites sd line s = Done (Some (0, ?line)) s1" "session sd p st cl s1"
    "os s1 = os s" "app_buffers p s1 = app_buffers p s" by blast
  have "answered F E name resp (os s1) w'" using assms(5) s1(3) by simp
  from process_answered [OF s1(2) nm(1) c_string_end [OF nm(3)] nm(2) assms(4) this] obtain N s2 where
    s2: "\<forall>n \<ge> N. process_line n F E resp0 sd ?line s1 = Done (Some 0) s2" "session sd p st cl s2" "os s2 = w'"
    "concat (app_buffers p s2) = concat (app_buffers p s1) @ resp" by blast
  have "?line ! 0 \<noteq> 0" using nm(1,3) by (cases name) auto
  then have "request_round n F E resp0 sd line s = Done (Some (Inl ?line)) s2" if "n \<ge> max N (length name + 2)" for n
    using that s1(1) s2(1) by (simp add: request_round_def run_simps)
  moreover have "length ?line = 256" using \<open>length name < length line\<close> assms(3) by simp
  ultimately show ?thesis using s2(2-4) s1(4) by (intro exI [of _ "max N (length name + 2)"] exI [of _ ?line] exI [of _ s2]) simp
qed

lemma request_round_end:
  assumes "session sd p [] True s" "length line = 256"
  shows "\<exists>s'. (\<forall>n \<ge> 1. request_round n F E resp0 sd line s = Done (Some (Inr ())) s') \<and> session sd p [] True s' \<and> os s' = os s
    \<and> app_buffers p s' = app_buffers p s"
proof -
  from get_nvt_line_end [OF assms(1), of line server_sites] assms(2) obtain s1 where
    s1: "\<forall>n \<ge> 1. get_nvt_line n server_sites sd line s = Done (Some (0, 0 # drop 1 line)) s1" "session sd p [] True s1"
    "os s1 = os s" "app_buffers p s1 = app_buffers p s" by auto
  then have "request_round n F E resp0 sd line s = Done (Some (Inr ())) s1" if "n \<ge> 1" for n
    using that by (simp add: request_round_def run_simps)
  with s1 show ?thesis by blast
qed

lemma requests_run:
  assumes "length resp0 = RESP_LEN"
  shows "session sd p (request_lines rs) True s \<Longrightarrow> \<forall>r \<in> set rs. good_name (fst r) \<Longrightarrow> length line = 256
    \<Longrightarrow> answers F E rs (os s) w' \<Longrightarrow>
    \<exists>N s'. (\<forall>n \<ge> N. \<forall>m \<ge> N. iterate n (request_round m F E resp0 sd) line s = Done (Some ()) s')
      \<and> session sd p [] True s' \<and> os s' = w' \<and> concat (app_buffers p s') = concat (app_buffers p s) @ concat (map snd rs)"
proof (induction rs arbitrary: s line)
  case Nil
  from request_round_end [of sd p s line F E resp0] Nil obtain s' where
    s': "\<forall>n \<ge> 1. request_round n F E resp0 sd line s = Done (Some (Inr ())) s'" "session sd p [] True s'" "os s' = os s"
    "app_buffers p s' = app_buffers p s" by (auto simp: request_lines_def)
  have "iterate n (request_round m F E resp0 sd) line s = Done (Some ()) s'" if "n \<ge> 1" "m \<ge> 1" for n m
    using that s'(1) by (cases n) (simp_all add: run_simps)
  then show ?case using s' Nil.prems(4) by (intro exI [of _ 1] exI [of _ s']) simp
next
  case (Cons r rs)
  obtain name resp where r: "r = (name, resp)" by fastforce
  from Cons.prems(4) r obtain w1 where w1: "answered F E name resp (os s) w1" "answers F E rs w1 w'" by auto
  have "session sd p (name @ [CR, LF] @ request_lines rs) True s" "good_name name"
    using Cons.prems(1,2) r by (simp_all add: request_lines_def)
  from request_round_run [OF this Cons.prems(3) assms w1(1)] obtain N line' s1 where
    s1: "\<forall>n \<ge> N. request_round n F E resp0 sd line s = Done (Some (Inl line')) s1" "length line' = 256"
    "session sd p (request_lines rs) True s1" "os s1 = w1" "concat (app_buffers p s1) = concat (app_buffers p s) @ resp" by blast
  have "\<forall>r \<in> set rs. good_name (fst r)" "answers F E rs (os s1) w'" using Cons.prems(2) w1(2) s1(4) by simp_all
  from Cons.IH [OF s1(3) this(1) s1(2) this(2)] obtain M s' where
    s': "\<forall>n \<ge> M. \<forall>m \<ge> M. iterate n (request_round m F E resp0 sd) line' s1 = Done (Some ()) s'" "session sd p [] True s'" "os s' = w'"
    "concat (app_buffers p s') = concat (app_buffers p s1) @ concat (map snd rs)" by blast
  have "iterate n (request_round m F E resp0 sd) line s = Done (Some ()) s'" if "n \<ge> Suc (max N M)" "m \<ge> Suc (max N M)" for n m
    using that s1(1) s'(1) by (cases n) (simp_all add: run_simps)
  then show ?case using s' s1(5) r by (intro exI [of _ "Suc (max N M)"] exI [of _ s']) simp
qed

text \<open>C23: A whole connection. A client sends any number of requests, a line each, and then closes; each
  name fits the line array, and the files, taken one after the other, are readable, inaccessible or not to be
  opened. Then \<open>do_connection\<close> reads every request, and when it calls myclose it has written exactly the
  answers to all of them in their order, each a status line and, for a readable file, its contents; the requests are
  consumed, and the files are as the requests left them. Every loop ends, from some number of rounds on with
  the same result.\<close>

theorem server_session:
  assumes "session sd p (request_lines rs) True s" and "\<forall>r \<in> set rs. good_name (fst r)"
    and "length line0 = 256" and "length resp0 = RESP_LEN" and "answers F E rs (os s) w'"
  shows "\<exists>N s'. (\<forall>n \<ge> N. do_connection n F E resp0 line0 sd s = bind (myclose E sd) (\<lambda>_. ret (Some ())) s')
    \<and> session sd p [] True s' \<and> os s' = w'
    \<and> concat (app_buffers p s') = concat (app_buffers p s) @ concat (map snd rs)"
proof -
  from requests_run [OF assms(4,1,2,3,5)] obtain N s' where
    s': "\<forall>n \<ge> N. \<forall>m \<ge> N. iterate n (request_round m F E resp0 sd) line0 s = Done (Some ()) s'"
    "session sd p [] True s'" "os s' = w'" "concat (app_buffers p s') = concat (app_buffers p s) @ concat (map snd rs)" by blast
  have "do_connection n F E resp0 line0 sd s = bind (myclose E sd) (\<lambda>_. ret (Some ())) s'" if "n \<ge> N" for n
    using s'(1) that by (simp add: do_connection_def bind_run)
  with s' show ?thesis by blast
qed


theorem server_session_witness:
  "\<exists>s N s'. (\<forall>n \<ge> N. do_connection n one_file loop_env (replicate 5000 0) (replicate 256 0) 0 s = bind (myclose loop_env 0) (\<lambda>_. ret (Some ())) s')
    \<and> concat (app_buffers 0 s') = response_ok [102] 2 @ [7, 8] @ response_ok [103] 0"
proof -
  let ?rs = "[([102], response_ok [102] 2 @ [7, 8]), ([103 :: byte], response_ok [103] 0)]"
  have "[] \<in> set [request_lines ?rs, []]" "stream_before_fin [request_lines ?rs, []] = request_lines ?rs"
    by (simp_all add: request_lines_def stream_before_fin_def)
  with sample_stream [of "[request_lines ?rs, []]" "[7, 8]"] obtain s :: "byte list sys" where
    s: "session 0 0 (request_lines ?rs) True s" "os s = [7, 8]" "app_buffers 0 s = []" by auto
  have "answered one_file loop_env [102] (response_ok [102] 2 @ [7, 8]) [7, 8] []"
    unfolding answered_def using one_file_serves [of "[102]" "[7, 8]"] by (intro disjI1 exI [of _ "[7, 8]"]) simp
  moreover have "answered one_file loop_env [103] (response_ok [103] 0) [] []"
    unfolding answered_def using one_file_serves [of "[103]" "[]"] by (intro disjI1 exI [of _ "[]"]) simp
  ultimately have a: "answers one_file loop_env ?rs (os s) []" unfolding s(2) by auto
  have g: "\<forall>r \<in> set ?rs. good_name (fst r)" by (simp add: good_name_def)
  from server_session [OF s(1) g _ _ a, of "replicate 256 0" "replicate 5000 0"] s(3) obtain N s' where
    "\<forall>n \<ge> N. do_connection n one_file loop_env (replicate 5000 0) (replicate 256 0) 0 s = bind (myclose loop_env 0) (\<lambda>_. ret (Some ())) s'"
    "concat (app_buffers 0 s') = response_ok [102] 2 @ [7, 8] @ response_ok [103] 0" by auto
  then show ?thesis by blast
qed

end
