(* ===== verification/Process_Invariant.thy ===== *)
theory Process_Invariant
  imports Stcp_Threads
begin

text \<open>
  The process as a transition system whose calls do not overlap. A step is a call of the application interface, a call of the
  transport layer interface, a round of a receive thread, the end of a transport thread, or a step of the
  operating system; calls that wait are steps too, since other threads run while they wait. The section
  on preservation proves, call by call, that \<open>wf_sys\<close> holds again after the call, and rule induction
  gives it for every reachable state.
\<close>

section \<open>Preservation\<close>

lemma keeps_sum [keeps_intros]:
  "(\<And>a. x = Inl a \<Longrightarrow> keeps I (f a)) \<Longrightarrow> (\<And>b. x = Inr b \<Longrightarrow> keeps I (g b)) \<Longrightarrow> keeps I (case x of Inl a \<Rightarrow> f a | Inr b \<Rightarrow> g b)"
  by (cases x) simp_all

lemma keeps_prod [keeps_intros]: "(\<And>a b. x = (a, b) \<Longrightarrow> keeps I (f a b)) \<Longrightarrow> keeps I (case x of (a, b) \<Rightarrow> f a b)"
  by (cases x) simp

lemma keeps_guard: "(b \<Longrightarrow> keeps I (f ())) \<Longrightarrow> keeps I (bind (assert_at file line b) f)"
  and keeps_bound: "(\<not> b \<Longrightarrow> keeps I (f ())) \<Longrightarrow> keeps I (bind (if b then abort e else ret ()) f)"
  by (auto simp: keeps_def run_simps)

lemma keeps_zoom:
  assumes "keeps J m" "\<And>s. I s \<Longrightarrow> J (get s)" "\<And>s t. I s \<Longrightarrow> J t \<Longrightarrow> I (put t s)"
  shows "keeps I (zoom get put m)"
proof (rule keepsI)
  fix s a s' assume s: "I s" "zoom get put m s = Done a s'"
  then obtain t where t: "m (get s) = Done a t" "s' = put t s" by (auto simp: zoom_def split: outcome.splits)
  show "I s'" unfolding t(2) by (rule assms(3) [OF s(1) keeps_Done [OF assms(1) assms(2) [OF s(1)] t(1)]])
next
  fix s s' assume s: "I s" "zoom get put m s = Blocked s'"
  then obtain t where t: "m (get s) = Blocked t" "s' = put t s" by (auto simp: zoom_def split: outcome.splits)
  show "I s'" unfolding t(2) by (rule assms(3) [OF s(1) keeps_Blocked [OF assms(1) assms(2) [OF s(1)] t(1)]])
qed

lemma wf_sys_context: "wf_sys s \<Longrightarrow> hload (ctxs s) p = Some c \<Longrightarrow> wf_ctx p c"
  using wf_descriptors_live(1) [of "global_ctx s" "ctxs s" p c] by (simp add: wf_sys_def)

lemma wf_sys_store:
  "wf_sys s \<Longrightarrow> hload (ctxs s) p = Some c \<Longrightarrow> wf_ctx p c' \<and> my_sd c' = my_sd c \<Longrightarrow> wf_sys (s\<lparr>ctxs := hstore (ctxs s) p c'\<rparr>)"
  using wf_descriptors_store [of "global_ctx s" "ctxs s" p c c'] by (simp add: wf_sys_def)

text \<open>A program that keeps every context well-formed and its descriptor, run on one context.\<close>

lemma keeps_on_ctx:
  assumes "\<And>k. keeps (\<lambda>c. wf_ctx p c \<and> my_sd c = k) m"
  shows "keeps wf_sys (on_ctx file line p m)"
proof (rule keepsI)
  fix s a s' assume s: "wf_sys s" "on_ctx file line p m s = Done a s'"
  then obtain c c' where c: "hload (ctxs s) p = Some c" "m c = Done a c'" "s' = s\<lparr>ctxs := hstore (ctxs s) p c'\<rparr>"
    by (auto simp: on_ctx_def split: option.splits outcome.splits)
  from keeps_Done [OF assms [of "my_sd c"] _ c(2)] wf_sys_context [OF s(1) c(1)] show "wf_sys s'"
    unfolding c(3) by (intro wf_sys_store [OF s(1) c(1)]) simp
next
  fix s s' assume s: "wf_sys s" "on_ctx file line p m s = Blocked s'"
  then obtain c c' where c: "hload (ctxs s) p = Some c" "m c = Blocked c'" "s' = s\<lparr>ctxs := hstore (ctxs s) p c'\<rparr>"
    by (auto simp: on_ctx_def split: option.splits outcome.splits)
  from keeps_Blocked [OF assms [of "my_sd c"] _ c(2)] wf_sys_context [OF s(1) c(1)] show "wf_sys s'"
    unfolding c(3) by (intro wf_sys_store [OF s(1) c(1)]) simp
qed

text \<open>Updates of a context outside its queues.\<close>

lemma keeps_modify_ctx [keeps_intros]:
  "(\<And>c. wf_ctx p c \<Longrightarrow> wf_ctx p (f c) \<and> my_sd (f c) = my_sd c) \<Longrightarrow> keeps wf_sys (on_ctx file line p (modify f))"
  by (intro keeps_on_ctx keeps_modify) auto

lemma keeps_enqueue: "keeps wf_queue (mysock_enqueue_buffer x n)"
proof (rule keepsI)
  fix q a q' assume q: "wf_queue q" and run: "mysock_enqueue_buffer x n q = Done a q'"
  show "wf_queue q'"
  proof (cases "n = 0")
    case True
    then have "mysock_enqueue_buffer x n = mysock_enqueue_buffer (Some []) (length [])"
      by (simp add: mysock_enqueue_buffer_def assert_at_def)
    with pq.enq_spec [OF q, of "[]"] run show ?thesis by auto
  next
    case False
    with run obtain bs where "x = Some bs" "n \<le> length bs"
      by (cases x) (auto simp: mysock_enqueue_buffer_def run_simps split: if_splits)
    with enqueue_buffer_appends [OF q] run show ?thesis by fastforce
  qed
next
  fix q q' assume "wf_queue q" "mysock_enqueue_buffer x n q = Blocked q'"
  then show "wf_queue q'"
    by (auto simp: mysock_enqueue_buffer_def alloc_node_def store_node_def load_node_def run_simps split: if_splits option.splits)
qed

lemma keeps_dequeue: "keeps wf_queue (mysock_dequeue_buffer n part)"
proof -
  have "case mysock_dequeue_buffer n part q of Done a q' \<Rightarrow> wf_queue q' | Blocked q' \<Rightarrow> wf_queue q' | Abort e \<Rightarrow> True"
    if q: "wf_queue q" for q
  proof (cases "contents q")
    case Nil
    then show ?thesis using pq.deq_wait [OF q Nil] q by simp
  next
    case (Cons b bs)
    show ?thesis
    proof (cases "part \<and> n < length b")
      case True
      then show ?thesis using pq.deq_part [OF q Cons, of n] by auto
    next
      case False
      then show ?thesis using pq.deq_whole [OF q Cons, of n part] by auto
    qed
  qed
  then show ?thesis by (simp add: keeps_def)
qed

lemma keeps_queues [keeps_intros]:
  assumes "keeps wf_queue m"
  shows "keeps wf_sys (on_ctx file line p (on_network_recv_queue m))" "keeps wf_sys (on_ctx file line p (on_app_recv_queue m))"
    "keeps wf_sys (on_ctx file line p (on_app_send_queue m))"
  unfolding on_network_recv_queue_def on_app_recv_queue_def on_app_send_queue_def
  by (rule keeps_on_ctx, rule keeps_zoom [OF assms]; simp add: wf_ctx_def)+

lemma keeps_syscall [keeps_intros]: "keeps wf_sys (syscall f)"
  by (simp add: keeps_def run_simps wf_sys_def)

lemma keeps_os [keeps_intros]: "keeps wf_sys (modify (\<lambda>s. s\<lparr>os := f s\<rparr>))"
  by (simp add: keeps_def run_simps wf_sys_def)

lemma keeps_create_thread [keeps_intros]: "keeps wf_sys (mysock_create_thread f p)"
  by (simp add: keeps_def mysock_create_thread_def wf_sys_def)


lemma keeps_get_ctx [keeps_intros]: "keeps I (get_ctx file line p)"
  by (simp add: keeps_def run_simps split: option.splits)

lemma keeps_get_context [keeps_intros]: "keeps I (verify_mysocket_descriptor x sd)" "keeps I (mysock_get_context sd)"
  "keeps I (ctx_of file line sd)"
  by (auto simp: verify_mysocket_descriptor_def mysock_get_context_def ctx_of_def intro!: keeps_intros)

lemma keeps_join [keeps_intros]: "keeps I (pthread_join t)"
  by (auto simp: pthread_join_def intro!: keeps_intros)

lemma keeps_verify_socket [keeps_intros]: "keeps I (verify_socket file line c)"
  by (auto simp: verify_socket_def intro!: keeps_intros)

subsection \<open>Contexts\<close>

lemma keeps_free_context [keeps_intros]: "keeps wf_sys (mysock_free_context E p)"
proof -
  have "case mysock_free_context E p s of Done a s' \<Rightarrow> wf_sys s' | Blocked s' \<Rightarrow> wf_sys s' | Abort e \<Rightarrow> True"
    if s: "wf_sys s" for s :: "'a sys"
  proof (cases "hload (ctxs s) p")
    case None
    then show ?thesis by (simp add: mysock_free_context_def run_simps)
  next
    case (Some c)
    note c = wf_sys_context [OF s Some]
    then obtain i where i: "impl c = Some i" by (auto simp: wf_ctx_def)
    show ?thesis using free_context_locked [OF Some c i, of E] release_context [OF s Some i, of E] by (cases "connect_lock i") auto
  qed
  then show ?thesis by (simp add: keeps_def)
qed

lemma wf_sys_more: "wf_sys s \<Longrightarrow> wf_sys (s\<lparr>os := w, ctxs := ctxs s @ [None]\<rparr>)"
proof -
  assume s: "wf_sys s"
  then have wf: "wf_descriptors (global_ctx s) (ctxs s)" by (simp add: wf_sys_def)
  have same: "hload (ctxs s @ [None]) q = hload (ctxs s) q" for q by (simp add: hload_def nth_append)
  have "wf_descriptors (global_ctx s) (ctxs s @ [None])"
  proof (rule wf_descriptorsI, unfold same)
    show "length (global_ctx s) = 64" by (rule wf_descriptors_length [OF wf])
  qed (use wf_descriptors_entry [OF wf] wf_descriptors_live [OF wf] in blast)+
  with s show ?thesis by (simp add: wf_sys_def)
qed

text \<open>Without a socket and a pipe the process ends at an assertion.\<close>

lemma new_mysocket_refused:
  assumes "\<nexists>fd r u w'. os_grants E (os s) fd r u w'"
  shows "\<exists>e. mysock_new_mysocket E reliable s = Abort e"
proof -
  obtain fd w1 where w1: "os_socket E (os s) = (fd, w1)" by fastforce
  obtain x w2 where w2: "os_pipe E w1 = (x, w2)" by fastforce
  have "fd < 0 \<or> x = None" using assms w1 w2 by (cases x) (force simp: os_grants_def)+
  with w1 w2 show ?thesis
    by (auto simp: mysock_new_mysocket_def mysock_allocate_context_def network_init_def network_init_socket_def
        network_alloc_context_socket_def run_simps heap_simps)
qed

lemma keeps_new_mysocket [keeps_intros]: "keeps wf_sys (mysock_new_mysocket E reliable)"
proof -
  have "case mysock_new_mysocket E reliable s of Done a s' \<Rightarrow> wf_sys s' | Blocked s' \<Rightarrow> wf_sys s' | Abort e \<Rightarrow> True"
    if s: "wf_sys s" for s :: "'a sys"
  proof (cases "\<exists>fd r u w'. os_grants E (os s) fd r u w'")
    case True
    then obtain fd r u w' where g: "os_grants E (os s) fd r u w'" by blast
    show ?thesis
    proof (cases "free_slot (global_ctx s) 0")
      case None
      with new_mysocket_full [OF g None, of reliable] s wf_sys_more [OF s] show ?thesis by (auto simp: wf_sys_def)
    next
      case (Some k)
      with new_mysocket_free [OF g Some, of reliable] open_socket_new(1) [OF s Some] show ?thesis
        by (simp add: open_socket_def)
    qed
  next
    case False
    then show ?thesis using new_mysocket_refused [of E s reliable] by auto
  qed
  then show ?thesis by (simp add: keeps_def)
qed


lemmas wf_ctx_simps = wf_ctx_def upd_network_def upd_impl_def

lemma keeps_start_recv_thread [keeps_intros]: "keeps wf_sys (network_start_recv_thread E p)"
  unfolding network_start_recv_thread_def by (intro keeps_intros) (auto simp: wf_ctx_simps)

lemma keeps_stop_recv_thread [keeps_intros]: "keeps wf_sys (network_stop_recv_thread E p)"
  unfolding network_stop_recv_thread_def by (intro keeps_intros) (auto simp: wf_ctx_simps)

lemma keeps_transport_init [keeps_intros]: "keeps wf_sys (mysock_transport_init E sd active)"
  unfolding mysock_transport_init_def by (intro keeps_intros) (auto simp: wf_ctx_simps)

lemma keeps_wait_for_connection [keeps_intros]: "keeps wf_sys (on_ctx file line p mysock_wait_for_connection)"
  unfolding mysock_wait_for_connection_def by (intro keeps_on_ctx keeps_intros)

lemma keeps_network_bind [keeps_intros]: "keeps wf_sys (network_bind E p addr len)"
  unfolding network_bind_def network_bind_socket_def by (intro keeps_intros)

lemma keeps_bind_ephemeral [keeps_intros]: "keeps wf_sys (mysock_bind_ephemeral E p)"
  unfolding mysock_bind_ephemeral_def by (intro keeps_intros) (auto simp: wf_ctx_simps)

subsection \<open>The network layer\<close>

lemma keeps_tcp_io [keeps_intros]:
  assumes "\<And>buf n. keeps I (io buf n)"
  shows "keeps I (tcp_io io buf count)"
proof -
  have "case tcp_io_loop io count buf n s of Done a s' \<Rightarrow> I s' | Blocked s' \<Rightarrow> I s' | Abort e \<Rightarrow> True" if "I s" for n buf s
    using that
  proof (induction n arbitrary: buf s rule: less_induct)
    case (less n)
    show ?case
    proof (cases "n = 0")
      case True
      then show ?thesis using less.prems by (simp add: tcp_io_loop.simps)
    next
      case n: False
      show ?thesis
      proof (cases "io buf n s")
        case (Done x s1)
        obtain rc buf1 where x: "x = (rc, buf1)" by fastforce
        have I1: "I s1" by (rule keeps_Done [OF assms less.prems Done])
        show ?thesis
        proof (cases "0 < rc \<and> rc \<le> int n")
          case True
          then have "n - nat rc < n" using n by simp
          from less.IH [OF this I1, of "drop (nat rc) buf1"] True show ?thesis using n Done x
            by (subst tcp_io_loop.simps) (auto split: outcome.splits)
        next
          case False
          then show ?thesis using n Done x I1 by (subst tcp_io_loop.simps) auto
        qed
      next
        case (Blocked s1)
        then show ?thesis using n keeps_Blocked [OF assms less.prems Blocked] by (subst tcp_io_loop.simps) simp
      next
        case (Abort e)
        then show ?thesis using n by (subst tcp_io_loop.simps) simp
      qed
    qed
  qed
  then show ?thesis by (simp add: tcp_io_def keeps_def)
qed

lemma keeps_write_io [keeps_intros]: "keeps wf_sys (write_io E fd buf n)"
  and keeps_read_io [keeps_intros]: "keeps wf_sys (read_io E fd buf n)"
  unfolding write_io_def read_io_def by (intro keeps_intros)+

lemma keeps_set_impl [keeps_intros]: "(\<And>i. sock_ctx (f i) = sock_ctx i) \<Longrightarrow> keeps wf_sys (set_impl line p f)"
  unfolding set_impl_def by (intro keeps_intros) (auto simp: wf_ctx_simps)

lemma keeps_tcp_connect [keeps_intros]: "keeps wf_sys (tcp_connect E p)"
  unfolding tcp_connect_def Let_def by (intro keeps_intros) auto

lemma keeps_network_listen [keeps_intros]: "keeps wf_sys (network_listen E p backlog)"
  unfolding network_listen_def by (intro keeps_intros)

lemma keeps_update_passive_state [keeps_intros]: "keeps wf_sys (network_update_passive_state E p p2 u)"
  unfolding network_update_passive_state_def by (intro keeps_intros) auto

lemma keeps_send_packet [keeps_intros]: "keeps wf_sys (network_send_packet E p src len)"
  unfolding network_send_packet_def by (intro keeps_intros)

lemma keeps_recv_packet [keeps_intros]: "keeps wf_sys (network_recv_packet E p dst n)"
  unfolding network_recv_packet_def Let_def by (intro keeps_intros) (auto simp: wf_ctx_simps)

lemma keeps_addresses [keeps_intros]: "keeps I (network_get_port E p)" "keeps I (network_get_interface_ip E)"
  "keeps I (network_get_local_addr E n)"
  unfolding network_get_port_def network_get_interface_ip_def network_get_local_addr_def by (intro keeps_intros)+

lemma keeps_network_send [keeps_intros]: "keeps wf_sys (network_send E sd buf len)"
proof -
  have "keeps wf_sys (network_send_switch E p buf len r)" for p r
    unfolding network_send_switch_def
    by (intro keeps_if keeps_guard keeps_bound keeps_intros) (auto simp: wf_ctx_simps)
  then show ?thesis unfolding network_send_def Let_def by (intro keeps_intros) (auto simp: wf_ctx_simps)
qed

lemma keeps_network_recv [keeps_intros]: "keeps wf_sys (network_recv sd n)"
  unfolding network_recv_def by (intro keeps_intros keeps_dequeue)


subsection \<open>The demultiplexer\<close>

text \<open>The table takes any key that the index assertion lets pass.\<close>

abbreviation (input) hash_in_range :: "int \<Rightarrow> bool" where
  "hash_in_range k \<equiv> hash_default_hash_fn k 64 < 64"

interpretation lt_any: hash_params hash_default_hash_fn hash_default_key_equals 64 hash_in_range
  by unfold_locales (simp_all add: hash_default_key_equals_def)

lemma hash_out_of_range:
  assumes "\<not> hash_in_range k"
  shows "hash_set_entry hash_default_hash_fn keq 64 k d t = Abort (Assertion ''mysock_hash.h'' 71)"
    "hash_delete hash_default_hash_fn keq 64 k t = Abort (Assertion ''mysock_hash.h'' 130)"
    "hash_lookup_ptr hash_default_hash_fn keq 64 k t = Abort (Assertion ''mysock_hash.h'' 71)"
  using assms by (simp_all add: hash_set_entry_def hash_delete_def hash_lookup_ptr_def hash_get_entry_def hash_index_def run_simps)

lemma keeps_hash:
  "keeps (wf_table hash_default_hash_fn 64) (hash_set_entry hash_default_hash_fn hash_default_key_equals 64 k d)"
  "keeps (wf_table hash_default_hash_fn 64) (hash_delete hash_default_hash_fn hash_default_key_equals 64 k)"
  "keeps (wf_table hash_default_hash_fn 64) (hash_lookup_ptr hash_default_hash_fn hash_default_key_equals 64 k)"
  unfolding keeps_def
  by (cases "hash_in_range k"; use lt_any.set_map [of _ k d] lt_any.delete_map [of _ k] lt_any.lookup_map [of _ k] in
      \<open>fastforce simp: hash_out_of_range\<close>)+

lemma keeps_listen_table [keeps_intros]:
  "keeps (wf_table hash_default_hash_fn 64) m \<Longrightarrow> keeps wf_sys (on_listen_table m)"
  unfolding on_listen_table_def by (rule keeps_zoom) (auto simp: wf_sys_def)

lemma keeps_put_queue [keeps_intros]: "keeps wf_sys (put_queue sd q)"
  unfolding put_queue_def by (intro keeps_intros keeps_hash)

lemma keeps_get_connection_queue [keeps_intros]: "keeps wf_sys (get_connection_queue p)"
  unfolding get_connection_queue_def by (intro keeps_intros keeps_hash)

lemma keeps_list [keeps_intros]:
  "(xs = [] \<Longrightarrow> keeps I m) \<Longrightarrow> (\<And>y ys. xs = y # ys \<Longrightarrow> keeps I (f y ys)) \<Longrightarrow> keeps I (case xs of [] \<Rightarrow> m | y # ys \<Rightarrow> f y ys)"
  by (cases xs) simp_all

lemma keeps_dequeue_connection [keeps_intros]: "keeps wf_sys (mysock_dequeue_connection p)"
  unfolding mysock_dequeue_connection_def by (intro keeps_intros)

lemma keeps_retransmission [keeps_intros]: "keeps I (retransmission host peer n rs)"
  by (induction rs) (auto intro!: keeps_intros)

lemma keeps_hand_over [keeps_intros]: "keeps wf_sys (hand_over_connection E p q sd packet n u)"
  unfolding hand_over_connection_def by (intro keeps_intros keeps_enqueue)

lemma keeps_establish [keeps_intros]: "keeps wf_sys (establish_connection E p packet n peer m u q k)"
  unfolding establish_connection_def debug_print_connection_def by (intro keeps_intros) (auto simp: wf_ctx_simps)

lemma keeps_enqueue_connection [keeps_intros]: "keeps wf_sys (mysock_enqueue_connection E p packet n peer m u)"
  unfolding mysock_enqueue_connection_def debug_print_connection_def Let_def by (intro keeps_intros)

lemma keeps_connection_complete [keeps_intros]: "keeps wf_sys (mysock_passive_connection_complete p)"
  unfolding mysock_passive_connection_complete_def by (intro keeps_intros)

text \<open>HASH\_INSERT is called after a lookup of the same key that found nothing.\<close>

lemma queue_absent:
  assumes "wf_sys s" "hload (ctxs s) p = Some c" "get_connection_queue p s = Done None s'"
  shows "s' = s" "\<exists>t. on_listen_table (hash_insert hash_default_hash_fn hash_default_key_equals 64 (my_sd c) q) s
    = Done () (s\<lparr>listen_table := t\<rparr>) \<and> wf_sys (s\<lparr>listen_table := t\<rparr>)"
proof -
  have wf: "wf_table hash_default_hash_fn 64 (listen_table s)" "valid_key (my_sd c)"
    using assms(1) wf_descriptors_live(2) [of "global_ctx s" "ctxs s" p c] assms(2) by (auto simp: wf_sys_def valid_key_def)
  from assms(3) lt.lookup_map [OF wf] assms(2) have none: "table_map hash_default_hash_fn 64 (listen_table s) (my_sd c) = None" "s' = s"
    by (auto simp: get_connection_queue_def on_listen_table_def zoom_def run_simps split: if_splits)
  then show "s' = s" by simp
  from lt.insert_map [OF wf none(1), of q] assms(1)
  show "\<exists>t. on_listen_table (hash_insert hash_default_hash_fn hash_default_key_equals 64 (my_sd c) q) s
    = Done () (s\<lparr>listen_table := t\<rparr>) \<and> wf_sys (s\<lparr>listen_table := t\<rparr>)"
    by (auto simp: on_listen_table_def zoom_def wf_sys_def)
qed


text \<open>Between the read of a context and the writes of the table the context stays as it is.\<close>

definition with_context :: "ptr \<Rightarrow> mysock_context \<Rightarrow> 'os sys \<Rightarrow> bool" where
  "with_context p c s \<longleftrightarrow> wf_sys s \<and> hload (ctxs s) p = Some c"

lemma keeps_read_context:
  assumes "\<And>c. keeps (with_context p c) (f c)"
  shows "keeps wf_sys (bind (get_ctx file line p) f)"
proof (rule keepsI)
  fix s a s' assume s: "wf_sys s" "bind (get_ctx file line p) f s = Done a s'"
  then obtain c where c: "hload (ctxs s) p = Some c" "f c s = Done a s'" by (auto simp: run_simps split: option.splits)
  with keeps_Done [OF assms _ c(2)] s(1) show "wf_sys s'" by (simp add: with_context_def)
next
  fix s s' assume s: "wf_sys s" "bind (get_ctx file line p) f s = Blocked s'"
  then obtain c where c: "hload (ctxs s) p = Some c" "f c s = Blocked s'" by (auto simp: run_simps split: option.splits)
  with keeps_Blocked [OF assms _ c(2)] s(1) show "wf_sys s'" by (simp add: with_context_def)
qed

lemma keeps_table_with_context:
  "keeps (wf_table hash_default_hash_fn 64) m \<Longrightarrow> keeps (with_context p c) (on_listen_table m)"
  unfolding on_listen_table_def by (rule keeps_zoom) (auto simp: wf_sys_def with_context_def)

lemma keeps_insert_absent:
  assumes "\<And>q. keeps (with_context p c) (g q)"
  shows "keeps (with_context p c) (bind (get_connection_queue p) (\<lambda>x. bind (case x of Some q \<Rightarrow> ret q
    | None \<Rightarrow> bind (on_listen_table (hash_insert hash_default_hash_fn hash_default_key_equals 64 (my_sd c) q0)) (\<lambda>_. ret q0)) g))"
proof -
  have "case bind (get_connection_queue p) (\<lambda>x. bind (case x of Some q \<Rightarrow> ret q
      | None \<Rightarrow> bind (on_listen_table (hash_insert hash_default_hash_fn hash_default_key_equals 64 (my_sd c) q0)) (\<lambda>_. ret q0)) g) s
      of Done a s' \<Rightarrow> with_context p c s' | Blocked s' \<Rightarrow> with_context p c s' | Abort e \<Rightarrow> True" (is "?ok (bind _ ?rest s)")
    if s: "with_context p c s" for s
  proof -
    have keep: "keeps (with_context p c) (get_connection_queue p)"
      unfolding get_connection_queue_def by (intro keeps_intros keeps_table_with_context keeps_hash)
    have w: "wf_sys s" "hload (ctxs s) p = Some c" using s by (simp_all add: with_context_def)
    show ?thesis
    proof (cases "get_connection_queue p s")
      case (Done x s1)
      show ?thesis
      proof (cases x)
        case None
        from queue_absent [OF w Done [unfolded None]] obtain t where
          "s1 = s" "on_listen_table (hash_insert hash_default_hash_fn hash_default_key_equals 64 (my_sd c) q0) s
            = Done () (s\<lparr>listen_table := t\<rparr>)" "with_context p c (s\<lparr>listen_table := t\<rparr>)"
          using w(2) by (auto simp: with_context_def)
        then show ?thesis using assms [of q0] Done None by (simp add: run_simps keeps_def)
      next
        case (Some q)
        then show ?thesis using assms [of q] Done keeps_Done [OF keep s Done] by (simp add: run_simps keeps_def)
      qed
    qed (use keeps_Blocked [OF keep s] in \<open>simp_all add: run_simps\<close>)
  qed
  then show ?thesis by (simp add: keeps_def)
qed

lemma keeps_set_backlog [keeps_intros]: "keeps wf_sys (mysock_set_backlog E p b)"
  unfolding mysock_set_backlog_def put_queue_def Let_def
  by (intro keeps_read_context keeps_insert_absent keeps_intros keeps_table_with_context keeps_hash)

lemma keeps_close_all: "(\<And>sd. keeps I (cl sd)) \<Longrightarrow> keeps I (close_all cl rs)"
  by (induction rs) (auto intro!: keeps_intros)

lemma keeps_close_passive [keeps_intros]:
  "(\<And>sd. keeps wf_sys (cl sd)) \<Longrightarrow> keeps wf_sys (mysock_close_passive_socket cl p)"
  unfolding mysock_close_passive_socket_def by (intro keeps_intros keeps_close_all keeps_hash)


subsection \<open>The two interfaces and the threads\<close>

lemma keeps_mysocket [keeps_intros]: "keeps wf_sys (mysocket E reliable)"
  unfolding mysocket_def by (intro keeps_intros)

lemma keeps_mybind [keeps_intros]: "keeps wf_sys (mybind E sd addr len)"
  unfolding mybind_def by (intro keeps_intros) (auto simp: wf_ctx_simps)

lemma keeps_myconnect [keeps_intros]: "keeps wf_sys (myconnect E sd addr len)"
  unfolding myconnect_def by (intro keeps_intros) (auto simp: wf_ctx_simps)

lemma keeps_myaccept [keeps_intros]: "keeps wf_sys (myaccept sd)"
  unfolding myaccept_def by (intro keeps_intros)

lemma keeps_mylisten [keeps_intros]: "keeps wf_sys (mylisten E sd backlog)"
  unfolding mylisten_def by (intro keeps_intros) (auto simp: wf_ctx_simps)

lemma keeps_myclose [keeps_intros]: "keeps wf_sys (myclose E sd)"
proof -
  have "keeps wf_sys (myclose_fuel n E sd)" for n
    by (induction n arbitrary: sd) (unfold myclose_fuel.simps, (intro keeps_intros | assumption | auto simp: wf_ctx_simps)+)
  then show ?thesis by (simp add: myclose_def)
qed

lemma keeps_app_data [keeps_intros]: "keeps wf_sys (mywrite sd buf len)" "keeps wf_sys (myread sd len)"
  unfolding mywrite_def myread_def Let_def by ((intro keeps_intros keeps_enqueue keeps_dequeue)+, (auto simp: wf_ctx_simps)?)+

lemma keeps_names [keeps_intros]: "keeps I (mygetsockname E sd)" "keeps I (mygetpeername E sd len)" "keeps I (mylocalip E peer)"
  unfolding mygetsockname_def mygetpeername_def mylocalip_def Let_def by (intro keeps_intros)+

lemma keeps_unblock [keeps_intros]: "keeps wf_sys (stcp_unblock_application err sd)"
  unfolding stcp_unblock_application_def by (intro keeps_intros) (auto simp: wf_ctx_simps)

lemma keeps_wait_for_event [keeps_intros]: "keeps wf_sys (stcp_wait_for_event sd flags timed_out)"
proof -
  have "keeps (\<lambda>c. wf_ctx p c \<and> my_sd c = k) (wait_round flags)" for p k
    by (simp add: keeps_def wait_round_def Let_def wf_ctx_def)
  then show ?thesis unfolding stcp_wait_for_event_def by (intro keeps_intros keeps_on_ctx)
qed

lemma keeps_stcp_state [keeps_intros]: "keeps wf_sys (stcp_set_context sd st)" "keeps wf_sys (stcp_get_context sd)"
  unfolding stcp_set_context_def stcp_get_context_def by (intro keeps_intros; auto simp: wf_ctx_simps)+

lemma keeps_tcp_checksum [keeps_intros]: "keeps I (mysock_tcp_checksum host src dst addr packet len)"
  by (auto simp: mysock_tcp_checksum_def intro!: keeps_intros)

lemma keeps_checksums [keeps_intros]: "keeps I (mysock_set_checksum E c addr packet len)" "keeps I (mysock_verify_checksum E c addr packet len)"
  unfolding mysock_set_checksum_def mysock_verify_checksum_def by (intro keeps_intros)+

lemma keeps_gather [keeps_intros]: "keeps I (gather packet segs)"
  by (induction packet segs rule: gather.induct) (auto intro!: keeps_intros)

lemma keeps_stcp_network [keeps_intros]:
  "keeps wf_sys (stcp_network_recv E sd dst n)" "keeps wf_sys (stcp_network_send E sd addr src len segs)"
  unfolding stcp_network_recv_def stcp_network_send_def Let_def by (intro keeps_intros)+

lemma keeps_stcp_app [keeps_intros]:
  "keeps wf_sys (stcp_app_recv sd n)" "keeps wf_sys (stcp_app_send sd src len)" "keeps wf_sys (stcp_fin_received sd)"
  unfolding stcp_app_recv_def stcp_app_send_def stcp_fin_received_def by (intro keeps_intros keeps_enqueue keeps_dequeue)+

lemma keeps_poll [keeps_intros]: "keeps wf_sys (poll_round E a b u)"
  unfolding poll_round_def by (intro keeps_intros, split poll_result.split, intro conjI allI impI keeps_intros)

lemma keeps_recv_round [keeps_intros]: "keeps wf_sys (recv_round n E p buf)"
  unfolding recv_round_def by (intro keeps_intros keeps_enqueue)

lemma keeps_transport_thread [keeps_intros]:
  "(\<And>sd active. keeps wf_sys (init sd active)) \<Longrightarrow> keeps wf_sys (transport_thread_func init p)"
  unfolding transport_thread_func_def by (intro keeps_intros keeps_enqueue)


section \<open>Reachable states\<close>

text \<open>What a thread of the process may call, with its arguments; \<open>run_call\<close> drops the value.\<close>

datatype call =
    Do_mysocket bool | Do_mybind int sockaddr int | Do_myconnect int sockaddr nat | Do_myaccept int
  | Do_mylisten int int | Do_myclose int | Do_mywrite int "byte list" nat | Do_myread int nat
  | Do_mygetsockname int | Do_mygetpeername int nat | Do_mylocalip "32 word"
  | Do_unblock_application errno int | Do_wait_for_event int "32 word" bool
  | Do_set_context int "nat option" | Do_get_context int
  | Do_network_recv int "64 word" nat | Do_network_send int "64 word" "byte list" nat "(byte list \<times> nat) list"
  | Do_app_recv int nat | Do_app_send int "byte list" nat | Do_fin_received int
  | Do_recv_round nat ptr "byte list"        \<comment> \<open>a round of \<open>network_recv_thread_func\<close>\<close>
  | Do_transport_returns errno ptr           \<comment> \<open>\<open>transport_thread_func\<close> when \<open>transport_init\<close> is over\<close>

abbreviation void :: "('s, 'a) prog \<Rightarrow> ('s, unit) prog" where
  "void m \<equiv> bind m (\<lambda>_. ret ())"

fun run_call :: "'os env \<Rightarrow> call \<Rightarrow> ('os sys, unit) prog" where
  "run_call E (Do_mysocket reliable) = void (mysocket E reliable)"
| "run_call E (Do_mybind sd addr addrlen) = void (mybind E sd addr addrlen)"
| "run_call E (Do_myconnect sd addr addrlen) = void (myconnect E sd addr addrlen)"
| "run_call E (Do_myaccept sd) = void (myaccept sd)"
| "run_call E (Do_mylisten sd backlog) = void (mylisten E sd backlog)"
| "run_call E (Do_myclose sd) = void (myclose E sd)"
| "run_call E (Do_mywrite sd buf len) = void (mywrite sd buf len)"
| "run_call E (Do_myread sd len) = void (myread sd len)"
| "run_call E (Do_mygetsockname sd) = void (mygetsockname E sd)"
| "run_call E (Do_mygetpeername sd len) = void (mygetpeername E sd len)"
| "run_call E (Do_mylocalip peer) = void (mylocalip E peer)"
| "run_call E (Do_unblock_application err sd) = stcp_unblock_application err sd"
| "run_call E (Do_wait_for_event sd flags timed_out) = void (stcp_wait_for_event sd flags timed_out)"
| "run_call E (Do_set_context sd st) = stcp_set_context sd st"
| "run_call E (Do_get_context sd) = void (stcp_get_context sd)"
| "run_call E (Do_network_recv sd dst len) = void (stcp_network_recv E sd dst len)"
| "run_call E (Do_network_send sd addr src len segs) = void (stcp_network_send E sd addr src len segs)"
| "run_call E (Do_app_recv sd len) = void (stcp_app_recv sd len)"
| "run_call E (Do_app_send sd src len) = stcp_app_send sd src len"
| "run_call E (Do_fin_received sd) = stcp_fin_received sd"
| "run_call E (Do_recv_round n p buf) = void (recv_round n E p buf)"
| "run_call E (Do_transport_returns err p) = void (transport_thread_func (\<lambda>_ _. ret (Some err)) p)"

text \<open>
  A call that returns, a call that waits (it starts again from what it left), the end of a thread, and
  whatever the rest of the system does.
\<close>

inductive sys_step :: "'os env \<Rightarrow> 'os sys \<Rightarrow> 'os sys \<Rightarrow> bool" for E where
  returns: "run_call E call s = Done () s' \<Longrightarrow> sys_step E s s'"
| waits: "run_call E call s = Blocked s' \<Longrightarrow> sys_step E s s'"
| thread_ends: "t < length (threads s) \<Longrightarrow> sys_step E s (s\<lparr>threads := (threads s)[t := (threads s ! t)\<lparr>exited := True\<rparr>]\<rparr>)"
| system: "sys_step E s (s\<lparr>os := w\<rparr>)"

inductive reachable :: "'os env \<Rightarrow> 'os sys \<Rightarrow> bool" for E where
  start: "reachable E (init_sys w)"
| step: "reachable E s \<Longrightarrow> sys_step E s s' \<Longrightarrow> reachable E s'"

inductive_cases sys_stepE: "sys_step E s s'"

lemma keeps_call: "keeps wf_sys (run_call E call)"
  by (cases call) (simp_all only: run_call.simps, (intro keeps_intros)+)

lemma wf_sys_unseen [simp]: "wf_sys (s\<lparr>threads := ts\<rparr>) = wf_sys s" "wf_sys (s\<lparr>os := w\<rparr>) = wf_sys s"
  by (simp_all add: wf_sys_def)

lemma step_wf_sys: "sys_step E s s' \<Longrightarrow> wf_sys s \<Longrightarrow> wf_sys s'"
  by (elim sys_stepE) (auto dest: keeps_Done [OF keeps_call] keeps_Blocked [OF keeps_call])

lemma reachable_wf_sys: "reachable E s \<Longrightarrow> wf_sys s"
  by (induction rule: reachable.induct) (auto intro: step_wf_sys)

text \<open>C9: The invariant of the process between calls. Take any state that the application, the transport layer of
  any connection, the receive threads and the operating system can reach together, in any order of calls with any
  arguments, from the state the process starts in, when the calls do not overlap: each runs to its end, or to the wait it
  sleeps in, before the next begins. (Overlapping calls can break the invariant: \<open>descriptor_claimed_twice\<close> for the
  descriptor table, which no lock protects, and \<open>second_reader_breaks_queue\<close> for a queue with two readers.) Every entry of the
  descriptor table points to a live context with that descriptor, every live context is entered in the
  table at its descriptor (no context is lost and none is shared), its three queues are well-formed linked
  lists, its socket layer state is there and points back to it, what it saved for reordering fits its
  buffer, and the table of listening sockets is a well-formed hash table.\<close>

theorem reachable_process_well_formed:
  assumes "reachable E s"
  shows "length (global_ctx s) = 64
    \<and> (\<forall>sd < 64. \<forall>p. global_ctx s ! sd = Some p \<longrightarrow> (\<exists>c. hload (ctxs s) p = Some c \<and> my_sd c = int sd))
    \<and> (\<forall>p c. hload (ctxs s) p = Some c \<longrightarrow> 0 \<le> my_sd c \<and> my_sd c < 64 \<and> global_ctx s ! nat (my_sd c) = Some p
         \<and> wf_queue (network_recv_queue c) \<and> wf_queue (app_send_queue c) \<and> wf_queue (app_recv_queue c)
         \<and> map_option sock_ctx (impl c) = Some p
         \<and> length (copy_buffer (network_state c)) = MAX_IP_PAYLOAD_LEN \<and> copy_buf_len (network_state c) \<le> MAX_IP_PAYLOAD_LEN)
    \<and> wf_table hash_default_hash_fn 64 (listen_table s)"
proof -
  from reachable_wf_sys [OF assms] have wf: "wf_descriptors (global_ctx s) (ctxs s)"
    and t: "wf_table hash_default_hash_fn 64 (listen_table s)" by (simp_all add: wf_sys_def)
  show ?thesis using wf_descriptors_length [OF wf] wf_descriptors_entry [OF wf] wf_descriptors_live [OF wf] t
    by (simp add: wf_ctx_def) blast
qed

theorem reachable_process_well_formed_witness:
  "\<exists>s c. reachable sample_env s \<and> global_ctx s ! 0 = Some 0 \<and> hload (ctxs s) 0 = Some c \<and> wf_queue (app_send_queue c)"
proof -
  have "os_grants sample_env (os (init_sys 3)) 3 4 5 6" "free_slot (global_ctx (init_sys 3)) 0 = Some 0"
    by (simp_all add: os_grants_def sample_env_def init_sys_def replicate_64)
  from new_mysocket_free [OF this, of True] have
    "run_call sample_env (Do_mysocket True) (init_sys 3) = Done () ((init_sys 3)\<lparr>os := 6, global_ctx := (global_ctx (init_sys 3 :: nat sys))[0 := Some 0],
      ctxs := [Some (fresh_context 0 3 4 5 True 0)]\<rparr>)" by (simp add: mysocket_def run_simps init_sys_def)
  from reachable.step [OF reachable.start sys_step.returns [OF this]] obtain s :: "nat sys" where
    s: "reachable sample_env s" "global_ctx s ! 0 = Some 0" "hload (ctxs s) 0 = Some (fresh_context 0 3 4 5 True 0)"
    by (simp add: init_sys_def hload_def)
  with reachable_process_well_formed [OF s(1)] show ?thesis by blast
qed

end
