(* ===== verification/Safety_Logic.thy ===== *)
theory Safety_Logic
  imports Process_Invariant
begin

text \<open>
  What keeps the process from touching memory that is not there, as an invariant, and a small
  program logic over it. \<open>safe P m Q\<close>: from a state with \<open>P\<close> the program \<open>m\<close> returns in a state
  with \<open>Q\<close>, waits in a state with the invariant, or ends at a failed assertion; it never ends at
  NULL, at a freed object, outside a buffer or at a variable without a value. What a program knows
  of the state between two steps is a set of claims (\<open>given C\<close>): a context is alive, has this
  descriptor, listens, has no thread; the rules say which claims each step needs, adds and drops.
  Memory\_Safety applies them to every operation.
\<close>

named_theorems safe_rules \<open>rules for programs, by their first step\<close>
named_theorems pure_rules \<open>rules for programs that leave the state alone\<close>
named_theorems pure_ops \<open>operations that leave the state alone\<close>

section \<open>The invariant\<close>

text \<open>A context that listens or knows the address of a peer; only such a context has threads.\<close>

definition has_peer :: "mysock_context \<Rightarrow> bool" where
  "has_peer c \<longleftrightarrow> listening c \<or> peer_addr_len (network_state c) \<noteq> 0"

text \<open>The receive thread a context remembers, and whether it is to be joined.\<close>

definition recv_of :: "mysock_context \<Rightarrow> (nat \<times> bool) option" where
  "recv_of c = map_option (\<lambda>i. (recv_thread i, recv_thread_started i)) (impl c)"

definition ctx_ok :: "ptr \<Rightarrow> mysock_context \<Rightarrow> bool" where
  "ctx_ok p c \<longleftrightarrow> wf_ctx p c \<and> (\<forall>b \<in> set (contents (network_recv_queue c)). length b \<le> MAX_IP_PAYLOAD_LEN)
     \<and> (transport_thread_started c \<or> map_option snd (recv_of c) = Some True \<longrightarrow> has_peer c)"

text \<open>Thread number t is the one that myclose on context c will join.\<close>

definition recorded :: "nat \<Rightarrow> thread_func \<Rightarrow> mysock_context \<Rightarrow> bool" where
  "recorded t f c \<longleftrightarrow> (case f of
       Transport_thread_func \<Rightarrow> transport_thread_started c \<and> transport_thread c = t
     | Network_recv_thread_func \<Rightarrow> recv_of c = Some (t, True))"

definition threads_ok :: "thread list \<Rightarrow> mysock_context heap \<Rightarrow> bool" where
  "threads_ok ts h \<longleftrightarrow> (\<forall>t < length ts. \<not> exited (ts ! t) \<longrightarrow>
     (\<exists>c. hload h (arg (ts ! t)) = Some c \<and> recorded t (entry (ts ! t)) c))"

text \<open>A connection queue whose pointers point into its array; a descriptor on which nobody listens.\<close>

definition queue_fit :: "listen_queue \<Rightarrow> bool" where
  "queue_fit q \<longleftrightarrow> lq_max_len q \<le> length (connection_queue q)
     \<and> (\<forall>(b, k) \<in> set (completed_queue q). b = queue_block q \<and> k < length (connection_queue q))"

definition unlistened :: "mysock_context heap \<Rightarrow> int \<Rightarrow> bool" where
  "unlistened h d \<longleftrightarrow> (\<forall>p c. hload h p = Some c \<and> listening c \<longrightarrow> my_sd c \<noteq> d)"

text \<open>Every queue belongs to a live listening context, and none of its connections listens.\<close>

definition listeners_ok :: "(int \<rightharpoonup> listen_queue) \<Rightarrow> mysock_context heap \<Rightarrow> bool" where
  "listeners_ok m h \<longleftrightarrow> (\<forall>d q. m d = Some q \<longrightarrow>
     (\<exists>p c. hload h p = Some c \<and> my_sd c = d \<and> listening c \<and> bound c) \<and> queue_fit q
     \<and> (\<forall>r \<in> set (connection_queue q). unlistened h (req_sd r)))"

definition safe_inv :: "'os sys \<Rightarrow> bool" where
  "safe_inv s \<longleftrightarrow> wf_sys s \<and> (\<forall>p c. hload (ctxs s) p = Some c \<longrightarrow> ctx_ok p c)
     \<and> threads_ok (threads s) (ctxs s) \<and> listeners_ok (listen_map s) (ctxs s)"

lemma safe_invD:
  assumes "safe_inv s"
  shows "wf_sys s" "hload (ctxs s) p = Some c \<Longrightarrow> ctx_ok p c" "threads_ok (threads s) (ctxs s)" "listeners_ok (listen_map s) (ctxs s)"
  using assms by (simp_all add: safe_inv_def)

lemma safe_inv_init: "safe_inv (init_sys w)"
proof -
  have "listen_map (init_sys w) = Map.empty" by (simp add: listen_map_def init_sys_def)
  then show ?thesis by (simp add: safe_inv_def threads_ok_def listeners_ok_def) (simp add: init_sys_def heap_simps)
qed

section \<open>Claims\<close>

datatype fact = Alive | Descriptor int | Listening | Bound | Plain | Unstarted_recv | Unstarted_transport | Peered

fun fact_holds :: "fact \<Rightarrow> mysock_context \<Rightarrow> bool" where
  "fact_holds Alive c = True"
| "fact_holds (Descriptor d) c = (my_sd c = d)"
| "fact_holds Listening c = listening c"
| "fact_holds Bound c = bound c"
| "fact_holds Plain c = (\<not> listening c)"
| "fact_holds Unstarted_recv c = (map_option snd (recv_of c) \<noteq> Some True)"
| "fact_holds Unstarted_transport c = (\<not> transport_thread_started c)"
| "fact_holds Peered c = has_peer c"

datatype claim = At ptr fact | Unlistened int

fun claim_holds :: "mysock_context heap \<Rightarrow> claim \<Rightarrow> bool" where
  "claim_holds h (At p f) = (\<exists>c. hload h p = Some c \<and> fact_holds f c)"
| "claim_holds h (Unlistened d) = unlistened h d"

definition given :: "claim set \<Rightarrow> 'os sys \<Rightarrow> bool" where
  "given C s \<longleftrightarrow> safe_inv s \<and> (\<forall>x \<in> C. claim_holds (ctxs s) x)"

text \<open>Some claim says that p is alive; and all that a context says of itself.\<close>

definition known :: "claim set \<Rightarrow> ptr \<Rightarrow> bool" where
  "known C p \<longleftrightarrow> (\<exists>f. At p f \<in> C)"

definition seen :: "ptr \<Rightarrow> mysock_context \<Rightarrow> claim set" where
  "seen p c = {At p f |f. fact_holds f c}"

lemma seen_iff [simp]: "At q f \<in> seen p c \<longleftrightarrow> q = p \<and> fact_holds f c" and seen_Unlistened [simp]: "Unlistened d \<notin> seen p c"
  by (auto simp: seen_def)

lemma known_seen [simp]: "known (seen p c \<union> C) p" "known C q \<Longrightarrow> known (seen p c \<union> C) q"
  and known_insert [simp]: "known (insert (At p f) C) p" "known C q \<Longrightarrow> known (insert x C) q"
  and known_At: "At p f \<in> C \<Longrightarrow> known C p"
  and known_mono: "known C p \<Longrightarrow> C \<subseteq> D \<Longrightarrow> known D p"
  and known_un [simp]: "known D q \<Longrightarrow> known (C \<union> D) q"
  by (auto simp: known_def intro: exI [of _ Alive])

lemma ctx_ok_impl: "ctx_ok p c \<Longrightarrow> impl c \<noteq> None \<and> (\<forall>i. impl c = Some i \<longrightarrow> sock_ctx i = p)"
  by (auto simp: ctx_ok_def wf_ctx_def)

lemma given_mono: "given C s \<Longrightarrow> D \<subseteq> C \<Longrightarrow> given D s"
  by (auto simp: given_def)

lemma given_knownE:
  assumes "given C s" "known C p"
  obtains c where "hload (ctxs s) p = Some c" "ctx_ok p c"
  using assms by (auto simp: given_def known_def safe_inv_def) fastforce

lemma given_at: "given C s \<Longrightarrow> At p f \<in> C \<Longrightarrow> hload (ctxs s) p = Some c \<Longrightarrow> fact_holds f c"
  by (auto simp: given_def)

lemma given_inv: "given C s \<Longrightarrow> safe_inv s"
  by (simp add: given_def)

lemma given_claim: "given C s \<Longrightarrow> x \<in> C \<Longrightarrow> claim_holds (ctxs s) x"
  by (simp add: given_def)

lemma given_seen: "given C s \<Longrightarrow> hload (ctxs s) p = Some c \<Longrightarrow> given (seen p c \<union> C) s"
  by (auto simp: given_def seen_def)

section \<open>Steps of one context\<close>

text \<open>What an operation may do to a context, threads and listening apart.\<close>

definition ctx_step :: "ptr \<Rightarrow> mysock_context \<Rightarrow> mysock_context \<Rightarrow> bool" where
  "ctx_step p c c' \<longleftrightarrow> ctx_ok p c' \<and> my_sd c' = my_sd c \<and> listening c' = listening c \<and> (bound c \<longrightarrow> bound c')
     \<and> transport_thread c' = transport_thread c \<and> transport_thread_started c' = transport_thread_started c
     \<and> recv_of c' = recv_of c \<and> (has_peer c \<longrightarrow> has_peer c')"

lemma ctx_step_refl: "ctx_ok p c \<Longrightarrow> ctx_step p c c"
  by (simp add: ctx_step_def)

lemma ctx_step_fact: "ctx_step p c c' \<Longrightarrow> fact_holds f c \<Longrightarrow> fact_holds f c'"
  by (cases f) (auto simp: ctx_step_def)

lemma store_load: "hload h p = Some c \<Longrightarrow> hload (hstore h p c') q = (if q = p then Some c' else hload h q)"
  using hload_bound [of h p c] by (simp add: heap_simps)

lemma unlistened_store:
  "unlistened h d \<Longrightarrow> hload h p = Some c \<Longrightarrow> listening c' \<longrightarrow> listening c \<and> my_sd c' = my_sd c \<Longrightarrow> unlistened (hstore h p c') d"
  by (auto simp: unlistened_def store_load split: if_splits)

lemma claim_store:
  assumes "claim_holds h x" "hload h p = Some c" "\<And>f. fact_holds f c \<Longrightarrow> x = At p f \<Longrightarrow> fact_holds f c'"
    "listening c' \<longrightarrow> listening c \<and> my_sd c' = my_sd c"
  shows "claim_holds (hstore h p c') x"
  using assms unlistened_store [OF _ assms(2,4)] by (cases x) (auto simp: store_load)

text \<open>A change of a context that leaves the threads and the table of listening sockets true.\<close>

lemma safe_inv_store:
  assumes s: "safe_inv s" and c: "hload (ctxs s) p = Some c" and ok: "ctx_ok p c'" "my_sd c' = my_sd c"
    and l: "listening c' = listening c" "bound c \<longrightarrow> bound c'"
    and t: "threads_ok ts (hstore (ctxs s) p c')"
  shows "safe_inv (s\<lparr>threads := ts, ctxs := hstore (ctxs s) p c'\<rparr>)"
proof -
  have wf: "wf_sys (s\<lparr>ctxs := hstore (ctxs s) p c'\<rparr>)"
    using wf_sys_store [OF safe_invD(1) [OF s] c] ok by (simp add: ctx_ok_def)
  have "listeners_ok (listen_map s) (hstore (ctxs s) p c')"
    unfolding listeners_ok_def
  proof (intro allI impI conjI ballI)
    fix d q assume d: "listen_map s d = Some q"
    note L = safe_invD(4) [OF s, unfolded listeners_ok_def, rule_format, OF d]
    show "queue_fit q" using L by blast
    from L obtain r b where "hload (ctxs s) r = Some b" "my_sd b = d" "listening b" "bound b" by blast
    then show "\<exists>p' b. hload (hstore (ctxs s) p c') p' = Some b \<and> my_sd b = d \<and> listening b \<and> bound b"
      using c ok(2) l by (cases "r = p") (auto simp: store_load)
    show "unlistened (hstore (ctxs s) p c') (req_sd r)" if "r \<in> set (connection_queue q)" for r
      using L that unlistened_store [OF _ c, of _ c'] ok(2) l(1) by blast
  qed
  moreover have "listen_map (s\<lparr>threads := ts, ctxs := hstore (ctxs s) p c'\<rparr>) = listen_map s" by (simp add: listen_map_def)
  moreover have "ctx_ok q d" if "hload (hstore (ctxs s) p c') q = Some d" for q d
    using that safe_invD(2) [OF s] ok(1) c by (auto simp: store_load split: if_splits)
  moreover have "wf_sys (s\<lparr>threads := ts, ctxs := hstore (ctxs s) p c'\<rparr>)" using wf by (simp add: wf_sys_def)
  ultimately show ?thesis using t by (simp add: safe_inv_def)
qed

lemma threads_ok_store:
  assumes "threads_ok ts h" "hload h p = Some c" "\<And>t f. recorded t f c \<Longrightarrow> recorded t f c'"
  shows "threads_ok ts (hstore h p c')"
  unfolding threads_ok_def
proof (intro allI impI)
  fix t assume "t < length ts" "\<not> exited (ts ! t)"
  with assms(1) obtain d where "hload h (arg (ts ! t)) = Some d" "recorded t (entry (ts ! t)) d" unfolding threads_ok_def by blast
  with assms(2,3) show "\<exists>c. hload (hstore h p c') (arg (ts ! t)) = Some c \<and> recorded t (entry (ts ! t)) c"
    by (cases "arg (ts ! t) = p") (auto simp: store_load)
qed

lemma given_step:
  assumes "given C s" "hload (ctxs s) p = Some c" "ctx_step p c c'"
  shows "given C (s\<lparr>ctxs := hstore (ctxs s) p c'\<rparr>)"
proof -
  have s: "safe_inv s" and C: "\<forall>x \<in> C. claim_holds (ctxs s) x" using assms(1) by (simp_all add: given_def)
  have st: "ctx_ok p c'" "my_sd c' = my_sd c" "listening c' = listening c" "bound c \<longrightarrow> bound c'"
    using assms(3) by (simp_all add: ctx_step_def)
  have "recorded t f c \<Longrightarrow> recorded t f c'" for t f
    using assms(3) by (cases f) (auto simp: recorded_def ctx_step_def)
  from threads_ok_store [OF safe_invD(3) [OF s] assms(2) this]
  have "safe_inv (s\<lparr>threads := threads s, ctxs := hstore (ctxs s) p c'\<rparr>)" by (intro safe_inv_store [OF s assms(2) st])
  moreover have "claim_holds (hstore (ctxs s) p c') x" if "x \<in> C" for x
    using C that claim_store [OF _ assms(2), of x c'] ctx_step_fact [OF assms(3)] st by blast
  ultimately show ?thesis by (simp add: given_def)
qed

section \<open>Triples\<close>

definition asserted :: "fault \<Rightarrow> bool" where
  "asserted e \<longleftrightarrow> (\<exists>file line. e = Assertion file line)"

lemma asserted_Assertion [simp]: "asserted (Assertion file line)"
  by (simp add: asserted_def)

definition safe :: "('os sys \<Rightarrow> bool) \<Rightarrow> ('os sys, 'a) prog \<Rightarrow> ('a \<Rightarrow> 'os sys \<Rightarrow> bool) \<Rightarrow> bool" where
  "safe P m Q \<longleftrightarrow> (\<forall>s. P s \<longrightarrow> (case m s of
     Done a s' \<Rightarrow> Q a s' | Blocked s' \<Rightarrow> safe_inv s' | Abort e \<Rightarrow> asserted e))"

text \<open>A program that leaves the state alone, with what holds of its value.\<close>

definition pure_safe :: "('s, 'a) prog \<Rightarrow> ('a \<Rightarrow> bool) \<Rightarrow> bool" where
  "pure_safe m R \<longleftrightarrow> (\<forall>s. case m s of Done a s' \<Rightarrow> s' = s \<and> R a | Blocked s' \<Rightarrow> s' = s | Abort e \<Rightarrow> asserted e)"

text \<open>A program on context p that takes it through an ordinary step; what holds of its value.\<close>

definition local_safe :: "ptr \<Rightarrow> (mysock_context \<Rightarrow> bool) \<Rightarrow> (mysock_context, 'a) prog \<Rightarrow> ('a \<Rightarrow> bool) \<Rightarrow> bool" where
  "local_safe p G m R \<longleftrightarrow> (\<forall>c. ctx_ok p c \<and> G c \<longrightarrow> (case m c of
     Done a c' \<Rightarrow> ctx_step p c c' \<and> R a | Blocked c' \<Rightarrow> ctx_step p c c' | Abort e \<Rightarrow> asserted e))"

lemma safeD: "safe P m Q \<Longrightarrow> P s \<Longrightarrow> case m s of Done a s' \<Rightarrow> Q a s' | Blocked s' \<Rightarrow> safe_inv s' | Abort e \<Rightarrow> asserted e"
  by (simp add: safe_def)

lemma safe_cons: "safe P' m Q' \<Longrightarrow> (\<And>s. P s \<Longrightarrow> P' s) \<Longrightarrow> (\<And>a s. Q' a s \<Longrightarrow> Q a s) \<Longrightarrow> safe P m Q"
  by (fastforce simp: safe_def split: outcome.splits)

lemma safe_pre: "safe (given C') m Q \<Longrightarrow> C' \<subseteq> C \<Longrightarrow> safe (given C) m Q"
  by (erule safe_cons) (auto intro: given_mono)

lemma safe_bind: "safe P m R \<Longrightarrow> (\<And>a. safe (R a) (f a) Q) \<Longrightarrow> safe P (bind m f) Q"
  by (fastforce simp: safe_def run_simps split: outcome.splits)

lemma safe_step: "safe P m (\<lambda>_. P) \<Longrightarrow> (\<And>a. safe P (f a) Q) \<Longrightarrow> safe P (bind m f) Q"
  by (rule safe_bind)

lemma safe_step_value: "safe P m (\<lambda>a s. P s \<and> R a) \<Longrightarrow> (\<And>a. R a \<Longrightarrow> safe P (f a) Q) \<Longrightarrow> safe P (bind m f) Q"
  by (fastforce simp: safe_def run_simps split: outcome.splits)

lemma pure_safeD:
  "pure_safe m R \<Longrightarrow> case m s of Done a s' \<Rightarrow> s' = s \<and> R a | Blocked s' \<Rightarrow> s' = s | Abort e \<Rightarrow> asserted e"
  unfolding pure_safe_def by (rule spec)

lemma safe_of_pure:
  assumes "pure_safe m R" "\<And>a s. P s \<Longrightarrow> R a \<Longrightarrow> Q a s" "\<And>s. P s \<Longrightarrow> safe_inv s"
  shows "safe P m Q"
  unfolding safe_def
proof (intro allI impI)
  fix s assume "P s"
  with pure_safeD [OF assms(1), of s] assms(2,3)
  show "case m s of Done a s' \<Rightarrow> Q a s' | Blocked s' \<Rightarrow> safe_inv s' | Abort e \<Rightarrow> asserted e" by (cases "m s") auto
qed

lemma safe_pure: "pure_safe m R \<Longrightarrow> (\<And>a. R a \<Longrightarrow> safe (given C) (f a) Q) \<Longrightarrow> safe (given C) (bind m f) Q"
  by (rule safe_step_value [where R = R], rule safe_of_pure [where R = R]) (auto simp: given_def)

lemma safe_pure_last: "pure_safe m R \<Longrightarrow> D \<subseteq> C \<Longrightarrow> safe (given C) m (\<lambda>_. given D)"
  by (rule safe_of_pure [where R = R]) (auto intro: given_mono dest: given_inv)

subsection \<open>Combinators\<close>

lemma safe_ret [safe_rules]: "D \<subseteq> C \<Longrightarrow> safe (given C) (ret a) (\<lambda>_. given D)"
  and safe_ret_at: "D' a \<subseteq> C \<Longrightarrow> safe (given C) (ret a) (\<lambda>a. given (D' a))"
  and safe_abort [safe_rules]: "asserted e \<Longrightarrow> safe P (abort e) Q"
  and safe_block [safe_rules]: "safe (given C) block Q"
  by (auto simp: safe_def run_simps intro: given_mono given_inv)

lemma safe_ret_value [safe_rules]: "D \<subseteq> C \<Longrightarrow> R a \<Longrightarrow> safe (given C) (ret a) (\<lambda>a s. given D s \<and> R a)"
  by (auto simp: safe_def run_simps intro: given_mono)

lemma safe_if [safe_rules]: "(b \<Longrightarrow> safe P m Q) \<Longrightarrow> (\<not> b \<Longrightarrow> safe P n Q) \<Longrightarrow> safe P (if b then m else n) Q"
  by simp

lemma safe_option [safe_rules]:
  "(x = None \<Longrightarrow> safe P m Q) \<Longrightarrow> (\<And>a. x = Some a \<Longrightarrow> safe P (f a) Q) \<Longrightarrow> safe P (case x of None \<Rightarrow> m | Some a \<Rightarrow> f a) Q"
  by (cases x) simp_all

lemma safe_sum [safe_rules]:
  "(\<And>a. x = Inl a \<Longrightarrow> safe P (f a) Q) \<Longrightarrow> (\<And>b. x = Inr b \<Longrightarrow> safe P (g b) Q) \<Longrightarrow> safe P (case x of Inl a \<Rightarrow> f a | Inr b \<Rightarrow> g b) Q"
  by (cases x) simp_all

lemma safe_list [safe_rules]:
  "(xs = [] \<Longrightarrow> safe P m Q) \<Longrightarrow> (\<And>y ys. xs = y # ys \<Longrightarrow> safe P (f y ys) Q) \<Longrightarrow> safe P (case xs of [] \<Rightarrow> m | y # ys \<Rightarrow> f y ys) Q"
  by (cases xs) simp_all

lemma safe_prod [safe_rules]: "(\<And>a b. x = (a, b) \<Longrightarrow> safe P (f a b) Q) \<Longrightarrow> safe P (case x of (a, b) \<Rightarrow> f a b) Q"
  by (cases x) simp

lemma safe_assert [safe_rules]: "(b \<Longrightarrow> safe P (f ()) Q) \<Longrightarrow> safe P (bind (assert_at file line b) f) Q"
  and safe_assert_last: "D \<subseteq> C \<Longrightarrow> safe (given C) (assert_at file line b) (\<lambda>_. given D)"
  by (auto simp: safe_def run_simps intro: given_mono)

text \<open>A check of the model, such as one of a bound: when it fails, it is an assertion of the code or a contradiction.\<close>

lemma safe_check [safe_rules]:
  "(b \<Longrightarrow> asserted e) \<Longrightarrow> (\<not> b \<Longrightarrow> safe P (f a) Q) \<Longrightarrow> safe P (bind (if b then abort e else ret a) f) Q"
  "(\<not> b \<Longrightarrow> asserted e) \<Longrightarrow> (b \<Longrightarrow> safe P (f a) Q) \<Longrightarrow> safe P (bind (if b then ret a else abort e) f) Q"
  by (simp_all add: safe_def run_simps)

lemma safe_the_or [safe_rules]:
  "(x = None \<Longrightarrow> asserted e) \<Longrightarrow> (\<And>a. x = Some a \<Longrightarrow> safe P (f a) Q) \<Longrightarrow> safe P (bind (the_or e x) f) Q"
  by (auto simp: safe_def run_simps split: option.splits)

lemma safe_gets [safe_rules]: "(\<And>a. safe P (f a) Q) \<Longrightarrow> safe P (bind (gets g) f) Q"
  by (simp add: safe_def run_simps)

subsection \<open>Programs that leave the state alone\<close>

lemma pure_ret [pure_rules]: "R a \<Longrightarrow> pure_safe (ret a) R"
  and pure_abort [pure_rules]: "asserted e \<Longrightarrow> pure_safe (abort e) R"
  and pure_block [pure_rules]: "pure_safe block R"
  and pure_the_or_last [pure_rules]: "(x = None \<Longrightarrow> asserted e) \<Longrightarrow> (\<And>a. x = Some a \<Longrightarrow> R a) \<Longrightarrow> pure_safe (the_or e x) R"
  by (auto simp: pure_safe_def run_simps split: option.splits)

lemma pure_assert_last [pure_rules]: "(b \<Longrightarrow> R ()) \<Longrightarrow> pure_safe (assert_at file line b) R"
  by (simp add: pure_safe_def run_simps)

lemma pure_assert [pure_rules]: "(b \<Longrightarrow> pure_safe (f ()) R) \<Longrightarrow> pure_safe (bind (assert_at file line b) f) R"
  and pure_gets [pure_rules]: "(\<And>a. pure_safe (g a) R) \<Longrightarrow> pure_safe (bind (gets h) g) R"
  by (simp_all add: pure_safe_def run_simps)

lemma pure_the_or [pure_rules]:
  "(x = None \<Longrightarrow> asserted e) \<Longrightarrow> (\<And>a. x = Some a \<Longrightarrow> pure_safe (f a) R) \<Longrightarrow> pure_safe (bind (the_or e x) f) R"
  by (auto simp: pure_safe_def run_simps split: option.splits)

lemma pure_if [pure_rules]: "(b \<Longrightarrow> pure_safe m R) \<Longrightarrow> (\<not> b \<Longrightarrow> pure_safe n R) \<Longrightarrow> pure_safe (if b then m else n) R"
  by simp

lemma pure_bind: "pure_safe m S \<Longrightarrow> (\<And>a. S a \<Longrightarrow> pure_safe (f a) R) \<Longrightarrow> pure_safe (bind m f) R"
  by (fastforce simp: pure_safe_def run_simps split: outcome.splits)

subsection \<open>Contexts\<close>

lemma safe_get_ctx [safe_rules]:
  fixes Q :: "'a \<Rightarrow> 'os sys \<Rightarrow> bool"
  assumes "known C p"
    "\<And>c. ctx_ok p c \<Longrightarrow> impl c \<noteq> None \<and> (\<forall>i. impl c = Some i \<longrightarrow> sock_ctx i = p) \<Longrightarrow> safe (given (seen p c \<union> C)) (f c) Q"
  shows "safe (given C) (bind (get_ctx file line p) f) Q"
  unfolding safe_def
proof (intro allI impI)
  fix s :: "'os sys" assume s: "given C s"
  from given_knownE [OF s assms(1)] obtain c where c: "hload (ctxs s) p = Some c" "ctx_ok p c" .
  from safeD [OF assms(2) [OF c(2) ctx_ok_impl [OF c(2)]] given_seen [OF s c(1)]] c(1)
  show "case bind (get_ctx file line p) f s of Done a s' \<Rightarrow> Q a s' | Blocked s' \<Rightarrow> safe_inv s' | Abort e \<Rightarrow> asserted e"
    by (simp add: run_simps)
qed

lemma safe_on_ctx:
  assumes "local_safe p G m R" "known C p" "\<And>c. (\<And>f. At p f \<in> C \<Longrightarrow> fact_holds f c) \<Longrightarrow> G c"
  shows "safe (given C) (on_ctx file line p m) (\<lambda>a s. given C s \<and> R a)"
  unfolding safe_def
proof (intro allI impI)
  fix s assume s: "given C s"
  from given_knownE [OF s assms(2)] obtain c where c: "hload (ctxs s) p = Some c" "ctx_ok p c" .
  have "G c" using given_at [OF s _ c(1)] by (rule assms(3))
  with assms(1) c(2) have st: "case m c of Done a c' \<Rightarrow> ctx_step p c c' \<and> R a | Blocked c' \<Rightarrow> ctx_step p c c' | Abort e \<Rightarrow> asserted e"
    by (simp add: local_safe_def)
  show "case on_ctx file line p m s of Done a s' \<Rightarrow> given C s' \<and> R a | Blocked s' \<Rightarrow> safe_inv s' | Abort e \<Rightarrow> asserted e"
    using st given_step [OF s c(1)] given_inv c(1) by (cases "m c") (auto simp: on_ctx_def)
qed

lemma safe_local [safe_rules]:
  assumes "local_safe p (\<lambda>_. True) m (\<lambda>_. True)" "known C p" "D \<subseteq> C"
  shows "safe (given C) (on_ctx file line p m) (\<lambda>_. given D)"
  by (rule safe_cons [OF safe_on_ctx [OF assms(1,2)]]) (use assms(3) in \<open>auto intro: given_mono\<close>)

lemma safe_local_value:
  assumes "local_safe p (\<lambda>_. True) m R" "known C p" "D \<subseteq> C"
  shows "safe (given C) (on_ctx file line p m) (\<lambda>a s. given D s \<and> R a)"
  by (rule safe_cons [OF safe_on_ctx [OF assms(1,2)]]) (use assms(3) in \<open>auto intro: given_mono\<close>)

text \<open>A write to fields of a context, in view of the claims about it.\<close>

lemma safe_modify:
  assumes "known C p" "\<And>c. ctx_ok p c \<Longrightarrow> (\<And>f. At p f \<in> C \<Longrightarrow> fact_holds f c) \<Longrightarrow> ctx_step p c (g c)" "D \<subseteq> C"
  shows "safe (given C) (on_ctx file line p (modify g)) (\<lambda>_. given D)"
proof -
  have "local_safe p (\<lambda>c. \<forall>f. At p f \<in> C \<longrightarrow> fact_holds f c) (modify g) (\<lambda>_. True)"
    using assms(2) by (simp add: local_safe_def run_simps)
  then show ?thesis by (rule safe_cons [OF safe_on_ctx [OF _ assms(1)]]) (use assms(3) in \<open>auto intro: given_mono\<close>)
qed

lemma safe_modify_listening:
  "At p Listening \<in> C \<Longrightarrow> (\<And>c. ctx_ok p c \<Longrightarrow> listening c \<Longrightarrow> ctx_step p c (g c)) \<Longrightarrow> D \<subseteq> C \<Longrightarrow>
   safe (given C) (on_ctx file line p (modify g)) (\<lambda>_. given D)"
  by (rule safe_modify) (fastforce simp: known_At)+

lemma local_modify [safe_rules]: "(\<And>c. ctx_ok p c \<Longrightarrow> ctx_step p c (g c)) \<Longrightarrow> local_safe p G (modify g) (\<lambda>_. True)"
  by (simp add: local_safe_def run_simps)

subsection \<open>The descriptor table and the operating system\<close>

lemma safe_get_context [safe_rules]:
  fixes Q :: "'a \<Rightarrow> 'os sys \<Rightarrow> bool"
  assumes "\<And>p. safe (given (insert (At p Alive) (insert (At p (Descriptor sd)) C))) (f (Some p)) Q"
  shows "safe (given C) (bind (mysock_get_context sd) f) Q"
  unfolding safe_def
proof (intro allI impI)
  fix s :: "'os sys" assume s: "given C s"
  then have w: "wf_sys s" by (simp add: given_def safe_inv_def)
  show "case bind (mysock_get_context sd) f s of Done a s' \<Rightarrow> Q a s' | Blocked s' \<Rightarrow> safe_inv s' | Abort e \<Rightarrow> asserted e"
  proof (cases "0 \<le> sd \<and> sd < 64 \<and> global_ctx s ! nat sd \<noteq> None")
    case True
    then obtain p where "open_socket sd p s" using w by (auto simp: open_socket_def)
    then obtain c where c: "hload (ctxs s) p = Some c" "my_sd c = sd" "mysock_get_context sd s = Done (Some p) s"
      using open_socket_context(1) by (blast elim: open_socketE)
    then have "given (insert (At p Alive) (insert (At p (Descriptor sd)) C)) s" using s by (simp add: given_def)
    from safeD [OF assms this] c(3) show ?thesis by (simp add: run_simps)
  next
    case False
    then show ?thesis by (auto simp: mysock_get_context_def verify_mysocket_descriptor_def run_simps)
  qed
qed

lemma safe_ctx_of [safe_rules]:
  assumes "\<And>p. safe (given (insert (At p Alive) (insert (At p (Descriptor sd)) C))) (f p) Q"
  shows "safe (given C) (bind (ctx_of file line sd) f) Q"
  unfolding ctx_of_def bind_assoc
  by (rule safe_get_context, rule safe_the_or, simp) (use assms in simp)

lemma safe_inv_os: "safe_inv (s\<lparr>os := w\<rparr>) = safe_inv s"
  by (simp add: safe_inv_def listen_map_def)

lemma given_os [simp]: "given C (s\<lparr>os := w\<rparr>) = given C s"
  by (simp add: given_def safe_inv_os)

lemma safe_syscall [safe_rules]: "D \<subseteq> C \<Longrightarrow> safe (given C) (syscall f) (\<lambda>_. given D)"
  and safe_os [safe_rules]: "D \<subseteq> C \<Longrightarrow> safe (given C) (modify (\<lambda>s. s\<lparr>os := g s\<rparr>)) (\<lambda>_. given D)"
  by (auto simp: safe_def run_simps intro: given_mono)

end
