(* ===== verification/Safety_Calls.thy ===== *)
theory Safety_Calls
  imports Safety_Logic
begin

text \<open>
  The rules of Safety\_Logic for what works on existing contexts: the queues, the network layer, and the calls
  of the two interfaces that move data, bind, and report.
\<close>

section \<open>Queues and fields of a context\<close>

lemmas ctx_simps = ctx_step_def ctx_ok_def wf_ctx_def upd_network_def upd_impl_def recv_of_def has_peer_def

lemma zoom_local:
  assumes "\<And>c. ctx_ok p c \<Longrightarrow> G c \<Longrightarrow> case m (get c) of
      Done a q \<Rightarrow> ctx_step p c (put q c) \<and> R a | Blocked q \<Rightarrow> ctx_step p c (put q c) | Abort e \<Rightarrow> asserted e"
  shows "local_safe p G (zoom get put m) R"
  using assms by (fastforce simp: local_safe_def zoom_def split: outcome.splits)

lemma enqueue_outcome:
  assumes "wf_queue q" "case x of None \<Rightarrow> n = 0 | Some buf \<Rightarrow> n \<le> length buf"
  obtains q' where "mysock_enqueue_buffer x n q = Done () q'" "wf_queue q'"
    "contents q' = contents q @ [case x of None \<Rightarrow> [] | Some buf \<Rightarrow> take n buf]"
proof (cases x)
  case None
  have "mysock_enqueue_buffer None 0 = mysock_enqueue_buffer (Some []) (length [])"
    by (simp add: mysock_enqueue_buffer_def assert_at_def)
  with pq.enq_spec [OF assms(1), of "[]"] None assms(2) that show ?thesis by auto
next
  case (Some buf)
  with enqueue_buffer_appends [OF assms(1), of n buf] assms(2) that show ?thesis by auto
qed

lemma dequeue_outcome:
  assumes "wf_queue q"
  shows "(contents q = [] \<and> mysock_dequeue_buffer n part q = Blocked q)
    \<or> (\<exists>b bs q' len x. contents q = b # bs \<and> mysock_dequeue_buffer n part q = Done (len, x) q' \<and> wf_queue q'
        \<and> (\<forall>y \<in> set (contents q'). y \<in> set bs \<or> length y \<le> length b)
        \<and> x = take n b \<and> (\<not> part \<longrightarrow> len = length b))"
proof (cases "contents q")
  case Nil
  then show ?thesis using pq.deq_wait [OF assms] by simp
next
  case (Cons b bs)
  show ?thesis
  proof (cases "part \<and> n < length b")
    case True
    then obtain q' where "mysock_dequeue_buffer n part q = Done (n, take n b) q'" "wf_queue q'" "contents q' = drop n b # bs"
      using pq.deq_part [OF assms Cons, of n] by auto
    with Cons True show ?thesis by auto
  next
    case False
    then obtain q' where "mysock_dequeue_buffer n part q = Done (length b, take n b) q'" "wf_queue q'" "contents q' = bs"
      using pq.deq_whole [OF assms Cons, of n part] by auto
    with Cons show ?thesis by auto
  qed
qed

lemma zoom_enqueue:
  assumes "case x of None \<Rightarrow> n = 0 | Some buf \<Rightarrow> n \<le> length buf" "\<And>c. ctx_ok p c \<Longrightarrow> wf_queue (get c)"
    "\<And>c q. ctx_ok p c \<Longrightarrow> wf_queue q \<Longrightarrow> contents q = contents (get c) @ [case x of None \<Rightarrow> [] | Some buf \<Rightarrow> take n buf] \<Longrightarrow> ctx_step p c (put q c)"
  shows "local_safe p G (zoom get put (mysock_enqueue_buffer x n)) (\<lambda>_. True)"
proof (rule zoom_local)
  fix c assume c: "ctx_ok p c"
  from assms(2) [OF c] assms(1) obtain q where "mysock_enqueue_buffer x n (get c) = Done () q" "wf_queue q"
    "contents q = contents (get c) @ [case x of None \<Rightarrow> [] | Some buf \<Rightarrow> take n buf]" by (rule enqueue_outcome)
  with assms(3) [OF c] show "case mysock_enqueue_buffer x n (get c) of
      Done a q \<Rightarrow> ctx_step p c (put q c) \<and> True | Blocked q \<Rightarrow> ctx_step p c (put q c) | Abort e \<Rightarrow> asserted e" by simp
qed

lemma local_enqueue [safe_rules]:
  assumes "case x of None \<Rightarrow> n = 0 | Some buf \<Rightarrow> n \<le> length buf"
  shows "local_safe p G (on_app_recv_queue (mysock_enqueue_buffer x n)) (\<lambda>_. True)"
    and "local_safe p G (on_app_send_queue (mysock_enqueue_buffer x n)) (\<lambda>_. True)"
    and "n \<le> 1500 \<Longrightarrow> local_safe p G (on_network_recv_queue (mysock_enqueue_buffer x n)) (\<lambda>_. True)"
  unfolding on_app_recv_queue_def on_app_send_queue_def on_network_recv_queue_def
  by (rule zoom_enqueue [OF assms]; simp add: ctx_simps split: option.split add: min_le_iff_disj)+

text \<open>The packet that \<open>_network_recv\<close> takes from the queue fits into a packet buffer.\<close>

lemma zoom_dequeue:
  assumes "\<And>c. ctx_ok p c \<Longrightarrow> wf_queue (get c) \<and> ctx_step p c (put (get c) c)"
    "\<And>c q b bs len. ctx_ok p c \<Longrightarrow> wf_queue q \<Longrightarrow> contents (get c) = b # bs \<Longrightarrow>
      \<forall>y \<in> set (contents q). y \<in> set bs \<or> length y \<le> length b \<Longrightarrow> \<not> part \<longrightarrow> len = length b \<Longrightarrow> ctx_step p c (put q c) \<and> R (len, take n b)"
  shows "local_safe p G (zoom get put (mysock_dequeue_buffer n part)) R"
proof (rule zoom_local)
  fix c assume c: "ctx_ok p c"
  from assms(1) [OF c] have w: "wf_queue (get c)" "ctx_step p c (put (get c) c)" by simp_all
  from dequeue_outcome [OF w(1), of n part] show "case mysock_dequeue_buffer n part (get c) of
      Done a q \<Rightarrow> ctx_step p c (put q c) \<and> R a | Blocked q \<Rightarrow> ctx_step p c (put q c) | Abort e \<Rightarrow> asserted e"
  proof (elim disjE exE conjE)
    fix b bs q len x
    assume q: "contents (get c) = b # bs" "mysock_dequeue_buffer n part (get c) = Done (len, x) q" "wf_queue q"
      "\<forall>y \<in> set (contents q). y \<in> set bs \<or> length y \<le> length b" "x = take n b" "\<not> part \<longrightarrow> len = length b"
    from assms(2) [OF c q(3,1,4,6)] q(2,5) show ?thesis by simp
  qed (use w(2) in simp)
qed

lemma local_dequeue:
  "local_safe p G (on_app_recv_queue (mysock_dequeue_buffer n part)) (\<lambda>_. True)"
  "local_safe p G (on_app_send_queue (mysock_dequeue_buffer n part)) (\<lambda>_. True)"
  "local_safe p G (on_network_recv_queue (mysock_dequeue_buffer n False)) (\<lambda>(len, bs). len \<le> 1500 \<and> length bs = min n len)"
  unfolding on_app_recv_queue_def on_app_send_queue_def on_network_recv_queue_def
  by (rule zoom_dequeue; fastforce simp: ctx_simps)+

declare local_dequeue(1,2) [safe_rules]

section \<open>The network layer\<close>

lemma sub_insert [simp]: "D \<subseteq> C \<Longrightarrow> D \<subseteq> insert x C" and sub_un [simp]: "D \<subseteq> C \<Longrightarrow> D \<subseteq> B \<union> C" for D C B :: "claim set"
  by blast+

lemma pure_verify_socket [pure_ops]: "pure_safe (verify_socket file line c) (\<lambda>i. impl c = Some i)"
  unfolding verify_socket_def by (rule pure_rules | (simp; fail))+

lemma pure_interface_ip [pure_ops]: "pure_safe (network_get_interface_ip E) (\<lambda>_. True)"
  unfolding network_get_interface_ip_def by (rule pure_rules | (simp; fail))+

lemma pure_local_addr [pure_ops]: "pure_safe (network_get_local_addr E n) (\<lambda>_. True)"
  unfolding network_get_local_addr_def by (rule pure_rules pure_ops | (simp; fail))+

lemma pure_checksum [pure_ops]: "len \<le> length packet \<Longrightarrow> pure_safe (mysock_tcp_checksum host a b addr packet len) (\<lambda>_. True)"
  unfolding mysock_tcp_checksum_def by (rule pure_rules | (simp; fail))+

lemma pure_set_checksum [pure_ops]:
  "len \<le> length packet \<Longrightarrow> pure_safe (mysock_set_checksum E c addr packet len) (\<lambda>p. length p = length packet)"
  unfolding mysock_set_checksum_def by (rule pure_rules | rule pure_bind, rule pure_ops | (simp; fail))+

lemma pure_verify_checksum [pure_ops]: "len \<le> length packet \<Longrightarrow> pure_safe (mysock_verify_checksum E c addr packet len) (\<lambda>_. True)"
  unfolding mysock_verify_checksum_def by (rule pure_rules | rule pure_bind, rule pure_ops | (simp; fail))+

lemma pure_gather [pure_ops]: "\<forall>(b, n) \<in> set segs. n \<le> length b \<Longrightarrow> pure_safe (gather packet segs) (\<lambda>_. True)"
  by (induction packet segs rule: gather.induct) (auto intro: pure_rules)

lemma safe_get_port [safe_rules]: "known C p \<Longrightarrow> D \<subseteq> C \<Longrightarrow> safe (given C) (network_get_port E p) (\<lambda>_. given D)"
  unfolding network_get_port_def by (rule safe_rules | rule safe_pure, rule pure_ops | (simp; fail))+

lemma safe_network_bind [safe_rules]: "known C p \<Longrightarrow> D \<subseteq> C \<Longrightarrow> safe (given C) (network_bind E p addr len) (\<lambda>_. given D)"
  unfolding network_bind_def network_bind_socket_def by (rule safe_rules | rule safe_pure, rule pure_ops | rule safe_step | (simp; fail))+

lemma safe_network_listen [safe_rules]: "known C p \<Longrightarrow> D \<subseteq> C \<Longrightarrow> safe (given C) (network_listen E p b) (\<lambda>_. given D)"
  unfolding network_listen_def by (rule safe_rules | rule safe_pure, rule pure_ops | rule safe_step | (simp; fail))+

lemma safe_bind_ephemeral [safe_rules]: "known C p \<Longrightarrow> D \<subseteq> C \<Longrightarrow> safe (given C) (mysock_bind_ephemeral E p) (\<lambda>_. given D)"
  unfolding mysock_bind_ephemeral_def by (rule safe_rules | rule safe_pure, rule pure_ops | rule safe_step | (simp add: ctx_simps; fail))+

lemma safe_set_impl [safe_rules]:
  assumes "known C p" "D \<subseteq> C" "\<And>i. sock_ctx (f i) = sock_ctx i \<and> recv_thread (f i) = recv_thread i \<and> recv_thread_started (f i) = recv_thread_started i"
  shows "safe (given C) (set_impl line p f) (\<lambda>_. given D)"
  unfolding set_impl_def
proof (rule safe_local [OF local_modify assms(1,2)])
  fix c assume "ctx_ok p c"
  with assms(3) show "ctx_step p c (upd_impl f c)" by (auto simp: ctx_simps map_option_case split: option.splits)
qed

lemma safe_tcp_connect [safe_rules]: "known C p \<Longrightarrow> D \<subseteq> C \<Longrightarrow> safe (given C) (tcp_connect E p) (\<lambda>_. given D)"
  unfolding tcp_connect_def Let_def by (rule safe_rules | rule safe_step | (simp; fail))+

text \<open>A transfer never shortens the buffer, so what was room for a packet stays room for it.\<close>

lemma safe_tcp_io:
  assumes "\<And>buf n. safe (given C) (io buf n) (\<lambda>x s. given C s \<and> length buf \<le> length (snd x))"
  shows "safe (given C) (tcp_io io buf count) (\<lambda>x s. given C s \<and> length buf \<le> length (snd x))"
proof -
  have "case tcp_io_loop io count buf n s of Done x s' \<Rightarrow> given C s' \<and> length buf \<le> length (snd x)
      | Blocked s' \<Rightarrow> safe_inv s' | Abort e \<Rightarrow> asserted e" if "given C s" for n buf s
    using that
  proof (induction n arbitrary: buf s rule: less_induct)
    case (less n)
    show ?case
    proof (cases "n = 0")
      case True
      then show ?thesis using less.prems by (simp add: tcp_io_loop.simps)
    next
      case n: False
      note io = safeD [OF assms less.prems, of buf n]
      show ?thesis
      proof (cases "io buf n s")
        case (Done x s1)
        obtain rc b where x: "x = (rc, b)" by fastforce
        with io Done have b: "given C s1" "length buf \<le> length b" by simp_all
        show ?thesis
        proof (cases "0 < rc \<and> rc \<le> int n")
          case True
          then have "n - nat rc < n" using n by simp
          from less.IH [OF this b(1), of "drop (nat rc) b"] True b(2) show ?thesis using n Done x
            by (subst tcp_io_loop.simps) (auto split: outcome.splits)
        next
          case False
          then show ?thesis using n Done x b by (subst tcp_io_loop.simps) auto
        qed
      next
        case (Blocked s1)
        then show ?thesis using n io by (subst tcp_io_loop.simps) simp
      next
        case (Abort e)
        then show ?thesis using n io by (subst tcp_io_loop.simps) simp
      qed
    qed
  qed
  then show ?thesis by (simp add: safe_def tcp_io_def)
qed

text \<open>The two I/O functions, with what follows them.\<close>

lemma safe_io:
  fixes E :: "'os env"
  shows "safe (given C) (write_io E fd buf n) (\<lambda>x s. given C s \<and> length buf \<le> length (snd x))"
    and "safe (given C) (read_io E fd buf n) (\<lambda>x s. given C s \<and> length buf \<le> length (snd x))"
  by (auto simp: safe_def write_io_def read_io_def run_simps split: prod.split)

lemma safe_transfer [safe_rules]:
  assumes "\<And>x. length buf \<le> length (snd x) \<Longrightarrow> safe (given C) (f x) Q"
  shows "safe (given C) (bind (tcp_io (write_io E fd) buf n) f) Q" "safe (given C) (bind (tcp_io (read_io E fd) buf n) f) Q"
proof -
  have w: "safe (given C) (tcp_io (write_io E fd) buf n) (\<lambda>x s. given C s \<and> length buf \<le> length (snd x))"
    and r: "safe (given C) (tcp_io (read_io E fd) buf n) (\<lambda>x s. given C s \<and> length buf \<le> length (snd x))"
    by (intro safe_tcp_io safe_io)+
  show "safe (given C) (bind (tcp_io (write_io E fd) buf n) f) Q" by (rule safe_step_value [OF w assms])
  show "safe (given C) (bind (tcp_io (read_io E fd) buf n) f) Q" by (rule safe_step_value [OF r assms])
qed

lemma safe_send_packet [safe_rules]:
  "known C p \<Longrightarrow> len \<le> length src \<Longrightarrow> D \<subseteq> C \<Longrightarrow> safe (given C) (network_send_packet E p src len) (\<lambda>_. given D)"
  unfolding network_send_packet_def
  by (rule safe_rules | rule safe_pure, rule pure_ops | rule safe_step, rule safe_rules | (simp split: prod.split; fail) | (split prod.split, intro allI impI))+

lemma safe_update_passive_state [safe_rules]:
  "known C p \<Longrightarrow> known C p2 \<Longrightarrow> D \<subseteq> C \<Longrightarrow> safe (given C) (network_update_passive_state E p p2 u) (\<lambda>_. given D)"
  unfolding network_update_passive_state_def by (rule safe_rules | rule safe_step, rule safe_rules | (simp; fail))+

lemma safe_recv_packet:
  "known C p \<Longrightarrow> safe (given C) (network_recv_packet E p dst n) (\<lambda>x s. given C s \<and> length dst \<le> length (snd x))"
  unfolding network_recv_packet_def Let_def
  by (rule safe_modify_listening, (simp; fail) | rule safe_rules | rule safe_pure, rule pure_ops
      | rule safe_step, rule safe_modify_listening, (simp; fail) | rule safe_step, rule safe_rules
      | (simp add: case_prod_unfold ctx_simps; fail) )+
lemma safe_network_send [safe_rules]: "len \<le> length buf \<Longrightarrow> D \<subseteq> C \<Longrightarrow> safe (given C) (network_send E sd buf len) (\<lambda>_. given D)"
proof -
  assume len: "len \<le> length buf"
  have switch: "safe (given C) (network_send_switch E p buf len r) (\<lambda>_. given D)" if "known C p" "D \<subseteq> C" for p r D C
    unfolding network_send_switch_def using that len
    by - (rule safe_rules | rule safe_pure, rule pure_ops | rule safe_step, rule safe_rules | (simp add: ctx_simps; fail))+
  show "D \<subseteq> C \<Longrightarrow> safe (given C) (network_send E sd buf len) (\<lambda>_. given D)"
    unfolding network_send_def Let_def using len
    by - (rule safe_rules switch | rule safe_step, rule safe_rules | (simp add: ctx_simps; fail))+
qed

lemma safe_network_recv [safe_rules]:
  assumes "\<And>len bs. len \<le> 1500 \<Longrightarrow> length bs = min n len \<Longrightarrow> safe (given C) (f (len, bs)) Q"
  shows "safe (given C) (bind (network_recv sd n) f) Q"
proof -
  have "safe (given C) (network_recv sd n) (\<lambda>x s. given C s \<and> (case x of (len, bs) \<Rightarrow> len \<le> 1500 \<and> length bs = min n len))"
    unfolding network_recv_def
    by (rule safe_rules safe_local_value local_dequeue(3) | (simp; fail) | blast)+
  then show ?thesis by (rule safe_step_value) (use assms in auto)
qed

section \<open>The interfaces\<close>

lemma safe_mysock_state [safe_rules]:
  "D \<subseteq> C \<Longrightarrow> safe (given C) (stcp_set_context sd st) (\<lambda>_. given D)" "D \<subseteq> C \<Longrightarrow> safe (given C) (stcp_get_context sd) (\<lambda>_. given D)"
  unfolding stcp_set_context_def stcp_get_context_def by (rule safe_rules | (simp add: ctx_simps; fail))+

lemma local_wait [safe_rules]: "local_safe p G (wait_round flags) (\<lambda>_. True)" "local_safe p G mysock_wait_for_connection (\<lambda>_. True)"
  by (auto simp: local_safe_def wait_round_def mysock_wait_for_connection_def Let_def run_simps ctx_simps)

lemma safe_wait_for_event [safe_rules]: "D \<subseteq> C \<Longrightarrow> safe (given C) (stcp_wait_for_event sd flags timed_out) (\<lambda>_. given D)"
  unfolding stcp_wait_for_event_def by (rule safe_rules | rule safe_step, rule safe_rules | (simp add: ctx_simps; fail))+

lemma safe_app_stream [safe_rules]:
  "D \<subseteq> C \<Longrightarrow> safe (given C) (stcp_app_recv sd n) (\<lambda>_. given D)"
  "n \<le> length src \<Longrightarrow> D \<subseteq> C \<Longrightarrow> safe (given C) (stcp_app_send sd src n) (\<lambda>_. given D)"
  "D \<subseteq> C \<Longrightarrow> safe (given C) (stcp_fin_received sd) (\<lambda>_. given D)"
  unfolding stcp_app_recv_def stcp_app_send_def stcp_fin_received_def by (rule safe_rules | (simp; fail))+

lemma safe_stcp_network [safe_rules]:
  "1500 \<le> n \<Longrightarrow> D \<subseteq> C \<Longrightarrow> safe (given C) (stcp_network_recv E sd dst n) (\<lambda>_. given D)"
  "len \<le> length src \<Longrightarrow> \<forall>(b, n) \<in> set segs. n \<le> length b \<Longrightarrow> D \<subseteq> C \<Longrightarrow> safe (given C) (stcp_network_send E sd addr src len segs) (\<lambda>_. given D)"
  unfolding stcp_network_recv_def stcp_network_send_def Let_def
  by (rule safe_rules | rule safe_pure_last, rule pure_ops | rule safe_pure, rule pure_ops | rule safe_step, rule safe_rules
      | (simp; fail))+

lemma safe_app_data [safe_rules]:
  "n \<le> length buf \<Longrightarrow> D \<subseteq> C \<Longrightarrow> safe (given C) (mywrite sd buf n) (\<lambda>_. given D)"
  "D \<subseteq> C \<Longrightarrow> safe (given C) (myread sd n) (\<lambda>_. given D)"
  unfolding mywrite_def myread_def Let_def by (rule safe_rules | rule safe_step, rule safe_rules | (simp add: ctx_simps; fail))+

lemma safe_names [safe_rules]:
  "D \<subseteq> C \<Longrightarrow> safe (given C) (mygetsockname E sd) (\<lambda>_. given D)" "D \<subseteq> C \<Longrightarrow> safe (given C) (mygetpeername E sd n) (\<lambda>_. given D)"
  "D \<subseteq> C \<Longrightarrow> safe (given C) (mylocalip E peer) (\<lambda>_. given D)"
  unfolding mygetsockname_def mygetpeername_def mylocalip_def Let_def
  by (rule safe_rules | rule safe_pure_last, rule pure_ops | rule safe_pure, rule pure_ops | rule safe_step, rule safe_rules | (simp; fail))+

lemma safe_mybind [safe_rules]: "D \<subseteq> C \<Longrightarrow> safe (given C) (mybind E sd addr len) (\<lambda>_. given D)"
  unfolding mybind_def by (rule safe_rules | rule safe_step, rule safe_rules | (simp add: ctx_simps; fail))+

end
