(* ===== verification/Safety_Threads.thy ===== *)
theory Safety_Threads
  imports Safety_Calls
begin

text \<open>
  Steps that change who points to a context: threads are created and joined, contexts are allocated and
  enter the descriptor table.
\<close>

section \<open>Threads\<close>

lemma threads_ok_append:
  assumes "threads_ok ts h" "hload h p = Some c" "\<And>t f. recorded t f c \<Longrightarrow> recorded t f c'" "recorded (length ts) f0 c'"
  shows "threads_ok (ts @ [\<lparr>entry = f0, arg = p, exited = b\<rparr>]) (hstore h p c')"
  unfolding threads_ok_def
proof (intro allI impI)
  fix t assume t: "t < length (ts @ [\<lparr>entry = f0, arg = p, exited = b\<rparr>])" "\<not> exited ((ts @ [\<lparr>entry = f0, arg = p, exited = b\<rparr>]) ! t)"
  show "\<exists>c. hload (hstore h p c') (arg ((ts @ [\<lparr>entry = f0, arg = p, exited = b\<rparr>]) ! t)) = Some c
    \<and> recorded t (entry ((ts @ [\<lparr>entry = f0, arg = p, exited = b\<rparr>]) ! t)) c"
  proof (cases "t < length ts")
    case True
    with threads_ok_store [OF assms(1-3)] t show ?thesis by (simp add: threads_ok_def nth_append)
  next
    case False
    with t(1) have "t = length ts" by simp
    then show ?thesis using assms(2,4) by (simp add: store_load)
  qed
qed

text \<open>What a context needs, and may change, when a thread f for it is created and entered as t.\<close>

definition thread_step :: "ptr \<Rightarrow> thread_func \<Rightarrow> nat \<Rightarrow> mysock_context \<Rightarrow> mysock_context \<Rightarrow> bool" where
  "thread_step p f t c c' \<longleftrightarrow> ctx_ok p c' \<and> my_sd c' = my_sd c \<and> listening c' = listening c \<and> (bound c \<longrightarrow> bound c')
     \<and> (\<forall>u g. recorded u g c \<longrightarrow> recorded u g c') \<and> recorded t f c'"

lemma safe_thread:
  fixes E :: "'os env"
  assumes "known C p" "D \<subseteq> C"
    and step: "\<And>c t. ctx_ok p c \<Longrightarrow> (\<And>f. At p f \<in> C \<Longrightarrow> fact_holds f c) \<Longrightarrow> thread_step p f0 t c (g t c)
      \<and> (\<forall>f. At p f \<in> D \<and> fact_holds f c \<longrightarrow> fact_holds f (g t c))"
  shows "safe (given C) (bind (mysock_create_thread f0 p) (\<lambda>t. on_ctx file line p (modify (g t)))) (\<lambda>_. given D :: 'os sys \<Rightarrow> bool)"
  unfolding safe_def
proof (intro allI impI)
  fix s :: "'os sys" assume s: "given C s"
  from given_knownE [OF s assms(1)] obtain c where c: "hload (ctxs s) p = Some c" "ctx_ok p c" .
  let ?t = "length (threads s)"
  let ?c = "g ?t c" and ?ts = "threads s @ [\<lparr>entry = f0, arg = p, exited = False\<rparr>]"
  from step [OF c(2) given_at [OF s _ c(1)], of ?t] have
    st: "ctx_ok p ?c" "my_sd ?c = my_sd c" "listening ?c = listening c" "bound c \<longrightarrow> bound ?c"
      "\<And>u g'. recorded u g' c \<Longrightarrow> recorded u g' ?c" "recorded ?t f0 ?c"
    and D: "\<And>f. At p f \<in> D \<Longrightarrow> fact_holds f c \<Longrightarrow> fact_holds f ?c" unfolding thread_step_def by blast+
  note inv = given_inv [OF s]
  have i: "safe_inv (s\<lparr>threads := ?ts, ctxs := hstore (ctxs s) p ?c\<rparr>)"
    by (rule safe_inv_store [OF inv c(1) st(1-4) threads_ok_append [OF safe_invD(3) [OF inv] c(1) st(5,6)]])
  have "claim_holds (hstore (ctxs s) p ?c) x" if "x \<in> D" for x
    using that assms(2) s st(2,3) D claim_store [OF _ c(1), of x ?c] by (auto simp: given_def)
  with i c(1) show "case bind (mysock_create_thread f0 p) (\<lambda>t. on_ctx file line p (modify (g t))) s of
      Done a s' \<Rightarrow> given D s' | Blocked s' \<Rightarrow> safe_inv s' | Abort e \<Rightarrow> asserted e"
    by (simp add: mysock_create_thread_def run_simps given_def)
qed

lemma recv_of_started: "recv_of (upd_impl (\<lambda>i. i\<lparr>recv_thread := t, recv_thread_started := b\<rparr>) c) = map_option (\<lambda>_. (t, b)) (impl c)"
  by (simp add: recv_of_def upd_impl_def upd_network_def option.map_comp comp_def)

lemma safe_start_recv_thread:
  assumes "At p Unstarted_recv \<in> C" "At p Peered \<in> C" "D \<subseteq> C - {At p Unstarted_recv}"
  shows "safe (given C) (network_start_recv_thread E p) (\<lambda>_. given D)"
proof -
  have sub: "D \<subseteq> B \<union> C" "known (B \<union> C) p" for B using assms(3) known_At [OF assms(1)] by auto
  have step: "thread_step p Network_recv_thread_func t c (upd_impl (\<lambda>i. i\<lparr>recv_thread := t, recv_thread_started := True\<rparr>) c)
      \<and> (\<forall>f. At p f \<in> D \<and> fact_holds f c \<longrightarrow> fact_holds f (upd_impl (\<lambda>i. i\<lparr>recv_thread := t, recv_thread_started := True\<rparr>) c))"
    (is "thread_step p _ t c ?c \<and> ?facts") if c: "ctx_ok p c" and f: "\<And>f. At p f \<in> B \<union> C \<Longrightarrow> fact_holds f c" for c t B
  proof
    from f [of Unstarted_recv] f [of Peered] assms(1,2) have u: "map_option snd (recv_of c) \<noteq> Some True" "has_peer c" by auto
    have n: "impl c \<noteq> None" using c ctx_ok_impl by blast
    have same: "my_sd ?c = my_sd c" "listening ?c = listening c" "bound ?c = bound c" "transport_thread ?c = transport_thread c"
      "transport_thread_started ?c = transport_thread_started c" "has_peer ?c = has_peer c"
      by (simp_all add: upd_impl_def upd_network_def has_peer_def)
    have "ctx_ok p ?c" using c u(2) same by (auto simp: ctx_ok_def wf_ctx_def upd_impl_def upd_network_def)
    moreover have "recorded v g ?c" if "recorded v g c" for v g
      using that u(1) same by (cases g) (auto simp: recorded_def)
    moreover have "recorded t Network_recv_thread_func ?c" using n by (auto simp: recorded_def recv_of_started)
    ultimately show "thread_step p Network_recv_thread_func t c ?c" using same by (simp add: thread_step_def)
    show ?facts
    proof (intro allI impI)
      fix g assume g: "At p g \<in> D \<and> fact_holds g c"
      then have "g \<noteq> Unstarted_recv" using assms(3) by auto
      with g same show "fact_holds g ?c" by (cases g) simp_all
    qed
  qed
  show ?thesis
    unfolding network_start_recv_thread_def
    by (rule safe_rules safe_thread | rule safe_step, rule safe_rules | rule sub known_At [OF assms(1)] | erule step, assumption | (simp; fail))+
qed

text \<open>A thread that has exited leaves its context.\<close>

lemma given_detach:
  assumes s: "given C s" and c: "hload (ctxs s) p = Some c" and t: "thread_exited (threads s) t"
    and ok: "ctx_ok p c'" "my_sd c' = my_sd c" "listening c' = listening c" "bound c \<longrightarrow> bound c'"
    and rec: "\<And>u g. recorded u g c \<Longrightarrow> u \<noteq> t \<Longrightarrow> recorded u g c'"
    and D: "\<And>f. At p f \<in> D \<Longrightarrow> (At p f \<in> C \<Longrightarrow> fact_holds f c) \<Longrightarrow> fact_holds f c'" "\<And>x. x \<in> D \<Longrightarrow> (\<forall>f. x \<noteq> At p f) \<Longrightarrow> x \<in> C"
  shows "given D (s\<lparr>ctxs := hstore (ctxs s) p c'\<rparr>)"
proof -
  note inv = given_inv [OF s]
  have "threads_ok (threads s) (hstore (ctxs s) p c')"
    unfolding threads_ok_def
  proof (intro allI impI)
    fix u assume u: "u < length (threads s)" "\<not> exited (threads s ! u)"
    with safe_invD(3) [OF inv] obtain d where d: "hload (ctxs s) (arg (threads s ! u)) = Some d" "recorded u (entry (threads s ! u)) d"
      unfolding threads_ok_def by blast
    have "u \<noteq> t" using t u(2) by (auto simp: thread_exited_def)
    with d c rec show "\<exists>d. hload (hstore (ctxs s) p c') (arg (threads s ! u)) = Some d \<and> recorded u (entry (threads s ! u)) d"
      by (cases "arg (threads s ! u) = p") (auto simp: store_load)
  qed
  from safe_inv_store [OF inv c ok this] have "safe_inv (s\<lparr>ctxs := hstore (ctxs s) p c'\<rparr>)" by simp
  moreover have "claim_holds (hstore (ctxs s) p c') x" if x: "x \<in> D" for x
  proof (cases "\<exists>f. x = At p f")
    case True
    then obtain f where f: "x = At p f" by blast
    with D(1) [of f] given_at [OF s _ c] x have "fact_holds f c'" by blast
    with f c show ?thesis by (simp add: store_load)
  next
    case False
    with D(2) [OF x] s ok(2,3) claim_store [OF _ c, of x c'] show ?thesis by (auto simp: given_def)
  qed
  ultimately show ?thesis by (simp add: given_def)
qed

lemma safe_stop_recv_thread:
  fixes E :: "'os env"
  assumes "known C p" "D \<subseteq> insert (At p Unstarted_recv) C"
  shows "safe (given C) (network_stop_recv_thread E p) (\<lambda>_. given D)"
  unfolding safe_def
proof (intro allI impI)
  fix s :: "'os sys" assume s: "given C s"
  from given_knownE [OF s assms(1)] obtain c where c: "hload (ctxs s) p = Some c" "ctx_ok p c" .
  then obtain i where i: "impl c = Some i" using ctx_ok_impl by blast
  show "case network_stop_recv_thread E p s of Done a s' \<Rightarrow> given D s' | Blocked s' \<Rightarrow> safe_inv s' | Abort e \<Rightarrow> asserted e"
  proof (cases "recv_thread_started i")
    case False
    with i have "fact_holds Unstarted_recv c" by (simp add: recv_of_def)
    with s c(1) have "given (insert (At p Unstarted_recv) C) s" by (simp add: given_def recv_of_def)
    from given_mono [OF this assms(2)] c(1) i False show ?thesis by (simp add: network_stop_recv_thread_def run_simps)
  next
    case True
    let ?c = "upd_impl (\<lambda>i. i\<lparr>recv_thread_started := False\<rparr>) c"
    let ?s = "s\<lparr>os := snd (os_write E (exit_pipe_write i) [88] (os s))\<rparr>"
    have same: "my_sd ?c = my_sd c" "listening ?c = listening c" "bound ?c = bound c" "transport_thread ?c = transport_thread c"
      "transport_thread_started ?c = transport_thread_started c" "has_peer ?c = has_peer c" "recv_of ?c = Some (recv_thread i, False)"
      using i by (simp_all add: upd_impl_def upd_network_def has_peer_def recv_of_def)
    have ok: "ctx_ok p ?c" using c(2) same by (auto simp: ctx_ok_def wf_ctx_def upd_impl_def upd_network_def)
    have "given D (?s\<lparr>ctxs := hstore (ctxs ?s) p ?c\<rparr>)" if "thread_exited (threads s) (recv_thread i)"
    proof (rule given_detach [where C = C and t = "recv_thread i"])
      show "recorded u g ?c" if "recorded u g c" "u \<noteq> recv_thread i" for u g
        using that same i by (cases g) (auto simp: recorded_def recv_of_def)
      show "fact_holds f ?c" if "At p f \<in> D" "At p f \<in> C \<Longrightarrow> fact_holds f c" for f
        using that same assms(2) by (cases f) auto
    qed (use s c that ok same assms(2) in auto)
    then show ?thesis using c(1) i True given_inv [OF s]
      by (simp add: safe_inv_os network_stop_recv_thread_def pthread_join_def run_simps)
  qed
qed

text \<open>The transport thread, in the state in which its context was read.\<close>

lemma safe_join_transport:
  assumes "transport_thread_started c" "D \<subseteq> insert (At p Unstarted_transport) C"
  shows "safe (\<lambda>s :: 'os sys. given C s \<and> hload (ctxs s) p = Some c) (bind (pthread_join (transport_thread c)) (\<lambda>_.
    on_ctx file line p (modify (\<lambda>c. c\<lparr>transport_thread_started := False\<rparr>)))) (\<lambda>_. given D)"
  unfolding safe_def
proof (intro allI impI, elim conjE)
  fix s :: "'os sys" assume s: "given C s" and c: "hload (ctxs s) p = Some c"
  note ok = safe_invD(2) [OF given_inv [OF s] c]
  let ?c = "c\<lparr>transport_thread_started := False\<rparr>"
  have same: "has_peer ?c = has_peer c" "recv_of ?c = recv_of c" by (simp_all add: has_peer_def recv_of_def)
  have "given D (s\<lparr>ctxs := hstore (ctxs s) p ?c\<rparr>)" if "thread_exited (threads s) (transport_thread c)"
  proof (rule given_detach [where C = C and t = "transport_thread c"])
    show "recorded u g ?c" if "recorded u g c" "u \<noteq> transport_thread c" for u g
      using that same by (cases g) (auto simp: recorded_def)
    show "fact_holds f ?c" if "At p f \<in> D" "At p f \<in> C \<Longrightarrow> fact_holds f c" for f
      using that same assms(2) by (cases f) auto
    show "ctx_ok p ?c" using ok same by (simp add: ctx_ok_def wf_ctx_def)
  qed (use s c that assms(2) in auto)
  then show "case bind (pthread_join (transport_thread c)) (\<lambda>_. on_ctx file line p (modify (\<lambda>c. c\<lparr>transport_thread_started := False\<rparr>))) s of
      Done a s' \<Rightarrow> given D s' | Blocked s' \<Rightarrow> safe_inv s' | Abort e \<Rightarrow> asserted e"
    using c given_inv [OF s] by (simp add: pthread_join_def run_simps)
qed

text \<open>The descriptor of a known context leads to it.\<close>

lemma safe_ctx_of_known:
  fixes Q :: "'a \<Rightarrow> 'os sys \<Rightarrow> bool"
  assumes "At p (Descriptor sd) \<in> C" "safe (given C) (f p) Q"
  shows "safe (given C) (bind (ctx_of file line sd) f) Q"
  unfolding safe_def
proof (intro allI impI)
  fix s :: "'os sys" assume s: "given C s"
  then obtain c where c: "hload (ctxs s) p = Some c" "my_sd c = sd" using assms(1) by (force simp: given_def)
  have w: "wf_sys s" by (rule safe_invD(1) [OF given_inv [OF s]])
  then have "open_socket sd p s" using wf_descriptors_live [OF _ c(1)] c(2) by (auto simp: open_socket_def wf_sys_def)
  from open_socket_context(2) [OF this] safeD [OF assms(2) s]
  show "case bind (ctx_of file line sd) f s of Done a s' \<Rightarrow> Q a s' | Blocked s' \<Rightarrow> safe_inv s' | Abort e \<Rightarrow> asserted e"
    by (simp add: run_simps)
qed

lemma safe_transport_init:
  assumes D: "D \<subseteq> C - {At p Unstarted_recv, At p Unstarted_transport}"
    and C: "At p (Descriptor sd) \<in> C" "At p Unstarted_recv \<in> C" "At p Unstarted_transport \<in> C" "At p Peered \<in> C"
  shows "safe (given C) (mysock_transport_init E sd active) (\<lambda>_. given D)"
proof -
  note k = known_At [OF C(1)]
  have step: "thread_step p Transport_thread_func t c (c\<lparr>transport_thread := t, transport_thread_started := True\<rparr>)
      \<and> (\<forall>f. At p f \<in> D \<and> fact_holds f c \<longrightarrow> fact_holds f (c\<lparr>transport_thread := t, transport_thread_started := True\<rparr>))"
    (is "thread_step p _ t c ?c \<and> ?facts") if c: "ctx_ok p c" and f: "\<And>f. At p f \<in> C - {At p Unstarted_recv} \<Longrightarrow> fact_holds f c" for c t
  proof
    from f [of Unstarted_transport] f [of Peered] C have u: "\<not> transport_thread_started c" "has_peer c" by auto
    have same: "has_peer ?c = has_peer c" "recv_of ?c = recv_of c" by (simp_all add: has_peer_def recv_of_def)
    have "ctx_ok p ?c" using c u(2) same by (simp add: ctx_ok_def wf_ctx_def)
    moreover have "recorded v g ?c" if "recorded v g c" for v g
      using that u(1) same by (cases g) (auto simp: recorded_def)
    ultimately show "thread_step p Transport_thread_func t c ?c" by (simp add: thread_step_def recorded_def)
    show ?facts
    proof (intro allI impI)
      fix g assume g: "At p g \<in> D \<and> fact_holds g c"
      then have "g \<noteq> Unstarted_transport" using D by auto
      with g same show "fact_holds g ?c" by (cases g) auto
    qed
  qed
  have rest: "safe (given C) (bind (network_start_recv_thread E p) (\<lambda>_. bind (mysock_create_thread Transport_thread_func p) (\<lambda>t.
      on_ctx ''mysock.c'' 99 p (modify (\<lambda>c. c\<lparr>transport_thread := t, transport_thread_started := True\<rparr>))))) (\<lambda>_. given D)"
  proof (rule safe_bind [where R = "\<lambda>_. given (C - {At p Unstarted_recv})"])
    show "safe (given C) (network_start_recv_thread E p) (\<lambda>_. given (C - {At p Unstarted_recv}))"
      by (rule safe_start_recv_thread) (use C in auto)
    show "safe (given (C - {At p Unstarted_recv})) (bind (mysock_create_thread Transport_thread_func p) (\<lambda>t.
      on_ctx ''mysock.c'' 99 p (modify (\<lambda>c. c\<lparr>transport_thread := t, transport_thread_started := True\<rparr>)))) (\<lambda>_. given D)" for a :: unit
      by (rule safe_thread) (use D C in \<open>auto intro!: step known_At [of p "Descriptor sd"]\<close>)
  qed
  show ?thesis
    unfolding mysock_transport_init_def
    by (rule safe_ctx_of_known [OF C(1)] safe_rules safe_pre [OF rest] | rule safe_step, rule safe_rules | rule k | (simp add: ctx_simps; fail))+
qed

section \<open>New contexts\<close>

lemma hload_snoc: "hload (h @ [x]) p = (if p = length h then x else hload h p)"
  by (simp add: hload_def nth_append)

lemma hload_length: "hload h (length h) = None"
  by (simp add: hload_def)

lemma given_snoc:
  assumes s: "given C s" and w: "wf_sys (s\<lparr>os := w, global_ctx := g, ctxs := ctxs s @ [x]\<rparr>)"
    and x: "\<And>c. x = Some c \<Longrightarrow> ctx_ok (length (ctxs s)) c \<and> \<not> listening c"
  shows "given C (s\<lparr>os := w, global_ctx := g, ctxs := ctxs s @ [x]\<rparr>)"
proof -
  note inv = given_inv [OF s]
  let ?h = "ctxs s @ [x]"
  have keep: "hload ?h p = Some c" if "hload (ctxs s) p = Some c" for p c
    using that hload_bound [OF that] by (simp add: hload_snoc)
  have un: "unlistened ?h d" if "unlistened (ctxs s) d" for d
    using that x by (auto simp: unlistened_def hload_snoc split: if_splits)
  have "threads_ok (threads s) ?h" using safe_invD(3) [OF inv] keep unfolding threads_ok_def by meson
  moreover have "listeners_ok (listen_map s) ?h"
    using safe_invD(4) [OF inv] keep un unfolding listeners_ok_def by meson
  moreover have "ctx_ok p c" if "hload ?h p = Some c" for p c
    using that x safe_invD(2) [OF inv] by (auto simp: hload_snoc split: if_splits)
  moreover have "claim_holds ?h y" if "y \<in> C" for y
    using s that keep un by (cases y) (fastforce simp: given_def)+
  ultimately show ?thesis using w by (simp add: given_def safe_inv_def listen_map_def)
qed

lemma fresh_context_facts:
  "\<not> listening (fresh_context p fd r u b k)" "\<not> transport_thread_started (fresh_context p fd r u b k)"
  "recv_of (fresh_context p fd r u b k) = Some (0, False)" "my_sd (fresh_context p fd r u b k) = k"
  "contents (network_recv_queue (fresh_context p fd r u b k)) = []"
  by (simp_all add: fresh_context_def zero_context_def recv_of_def fresh_impl_def zero_network_context_def)

lemma new_mysocket_asserts:
  assumes "\<nexists>fd r u w'. os_grants E (os s) fd r u w'" "mysock_new_mysocket E reliable s = Abort e"
  shows "asserted e"
proof -
  obtain fd w1 where w1: "os_socket E (os s) = (fd, w1)" by fastforce
  obtain x w2 where w2: "os_pipe E w1 = (x, w2)" by fastforce
  have "fd < 0 \<or> x = None" using assms(1) w1 w2 by (cases x) (force simp: os_grants_def)+
  with w1 w2 assms(2) show ?thesis
    by (cases "fd < 0") (auto simp: mysock_new_mysocket_def mysock_allocate_context_def network_init_def network_init_socket_def
        network_alloc_context_socket_def run_simps heap_simps)
qed

lemma safe_new_mysocket:
  fixes E :: "'os env"
  assumes "\<And>e. safe (given C) (f (Inl e)) Q"
    and "\<And>k p. \<forall>f. At p f \<notin> C \<Longrightarrow> safe (given (C \<union> {At p (Descriptor k), At p Plain, At p Unstarted_recv, At p Unstarted_transport, Unlistened k})) (f (Inr k)) Q"
  shows "safe (given C) (bind (mysock_new_mysocket E reliable) f) (Q :: 'a \<Rightarrow> 'os sys \<Rightarrow> bool)"
  unfolding safe_def
proof (intro allI impI)
  fix s :: "'os sys" assume s: "given C s"
  have w: "wf_sys s" by (rule safe_invD(1) [OF given_inv [OF s]])
  show "case bind (mysock_new_mysocket E reliable) f s of Done a s' \<Rightarrow> Q a s' | Blocked s' \<Rightarrow> safe_inv s' | Abort e \<Rightarrow> asserted e"
  proof (cases "\<exists>fd r u w'. os_grants E (os s) fd r u w'")
    case False
    with new_mysocket_asserts [of E s reliable] new_mysocket_refused [of E s reliable] show ?thesis by (auto simp: run_simps)
  next
    case True
    then obtain fd r u w' where g: "os_grants E (os s) fd r u w'" by blast
    show ?thesis
    proof (cases "free_slot (global_ctx s) 0")
      case None
      from new_mysocket_full [OF g None, of reliable] w obtain v where
        run: "mysock_new_mysocket E reliable s = Done (Inl EMFILE) (s\<lparr>os := v, ctxs := ctxs s @ [None]\<rparr>)" by (auto simp: wf_sys_def)
      have "given C (s\<lparr>os := v, global_ctx := global_ctx s, ctxs := ctxs s @ [None]\<rparr>)"
        by (rule given_snoc [OF s]) (use wf_sys_more [OF w, of v] in simp_all)
      with safeD [OF assms(1)] run show ?thesis by (simp add: run_simps)
    next
      case (Some k)
      let ?c = "fresh_context (length (ctxs s)) fd r u reliable (int k)"
      let ?s = "s\<lparr>os := w', global_ctx := (global_ctx s)[k := Some (length (ctxs s))], ctxs := ctxs s @ [Some ?c]\<rparr>"
      note c = wf_fresh_context [of "length (ctxs s)" fd r u reliable "int k"]
      have ok: "ctx_ok (length (ctxs s)) ?c" using c by (simp add: ctx_ok_def fresh_context_facts)
      have "wf_sys ?s" using open_socket_new(1) [OF w Some c] by (simp add: fresh_context_facts open_socket_def)
      then have "given C ?s" by (rule given_snoc [OF s]) (use ok in \<open>auto simp: fresh_context_facts\<close>)
      moreover have "unlistened (ctxs ?s) (int k)"
        unfolding unlistened_def
      proof (intro allI impI, elim conjE)
        fix p d assume d: "hload (ctxs ?s) p = Some d" "listening d"
        then have "p \<noteq> length (ctxs s)" by (auto simp: hload_snoc fresh_context_facts)
        then show "my_sd d \<noteq> int k" using wf_descriptors_live(4) [of "global_ctx ?s" "ctxs ?s" p d] d \<open>wf_sys ?s\<close>
            wf_descriptors_live(3) [of "global_ctx ?s" "ctxs ?s" p d] wf_descriptors_length [of "global_ctx s" "ctxs s"] w
          by (auto simp: wf_sys_def)
      qed
      ultimately have "given (C \<union> {At (length (ctxs s)) (Descriptor (int k)), At (length (ctxs s)) Plain,
          At (length (ctxs s)) Unstarted_recv, At (length (ctxs s)) Unstarted_transport, Unlistened (int k)}) ?s"
        by (simp add: given_def hload_snoc fresh_context_facts)
      moreover have "\<forall>f. At (length (ctxs s)) f \<notin> C" using s by (force simp: given_def hload_length)
      ultimately show ?thesis using safeD [OF assms(2)] new_mysocket_free [OF g Some, of reliable] by (simp add: run_simps)
    qed
  qed
qed

end
