(* ===== verification/Safety_Sockets.thy ===== *)
theory Safety_Sockets
  imports Safety_Threads
begin

text \<open>
  The rules for listening, connecting, accepting, the rounds of the threads and closing: what each does to the
  table of listening sockets, to the threads and to the contexts, and which claims survive it.
\<close>

section \<open>The table of listening sockets\<close>

lemma get_connection_queue_value:
  assumes "wf_sys s" "hload (ctxs s) p = Some c"
  shows "get_connection_queue p s = (if listening c \<and> bound c then Done (listen_map s (my_sd c)) s else Abort (Assertion ''connection_demux.c'' 403))"
proof -
  have "wf_table hash_default_hash_fn 64 (listen_table s)" "valid_key (my_sd c)"
    using assms wf_descriptors_live(2) [of "global_ctx s" "ctxs s" p c] by (auto simp: wf_sys_def valid_key_def)
  from lt.pm.look_spec [OF this] assms(2) show ?thesis
    by (simp add: get_connection_queue_def on_listen_table_def zoom_def run_simps listen_map_def)
qed

lemma listened_queue:
  assumes "safe_inv s" "listen_map s d = Some q"
  shows "queue_fit q" "r \<in> set (connection_queue q) \<Longrightarrow> unlistened (ctxs s) (req_sd r)"
    "\<exists>p c. hload (ctxs s) p = Some c \<and> my_sd c = d \<and> listening c \<and> bound c"
  using safe_invD(4) [OF assms(1)] assms(2) unfolding listeners_ok_def by blast+

lemma safe_get_queue [safe_rules]:
  fixes Q :: "'a \<Rightarrow> 'os sys \<Rightarrow> bool"
  assumes "known C p" "safe (given C) (f None) Q"
    "\<And>q. queue_fit q \<Longrightarrow> safe (given ({At p Listening, At p Bound} \<union> Unlistened ` req_sd ` set (connection_queue q) \<union> C)) (f (Some q)) Q"
  shows "safe (given C) (bind (get_connection_queue p) f) Q"
  unfolding safe_def
proof (intro allI impI)
  fix s :: "'os sys" assume s: "given C s"
  from given_knownE [OF s assms(1)] obtain c where c: "hload (ctxs s) p = Some c" "ctx_ok p c" .
  note inv = given_inv [OF s]
  note run = get_connection_queue_value [OF safe_invD(1) [OF inv] c(1)]
  show "case bind (get_connection_queue p) f s of Done a s' \<Rightarrow> Q a s' | Blocked s' \<Rightarrow> safe_inv s' | Abort e \<Rightarrow> asserted e"
  proof (cases "listening c \<and> bound c")
    case True
    show ?thesis
    proof (cases "listen_map s (my_sd c)")
      case None
      with run True safeD [OF assms(2) s] show ?thesis by (simp add: run_simps)
    next
      case (Some q)
      from listened_queue [OF inv this] s c(1) True have "given ({At p Listening, At p Bound} \<union> Unlistened ` req_sd ` set (connection_queue q) \<union> C) s"
        by (auto simp: given_def)
      from safeD [OF assms(3) [OF listened_queue(1) [OF inv Some]] this] run True Some show ?thesis by (simp add: run_simps)
    qed
  qed (auto simp: run run_simps)
qed

text \<open>A write to the queue of a listening descriptor.\<close>

definition queue_claims :: "claim set \<Rightarrow> listen_queue \<Rightarrow> bool" where
  "queue_claims C q \<longleftrightarrow> queue_fit q \<and> (\<forall>r \<in> set (connection_queue q). Unlistened (req_sd r) \<in> C \<or> req_sd r < 0)"

lemma given_table:
  assumes s: "given C s" and c: "hload (ctxs s) p = Some c" "my_sd c = k" "listening c" "bound c" and q: "queue_claims C q"
    and t: "wf_sys (s\<lparr>listen_table := t\<rparr>)" "listen_map (s\<lparr>listen_table := t\<rparr>) = (listen_map s)(k \<mapsto> q)"
  shows "given C (s\<lparr>listen_table := t\<rparr>)"
proof -
  note inv = given_inv [OF s]
  have "unlistened (ctxs s) d" if "d < 0" for d
    using that wf_descriptors_live(2) [of "global_ctx s" "ctxs s"] safe_invD(1) [OF inv] by (fastforce simp: unlistened_def wf_sys_def)
  moreover have "unlistened (ctxs s) d" if "Unlistened d \<in> C" for d using s that by (auto simp: given_def)
  ultimately have u: "unlistened (ctxs s) (req_sd r)" if "r \<in> set (connection_queue q)" for r
    using q that by (auto simp: queue_claims_def)
  have "listeners_ok ((listen_map s)(k \<mapsto> q)) (ctxs s)"
    unfolding listeners_ok_def
  proof (intro allI impI)
    fix d q' assume d: "((listen_map s)(k \<mapsto> q)) d = Some q'"
    show "(\<exists>p c. hload (ctxs s) p = Some c \<and> my_sd c = d \<and> listening c \<and> bound c) \<and> queue_fit q'
      \<and> (\<forall>r \<in> set (connection_queue q'). unlistened (ctxs s) (req_sd r))"
    proof (cases "d = k")
      case True
      with d c q u show ?thesis by (auto simp: queue_claims_def)
    next
      case False
      with d have "listen_map s d = Some q'" by simp
      from listened_queue [OF inv this] show ?thesis by blast
    qed
  qed
  with t s show ?thesis by (auto simp: given_def safe_inv_def)
qed

lemma given_put_queue:
  assumes "given C s" "hload (ctxs s) p = Some c" "my_sd c = k" "listening c" "bound c" "queue_claims C q"
  shows "\<exists>t. put_queue k q s = Done () (s\<lparr>listen_table := t\<rparr>) \<and> given C (s\<lparr>listen_table := t\<rparr>)"
proof -
  have "wf_sys s" "0 \<le> k" using safe_invD(1) [OF given_inv [OF assms(1)]] wf_descriptors_live(2) [of "global_ctx s" "ctxs s" p c] assms(2,3)
    by (auto simp: wf_sys_def)
  from put_queue_run [OF this, of q] given_table [OF assms] show ?thesis by blast
qed

lemma safe_put_queue:
  fixes C :: "claim set"
  assumes "At p (Descriptor k) \<in> C" "At p Listening \<in> C" "At p Bound \<in> C" "queue_claims C q" "D \<subseteq> C"
  shows "safe (given C) (put_queue k q) (\<lambda>_. given D)"
  unfolding safe_def
proof (intro allI impI)
  fix s :: "'os sys" assume s: "given C s"
  then obtain c where c: "hload (ctxs s) p = Some c" "my_sd c = k" using assms(1) by (force simp: given_def)
  with given_at [OF s assms(2)] given_at [OF s assms(3)] given_put_queue [OF s c _ _ assms(4)] given_mono [OF _ assms(5)]
  show "case put_queue k q s of Done a s' \<Rightarrow> given D s' | Blocked s' \<Rightarrow> safe_inv s' | Abort e \<Rightarrow> asserted e" by fastforce
qed

lemmas queue_claims_simps = queue_claims_def queue_fit_def

lemma safe_dequeue_connection:
  "known C p \<Longrightarrow> D \<subseteq> C \<Longrightarrow> safe (given C) (mysock_dequeue_connection p) (\<lambda>r. given (insert (At r Alive) D))"
  unfolding mysock_dequeue_connection_def
  by (rule safe_rules safe_ret_at | rule safe_step, rule safe_put_queue [of p] | (simp; fail)
      | (auto simp: queue_claims_simps dest!: set_update_subset_insert [THEN subsetD]; fail) [1])+


lemma safe_complete_queue:
  assumes "At lp Listening \<in> C" "At lp (Descriptor k) \<in> C" "At lp Bound \<in> C" "queue_claims C q" "D \<subseteq> C"
    "find_pos P (take (lq_max_len q) (connection_queue q)) = Some j"
  shows "safe (given C) (put_queue k (q\<lparr>completed_queue := completed_queue q @ [(queue_block q, j)]\<rparr>)) (\<lambda>_. given D)"
  by (rule safe_put_queue [of lp]) (use assms find_pos_Some [OF assms(6)] in \<open>auto simp: queue_claims_simps\<close>)

lemma safe_connection_complete [safe_rules]:
  "known C p \<Longrightarrow> D \<subseteq> C \<Longrightarrow> safe (given C) (mysock_passive_connection_complete p) (\<lambda>_. given D)"
  unfolding mysock_passive_connection_complete_def
  by ((drule iffD1 [OF option.inject], hypsubst) | rule safe_rules | rule safe_complete_queue | assumption | (simp; fail) | blast
      | (auto simp: queue_claims_simps; fail) [1])+

section \<open>An incoming connection\<close>

lemma pure_retransmission [pure_ops]: "pure_safe (retransmission host peer n rs) (\<lambda>_. True)"
proof (induction rs)
  case Nil
  show ?case by (simp add: pure_safe_def run_simps)
next
  case (Cons r rs)
  then show ?case by (simp only: retransmission.simps) (rule pure_rules | (simp; fail))+
qed

lemma pure_debug_print [pure_ops]: "pure_safe (debug_print_connection peer) (\<lambda>_. True)"
  unfolding debug_print_connection_def by (rule pure_rules | (simp; fail))+

text \<open>A context learns its peer: its threads may be started from now on.\<close>

lemma safe_modify_peer:
  fixes C :: "claim set"
  assumes "known C p" "\<And>c. ctx_ok p c \<Longrightarrow> ctx_step p c (g c) \<and> has_peer (g c)"
  shows "safe (given C) (on_ctx file line p (modify g)) (\<lambda>_. given (insert (At p Peered) C) :: 'os sys \<Rightarrow> bool)"
  unfolding safe_def
proof (intro allI impI)
  fix s :: "'os sys" assume s: "given C s"
  from given_knownE [OF s assms(1)] obtain c where c: "hload (ctxs s) p = Some c" "ctx_ok p c" .
  from given_step [OF s c(1)] assms(2) [OF c(2)] have "given (insert (At p Peered) C) (s\<lparr>ctxs := hstore (ctxs s) p (g c)\<rparr>)"
    by (simp add: given_def store_load [OF c(1)])
  with c(1) show "case on_ctx file line p (modify g) s of Done a s' \<Rightarrow> given (insert (At p Peered) C) s'
      | Blocked s' \<Rightarrow> safe_inv s' | Abort e \<Rightarrow> asserted e" by (simp add: run_simps)
qed

abbreviation startable :: "claim set \<Rightarrow> ptr \<Rightarrow> int \<Rightarrow> bool" where
  "startable C p sd \<equiv> At p (Descriptor sd) \<in> C \<and> At p Unstarted_recv \<in> C \<and> At p Unstarted_transport \<in> C"

lemma safe_hand_over:
  assumes "known C p" "startable C n sd" "At n Peered \<in> C" "len \<le> length packet" "len \<le> 1500"
    "D \<subseteq> C - {At n Unstarted_recv, At n Unstarted_transport}"
  shows "safe (given C) (hand_over_connection E p n sd packet len u) (\<lambda>_. given D)"
proof -
  have n: "known C n" using assms(2) by (auto intro: known_At)
  show ?thesis
    unfolding hand_over_connection_def
  proof (rule safe_step)
    show "safe (given C) (network_update_passive_state E n p u) (\<lambda>_. given C)" by (rule safe_rules assms n | (simp; fail))+
    show "safe (given C) (bind (mysock_transport_init E sd False) (\<lambda>_. on_ctx ''connection_demux.c'' 245 n
        (on_network_recv_queue (mysock_enqueue_buffer (Some packet) len)))) (\<lambda>_. given D)" for a :: unit
    proof (rule safe_bind)
      show "safe (given C) (mysock_transport_init E sd False) (\<lambda>_. given (C - {At n Unstarted_recv, At n Unstarted_transport}))"
        by (rule safe_transport_init) (use assms in auto)
      have "known (C - {At n Unstarted_recv, At n Unstarted_transport}) n" using assms(3) by (auto intro: known_At [of n Peered])
      then show "safe (given (C - {At n Unstarted_recv, At n Unstarted_transport})) (on_ctx ''connection_demux.c'' 245 n
          (on_network_recv_queue (mysock_enqueue_buffer (Some packet) len))) (\<lambda>_. given D)" for a :: unit
        by - (rule safe_local [OF local_enqueue(3)]; use assms in simp)
    qed
  qed
qed

lemma queue_claims_at:
  assumes "queue_claims C q" "C \<subseteq> C'" "Unlistened (req_sd r) \<in> C' \<or> req_sd r < 0" "connection_queue q' = (connection_queue q)[k := r]"
    "lq_max_len q' = lq_max_len q" "queue_block q' = queue_block q" "completed_queue q' = completed_queue q"
  shows "queue_claims C' q'"
  using assms set_update_subset_insert [of "connection_queue q" k r] by (fastforce simp: queue_claims_simps)

lemma safe_establish:
  assumes C: "At p Listening \<in> C" "At p Bound \<in> C" "queue_claims C q" and len: "len \<le> length packet" "len \<le> 1500" "0 < peer_len" and D: "D \<subseteq> C"
  shows "safe (given C) (establish_connection E p packet len peer peer_len u q k) (\<lambda>_. given D)"
proof -
  have new: "safe (given C') (bind (put_queue (my_sd c) (q\<lparr>connection_queue := (connection_queue q)[k := (connection_queue q ! k)\<lparr>req_sd := sd\<rparr>]\<rparr>)) (\<lambda>_.
         bind (ctx_of ''connection_demux.c'' 221 sd) (\<lambda>new_ctx.
         bind (on_ctx ''connection_demux.c'' 222 new_ctx (modify (\<lambda>d. upd_network (\<lambda>n. n\<lparr>peer_addr := peer,
                 peer_addr_len := peer_len, peer_addr_valid := True\<rparr>) (d\<lparr>listen_sd := my_sd c\<rparr>)))) (\<lambda>_.
         bind (put_queue (my_sd c) (q\<lparr>connection_queue := (connection_queue q)[k :=
                 \<lparr>req_peer_addr = peer, req_peer_addr_len = int peer_len, req_sd = sd, req_user_data = u\<rparr>]\<rparr>)) (\<lambda>_.
         bind (debug_print_connection peer) (\<lambda>_.
         bind (hand_over_connection E p new_ctx sd packet len u) (\<lambda>_. ret True)))))))
      (\<lambda>_. given D)"
    if new: "\<forall>f. At n f \<notin> B" "C \<subseteq> B" and C': "C \<subseteq> C'" "At p (Descriptor (my_sd c)) \<in> C'" "startable C' n sd" "Unlistened sd \<in> C'"
    for B C' c n sd
  proof -
    have put: "safe (given C'') (put_queue (my_sd c) (q\<lparr>connection_queue := (connection_queue q)[k := r]\<rparr>)) (\<lambda>_. given C'')"
      if "C' \<subseteq> C''" "req_sd r = sd" for C'' r
    proof (rule safe_put_queue [of p])
      show "queue_claims C'' (q\<lparr>connection_queue := (connection_queue q)[k := r]\<rparr>)"
        by (rule queue_claims_at [OF C(3), of C'' r _ k]) (use that C' in auto)
    qed (use that C' C in auto)
    have step: "ctx_step n d (upd_network (\<lambda>n. n\<lparr>peer_addr := peer, peer_addr_len := peer_len, peer_addr_valid := True\<rparr>) (d\<lparr>listen_sd := my_sd c\<rparr>))
        \<and> has_peer (upd_network (\<lambda>n. n\<lparr>peer_addr := peer, peer_addr_len := peer_len, peer_addr_valid := True\<rparr>) (d\<lparr>listen_sd := my_sd c\<rparr>))"
      if "ctx_ok n d" for d using that len(3) by (simp add: ctx_simps)
    have n: "known C' n" "At n (Descriptor sd) \<in> C'" using C'(3) by (auto intro: known_At)
    let ?C = "insert (At n Peered) C'"
    show ?thesis
    proof (rule safe_step [OF put], simp, simp, rule safe_ctx_of_known [OF n(2)], rule safe_bind [OF safe_modify_peer [OF n(1) step]], assumption,
        rule safe_step [OF put], blast, simp, rule safe_pure [OF pure_debug_print], rule safe_bind)
      show "safe (given ?C) (hand_over_connection E p n sd packet len u) (\<lambda>_. given (?C - {At n Unstarted_recv, At n Unstarted_transport}))"
        by (rule safe_hand_over) (use C C' len in \<open>auto intro: known_At\<close>)
      show "safe (given (?C - {At n Unstarted_recv, At n Unstarted_transport})) (ret True) (\<lambda>_. given D)" for a :: unit
        by (rule safe_ret) (use D C'(1) new in auto)
    qed
  qed
  have none: "safe (given C') (bind (debug_print_connection peer) (\<lambda>_.
         bind (put_queue (my_sd c) (q\<lparr>connection_queue := (connection_queue q)[k := invalid_request], lq_cur_len := lq_cur_len q - 1\<rparr>)) (\<lambda>_.
         ret False))) (\<lambda>_. given D)" if "C \<subseteq> C'" "At p (Descriptor (my_sd c)) \<in> C'" for C' c
  proof (rule safe_pure [OF pure_debug_print], rule safe_step, rule safe_put_queue [of p])
    show "queue_claims C' (q\<lparr>connection_queue := (connection_queue q)[k := invalid_request], lq_cur_len := lq_cur_len q - 1\<rparr>)"
      by (rule queue_claims_at [OF C(3) that(1), of invalid_request _ k]) simp_all
    show "safe (given C') (ret False) (\<lambda>_. given D)" by (rule safe_ret) (use that D in auto)
  qed (use that C in auto)
  show ?thesis
    unfolding establish_connection_def
  proof (rule safe_get_ctx [OF known_At [OF C(1)]], rule safe_assert, rule safe_new_mysocket, unfold sum.case)
    fix c assume "ctx_ok p c" "impl c \<noteq> None \<and> (\<forall>i. impl c = Some i \<longrightarrow> sock_ctx i = p)"
    show "safe (given (seen p c \<union> C)) (bind (debug_print_connection peer) (\<lambda>_.
         bind (put_queue (my_sd c) (q\<lparr>connection_queue := (connection_queue q)[k := invalid_request], lq_cur_len := lq_cur_len q - 1\<rparr>)) (\<lambda>_.
         ret False))) (\<lambda>_. given D)" by (rule none) simp_all
  qed (rule new, assumption, simp_all)
qed

lemma safe_enqueue_connection [safe_rules]:
  "known C p \<Longrightarrow> len \<le> length packet \<Longrightarrow> len \<le> 1500 \<Longrightarrow> D \<subseteq> C \<Longrightarrow>
   safe (given C) (mysock_enqueue_connection E p packet len peer peer_len u) (\<lambda>_. given D)"
  unfolding mysock_enqueue_connection_def Let_def
  by ((drule iffD1 [OF option.inject], hypsubst) | rule safe_rules safe_establish [of p] | rule safe_pure, rule pure_ops
      | rule safe_step, rule safe_put_queue [of p] | (simp; fail) | (auto simp: queue_claims_simps queue_fit_def; fail) [1])+

section \<open>Listening\<close>

lemma get_port_outcome:
  assumes "hload (ctxs s) p = Some c"
  shows "(\<exists>port. network_get_port E p s = Done port s) \<or> (\<exists>e. network_get_port E p s = Abort e \<and> asserted e)"
  using assms by (auto simp: network_get_port_def verify_socket_def run_simps split: option.splits)

lemma given_insert_queue:
  assumes "given C s" "hload (ctxs s) p = Some c" "my_sd c = k" "listening c" "bound c" "listen_map s k = None" "queue_claims C q"
  shows "\<exists>t. on_listen_table (hash_insert hash_default_hash_fn hash_default_key_equals MAX_NUM_CONNECTIONS k q) s = Done () (s\<lparr>listen_table := t\<rparr>)
    \<and> given C (s\<lparr>listen_table := t\<rparr>)"
proof -
  have w: "wf_sys s" "0 \<le> k" using safe_invD(1) [OF given_inv [OF assms(1)]] wf_descriptors_live(2) [of "global_ctx s" "ctxs s" p c] assms(2,3)
    by (auto simp: wf_sys_def)
  have "wf_table hash_default_hash_fn 64 (listen_table s)" "valid_key k" using w by (simp_all add: wf_sys_def valid_key_def)
  from lt.pm.ins_spec [OF this, of q] assms(6) w(1) obtain t where
    "on_listen_table (hash_insert hash_default_hash_fn hash_default_key_equals MAX_NUM_CONNECTIONS k q) s = Done () (s\<lparr>listen_table := t\<rparr>)"
    "wf_sys (s\<lparr>listen_table := t\<rparr>)" "listen_map (s\<lparr>listen_table := t\<rparr>) = (listen_map s)(k \<mapsto> q)"
    by (auto simp: on_listen_table_def zoom_def listen_map_def wf_sys_def)
  with given_table [OF assms(1-5,7)] show ?thesis by blast
qed

lemma zero_queue_claims: "queue_claims C (zero_listen_queue\<lparr>local_port := n\<rparr>)"
  by (auto simp: queue_claims_simps zero_listen_queue_def)

text \<open>The backlog of a socket that has no queue yet.\<close>

lemma safe_set_backlog:
  fixes E :: "'os env"
  assumes C: "At p (Descriptor sd) \<in> C" "At p Listening \<in> C" "At p Bound \<in> C"
  shows "safe (\<lambda>s :: 'os sys. given C s \<and> listen_map s sd = None) (mysock_set_backlog E p backlog) (\<lambda>_. given C)"
  unfolding safe_def
proof (intro allI impI, elim conjE)
  fix s :: "'os sys" assume s: "given C s" "listen_map s sd = None"
  then obtain c where c: "hload (ctxs s) p = Some c" "my_sd c = sd" using C(1) by (force simp: given_def)
  have l: "listening c" "bound c" using given_at [OF s(1) C(2) c(1)] given_at [OF s(1) C(3) c(1)] by simp_all
  have gq: "get_connection_queue p s = Done None s"
    using get_connection_queue_value [OF safe_invD(1) [OF given_inv [OF s(1)]] c(1)] l c(2) s(2) by simp
  show "case mysock_set_backlog E p backlog s of Done a s' \<Rightarrow> given C s' | Blocked s' \<Rightarrow> safe_inv s' | Abort e \<Rightarrow> asserted e"
  proof (cases "\<exists>port. network_get_port E p s = Done port s")
    case False
    with get_port_outcome [OF c(1), of E] c(1) l show ?thesis by (auto simp: mysock_set_backlog_def run_simps)
  next
    case True
    then obtain port where port: "network_get_port E p s = Done port s" ..
    let ?n = "unat (ntohs (host_order E) port)" and ?q = "\<lambda>n. zero_listen_queue\<lparr>local_port := n\<rparr>"
    from given_insert_queue [OF s(1) c l s(2) zero_queue_claims(1), of ?n] obtain t where
      t: "on_listen_table (hash_insert hash_default_hash_fn hash_default_key_equals MAX_NUM_CONNECTIONS sd (?q ?n)) s = Done () (s\<lparr>listen_table := t\<rparr>)"
      "given C (s\<lparr>listen_table := t\<rparr>)" by blast
    have "hload (ctxs (s\<lparr>listen_table := t\<rparr>)) p = Some c" using c(1) by simp
    define r where "r = (if unat (backlog + 1) > lq_max_len (?q ?n)
        then (?q ?n)\<lparr>connection_queue := take (lq_max_len (?q ?n)) (connection_queue (?q ?n))
                 @ replicate (unat (backlog + 1) - lq_max_len (?q ?n)) invalid_request,
               queue_block := Suc (queue_block (?q ?n)), lq_max_len := unat (backlog + 1)\<rparr>
        else (?q ?n)\<lparr>lq_max_len := unat (backlog + 1)\<rparr>)"
    have "queue_claims C r" by (auto simp: r_def queue_claims_simps zero_listen_queue_def)
    from given_put_queue [OF t(2) \<open>hload (ctxs (s\<lparr>listen_table := t\<rparr>)) p = Some c\<close> c(2) l this] obtain t' where
      t': "put_queue sd r (s\<lparr>listen_table := t\<rparr>) = Done () (s\<lparr>listen_table := t'\<rparr>)" "given C (s\<lparr>listen_table := t'\<rparr>)" by auto
    have "mysock_set_backlog E p backlog s = (if 0 < ?n then Done () (s\<lparr>listen_table := t'\<rparr>) else Abort (Assertion ''connection_demux.c'' 319))"
      using c l gq port t(1) t'(1) [unfolded r_def] by (simp add: mysock_set_backlog_def run_simps Let_def)
    with t'(2) show ?thesis by simp
  qed
qed


text \<open>The first mylisten of a mysocket that knows no peer and waits in no queue.\<close>

definition may_listen :: "int \<Rightarrow> 'os sys \<Rightarrow> bool" where
  "may_listen sd s \<longleftrightarrow> (\<forall>p c. hload (ctxs s) p = Some c \<and> my_sd c = sd \<longrightarrow> \<not> has_peer c)
     \<and> (\<forall>d q. listen_map s d = Some q \<longrightarrow> (\<forall>r \<in> set (connection_queue q). req_sd r \<noteq> sd))"

lemma listening_starts:
  assumes inv: "safe_inv s" and may: "may_listen sd s" and c: "hload (ctxs s) p = Some c" "my_sd c = sd" "bound c"
  defines "s' \<equiv> s\<lparr>ctxs := hstore (ctxs s) p (c\<lparr>listening := True\<rparr>)\<rparr>"
  shows "given {At p (Descriptor sd), At p Listening, At p Bound, At p Unstarted_recv, At p Peered} s'" and "listen_map s' sd = None"
proof -
  let ?c = "c\<lparr>listening := True\<rparr>"
  have n: "\<not> has_peer c" using may c unfolding may_listen_def by blast
  note ok = safe_invD(2) [OF inv c(1)]
  have u: "map_option snd (recv_of c) \<noteq> Some True" "recv_of ?c = recv_of c" "has_peer ?c" "\<not> listening c"
    using n ok by (auto simp: ctx_ok_def recv_of_def has_peer_def)
  have m: "listen_map s' = listen_map s" by (simp add: s'_def listen_map_def)
  have only: "q = p" if "hload (ctxs s) q = Some d" "my_sd d = sd" for q d
  proof -
    have wf: "wf_descriptors (global_ctx s) (ctxs s)" using safe_invD(1) [OF inv] by (simp add: wf_sys_def)
    from wf_descriptors_live(4) [OF wf that(1)] wf_descriptors_live(4) [OF wf c(1)] that(2) c(2) show ?thesis by simp
  qed
  show none: "listen_map s' sd = None"
  proof (rule ccontr)
    assume "listen_map s' sd \<noteq> None"
    then obtain q where "listen_map s sd = Some q" using m by auto
    from listened_queue(3) [OF inv this] only c(1) u(4) show False by auto
  qed
  have "wf_ctx p ?c" using ok by (simp add: ctx_ok_def wf_ctx_def)
  then have w: "wf_sys s'" unfolding s'_def by (intro wf_sys_store [OF safe_invD(1) [OF inv] c(1)]) simp
  have "threads_ok (threads s) (hstore (ctxs s) p ?c)"
    by (rule threads_ok_store [OF safe_invD(3) [OF inv] c(1)]) (auto simp: recorded_def recv_of_def split: thread_func.split)
  moreover have "ctx_ok q d" if "hload (hstore (ctxs s) p ?c) q = Some d" for q d
    using that safe_invD(2) [OF inv] \<open>wf_ctx p ?c\<close> ok u by (auto simp: store_load [OF c(1)] ctx_ok_def split: if_splits)
  moreover have "listeners_ok (listen_map s) (hstore (ctxs s) p ?c)"
    unfolding listeners_ok_def
  proof (intro allI impI conjI ballI)
    fix d q assume d: "listen_map s d = Some q"
    show "queue_fit q" by (rule listened_queue(1) [OF inv d])
    from listened_queue(3) [OF inv d] obtain p' b where b: "hload (ctxs s) p' = Some b" "my_sd b = d" "listening b" "bound b" by blast
    with c(1) u(4) have "hload (hstore (ctxs s) p ?c) p' = Some b" by (auto simp: store_load [OF c(1)])
    with b show "\<exists>p' b. hload (hstore (ctxs s) p ?c) p' = Some b \<and> my_sd b = d \<and> listening b \<and> bound b" by blast
    show "unlistened (hstore (ctxs s) p ?c) (req_sd r)" if "r \<in> set (connection_queue q)" for r
    proof -
      have "req_sd r \<noteq> sd" using may d that unfolding may_listen_def by blast
      with listened_queue(2) [OF inv d that] c(2) show ?thesis by (auto simp: unlistened_def store_load [OF c(1)])
    qed
  qed
  ultimately have "safe_inv s'" using w m by (simp add: safe_inv_def) (simp add: s'_def)
  then show "given {At p (Descriptor sd), At p Listening, At p Bound, At p Unstarted_recv, At p Peered} s'"
    using c u by (simp add: given_def s'_def store_load [OF c(1)])
qed

lemma safe_mylisten:
  fixes E :: "'os env"
  shows "safe (\<lambda>s :: 'os sys. safe_inv s \<and> may_listen sd s) (mylisten E sd backlog) (\<lambda>_. safe_inv)"
  unfolding safe_def
proof (intro allI impI, elim conjE)
  fix s :: "'os sys" assume inv: "safe_inv s" and may: "may_listen sd s"
  show "case mylisten E sd backlog s of Done a s' \<Rightarrow> safe_inv s' | Blocked s' \<Rightarrow> safe_inv s' | Abort e \<Rightarrow> asserted e"
  proof (cases "0 \<le> sd \<and> sd < 64 \<and> global_ctx s ! nat sd \<noteq> None")
    case False
    then show ?thesis by (auto simp: mylisten_def mysock_get_context_def verify_mysocket_descriptor_def run_simps)
  next
    case True
    then obtain p where o: "open_socket sd p s" using safe_invD(1) [OF inv] by (auto simp: open_socket_def)
    then obtain c where c: "hload (ctxs s) p = Some c" "my_sd c = sd" by (blast elim: open_socketE)
    let ?s = "s\<lparr>ctxs := hstore (ctxs s) p (c\<lparr>listening := True\<rparr>)\<rparr>"
    let ?C = "{At p (Descriptor sd), At p Listening, At p Bound, At p Unstarted_recv, At p Peered}"
    let ?rest = "bind (mysock_set_backlog E p (of_int backlog)) (\<lambda>_.
        bind (network_listen E p backlog) (\<lambda>rc. case rc of Inl e \<Rightarrow> ret (Inl e) | Inr _ \<Rightarrow>
        bind (network_start_recv_thread E p) (\<lambda>_. ret (Inr 0))))"
    have "safe (\<lambda>s :: 'os sys. given ?C s \<and> listen_map s sd = None) ?rest (\<lambda>_. given {})"
      by (rule safe_bind, rule safe_set_backlog, simp, simp, simp, (rule safe_rules | rule safe_bind [OF safe_start_recv_thread [where D = "{}"]]
          | rule safe_step, rule safe_rules | (simp; fail) | (blast; fail) [1])+)
    then have rest: "safe (\<lambda>s :: 'os sys. given ?C s \<and> listen_map s sd = None) ?rest (\<lambda>_. safe_inv)"
      by (rule safe_cons) (simp_all add: given_def)
    show ?thesis
    proof (cases "bound c")
      case False
      then show ?thesis using c open_socket_context(1) [OF o] by (simp add: mylisten_def run_simps)
    next
      case True
      have "mylisten E sd backlog s = ?rest ?s"
        using c True open_socket_context(1) [OF o] by (simp add: mylisten_def run_simps)
      with safeD [OF rest conjI [OF listening_starts [OF inv may c True]]] show ?thesis by simp
    qed
  qed
qed

section \<open>Connecting, accepting, and the threads\<close>

lemma safe_mysocket [safe_rules]: "D \<subseteq> C \<Longrightarrow> safe (given C) (mysocket E reliable) (\<lambda>_. given D)"
proof -
  assume D: "D \<subseteq> C"
  have "safe (given C) (bind (mysock_new_mysocket E reliable) ret) (\<lambda>_. given D)"
    by (rule safe_new_mysocket; rule safe_ret; use D in auto)
  then show ?thesis by (simp add: mysocket_def)
qed

lemma safe_dequeue_step:
  "known C p \<Longrightarrow> (\<And>r. safe (given (insert (At r Alive) C)) (f r) Q) \<Longrightarrow> safe (given C) (bind (mysock_dequeue_connection p) f) Q"
  by (rule safe_bind [OF safe_dequeue_connection [where C = C and D = C]]) simp_all

lemma safe_myaccept [safe_rules]: "D \<subseteq> C \<Longrightarrow> safe (given C) (myaccept sd) (\<lambda>_. given D)"
  unfolding myaccept_def
  by ((drule iffD1 [OF option.inject], hypsubst) | rule safe_rules safe_dequeue_step | (simp; fail))+

lemma safe_unblock_application [safe_rules]: "D \<subseteq> C \<Longrightarrow> safe (given C) (stcp_unblock_application err sd) (\<lambda>_. given D)"
  unfolding stcp_unblock_application_def by (rule safe_rules | rule safe_step, rule safe_rules | (simp add: ctx_simps; fail))+

lemma safe_transport_init_listening:
  fixes E :: "'os env"
  shows "At p Listening \<in> C \<Longrightarrow> At p (Descriptor sd) \<in> C \<Longrightarrow> safe (given C) (mysock_transport_init E sd active) Q"
  unfolding safe_def
proof (intro allI impI)
  fix s :: "'os sys" assume C: "At p Listening \<in> C" "At p (Descriptor sd) \<in> C" and s: "given C s"
  obtain c where c: "hload (ctxs s) p = Some c" "my_sd c = sd" using given_claim [OF s C(2)] by auto
  then have "listening c" using given_at [OF s C(1)] by simp
  from safe_invD(1) [OF given_inv [OF s]] wf_descriptors_live [of "global_ctx s" "ctxs s" p c] c(1,2) have "open_socket sd p s"
    by (auto simp: open_socket_def wf_sys_def)
  from open_socket_context(2) [OF this] c \<open>listening c\<close> show "case mysock_transport_init E sd active s of
      Done a s' \<Rightarrow> Q a s' | Blocked s' \<Rightarrow> safe_inv s' | Abort e \<Rightarrow> asserted e" by (simp add: mysock_transport_init_def run_simps)
qed

lemma unstarted_facts: "ctx_ok p c \<Longrightarrow> \<not> has_peer c \<Longrightarrow> fact_holds Unstarted_recv c \<and> fact_holds Unstarted_transport c"
  by (auto simp: ctx_ok_def)

lemma safe_myconnect:
  assumes "0 < len"
  shows "safe (given C) (myconnect E sd name len) (\<lambda>_. given {})"
proof -
  let ?peer = "\<lambda>c. upd_network (\<lambda>n. n\<lparr>peer_addr := name, peer_addr_len := len, peer_addr_valid := True\<rparr>) c"
  have peer: "ctx_step p c (?peer c) \<and> has_peer (?peer c)" if "ctx_ok p c" for p c
    using that assms by (simp add: ctx_simps)
  have rest: "safe (given C') (bind (mysock_transport_init E sd True) (\<lambda>_. on_ctx ''mysock_api.c'' 84 p mysock_wait_for_connection)) (\<lambda>_. given {})"
    if c: "ctx_ok p c" "peer_addr_len (network_state c) = 0" and C': "seen p c \<subseteq> C'" "At p (Descriptor sd) \<in> C'" "At p Peered \<in> C'" for p c C'
  proof (cases "listening c")
    case True
    then have "At p Listening \<in> C'" using C'(1) by auto
    from safe_transport_init_listening [OF this C'(2)] show ?thesis by (rule safe_bind [where R = "\<lambda>_ _. False"]) (simp add: safe_def)
  next
    case False
    with c(2) have "\<not> has_peer c" by (simp add: has_peer_def)
    from unstarted_facts [OF c(1) this] have "At p Unstarted_recv \<in> seen p c" "At p Unstarted_transport \<in> seen p c" by (auto simp: seen_def)
    then have "At p Unstarted_recv \<in> C'" "At p Unstarted_transport \<in> C'" using C'(1) by blast+
    then show ?thesis using C'(2,3)
      by - (rule safe_bind [OF safe_transport_init [where D = "{At p Peered}"]]; (rule safe_rules | simp)+)
  qed
  show ?thesis
    unfolding myconnect_def
    by ((drule iffD1 [OF option.inject], hypsubst) | rule safe_bind [OF safe_modify_peer [OF _ peer]] rest safe_rules | assumption | rule safe_step, rule safe_rules | (simp; fail) | (auto; fail) [1])+
qed

text \<open>A thread ends with the descriptor check, or finds its own context there.\<close>

lemma safe_verify_descriptor [safe_rules]:
  fixes C :: "claim set"
  assumes "D \<subseteq> C"
  shows "safe (given C) (verify_mysocket_descriptor x sd) (\<lambda>_. given D)"
  unfolding safe_def
proof (intro allI impI)
  fix s :: "'os sys" assume s: "given C s"
  then have w: "wf_sys s" by (simp add: given_def safe_inv_def)
  show "case verify_mysocket_descriptor x sd s of Done a s' \<Rightarrow> given D s' | Blocked s' \<Rightarrow> safe_inv s' | Abort e \<Rightarrow> asserted e"
  proof (cases "0 \<le> sd \<and> sd < 64 \<and> global_ctx s ! nat sd \<noteq> None")
    case True
    then obtain p where p: "open_socket sd p s" "global_ctx s ! nat sd = Some p" using w by (auto simp: open_socket_def)
    from open_socketE [OF p(1)] obtain c where "hload (ctxs s) p = Some c" "my_sd c = sd" by blast
    with p(2) given_mono [OF s assms] True show ?thesis by (simp add: verify_mysocket_descriptor_def run_simps)
  next
    case False
    then show ?thesis by (auto simp: verify_mysocket_descriptor_def run_simps)
  qed
qed

lemma safe_iterate [safe_rules]: "(\<And>l. safe (given C) (body l) (\<lambda>_. given C)) \<Longrightarrow> D \<subseteq> C \<Longrightarrow> safe (given C) (iterate n body l) (\<lambda>_. given D)"
proof -
  assume body: "\<And>l. safe (given C) (body l) (\<lambda>_. given C)" and D: "D \<subseteq> C"
  show ?thesis
  proof (induction n arbitrary: l)
    case 0
    show ?case using D by (simp add: safe_ret)
  next
    case (Suc n)
    show ?case
      unfolding iterate.simps
      by (rule safe_step [OF body]) (use Suc.IH D in \<open>auto intro!: safe_ret split: option.split sum.split\<close>)
  qed
qed

lemma safe_poll_round: "D \<subseteq> C \<Longrightarrow> safe (given C) (poll_round E a b u) (\<lambda>_. given D)"
  unfolding poll_round_def
  by (rule safe_rules | rule safe_step, rule safe_rules | (simp; fail) | (split poll_result.split, intro conjI allI impI))+

lemma safe_recv_round:
  assumes "known C p" "1500 \<le> length buf" "D \<subseteq> C"
  shows "safe (given C) (recv_round n E p buf) (\<lambda>_. given D)"
  unfolding recv_round_def using assms
  by - (rule safe_rules safe_poll_round | rule safe_step_value [OF safe_recv_packet] | rule safe_step, rule safe_rules | (simp; fail))+

lemma safe_transport_returns:
  "known C p \<Longrightarrow> D \<subseteq> C \<Longrightarrow> safe (given C) (transport_thread_func (\<lambda>_ _. ret (Some err)) p) (\<lambda>_. given D)"
  unfolding transport_thread_func_def bind_ret option.case
  by (rule safe_rules | rule safe_step, rule safe_rules | (simp; fail))+

section \<open>Closing\<close>

lemma listeners_ok_remove:
  assumes "listeners_ok m h" "\<And>d q. m' d = Some q \<Longrightarrow> m d = Some q"
    "\<And>p c. hload h' p = Some c \<Longrightarrow> hload h p = Some c" "\<And>p c d q. m' d = Some q \<Longrightarrow> hload h p = Some c \<Longrightarrow> my_sd c = d \<Longrightarrow> hload h' p = Some c"
  shows "listeners_ok m' h'"
  unfolding listeners_ok_def
proof (intro allI impI conjI ballI)
  fix d q assume d: "m' d = Some q"
  note old = assms(1) [unfolded listeners_ok_def, rule_format, OF assms(2) [OF d]]
  then show "queue_fit q" by blast
  from old obtain p c where c: "hload h p = Some c" "my_sd c = d" "listening c" "bound c" by blast
  with assms(4) [OF d c(1,2)] show "\<exists>p c. hload h' p = Some c \<and> my_sd c = d \<and> listening c \<and> bound c" by blast
  show "unlistened h' (req_sd r)" if "r \<in> set (connection_queue q)" for r
    using old that assms(3) unfolding unlistened_def by blast
qed

text \<open>Freeing a context that nobody needs: no thread, no queue, and only claims about other descriptors left.\<close>

lemma safe_free_context:
  fixes E :: "'os env"
  assumes C: "At p (Descriptor sd) \<in> C" "At p Unstarted_recv \<in> C" "At p Unstarted_transport \<in> C"
    and D: "D \<subseteq> C" "\<And>q f. At q f \<in> D \<Longrightarrow> \<exists>d. d \<noteq> sd \<and> At q (Descriptor d) \<in> C"
  shows "safe (\<lambda>s :: 'os sys. given C s \<and> listen_map s sd = None) (mysock_free_context E p) (\<lambda>_. given D)"
  unfolding safe_def
proof (intro allI impI, elim conjE)
  fix s :: "'os sys" assume s: "given C s" and none: "listen_map s sd = None"
  note inv = given_inv [OF s]
  obtain c where c: "hload (ctxs s) p = Some c" "my_sd c = sd" using given_claim [OF s C(1)] by auto
  have u: "map_option snd (recv_of c) \<noteq> Some True" "\<not> transport_thread_started c"
    using given_at [OF s C(2) c(1)] given_at [OF s C(3) c(1)] by auto
  have wf: "wf_ctx p c" using safe_invD(2) [OF inv c(1)] by (simp add: ctx_ok_def)
  then obtain i where i: "impl c = Some i" by (auto simp: wf_ctx_def)
  show "case mysock_free_context E p s of Done a s' \<Rightarrow> given D s' | Blocked s' \<Rightarrow> safe_inv s' | Abort e \<Rightarrow> asserted e"
  proof (cases "connect_lock i")
    case True
    then show ?thesis using free_context_locked [OF c(1) wf i, of E] by simp
  next
    case False
    from release_context [OF safe_invD(1) [OF inv] c(1) i this, of E] obtain s' where
      s': "mysock_free_context E p s = Done () s'" "wf_sys s'" "hload (ctxs s') p = None"
      "\<And>q. q \<noteq> p \<Longrightarrow> hload (ctxs s') q = hload (ctxs s) q" "threads s' = threads s" "listen_table s' = listen_table s" by blast
    have old: "hload (ctxs s) q = Some d" if "hload (ctxs s') q = Some d" for q d using that s'(3,4) by (cases "q = p") auto
    have m: "listen_map s' = listen_map s" using s'(6) by (simp add: listen_map_def)
    have "threads_ok (threads s') (ctxs s')"
      unfolding threads_ok_def s'(5)
    proof (intro allI impI)
      fix t assume "t < length (threads s)" "\<not> exited (threads s ! t)"
      with safe_invD(3) [OF inv] obtain d where d: "hload (ctxs s) (arg (threads s ! t)) = Some d" "recorded t (entry (threads s ! t)) d"
        unfolding threads_ok_def by blast
      with u c(1) have "arg (threads s ! t) \<noteq> p" by (auto simp: recorded_def split: thread_func.splits)
      with d s'(4) show "\<exists>c. hload (ctxs s') (arg (threads s ! t)) = Some c \<and> recorded t (entry (threads s ! t)) c" by auto
    qed
    moreover have "listeners_ok (listen_map s') (ctxs s')"
    proof (rule listeners_ok_remove [OF safe_invD(4) [OF inv]])
      show "hload (ctxs s') q = Some e" if "listen_map s' d = Some lq" "hload (ctxs s) q = Some e" "my_sd e = d" for q e d lq
        using that m c none s'(4) [of q] by (cases "q = p") auto
    qed (use m old in auto)
    ultimately have "safe_inv s'" using s'(2) safe_invD(2) [OF inv] old by (simp add: safe_inv_def)
    moreover have "claim_holds (ctxs s') x" if x: "x \<in> D" for x
    proof (cases x)
      case (At q f)
      with D(2) x obtain d where d: "d \<noteq> sd" "At q (Descriptor d) \<in> C" by blast
      then have "q \<noteq> p" using given_claim [OF s d(2)] c by auto
      with given_claim [OF s, of x] D(1) x At s'(4) show ?thesis by auto
    next
      case (Unlistened d)
      from D(1) x have "x \<in> C" by blast
      from given_claim [OF s this] Unlistened old show ?thesis by (auto simp: unlistened_def)
    qed
    ultimately show ?thesis using s'(1) by (simp add: given_def)
  qed
qed

text \<open>Claims that outlast the closing of descriptor e: they are about listening sockets with other descriptors.\<close>

definition lasting :: "int \<Rightarrow> claim set \<Rightarrow> bool" where
  "lasting e C \<longleftrightarrow> (\<forall>q f. At q f \<in> C \<longrightarrow> At q Listening \<in> C \<and> (\<exists>d. d \<noteq> e \<and> At q (Descriptor d) \<in> C))"

lemma given_listening: "given C s \<Longrightarrow> At q Listening \<in> C \<Longrightarrow> At q (Descriptor d) \<in> C \<Longrightarrow> unlistened (ctxs s) e \<Longrightarrow> d \<noteq> e"
  using given_claim [of C s "At q (Descriptor d)"] given_at [of C s q Listening] by (auto simp: unlistened_def)

lemma safe_close_all:
  assumes "\<And>r. r \<in> set rs \<Longrightarrow> safe (given C) (cl (req_sd r)) (\<lambda>_. given C)"
  shows "safe (given C) (close_all cl rs) (\<lambda>_. given C)"
  using assms
proof (induction rs)
  case Nil
  show ?case by (simp add: safe_ret)
next
  case (Cons r rs)
  have "safe (given C) (bind (cl (req_sd r)) (\<lambda>_. ret ())) (\<lambda>_. given C)"
    by (rule safe_step [OF Cons.prems]) (simp_all add: safe_ret)
  then show ?case unfolding close_all.simps
    by - (rule safe_step [OF safe_if]; use Cons in \<open>simp add: safe_ret\<close>)
qed

lemma given_delete_queue:
  assumes s: "given C s" and sd: "0 \<le> sd"
  shows "\<exists>t. on_listen_table (hash_delete hash_default_hash_fn hash_default_key_equals MAX_NUM_CONNECTIONS sd) s = Done () (s\<lparr>listen_table := t\<rparr>)
    \<and> given C (s\<lparr>listen_table := t\<rparr>) \<and> listen_map (s\<lparr>listen_table := t\<rparr>) sd = None"
proof -
  note inv = given_inv [OF s]
  from delete_listener [OF safe_invD(1) [OF inv] sd] obtain t where
    t: "on_listen_table (hash_delete hash_default_hash_fn hash_default_key_equals MAX_NUM_CONNECTIONS sd) s = Done () (s\<lparr>listen_table := t\<rparr>)"
    "wf_sys (s\<lparr>listen_table := t\<rparr>)" "listen_map (s\<lparr>listen_table := t\<rparr>) = (listen_map s)(sd := None)" by blast
  have "listeners_ok ((listen_map s)(sd := None)) (ctxs s)"
    by (rule listeners_ok_remove [OF safe_invD(4) [OF inv]]) (auto split: if_splits)
  with t s show ?thesis by (auto simp: given_def safe_inv_def)
qed

text \<open>Closing the connections of a queue, and the queue itself.\<close>

lemma safe_close_passive:
  fixes E :: "'os env" and cl :: "int \<Rightarrow> ('os sys, 'a) prog"
  assumes C: "At p (Descriptor sd) \<in> C" "At p Listening \<in> C"
    and all: "\<And>q f. At q f \<in> C \<Longrightarrow> At q Listening \<in> C \<and> (\<exists>d. At q (Descriptor d) \<in> C)"
    and cl: "\<And>e. lasting e C \<Longrightarrow> safe (given C) (cl e) (\<lambda>_. given C)"
  shows "safe (given C) (mysock_close_passive_socket cl p) (\<lambda>_ s. given C s \<and> listen_map s sd = None)"
  unfolding safe_def
proof (intro allI impI)
  fix s :: "'os sys" assume s: "given C s"
  note inv = given_inv [OF s]
  obtain c where c: "hload (ctxs s) p = Some c" "my_sd c = sd" using given_claim [OF s C(1)] by auto
  note gq = get_connection_queue_value [OF safe_invD(1) [OF inv] c(1)]
  have sd: "0 \<le> sd" using wf_descriptors_live(2) [of "global_ctx s" "ctxs s" p c] c safe_invD(1) [OF inv] by (auto simp: wf_sys_def)
  show "case mysock_close_passive_socket cl p s of Done a s' \<Rightarrow> given C s' \<and> listen_map s' sd = None | Blocked s' \<Rightarrow> safe_inv s' | Abort e \<Rightarrow> asserted e"
  proof (cases "listening c \<and> bound c")
    case True
    show ?thesis
    proof (cases "listen_map s sd")
      case None
      then show ?thesis using c gq True s by (simp add: mysock_close_passive_socket_def run_simps)
    next
      case (Some q)
      have "lasting (req_sd r) C" if "r \<in> set (connection_queue q)" for r
        unfolding lasting_def using all given_listening [OF s _ _ listened_queue(2) [OF inv Some that]] by blast
      then have "safe (given C) (close_all cl (take (lq_max_len q) (connection_queue q))) (\<lambda>_. given C)"
        by (intro safe_close_all cl) (auto dest: in_set_takeD)
      from safeD [OF this s] given_delete_queue [OF _ sd] listened_queue(1) [OF inv Some] c gq True Some show ?thesis
        by (fastforce simp: mysock_close_passive_socket_def run_simps queue_fit_def split: outcome.splits)
    qed
  qed (use c in \<open>auto simp: mysock_close_passive_socket_def run_simps\<close>)
qed

lemma plain_no_queue:
  assumes "given C s" "At p Plain \<in> C" "At p (Descriptor sd) \<in> C"
  shows "listen_map s sd = None"
proof (rule ccontr)
  assume "listen_map s sd \<noteq> None"
  then obtain q where "listen_map s sd = Some q" by auto
  from listened_queue(3) [OF given_inv [OF assms(1)] this] obtain p' c' where c': "hload (ctxs s) p' = Some c'" "my_sd c' = sd" "listening c'" by blast
  obtain c where c: "hload (ctxs s) p = Some c" "my_sd c = sd" "\<not> listening c"
    using given_claim [OF assms(1,3)] given_at [OF assms(1,2)] by auto
  have wf: "wf_descriptors (global_ctx s) (ctxs s)" using safe_invD(1) [OF given_inv [OF assms(1)]] by (simp add: wf_sys_def)
  from wf_descriptors_live(4) [OF wf c(1)] wf_descriptors_live(4) [OF wf c'(1)] c c' show False by auto
qed

lemma safe_read_ctx:
  fixes Q :: "'a \<Rightarrow> 'os sys \<Rightarrow> bool"
  assumes "known C p" "\<And>c. ctx_ok p c \<Longrightarrow> safe (\<lambda>s. given (seen p c \<union> C) s \<and> hload (ctxs s) p = Some c) (f c) Q"
  shows "safe (given C) (bind (get_ctx file line p) f) Q"
  unfolding safe_def
proof (intro allI impI)
  fix s :: "'os sys" assume s: "given C s"
  from given_knownE [OF s assms(1)] obtain c where c: "hload (ctxs s) p = Some c" "ctx_ok p c" .
  from safeD [OF assms(2) [OF c(2)] conjI [OF given_seen [OF s c(1)] c(1)]] c(1)
  show "case bind (get_ctx file line p) f s of Done a s' \<Rightarrow> Q a s' | Blocked s' \<Rightarrow> safe_inv s' | Abort e \<Rightarrow> asserted e"
    by (simp add: run_simps)
qed

text \<open>The first half of myclose: the close request, the join of the transport thread.\<close>

lemma safe_join_step:
  assumes "At p (Descriptor sd) \<in> C" "ctx_ok p c"
  shows "safe (\<lambda>s :: 'os sys. given (seen p c \<union> C) s \<and> hload (ctxs s) p = Some c)
     (if transport_thread_started c
      then bind (assert_at ''mysock_api.c'' 177 (\<not> listening c)) (\<lambda>_.
           bind (assert_at ''mysock_api.c'' 178 (is_active c \<or> listen_sd c \<noteq> -1)) (\<lambda>_.
           bind (pthread_join (transport_thread c)) (\<lambda>_.
           on_ctx ''mysock_api.c'' 180 p (modify (\<lambda>c. c\<lparr>transport_thread_started := False\<rparr>)))))
      else ret ()) (\<lambda>_. given (insert (At p Unstarted_transport) C))"
proof (rule safe_if)
  assume t: "transport_thread_started c"
  show "safe (\<lambda>s :: 'os sys. given (seen p c \<union> C) s \<and> hload (ctxs s) p = Some c) (bind (assert_at ''mysock_api.c'' 177 (\<not> listening c)) (\<lambda>_.
           bind (assert_at ''mysock_api.c'' 178 (is_active c \<or> listen_sd c \<noteq> -1)) (\<lambda>_.
           bind (pthread_join (transport_thread c)) (\<lambda>_.
           on_ctx ''mysock_api.c'' 180 p (modify (\<lambda>c. c\<lparr>transport_thread_started := False\<rparr>))))))
     (\<lambda>_. given (insert (At p Unstarted_transport) C))"
    by (rule safe_assert)+ (rule safe_join_transport [OF t], auto)
next
  assume "\<not> transport_thread_started c"
  then have "insert (At p Unstarted_transport) C \<subseteq> seen p c \<union> C" by auto
  then show "safe (\<lambda>s :: 'os sys. given (seen p c \<union> C) s \<and> hload (ctxs s) p = Some c) (ret ()) (\<lambda>_. given (insert (At p Unstarted_transport) C))"
    by (auto simp: safe_def run_simps intro: given_mono)
qed

lemma safe_myclose_fuel: "lasting sd C \<Longrightarrow> safe (given C) (myclose_fuel n E sd) (\<lambda>_. given C)"
proof (induction n arbitrary: sd C)
  case 0
  show ?case by (simp add: safe_block myclose_fuel.simps)
next
  case (Suc n)
  let ?A = "\<lambda>p. insert (At p (Descriptor sd)) C" and ?T = "\<lambda>p. insert (At p Unstarted_transport) (insert (At p (Descriptor sd)) C)"
  let ?R = "\<lambda>p. insert (At p Unstarted_recv) (insert (At p Unstarted_transport) (insert (At p (Descriptor sd)) C))"
  have close: "safe (given (seen p c \<union> ?R p)) (if listening c then mysock_close_passive_socket (myclose_fuel n E) p else ret ())
      (\<lambda>_ s. given (?R p) s \<and> listen_map s sd = None)" if "ctx_ok p c" for p c
  proof (rule safe_if)
    assume l: "listening c"
    let ?C = "insert (At p Listening) (?R p)"
    have "safe (given ?C) (mysock_close_passive_socket (myclose_fuel n E) p) (\<lambda>_ s. given ?C s \<and> listen_map s sd = None)"
    proof (rule safe_close_passive)
      show "At q Listening \<in> ?C \<and> (\<exists>d. At q (Descriptor d) \<in> ?C)" if "At q f \<in> ?C" for q f
        using that Suc.prems unfolding lasting_def by (cases "q = p") auto
    qed (use Suc.IH in simp_all)
    then show "safe (given (seen p c \<union> ?R p)) (mysock_close_passive_socket (myclose_fuel n E) p) (\<lambda>_ s. given (?R p) s \<and> listen_map s sd = None)"
      by (rule safe_cons) (use l in \<open>auto elim!: given_mono\<close>)
  next
    assume "\<not> listening c"
    then have "At p Plain \<in> seen p c \<union> ?R p" "At p (Descriptor sd) \<in> seen p c \<union> ?R p" by simp_all
    from plain_no_queue [OF _ this] show "safe (given (seen p c \<union> ?R p)) (ret ()) (\<lambda>_ s. given (?R p) s \<and> listen_map s sd = None)"
      unfolding safe_def ret_run outcome.case by (blast intro: given_mono)
  qed
  have free: "safe (\<lambda>s. given (?R p) s \<and> listen_map s sd = None) (bind (mysock_free_context E p) (\<lambda>_. ret (Inr 0))) (\<lambda>_. given C)" for p
    by (rule safe_bind [OF safe_free_context [where D = C]]) (use Suc.prems in \<open>auto simp: lasting_def intro: safe_ret\<close>)
  have req: "safe (given (insert (At p Alive) (?A p))) (on_ctx ''mysock_api.c'' 170 p (modify (\<lambda>c. c\<lparr>close_requested := True\<rparr>))) (\<lambda>_. given (?A p))" for p
    by (rule safe_rules | (simp add: ctx_simps; fail) | (auto; fail) [1])+
  show ?case
    unfolding myclose_fuel.simps
    by (rule safe_get_context, unfold option.case, rule safe_bind [OF req], rule safe_read_ctx, rule known_insert, rule safe_bind [OF safe_join_step [of _ sd]],
        rule insertI1, assumption, rule safe_bind [OF safe_stop_recv_thread [where D = "?R p" for p]], simp, rule subset_refl, rule safe_get_ctx,
        rule known_insert, rule safe_bind [OF close], assumption, rule free)
qed

end
