(* ===== verification/Memory_Safety.thy ===== *)
theory Memory_Safety
  imports Safety_Sockets
begin

text \<open>
  No call that keeps the contract of the two interfaces touches memory that is not there, in any state
  that such calls, one at a time, reach; and what happens when a second mylisten, which the interface
  invites, breaks the contract. (Segment\_Path shows the other case, a packet received into a short buffer.)
\<close>

section \<open>The contract of the interfaces\<close>

text \<open>A thread that is still running.\<close>

definition runs :: "'os sys \<Rightarrow> thread_func \<Rightarrow> ptr \<Rightarrow> bool" where
  "runs s f p \<longleftrightarrow> (\<exists>t < length (threads s). threads s ! t = \<lparr>entry = f, arg = p, exited = False\<rparr>)"

text \<open>
  What a caller must see to: a buffer holds the bytes it is said to hold; a packet is received into
  room for any packet; an address is not empty; mylisten is called once, on a mysocket that was neither connected
  nor handed out by a listening socket; the code of a thread runs in its thread, with its own packet buffer.
\<close>

fun valid_call :: "'os sys \<Rightarrow> call \<Rightarrow> bool" where
  "valid_call s (Do_myconnect sd addr len) = (0 < len)"
| "valid_call s (Do_mylisten sd backlog) = may_listen sd s"
| "valid_call s (Do_mywrite sd buf len) = (len \<le> length buf)"
| "valid_call s (Do_network_recv sd dst max_len) = (MAX_IP_PAYLOAD_LEN \<le> max_len)"
| "valid_call s (Do_network_send sd addr src len segs) = (len \<le> length src \<and> (\<forall>(b, n) \<in> set segs. n \<le> length b))"
| "valid_call s (Do_app_send sd src len) = (len \<le> length src)"
| "valid_call s (Do_recv_round n p buf) = (runs s Network_recv_thread_func p \<and> MAX_IP_PAYLOAD_LEN \<le> length buf)"
| "valid_call s (Do_transport_returns err p) = runs s Transport_thread_func p"
| "valid_call s call = True"

inductive proper :: "'os env \<Rightarrow> 'os sys \<Rightarrow> bool" for E where
  start: "proper E (init_sys w)"
| returns: "proper E s \<Longrightarrow> valid_call s call \<Longrightarrow> run_call E call s = Done () s' \<Longrightarrow> proper E s'"
| waits: "proper E s \<Longrightarrow> valid_call s call \<Longrightarrow> run_call E call s = Blocked s' \<Longrightarrow> proper E s'"
| thread_ends: "proper E s \<Longrightarrow> t < length (threads s) \<Longrightarrow> proper E (s\<lparr>threads := (threads s)[t := (threads s ! t)\<lparr>exited := True\<rparr>]\<rparr>)"
| system: "proper E s \<Longrightarrow> proper E (s\<lparr>os := w\<rparr>)"

lemma proper_reachable: "proper E s \<Longrightarrow> reachable E s"
  by (induction rule: proper.induct) (auto intro: reachable.intros sys_step.intros)

lemma given_empty: "given {} = safe_inv"
  by (simp add: fun_eq_iff given_def)

lemma given_runs: "safe_inv s \<Longrightarrow> runs s f p \<Longrightarrow> given {At p Alive} s"
  using safe_invD(3) [of s] by (auto simp: runs_def given_def threads_ok_def)

lemma safe_void: "safe P m (\<lambda>_. given {}) \<Longrightarrow> safe P (void m) (\<lambda>_. safe_inv)"
  unfolding given_empty by (rule safe_bind) (auto simp: safe_def run_simps)

lemma safe_always: "(v \<Longrightarrow> safe (given {}) m (\<lambda>_. given {})) \<Longrightarrow> safe (\<lambda>s. safe_inv s \<and> v) m (\<lambda>_. safe_inv)"
  unfolding given_empty by (auto simp: safe_def)

lemma safe_valid_call: "safe (\<lambda>s. safe_inv s \<and> valid_call s call) (run_call E call) (\<lambda>_. safe_inv)"
proof (cases call)
  case (Do_mylisten sd backlog)
  have "safe (\<lambda>s. safe_inv s \<and> may_listen sd s) (void (mylisten E sd backlog)) (\<lambda>_. safe_inv)"
    by (rule safe_bind [OF safe_mylisten]) (simp add: safe_def run_simps)
  then show ?thesis using Do_mylisten by simp
next
  case (Do_myclose sd)
  have "safe (given {}) (myclose E sd) (\<lambda>_. given {})" unfolding myclose_def by (rule safe_myclose_fuel) (simp add: lasting_def)
  from safe_void [OF this] show ?thesis using Do_myclose by (simp add: given_empty)
next
  case (Do_recv_round n p buf)
  have "safe (given {At p Alive}) (recv_round n E p buf) (\<lambda>_. given {})" if "1500 \<le> length buf"
    by (rule safe_recv_round) (use that in simp_all)
  from safe_void [OF this] show ?thesis using Do_recv_round given_runs by (auto simp: safe_def)
next
  case (Do_transport_returns err p)
  have "safe (given {At p Alive}) (transport_thread_func (\<lambda>_ _. ret (Some err)) p) (\<lambda>_. given {})"
    by (rule safe_transport_returns) simp_all
  from safe_void [OF this] show ?thesis using Do_transport_returns given_runs by (auto simp: safe_def)
next
  case (Do_myconnect sd name len)
  from safe_void [OF safe_myconnect [of len "{}" E sd name]] show ?thesis using Do_myconnect by (auto simp: safe_def given_empty)
qed (simp only: valid_call.simps run_call.simps, rule safe_always, (rule safe_rules | rule safe_step, rule safe_rules | (simp; fail))+)+

lemma proper_safe_inv: "proper E s \<Longrightarrow> safe_inv s"
proof (induction rule: proper.induct)
  case (start w)
  show ?case by (rule safe_inv_init)
next
  case (returns s call s')
  with safeD [OF safe_valid_call, of s call E] show ?case by simp
next
  case (waits s call s')
  with safeD [OF safe_valid_call, of s call E] show ?case by simp
next
  case (thread_ends s t)
  let ?ts = "(threads s)[t := (threads s ! t)\<lparr>exited := True\<rparr>]"
  have "threads_ok ?ts (ctxs s)"
    unfolding threads_ok_def
  proof (intro allI impI)
    fix u assume u: "u < length ?ts" "\<not> exited (?ts ! u)"
    then have "u \<noteq> t" by auto
    with u safe_invD(3) [OF thread_ends.IH] show "\<exists>c. hload (ctxs s) (arg (?ts ! u)) = Some c \<and> recorded u (entry (?ts ! u)) c"
      by (simp add: threads_ok_def)
  qed
  moreover have "listen_map (s\<lparr>threads := ?ts\<rparr>) = listen_map s" by (simp add: listen_map_def)
  ultimately show ?case using thread_ends.IH by (simp add: safe_inv_def)
next
  case (system s w)
  then show ?case by (simp add: safe_inv_os)
qed

section \<open>Properties\<close>

text \<open>C3: Memory safety of calls made one after the other. Start the process and let the application, the transport
  layer of every connection, the receive threads, the ends of threads and the operating system call in any
  order, one call at a time: each runs to its end, or to the wait it sleeps in, before the next begins, and a call that
  waits is made again from its start. Every call keeps the contract of its interface (\<open>valid_call\<close>). Then in every
  state that is reached this way, every further call that keeps the contract
  returns, waits, or ends the process at an assertion of the source, never at a NULL pointer, a
  freed context or queue, an access outside a buffer, or a variable without a value; and every thread that still
  runs has a live context, which remembers it, so that myclose will wait for it.

  This says nothing of two calls that overlap, nor of a myclose while another call waits on the same mysocket (here the other
  call would start again and meet the freed descriptor, in C it wakes in a freed context). There it would be false: two overlapping myread calls on one mysocket
  can read a freed node (\<open>second_reader_breaks_queue\<close>), and two overlapping searches for a descriptor can lose a context
  (\<open>descriptor_claimed_twice\<close>). That the threads of one connection are safe with every interleaving of their steps, as
  long as every queue has one reader, is \<open>context_threads_safe\<close>; the locks of the listening
  sockets are \<open>lock_discipline\<close>.\<close>

theorem memory_safety:
  assumes "proper E s" and "valid_call s call"
  shows "(case run_call E call s of Done _ _ \<Rightarrow> True | Blocked _ \<Rightarrow> True | Abort e \<Rightarrow> \<exists>file line. e = Assertion file line)
    \<and> (\<forall>t < length (threads s). \<not> exited (threads s ! t) \<longrightarrow> (\<exists>c. hload (ctxs s) (arg (threads s ! t)) = Some c
        \<and> (case entry (threads s ! t) of Transport_thread_func \<Rightarrow> transport_thread_started c \<and> transport_thread c = t
           | Network_recv_thread_func \<Rightarrow> map_option (\<lambda>i. (recv_thread i, recv_thread_started i)) (impl c) = Some (t, True))))"
proof (rule conjI)
  note inv = proper_safe_inv [OF assms(1)]
  from safeD [OF safe_valid_call, of s call E] inv assms(2)
  show "case run_call E call s of Done _ _ \<Rightarrow> True | Blocked _ \<Rightarrow> True | Abort e \<Rightarrow> \<exists>file line. e = Assertion file line"
    by (cases "run_call E call s") (simp_all add: asserted_def)
  from safe_invD(3) [OF inv] show "\<forall>t < length (threads s). \<not> exited (threads s ! t) \<longrightarrow> (\<exists>c. hload (ctxs s) (arg (threads s ! t)) = Some c
        \<and> (case entry (threads s ! t) of Transport_thread_func \<Rightarrow> transport_thread_started c \<and> transport_thread c = t
           | Network_recv_thread_func \<Rightarrow> map_option (\<lambda>i. (recv_thread i, recv_thread_started i)) (impl c) = Some (t, True)))"
    unfolding threads_ok_def recorded_def recv_of_def .
qed

theorem memory_safety_witness:
  "\<exists>s. proper sample_env s \<and> open_socket 0 0 s
    \<and> (case run_call sample_env (Do_mylisten 0 3) s of Done _ _ \<Rightarrow> True | Blocked _ \<Rightarrow> True | Abort e \<Rightarrow> \<exists>file line. e = Assertion file line)"
proof -
  let ?s = "(init_sys (3 :: nat))\<lparr>os := 6, global_ctx := (global_ctx (init_sys 3 :: nat sys))[0 := Some 0], ctxs := [Some (fresh_context 0 3 4 5 True 0)]\<rparr>"
  have "os_grants sample_env (os (init_sys 3)) 3 4 5 6" "free_slot (global_ctx (init_sys 3)) 0 = Some 0"
    by (simp_all add: os_grants_def sample_env_def init_sys_def replicate_64)
  from new_mysocket_free [OF this, of True] have "run_call sample_env (Do_mysocket True) (init_sys 3) = Done () ?s"
    by (simp add: mysocket_def run_simps init_sys_def)
  then have p: "proper sample_env ?s" by (rule proper.returns [OF proper.start, rotated]) simp
  have "listen_map ?s = Map.empty" by (simp add: listen_map_def init_sys_def)
  then have "valid_call ?s (Do_mylisten 0 3)"
    by (auto simp: may_listen_def hload_def has_peer_def fresh_context_def zero_context_def zero_network_context_def split: if_splits)
  from memory_safety [OF p this] have "case run_call sample_env (Do_mylisten 0 3) ?s of Done _ _ \<Rightarrow> True | Blocked _ \<Rightarrow> True
    | Abort e \<Rightarrow> \<exists>file line. e = Assertion file line" by (rule conjunct1)
  moreover have "open_socket 0 0 ?s"
    using safe_invD(1) [OF proper_safe_inv [OF p]] by (simp add: open_socket_def init_sys_def)
  ultimately show ?thesis using p by blast
qed

section \<open>When the contract is broken\<close>

text \<open>A second mylisten with the same backlog: the queue stays as it is, and one more thread is started.\<close>

lemma listening_again:
  assumes l: "listener sd p q s" and c: "hload (ctxs s) p = Some c" "impl c = Some i" "0 \<le> socket i"
    and port: "network_get_port E p s = Done port s" "unat (ntohs (host_order E) port) = local_port q" "0 < local_port q"
    and len: "unat (of_int backlog + 1 :: 32 word) = lq_max_len q"
    and os: "os_listen E (socket i) backlog (os s) = (None, w)" "os_ignore_sigpipe E w = (True, w')"
  shows "\<exists>s1. mylisten E sd backlog s = Done (Inr 0) s1 \<and> listener sd p q s1
    \<and> threads s1 = threads s @ [\<lparr>entry = Network_recv_thread_func, arg = p, exited = False\<rparr>]
    \<and> hload (ctxs s1) p = Some (upd_impl (\<lambda>i. i\<lparr>recv_thread := length (threads s), recv_thread_started := True\<rparr>) c)"
proof -
  from l c(1) have lc: "open_socket sd p s" "my_sd c = sd" "listening c" "bound c" by (auto elim!: listenerE)
  have same: "c\<lparr>listening := True\<rparr> = c" using lc(3) by (cases c) simp
  from listener_put [OF l, of q] obtain s1 where
    s1: "put_queue sd q s = Done () s1" "listener sd p q s1" "ctxs s1 = ctxs s" "threads s1 = threads s" "os s1 = os s" by blast
  have "q\<lparr>lq_max_len := lq_max_len q\<rparr> = q" by (cases q) simp
  then have set: "mysock_set_backlog E p (of_int backlog) s = Done () s1"
    using c lc port len get_connection_queue_run [OF l] s1(1) by (simp add: mysock_set_backlog_def run_simps Let_def)
  let ?c = "upd_impl (\<lambda>i. i\<lparr>recv_thread := length (threads s), recv_thread_started := True\<rparr>) c"
  let ?t = "s1\<lparr>os := w', threads := threads s @ [\<lparr>entry = Network_recv_thread_func, arg = p, exited = False\<rparr>]\<rparr>"
  let ?s = "?t\<lparr>ctxs := hstore (ctxs s) p ?c\<rparr>"
  have wf: "wf_ctx p ?c" using lc(1) c by (auto simp: wf_ctx_def upd_impl_def upd_network_def elim!: open_socketE)
  have "mylisten E sd backlog s = Done (Inr 0) ?s"
    using c lc s1 set os hload_bound [OF c(1)] open_socket_context(1) [OF lc(1)]
    by (simp add: mylisten_def network_listen_def verify_socket_def network_start_recv_thread_def mysock_create_thread_def
      run_simps heap_simps same hstore_same)
  moreover have "listener sd p q ?s"
    using listener_store [of sd p q ?t p c ?c] s1(2,3) c(1) wf by (simp add: upd_impl_def upd_network_def)
  ultimately show ?thesis using hload_bound [OF c(1)] by (intro exI [of _ ?s]) (simp add: heap_simps)
qed

text \<open>What a second mylisten does. On a mysocket that listens, whose receive thread runs, and whose queue is
  empty, mylisten with the same backlog succeeds and starts a second receive thread; the first is forgotten.
  When the application then closes the mysocket, and the second thread ends as it is told to, myclose returns 0
  while the first thread still runs: its context is gone, and its next round reads freed memory. This is the
  contract that \<open>memory_safety\<close> asks for, and it is needed.\<close>

lemma second_mylisten_orphans_thread:
  assumes "listener sd p q s" and "wf_lq q" and "pending q = []" and "runs s Network_recv_thread_func p"
    and "hload (ctxs s) p = Some c" and "impl c = Some i" and "0 \<le> socket i" and "\<not> connect_lock i" and "\<not> transport_thread_started c"
    and "network_get_port E p s = Done port s" and "unat (ntohs (host_order E) port) = local_port q" and "0 < local_port q"
    and "unat (of_int backlog + 1 :: 32 word) = lq_max_len q"
    and "os_listen E (socket i) backlog (os s) = (None, w)" and "os_ignore_sigpipe E w = (True, w')" and "pipe_ok E"
  shows "\<exists>s1. mylisten E sd backlog s = Done (Inr 0) s1 \<and> length (threads s1) = Suc (length (threads s))
    \<and> (\<exists>s2. myclose E sd (s1\<lparr>threads := (threads s1)[length (threads s) := (threads s1 ! length (threads s))\<lparr>exited := True\<rparr>]\<rparr>)
          = Done (Inr 0) s2
        \<and> runs s2 Network_recv_thread_func p
        \<and> (\<forall>n buf. recv_round n E p buf s2 = Abort (Dangling ''network_io_socket.c'' 228)))"
proof -
  from listening_again [OF assms(1,5-7,10-15)] obtain s1 where
    s1: "mylisten E sd backlog s = Done (Inr 0) s1" "listener sd p q s1"
      "threads s1 = threads s @ [\<lparr>entry = Network_recv_thread_func, arg = p, exited = False\<rparr>]"
      "hload (ctxs s1) p = Some (upd_impl (\<lambda>i. i\<lparr>recv_thread := length (threads s), recv_thread_started := True\<rparr>) c)" by blast
  let ?s = "s1\<lparr>threads := (threads s1)[length (threads s) := (threads s1 ! length (threads s))\<lparr>exited := True\<rparr>]\<rparr>"
  have l: "listener sd p q ?s" "hload (ctxs ?s) p = hload (ctxs s1) p" "open_socket sd p ?s" using s1(2) by (auto elim: listenerE)
  have "threads_done ?s (upd_impl (\<lambda>i. i\<lparr>recv_thread := length (threads s), recv_thread_started := True\<rparr>) c)"
    using assms(6,8,9) s1(3) by (simp add: threads_done_def thread_exited_def upd_impl_def upd_network_def)
  from myclose_listener [OF l(1) assms(2) _ this _ assms(16)] s1(4) l(2) assms(3) obtain s2 where
    s2: "myclose E sd ?s = Done (Inr 0) s2" "closed_all (pending q @ [sd]) ?s s2"
    unfolding myclose_def numeral_2_eq_2 by auto
  from s2(2) l(3) have gone: "hload (ctxs s2) p = None" and th: "threads s2 = threads ?s" unfolding closed_all_def by auto
  from gone have "\<forall>n buf. recv_round n E p buf s2 = Abort (Dangling ''network_io_socket.c'' 228)"
    by (simp add: recv_round_def run_simps)
  moreover from assms(4) obtain t where "t < length (threads s)" "threads s ! t = \<lparr>entry = Network_recv_thread_func, arg = p, exited = False\<rparr>"
    by (auto simp: runs_def)
  then have "runs s2 Network_recv_thread_func p" unfolding runs_def using th s1(3)
    by (intro exI [of _ t]) (simp add: nth_append)
  ultimately show ?thesis using s1(1,3) s2(1) by auto
qed

text \<open>The sample listening mysocket with its receive thread.\<close>

abbreviation listening_sys :: "nat sys" where
  "listening_sys \<equiv> (listen_sys sample_queue)\<lparr>threads := [\<lparr>entry = Network_recv_thread_func, arg = 0, exited = False\<rparr>]\<rparr>"

end
