(* ===== verification/Segment_Path.thy ===== *)
theory Segment_Path
  imports Stcp_Threads
begin

text \<open>
  The way of a segment, from stcp\_network\_send at one end of a connection through the simulated network, the TCP
  stream and the receive thread to stcp\_network\_recv at the other end.
\<close>

section \<open>Sending\<close>

text \<open>What the caller of stcp\_network\_send passes: the address of packet on the stack, and the buffers.\<close>

type_synonym outgoing = "64 word \<times> byte list \<times> nat \<times> (byte list \<times> nat) list"

fun gathered :: "outgoing \<Rightarrow> byte list" where
  "gathered (addr, src, n, segs) = take n src @ concat (map (\<lambda>(b, k). take k b) segs)"

fun sendable_segment :: "outgoing \<Rightarrow> bool" where
  "sendable_segment (addr, src, n, segs) \<longleftrightarrow> addr AND 2 = 0 \<and> n \<le> length src \<and> (\<forall>(b, k) \<in> set segs. k \<le> length b)
     \<and> 20 \<le> length (gathered (addr, src, n, segs)) \<and> length (gathered (addr, src, n, segs)) \<le> 1500"

text \<open>The segment on the wire: the caller's bytes but for the ports, the checksum and the urgent pointer.\<close>

definition stamped :: "endian \<Rightarrow> 16 word \<Rightarrow> 16 word \<Rightarrow> byte list \<Rightarrow> byte list \<Rightarrow> bool" where
  "stamped h sport dport x seg \<longleftrightarrow> length seg = length x \<and> (\<forall>k. 4 \<le> k \<and> (k < 16 \<or> 20 \<le> k) \<longrightarrow> seg ! k = x ! k)
     \<and> load16_at h seg 0 = sport \<and> load16_at h seg 2 = dport \<and> load16_at h seg 18 = 0"

abbreviation stamp :: "endian \<Rightarrow> 16 word \<Rightarrow> 16 word \<Rightarrow> byte list \<Rightarrow> byte list" where
  "stamp h sport dport x \<equiv> store16_at h (store16_at h (store16_at h (store16_at h x 0 sport) 2 dport) 16 0) 18 0"

lemma store16_at_elsewhere:
  "k \<noteq> i \<Longrightarrow> k \<noteq> Suc i \<Longrightarrow> store16_at h bs i w ! k = bs ! k"
  "k \<noteq> i \<Longrightarrow> k \<noteq> Suc i \<Longrightarrow> Suc k \<noteq> i \<Longrightarrow> load16_at h (store16_at h bs i w) k = load16_at h bs k"
  by (simp_all add: store16_at_def load16_at_def)

lemma stamped_stamp:
  assumes "20 \<le> length x" "length seg = length x" "\<forall>k. k \<noteq> 16 \<and> k \<noteq> 17 \<longrightarrow> seg ! k = stamp h sport dport x ! k"
  shows "stamped h sport dport x seg"
proof -
  have "load16_at h seg k = load16_at h (stamp h sport dport x) k" if "k \<noteq> 15" "k \<noteq> 16" "k \<noteq> 17" for k
  proof -
    have "Suc k \<noteq> 16" "Suc k \<noteq> 17" using that by simp_all
    with that(2,3) assms(3) have "seg ! k = stamp h sport dport x ! k" "seg ! Suc k = stamp h sport dport x ! Suc k" by blast+
    then show ?thesis by (simp only: load16_at_def)
  qed
  moreover have "seg ! k = x ! k" if "4 \<le> k \<and> (k < 16 \<or> 20 \<le> k)" for k
    using that assms(3) by (auto simp: store16_at_elsewhere)
  ultimately show ?thesis using assms(1,2) by (simp add: stamped_def store16_at_elsewhere)
qed

text \<open>The two hosts of a connection, whose addresses do not change.\<close>

definition ends :: "'a env \<Rightarrow> mysock_context \<Rightarrow> 'b env \<Rightarrow> mysock_context \<Rightarrow> bool" where
  "ends E c F d \<longleftrightarrow> (\<forall>w v. mirrored E c w F d v)"

lemma ends_peer:
  assumes "peer_of (network_state c') = peer_of (network_state c)" "peer_of (network_state d') = peer_of (network_state d)"
  shows "ends E c' F d' = ends E c F d"
  using assms by (simp add: ends_def mirrored_def knows_peer_def peer_of_def split: option.split)

definition port_of :: "'os env \<Rightarrow> int \<Rightarrow> 16 word \<Rightarrow> bool" where
  "port_of E fd port \<longleftrightarrow> (\<forall>w. \<exists>a. os_getsockname E fd w = Some a \<and> sa_family a = AF_INET \<and> sin_port a = port)"

lemma get_port_run:
  assumes "link_up p fd s" "port_of E fd port"
  shows "network_get_port E p s = Done port s"
  using assms spec [OF assms(2) [unfolded port_of_def], of "os s"]
  by (auto simp: network_get_port_def verify_socket_def run_simps elim!: link_upE)

lemma gather_run:
  "\<forall>(b, k) \<in> set segs. k \<le> length b \<Longrightarrow> length (pkt @ concat (map (\<lambda>(b, k). take k b) segs)) \<le> 1500
    \<Longrightarrow> gather pkt segs s = Done (pkt @ concat (map (\<lambda>(b, k). take k b) segs)) s"
  by (induction segs arbitrary: pkt) (auto simp: run_simps)

lemma stcp_network_send_run:
  fixes F :: "'b env"
  assumes s: "sendable sd p fd s" "hload (ctxs s) p = Some c" and port: "port_of E fd port"
    and c: "ends E c F d" "0 < sin_port (peer_addr (network_state c))" and x: "sendable_segment (addr, src, n, segs)"
  shows "\<exists>seg. stcp_network_send E sd addr src n segs s = network_send E sd seg (length seg) s
    \<and> stamped (host_order E) port (sin_port (peer_addr (network_state c))) (gathered (addr, src, n, segs)) seg
    \<and> (\<forall>addr' (t :: 'b sys). addr' AND 2 = 0 \<longrightarrow> mysock_verify_checksum F d addr' seg (length seg) t = Done True t)"
proof -
  let ?h = "host_order E" and ?x = "gathered (addr, src, n, segs)" and ?dp = "sin_port (peer_addr (network_state c))"
  let ?st = "stamp ?h port ?dp ?x"
  have len: "20 \<le> length ?x" "length ?x \<le> 1500" "addr AND 2 = 0" and b: "n \<le> length src" "\<forall>(b, k) \<in> set segs. k \<le> length b"
    using x unfolding sendable_segment.simps by blast+
  have m: "mirrored E c (os s) F d v" for v using c(1) by (simp add: ends_def)
  from m [of undefined] have fam: "sa_family (peer_addr (network_state c)) = 2"
    by (auto simp: mirrored_def knows_peer_def split: option.splits)
  have "length ?st = length ?x" by simp
  then have verify: "\<exists>seg. mysock_set_checksum E c addr ?st (length ?st) s = Done seg s \<and> length seg = length ?st
      \<and> (\<forall>k. k \<noteq> 16 \<and> k \<noteq> 17 \<longrightarrow> seg ! k = ?st ! k) \<and> mysock_verify_checksum F d addr' seg (length ?st) t = Done True t"
    if "addr' AND 2 = 0" for addr' and t :: "'b sys"
    using seal_then_verify [OF m [of "os t"], of "length ?st" ?st addr addr'] len that by simp
  from verify [of 0] obtain seg where seg: "mysock_set_checksum E c addr ?st (length ?st) s = Done seg s" "length seg = length ?x"
    "\<forall>k. k \<noteq> 16 \<and> k \<noteq> 17 \<longrightarrow> seg ! k = ?st ! k" by auto
  have "stcp_network_send E sd addr src n segs s = network_send E sd seg (length seg) s"
  proof -
    have "gather (take n src) segs s = Done ?x s" using gather_run [OF b(2), of "take n src"] len(2) by simp
    moreover have "mysock_get_context sd s = Done (Some p) s" "link_up p fd s" using s(1) by (auto elim: sendableE)
    moreover have "n \<le> 1500" using len(2) b(1) by (simp add: min_absorb2)
    ultimately show ?thesis using s(2) b(1) len c(2) fam seg(1) get_port_run [OF _ port]
      by (simp add: stcp_network_send_def run_simps Let_def)
  qed
  moreover have "stamped ?h port ?dp ?x seg" by (rule stamped_stamp [OF len(1) seg(2,3)])
  moreover have "mysock_verify_checksum F d addr' seg (length seg) t = Done True t" if "addr' AND 2 = 0" for addr' and t :: "'b sys"
    using verify [OF that, of t] seg(1,2) by simp
  ultimately show ?thesis by blast
qed

declare sendable_segment.simps [simp del] gathered.simps [simp del]

primrec send_segments :: "'os env \<Rightarrow> int \<Rightarrow> outgoing list \<Rightarrow> ('os sys, unit) prog" where
  "send_segments E sd [] = ret ()"
| "send_segments E sd (x # xs) = (case x of (addr, src, n, segs) \<Rightarrow>
     bind (stcp_network_send E sd addr src n segs) (\<lambda>_. send_segments E sd xs))"

text \<open>What the peer, with the context d, finds right.\<close>

definition intact :: "'os env \<Rightarrow> mysock_context \<Rightarrow> byte list \<Rightarrow> bool" where
  "intact F d seg \<longleftrightarrow> 20 \<le> length seg \<and> length seg \<le> 1500
     \<and> (\<forall>addr (t :: 'os sys). addr AND 2 = 0 \<longrightarrow> mysock_verify_checksum F d addr seg (length seg) t = Done True t)"

lemma net_of_load: "hload (ctxs s) p = Some c \<Longrightarrow> net_of p s = network_state c"
  by (simp add: net_of_def)

lemma send_segments_channel:
  assumes w: "writes_to E fd sent" and port: "port_of E fd port" and dport: "0 < dport"
  shows "sendable sd p fd s \<Longrightarrow> hload (ctxs s) p = Some c \<Longrightarrow> ends E c F d \<Longrightarrow> sin_port (peer_addr (network_state c)) = dport
    \<Longrightarrow> \<forall>x \<in> set xs. sendable_segment x
    \<Longrightarrow> \<exists>s1 segs. send_segments E sd xs s = Done () s1 \<and> list_all2 (\<lambda>x. stamped (host_order E) port dport (gathered x)) xs segs
      \<and> (\<forall>seg \<in> set segs. intact F d seg) \<and> sent (os s1) = sent (os s) @ concat (map frame (channel_from E (net_of p s) segs))"
proof (induction xs arbitrary: s c)
  case Nil
  then show ?case by (intro exI [of _ s] exI [of _ "[]"]) (simp add: run_simps)
next
  case (Cons x xs)
  obtain addr src n bufs where x: "x = (addr, src, n, bufs)" by (metis surj_pair)
  have ok: "sendable_segment (addr, src, n, bufs)" using Cons.prems(5) x by simp
  have "0 < sin_port (peer_addr (network_state c))" using dport Cons.prems(4) by simp
  from stcp_network_send_run [OF Cons.prems(1,2) port Cons.prems(3) this ok] obtain seg where
    seg: "stcp_network_send E sd addr src n bufs s = network_send E sd seg (length seg) s"
    "stamped (host_order E) port dport (gathered x) seg"
    "\<forall>addr' t. addr' AND 2 = 0 \<longrightarrow> mysock_verify_checksum F d addr' seg (length seg) t = Done True t"
    using Cons.prems(4) x by auto
  have "length seg = length (gathered x)" using seg(2) by (simp add: stamped_def)
  with ok x have len: "length seg \<le> 1500" "20 \<le> length seg" unfolding sendable_segment.simps by metis+
  from network_send_out [OF Cons.prems(1) w len(1)] obtain s1 out where
    s1: "network_send E sd seg (length seg) s = Done (int (length seg)) s1" "sendable sd p fd s1"
    "peer_of (net_of p s1) = peer_of (net_of p s)" "sent (os s1) = sent (os s) @ concat (map frame out)"
    "\<forall>xs. channel_from E (net_of p s) (seg # xs) = out @ channel_from E (net_of p s1) xs" by blast
  from s1(2) obtain c1 where c1: "hload (ctxs s1) p = Some c1" by (rule sendableE)
  have peer: "peer_of (network_state c1) = peer_of (network_state c)" using s1(3) c1 Cons.prems(2) by (simp add: net_of_load)
  then have "ends E c1 F d" "sin_port (peer_addr (network_state c1)) = dport"
    using Cons.prems(3,4) peer ends_peer [OF peer refl, of E F d] by (simp_all add: peer_of_def)
  from Cons.IH [OF s1(2) c1 this] Cons.prems(5) obtain s' segs where
    s': "send_segments E sd xs s1 = Done () s'" "list_all2 (\<lambda>x. stamped (host_order E) port dport (gathered x)) xs segs"
    "\<forall>seg \<in> set segs. intact F d seg" "sent (os s') = sent (os s1) @ concat (map frame (channel_from E (net_of p s1) segs))" by auto
  show ?case
    by (intro exI [of _ s'] exI [of _ "seg # segs"])
      (use x seg s1 s' len in \<open>simp add: run_simps intact_def del: channel.simps\<close>)
qed

section \<open>Receiving\<close>

lemma network_recv_run:
  assumes "open_socket sd q t" "hload (ctxs t) q = Some d" "contents (network_recv_queue d) = x # xs"
  shows "\<exists>k. wf_queue k \<and> contents k = xs
    \<and> network_recv sd m t = Done (length x, take m x) (t\<lparr>ctxs := hstore (ctxs t) q (d\<lparr>network_recv_queue := k\<rparr>)\<rparr>)
    \<and> open_socket sd q (t\<lparr>ctxs := hstore (ctxs t) q (d\<lparr>network_recv_queue := k\<rparr>)\<rparr>)"
proof -
  have wf: "wf_ctx q d" using assms(1,2) by (auto elim: open_socketE)
  then have "wf_queue (network_recv_queue d)" by (simp add: wf_ctx_def)
  from pq.deq_whole [OF this assms(3), of m False] obtain k where
    k: "mysock_dequeue_buffer m False (network_recv_queue d) = Done (length x, take m x) k" "wf_queue k" "contents k = xs" by blast
  with open_socket_store [OF assms(1,2), of "d\<lparr>network_recv_queue := k\<rparr>"] wf assms(2) open_socket_context(1) [OF assms(1)]
  show ?thesis by (intro exI [of _ k]) (simp add: network_recv_def run_simps on_network_recv_queue_def zoom_def)
qed

lemma network_recv_wait:
  assumes "open_socket sd q t" "hload (ctxs t) q = Some d" "contents (network_recv_queue d) = []"
  shows "network_recv sd m t = Blocked t"
proof -
  have "wf_queue (network_recv_queue d)" using assms(1,2) by (auto simp: wf_ctx_def elim: open_socketE)
  from pq.deq_wait [OF this assms(3), of m False] show ?thesis
    using assms(2) open_socket_context(1) [OF assms(1)]
    by (simp add: network_recv_def run_simps on_network_recv_queue_def zoom_def hstore_same)
qed

lemma verify_checksum_net:
  "network_state c' = network_state c \<Longrightarrow> mysock_verify_checksum F c' = mysock_verify_checksum F c"
  by (simp add: mysock_verify_checksum_def fun_eq_iff)

text \<open>What stcp\_network\_recv makes of the packet at the head of the queue.\<close>

lemma stcp_network_recv_run:
  assumes "open_socket sd q t" "hload (ctxs t) q = Some d" "contents (network_recv_queue d) = x # xs"
  shows "\<exists>k. wf_queue k \<and> contents k = xs \<and> open_socket sd q (t\<lparr>ctxs := hstore (ctxs t) q (d\<lparr>network_recv_queue := k\<rparr>)\<rparr>)
    \<and> stcp_network_recv F sd addr m t = (let t' = t\<lparr>ctxs := hstore (ctxs t) q (d\<lparr>network_recv_queue := k\<rparr>)\<rparr> in
        if x = [] then Done (0, []) t'
        else bind (mysock_verify_checksum F d addr (take m x) (length x)) (\<lambda>ok.
          bind (assert_at ''stcp_api.c'' 165 ok) (\<lambda>_. ret (length x, take m x))) t')"
proof -
  from network_recv_run [OF assms, of m] obtain k where
    k: "wf_queue k" "contents k = xs" "open_socket sd q (t\<lparr>ctxs := hstore (ctxs t) q (d\<lparr>network_recv_queue := k\<rparr>)\<rparr>)"
    "network_recv sd m t = Done (length x, take m x) (t\<lparr>ctxs := hstore (ctxs t) q (d\<lparr>network_recv_queue := k\<rparr>)\<rparr>)" by blast
  have "mysock_verify_checksum F (d\<lparr>network_recv_queue := k\<rparr>) = mysock_verify_checksum F d" by (rule verify_checksum_net) simp
  with k hload_bound [OF assms(2)] open_socket_context(2) [OF k(3)] show ?thesis
    by (intro exI [of _ k]) (simp add: stcp_network_recv_def run_simps heap_simps Let_def)
qed

primrec recv_segments :: "'os env \<Rightarrow> int \<Rightarrow> (64 word \<times> nat) list \<Rightarrow> ('os sys, byte list list) prog" where
  "recv_segments F sd [] = ret []"
| "recv_segments F sd (x # xs) =
     bind (stcp_network_recv F sd (fst x) (snd x)) (\<lambda>(len, bs).
     bind (recv_segments F sd xs) (\<lambda>ys. ret (bs # ys)))"

lemma recv_segments_run:
  fixes F :: "'os env" and t :: "'os sys"
  shows "open_socket sd q t \<Longrightarrow> hload (ctxs t) q = Some d' \<Longrightarrow> network_state d' = network_state d \<Longrightarrow> contents (network_recv_queue d') = xs @ rest
    \<Longrightarrow> length dsts = length xs \<Longrightarrow> \<forall>(addr, m) \<in> set dsts. addr AND 2 = 0 \<and> 1500 \<le> m \<Longrightarrow> \<forall>x \<in> set xs. intact F d x
    \<Longrightarrow> \<exists>t'. recv_segments F sd dsts t = Done xs t' \<and> os t' = os t
      \<and> (case hload (ctxs t') q of None \<Rightarrow> False | Some c \<Rightarrow> contents (network_recv_queue c) = rest)"
proof (induction xs arbitrary: dsts t d')
  case Nil
  then show ?case by (simp add: run_simps)
next
  case (Cons x xs)
  from Cons.prems(5) obtain addr m ds where dsts: "dsts = (addr, m) # ds" "length ds = length xs"
    by (cases dsts) auto
  have x: "20 \<le> length x" "length x \<le> 1500" "1500 \<le> m" "mysock_verify_checksum F d addr x (length x) = (\<lambda>t. Done True t)"
    using Cons.prems(6,7) dsts(1) by (auto simp: intact_def)
  from stcp_network_recv_run [OF Cons.prems(1,2), of x "xs @ rest" F addr m] Cons.prems(4) obtain k where
    k: "wf_queue k" "contents k = xs @ rest" and o: "open_socket sd q (t\<lparr>ctxs := hstore (ctxs t) q (d'\<lparr>network_recv_queue := k\<rparr>)\<rparr>)"
    and run: "stcp_network_recv F sd addr m t = (let t' = t\<lparr>ctxs := hstore (ctxs t) q (d'\<lparr>network_recv_queue := k\<rparr>)\<rparr> in
        if x = [] then Done (0, []) t'
        else bind (mysock_verify_checksum F d' addr (take m x) (length x)) (\<lambda>ok.
          bind (assert_at ''stcp_api.c'' 165 ok) (\<lambda>_. ret (length x, take m x))) t')" by auto
  let ?t = "t\<lparr>ctxs := hstore (ctxs t) q (d'\<lparr>network_recv_queue := k\<rparr>)\<rparr>"
  have "take m x = x" "x \<noteq> []" using x by auto
  then have r: "stcp_network_recv F sd addr m t = Done (length x, x) ?t"
    using run x(4) verify_checksum_net [OF Cons.prems(3), of F] by (simp add: run_simps)
  have "hload (ctxs ?t) q = Some (d'\<lparr>network_recv_queue := k\<rparr>)" using hload_bound [OF Cons.prems(2)] by (simp add: heap_simps)
  from Cons.IH [OF o this _ _ dsts(2)] Cons.prems(3,6,7) k(2) dsts(1) obtain t' where
    "recv_segments F sd ds ?t = Done xs t'" "os t' = os ?t"
    "case hload (ctxs t') q of None \<Rightarrow> False | Some c \<Rightarrow> contents (network_recv_queue c) = rest" by auto
  with r dsts(1) show ?case by (intro exI [of _ t']) (simp add: run_simps)
qed

text \<open>The receive thread fills the queue that the calls of stcp\_network\_recv empty.\<close>

lemma recv_thread_then_calls:
  fixes F :: "'os env" and t :: "'os sys"
  assumes F: "reads_from F fd unread" "data_polled F a fd unread"
    and t: "receiving q fd a [] t" "open_socket sd q t" "hload (ctxs t) q = Some d" "unread (os t) = concat (map frame ys) @ rest"
    and ys: "\<forall>y \<in> set ys. intact F d y" and buf: "length buf = 1500"
    and dsts: "length dsts = length ys" "\<forall>(addr, m) \<in> set dsts. addr AND 2 = 0 \<and> 1500 \<le> m"
  shows "\<exists>t1 t2. network_recv_thread_func (length ys) F buf q t = Done None t1 \<and> recv_segments F sd dsts t1 = Done ys t2
    \<and> unread (os t2) = rest \<and> receiving q fd a ys t1"
proof -
  have "\<forall>y \<in> set ys. 0 < length y \<and> length y \<le> 1500" using ys by (auto simp: intact_def)
  from recv_rounds [OF F t(1,4) buf this] obtain buf' t1 where
    t1: "\<forall>n m. iterate (length ys + m) (recv_round (Suc n) F q) buf t = iterate m (recv_round (Suc n) F q) buf' t1"
    "receiving q fd a ys t1" "unread (os t1) = rest" "undisturbed q t t1" by auto
  have "network_recv_thread_func (length ys) F buf q t = Done None t1"
    using recv_thread_loop [OF t(1)] t1(1) [rule_format, of 0 "length ys - 1"] t1(1) by (cases ys) (simp_all add: run_simps)
  moreover from t1(2) obtain d' where d': "hload (ctxs t1) q = Some d'" "contents (network_recv_queue d') = ys @ []"
    by (auto elim: receivingE)
  moreover have "network_state d' = network_state d" "open_socket sd q t1"
    using t1(4) t(2,3) d'(1) by (simp_all add: undisturbed_def net_of_load)
  ultimately show ?thesis using recv_segments_run [OF _ d'(1) _ d'(2) dsts ys, of sd] t1(2,3) by auto
qed

section \<open>Properties\<close>

text \<open>C8: Segments reach the transport layer of the peer, between two hosts each of which resolves its own host name to the
  address that the other end has recorded for it (\<open>ends\<close>; network\_io\_socket.c calls its way of finding this address
  completely broken for multi-homed hosts, and there the checksums need not agree). Nothing is held back for reordering
  when the sender starts, it has bound a port and knows the address and the port of its peer, and both ends are connected
  over stream sockets that write everything and that poll reports readable while bytes are left.
  Packet buffers lie at addresses whose bit 1 is clear, which tcp\_sum.c asserts.
  The transport layer sends any segments of 20 to 1500
  bytes, cut into buffers in any way, one after the other, through the simulated network in either mode.
  On the wire are the frames of what the abstract channel makes of these segments, each stamped with the two ports,
  a zero urgent pointer and the checksum and otherwise as the sender wrote it. When the
  stream of the peer carries these frames, however the reads cut them, the receive thread of the peer has put all of
  them in its queue after that many rounds, and stcp\_network\_recv, called with such buffers of at least 1500 bytes, then returns exactly them in that order; none fails
  its checksum. So the peer sees only segments that were sent, and on a reliable mysocket all of them in order.\<close>

theorem segments_cross_network:
  fixes F :: "'b env"
  assumes "writes_to E fd sent" and "sendable sd p fd s" and "hload (ctxs s) p = Some c" and "\<not> copied (network_state c)"
    and "port_of E fd port" and "0 < sin_port (peer_addr (network_state c))"
    and "reads_from F fd' unread" and "data_polled F a fd' unread" and "ends E c F d" and "\<forall>x \<in> set xs. sendable_segment x"
  shows "\<exists>s1 segs ys. send_segments E sd xs s = Done () s1
    \<and> list_all2 (\<lambda>x. stamped (host_order E) port (sin_port (peer_addr (network_state c))) (gathered x)) xs segs
    \<and> ys = channel (lib_rand_r E) (is_reliable (network_state c)) (random_seed (network_state c)) None segs
    \<and> set ys \<subseteq> set segs \<and> (is_reliable (network_state c) \<longrightarrow> ys = segs)
    \<and> sent (os s1) = sent (os s) @ concat (map frame ys)
    \<and> (\<forall>sd' q (t :: 'b sys) rest buf dsts. receiving q fd' a [] t \<and> open_socket sd' q t \<and> hload (ctxs t) q = Some d
          \<and> unread (os t) = concat (map frame ys) @ rest \<and> length buf = 1500 \<and> length dsts = length ys
          \<and> (\<forall>(addr, m) \<in> set dsts. addr AND 2 = 0 \<and> 1500 \<le> m) \<longrightarrow>
        (\<exists>t1 t2. network_recv_thread_func (length ys) F buf q t = Done None t1
          \<and> recv_segments F sd' dsts t1 = Done ys t2 \<and> unread (os t2) = rest))"
proof -
  have held: "held (net_of p s) = None" "net_of p s = network_state c" using assms(3,4) by (simp_all add: net_of_load held_def)
  from send_segments_channel [OF assms(1,5,6,2,3,9) refl assms(10)] obtain s1 segs where
    s1: "send_segments E sd xs s = Done () s1"
    "list_all2 (\<lambda>x. stamped (host_order E) port (sin_port (peer_addr (network_state c))) (gathered x)) xs segs"
    "\<forall>seg \<in> set segs. intact F d seg" "sent (os s1) = sent (os s) @ concat (map frame (channel_from E (net_of p s) segs))" by blast
  let ?ys = "channel (lib_rand_r E) (is_reliable (network_state c)) (random_seed (network_state c)) None segs"
  have sub: "set ?ys \<subseteq> set segs"
    using channel_set [of "lib_rand_r E" "is_reliable (network_state c)" "random_seed (network_state c)" None segs] by simp
  then have "\<forall>y \<in> set ?ys. intact F d y" using s1(3) by blast
  note peer = recv_thread_then_calls [OF assms(7,8) _ _ _ _ this]
  have "\<exists>t1 t2. network_recv_thread_func (length ?ys) F buf q t = Done None t1
      \<and> recv_segments F sd' dsts t1 = Done ?ys t2 \<and> unread (os t2) = rest"
    if "receiving q fd' a [] t \<and> open_socket sd' q t \<and> hload (ctxs t) q = Some d
      \<and> unread (os t) = concat (map frame ?ys) @ rest \<and> length buf = 1500 \<and> length dsts = length ?ys
      \<and> (\<forall>(addr, m) \<in> set dsts. addr AND 2 = 0 \<and> 1500 \<le> m)" for sd' q t rest buf dsts
    using that peer [of q t sd' rest buf dsts] by blast
  with s1 sub held channel_reliable show ?thesis
    by (intro exI [of _ s1] exI [of _ segs] exI [of _ ?ys] conjI) simp_all
qed

text \<open>The sample segment, sent in two buffers, and the peer with its stream.\<close>

abbreviation sample_outgoing :: outgoing where
  "sample_outgoing \<equiv> (0x1000, take 20 sample_segment, 20, [(drop 20 sample_segment, 3)])"

abbreviation peer_sys :: "byte list \<Rightarrow> byte list sys" where
  "peer_sys w \<equiv> (peered_sys True w)\<lparr>ctxs := [Some peer_context]\<rparr>"

lemma peer_receiving: "receiving 0 3 4 [] (peer_sys w)" "open_socket 0 0 (peer_sys w)" "hload (ctxs (peer_sys w)) 0 = Some peer_context"
proof -
  have h: "hload (ctxs (peered_sys True w)) 0 = Some (peered True)" by (simp add: hload_def peered_sys_def)
  have o: "open_socket 0 0 (peered_sys True w)" using peered_sendable [of w] by (simp add: sendable_def)
  then have "wf_ctx 0 (peered True)" using h by (auto elim: open_socketE)
  then have "wf_ctx 0 peer_context" by (simp add: peer_context_def wf_ctx_upd_network)
  then have "open_socket 0 0 ((peered_sys True w)\<lparr>ctxs := hstore (ctxs (peered_sys True w)) 0 peer_context\<rparr>)"
    by (intro open_socket_store [OF o h]) (simp_all add: peer_context_def upd_network_def)
  then show "open_socket 0 0 (peer_sys w)" by (simp add: peered_sys_def hstore_def)
  show "hload (ctxs (peer_sys w)) 0 = Some peer_context" by (simp add: hload_def)
  have "receiving 0 3 4 [] ((peered_sys True w)\<lparr>ctxs := hstore (ctxs (peered_sys True w)) 0 peer_context\<rparr>)"
    using peered_receiving [of w] hload_bound [OF h]
    by (simp add: receiving_def link_up_def h heap_simps) (simp add: peer_context_def upd_network_def fresh_impl_def)
  then show "receiving 0 3 4 [] (peer_sys w)" by (simp add: peered_sys_def hstore_def)
qed

theorem segments_cross_network_witness:
  "\<exists>s1 seg. send_segments loop_env 0 [sample_outgoing] (peered_sys True []) = Done () s1 \<and> os s1 = frame seg
    \<and> stamped Little 0x901f 0x5000 sample_segment seg
    \<and> (\<exists>t1 t2. network_recv_thread_func 1 peer_env (replicate 1500 0) 0 (peer_sys (frame seg)) = Done None t1
        \<and> recv_segments peer_env 0 [(0x2000, 1500)] t1 = Done [seg] t2 \<and> os t2 = [])"
proof -
  let ?s = "peered_sys True [] :: byte list sys"
  have c: "hload (ctxs ?s) 0 = Some (peered True)" by (simp add: hload_def)
  have n: "\<not> copied (network_state (peered True))" "0 < sin_port (peer_addr (network_state (peered True)))"
    "is_reliable (network_state (peered True))" "sin_port (peer_addr (network_state (peered True))) = 0x5000"
    by (simp_all add: peered_def upd_impl_def upd_network_def)
      (simp_all add: fresh_context_def zero_context_def zero_network_context_def upd_network_def)
  have E: "port_of loop_env 3 0x901f" "reads_from peer_env 3 (\<lambda>w. w)" "data_polled peer_env 4 3 (\<lambda>w. w)" "ends loop_env (peered True) peer_env peer_context"
    using loop_env_streams(2) loop_env_polls peers_mirrored
    by (simp_all add: port_of_def ends_def peer_env_def reads_from_def data_polled_def) (simp add: loop_env_def)
  have x: "\<forall>x \<in> set [sample_outgoing]. sendable_segment x" by (simp add: sendable_segment.simps gathered.simps)
  have g: "gathered sample_outgoing = sample_segment" by (simp add: gathered.simps)
  from segments_cross_network [OF loop_env_streams(1) peered_sendable c n(1) E(1) n(2) E(2,3,4) x] obtain s1 segs where
    s1: "send_segments loop_env 0 [sample_outgoing] ?s = Done () s1"
    "list_all2 (\<lambda>x. stamped Little 0x901f 0x5000 (gathered x)) [sample_outgoing] segs" "os s1 = concat (map frame segs)"
    and peer: "\<forall>sd' q t rest buf dsts. receiving q 3 4 [] t \<and> open_socket sd' q t \<and> hload (ctxs t) q = Some peer_context
          \<and> os t = concat (map frame segs) @ rest \<and> length buf = 1500 \<and> length dsts = length segs
          \<and> (\<forall>(addr, m) \<in> set dsts. addr AND 2 = 0 \<and> 1500 \<le> m) \<longrightarrow>
        (\<exists>t1 t2. network_recv_thread_func (length segs) peer_env buf q t = Done None t1
          \<and> recv_segments peer_env sd' dsts t1 = Done segs t2 \<and> os t2 = rest)"
    using n(3,4) by (auto simp: loop_env_def)
  from s1(2) g obtain seg where seg: "segs = [seg]" "stamped Little 0x901f 0x5000 sample_segment seg" by (auto simp: list_all2_Cons1)
  from peer [rule_format, of 0 "peer_sys (frame seg)" 0 "[]" "replicate 1500 0" "[(0x2000, 1500)]"] peer_receiving [of "frame seg"] seg(1)
  have "\<exists>t1 t2. network_recv_thread_func 1 peer_env (replicate 1500 0) 0 (peer_sys (frame seg)) = Done None t1
        \<and> recv_segments peer_env 0 [(0x2000, 1500)] t1 = Done [seg] t2 \<and> os t2 = []" by (simp add: peered_sys_def)
  with s1(1,3) seg show ?thesis by auto
qed

text \<open>C22: What stcp\_network\_recv makes of every packet that can be at the head of the queue. The packet leaves the queue
  in every case. An empty packet is returned; a packet too short for a header ends the process, and so does one whose
  checksum is wrong, although the sender, not the program, is at fault; a packet longer than the caller's
  buffer is cut, but its whole length is checked and the call reads past the end of the buffer. Only with an empty queue
  the call waits.\<close>

theorem network_recv_outcomes:
  assumes "open_socket sd p s" and "hload (ctxs s) p = Some c" and "knows_peer c a" and "local_ip E (os s) = Some b"
    and "0 < a" and "0 < b" and "addr AND 2 = 0"
  shows "case contents (network_recv_queue c) of
      [] \<Rightarrow> stcp_network_recv E sd addr max_len s = Blocked s
    | x # xs \<Rightarrow> \<exists>q. wf_queue q \<and> contents q = xs \<and> stcp_network_recv E sd addr max_len s =
       (let s' = s\<lparr>ctxs := hstore (ctxs s) p (c\<lparr>network_recv_queue := q\<rparr>)\<rparr> in
        if x = [] then Done (0, []) s'
        else if length x < 20 then Abort (Assertion ''tcp_sum.c'' 93)
        else if max_len < length x then Abort (Out_of_bounds ''tcp_sum.c'' 52)
        else if fold_sum (checksum_sum (host_order E) a b x (length x)) = load16_at (host_order E) x 16
          then Done (length x, x) s'
        else Abort (Assertion ''stcp_api.c'' 165))"
proof (cases "contents (network_recv_queue c)")
  case Nil
  with network_recv_wait [OF assms(1,2) Nil] show ?thesis by (simp add: stcp_network_recv_def run_simps)
next
  case (Cons x xs)
  from stcp_network_recv_run [OF assms(1,2) Cons, of E addr max_len] obtain q where
    q: "wf_queue q" "contents q = xs" and run: "stcp_network_recv E sd addr max_len s
      = (let s' = s\<lparr>ctxs := hstore (ctxs s) p (c\<lparr>network_recv_queue := q\<rparr>)\<rparr> in
        if x = [] then Done (0, []) s'
        else bind (mysock_verify_checksum E c addr (take max_len x) (length x)) (\<lambda>ok.
          bind (assert_at ''stcp_api.c'' 165 ok) (\<lambda>_. ret (length x, take max_len x))) s')" by blast
  let ?s = "s\<lparr>ctxs := hstore (ctxs s) p (c\<lparr>network_recv_queue := q\<rparr>)\<rparr>"
  have ip: "local_ip E (os ?s) = Some b" using assms(4) by simp
  have "mysock_verify_checksum E c addr (take max_len x) (length x) ?s =
      (if length x < 20 then Abort (Assertion ''tcp_sum.c'' 93) else if max_len < length x then Abort (Out_of_bounds ''tcp_sum.c'' 52)
       else Done (fold_sum (checksum_sum (host_order E) a b x (length x)) = load16_at (host_order E) x 16) ?s)"
    using get_local_addr_run [OF assms(3) ip] assms(3,5-7)
    by (simp add: mysock_verify_checksum_def mysock_tcp_checksum_def run_simps knows_peer_def)
  with Cons q run show ?thesis by (auto simp: run_simps Let_def intro!: exI [of _ q])
qed

theorem network_recv_outcomes_witness:
  "\<exists>s. stcp_network_recv peer_env 0 0x2000 1500 s = Abort (Assertion ''stcp_api.c'' 165)
    \<and> stcp_network_recv peer_env 0 0x2000 22 s = Abort (Out_of_bounds ''tcp_sum.c'' 52)"
proof -
  have "fold_sum (checksum_sum (host_order peer_env) 0x7f000001 0x7f000002 sample_segment 23) \<noteq> load16_at (host_order peer_env) sample_segment 16"
    by (simp add: peer_env_def) code_simp
  moreover have "length sample_segment = 23" "sample_segment \<noteq> []" by simp_all
  ultimately obtain x where x: "length x = 23" "x \<noteq> []"
    "fold_sum (checksum_sum (host_order peer_env) 0x7f000001 0x7f000002 x (length x)) \<noteq> load16_at (host_order peer_env) x 16" by metis
  have "wf_ctx 0 peer_context" using peer_receiving(2,3) [of "[]"] by (auto elim: open_socketE)
  then have "wf_queue (network_recv_queue peer_context)" "contents (network_recv_queue peer_context) = []"
    using peer_receiving(1,3) [of "[]"] by (auto simp: wf_ctx_def elim!: receivingE)
  from pq.enq_spec [OF this(1), of x] this(2) obtain q where q: "wf_queue q" "contents q = [x]" by auto
  let ?c = "peer_context\<lparr>network_recv_queue := q\<rparr>"
  let ?s = "(peer_sys [])\<lparr>ctxs := hstore (ctxs (peer_sys [])) 0 ?c\<rparr>"
  have o: "open_socket 0 0 ?s" using q(1) \<open>wf_ctx 0 peer_context\<close>
    by (intro open_socket_store [OF peer_receiving(2,3)]) simp_all
  have h: "hload (ctxs ?s) 0 = Some ?c" by (simp add: hload_def hstore_def)
  have k: "knows_peer ?c 0x7f000001" "local_ip peer_env (os ?s) = Some 0x7f000002"
    by (simp_all add: knows_peer_def peer_context_def upd_network_def local_ip_def peer_env_def loop_env_def)
  from network_recv_outcomes [OF o h k, where addr = "0x2000" and max_len = 1500]
    network_recv_outcomes [OF o h k, where addr = "0x2000" and max_len = 22] q(2) x
  show ?thesis by (intro exI [of _ ?s]) (auto simp: Let_def)
qed

end
