(* ===== verification/Listen_Lock.thy ===== *)
theory Listen_Lock
  imports Process_Invariant
begin

text \<open>
  The threads that share the queues of listening sockets, step by step. Elsewhere a call that takes
  \<open>listen_lock\<close> is one step; here it is the sequence of its lock operations with what it does between them, and the
  calls of several threads interleave. Readers of the lock may run at the same time, also where they change the queue.
\<close>

section \<open>Threads as sequences of steps\<close>

text \<open>
  A thread: read or write lock \<open>listen_lock\<close>, release it, take the \<open>connection_lock\<close> of a listening socket, wait on its
  condition first if the test fails, release it, or act on the process and go on with what the result tells.
\<close>

datatype 'os steps =
    End
  | Rdlock "'os steps"
  | Wrlock "'os steps"
  | Rwunlock "'os steps"
  | Mutex_lock int "'os sys \<Rightarrow> bool" "'os steps"
  | Mutex_unlock int "'os steps"
  | Do "'os sys \<Rightarrow> ('os sys, 'os steps) outcome"

definition call :: "('os sys, 'a) prog \<Rightarrow> ('a \<Rightarrow> 'os steps) \<Rightarrow> 'os steps" where
  "call m k = Do (bind m (\<lambda>a. ret (k a)))"

text \<open>A process with its threads: who holds the locks, and what each thread has still to do.\<close>

record 'os pool =
  process :: "'os sys"
  readers :: "nat set"
  writer :: "nat option"
  mutexes :: "int \<Rightarrow> nat option"
  todo :: "nat \<Rightarrow> 'os steps"

abbreviation go_on :: "nat \<Rightarrow> 'os steps \<Rightarrow> 'os pool \<Rightarrow> 'os pool" where
  "go_on t k P \<equiv> P\<lparr>todo := (todo P)(t := k)\<rparr>"

text \<open>
  One step of the thread t. The POSIX standard leaves open whether a waiting writer keeps new readers out: here they
  may enter, so that what cannot happen here can happen under neither policy.
\<close>

inductive pstep :: "nat \<Rightarrow> 'os pool \<Rightarrow> 'os pool \<Rightarrow> bool" for t where
  rdlock: "todo P t = Rdlock k \<Longrightarrow> writer P = None \<Longrightarrow> pstep t P (go_on t k (P\<lparr>readers := insert t (readers P)\<rparr>))"
| wrlock: "todo P t = Wrlock k \<Longrightarrow> writer P = None \<Longrightarrow> readers P = {} \<Longrightarrow> pstep t P (go_on t k (P\<lparr>writer := Some t\<rparr>))"
| rwunlock: "todo P t = Rwunlock k \<Longrightarrow>
    pstep t P (go_on t k (P\<lparr>readers := readers P - {t}, writer := (if writer P = Some t then None else writer P)\<rparr>))"
| mutex_lock: "todo P t = Mutex_lock m test k \<Longrightarrow> mutexes P m = None \<Longrightarrow> test (process P) \<Longrightarrow>
    pstep t P (go_on t k (P\<lparr>mutexes := (mutexes P)(m := Some t)\<rparr>))"
| mutex_unlock: "todo P t = Mutex_unlock m k \<Longrightarrow> pstep t P (go_on t k (P\<lparr>mutexes := (mutexes P)(m := None)\<rparr>))"
| acts: "todo P t = Do f \<Longrightarrow> f (process P) = Done k s \<Longrightarrow> pstep t P (go_on t k (P\<lparr>process := s\<rparr>))"
| waits: "todo P t = Do f \<Longrightarrow> f (process P) = Blocked s \<Longrightarrow> pstep t P (P\<lparr>process := s\<rparr>)"

inductive psteps :: "'os pool \<Rightarrow> 'os pool \<Rightarrow> bool" where
  refl: "psteps P P"
| step: "psteps P Q \<Longrightarrow> pstep t Q R \<Longrightarrow> psteps P R"

section \<open>The functions that take the lock (connection_demux.c)\<close>

text \<open>The queue behind the pointer q, which the caller looked up under the lock.\<close>

definition the_queue :: "ptr \<Rightarrow> ('os sys, listen_queue) prog" where
  "the_queue p = bind (get_connection_queue p) (the_or (Dangling ''connection_demux.c'' 403))"

definition edit_queue :: "ptr \<Rightarrow> int \<Rightarrow> (listen_queue \<Rightarrow> listen_queue) \<Rightarrow> ('os sys, unit) prog" where
  "edit_queue p sd f = bind (the_queue p) (\<lambda>q. put_queue sd (f q))"

definition take_completed :: "ptr \<Rightarrow> int \<Rightarrow> ('os sys, ptr) prog" where
  "take_completed p sd =
     bind (the_queue p) (\<lambda>q.
     case completed_queue q of
       [] \<Rightarrow> abort (Null_pointer ''connection_demux.c'' 96)
     | (blk, k) # rest \<Rightarrow>
       if blk \<noteq> queue_block q \<or> k \<ge> length (connection_queue q) then abort (Dangling ''connection_demux.c'' 105)
       else
       bind (mysock_get_context (req_sd (connection_queue q ! k))) (\<lambda>y.
       bind (the_or (Assertion ''connection_demux.c'' 106) y) (\<lambda>new_ctx.
       bind (put_queue sd (q\<lparr>completed_queue := rest, connection_queue := (connection_queue q)[k := invalid_request]\<rparr>)) (\<lambda>_.
       ret new_ctx))))"

text \<open>The decrement of cur\_len is a load and a store.\<close>

definition dequeue_steps :: "ptr \<Rightarrow> (ptr \<Rightarrow> 'os steps) \<Rightarrow> 'os steps" where
  "dequeue_steps p k =
     call (bind (get_ctx ''connection_demux.c'' 81 p) (\<lambda>c.
           bind (assert_at ''connection_demux.c'' 81 (listening c \<and> bound c)) (\<lambda>_. ret (my_sd c)))) (\<lambda>sd.
     Rdlock (
     call (bind (get_connection_queue p) (the_or (Assertion ''connection_demux.c'' 86))) (\<lambda>_.
     Mutex_lock sd (\<lambda>s. map_option completed_queue (listen_map s sd) \<noteq> Some []) (
     call (take_completed p sd) (\<lambda>new_ctx.
     call (bind (the_queue p) (\<lambda>q.
           bind (assert_at ''connection_demux.c'' 113 (lq_cur_len q > 0)) (\<lambda>_. ret (lq_cur_len q)))) (\<lambda>n.
     call (edit_queue p sd (\<lambda>q. q\<lparr>lq_cur_len := n - 1\<rparr>)) (\<lambda>_.
     Mutex_unlock sd (Rwunlock (k new_ctx)))))))))"

text \<open>The search for a slot for the new request: the number of the slot, if the packet is a SYN that is not dropped.\<close>

definition find_slot :: "'os env \<Rightarrow> ptr \<Rightarrow> byte list \<Rightarrow> nat \<Rightarrow> sockaddr \<Rightarrow> nat \<Rightarrow> ('os sys, nat option) prog" where
  "find_slot E p packet packet_len peer peer_len =
     (if packet_len < sizeof_tcphdr
     then bind (debug_print_connection peer) (\<lambda>_. ret None)
     else if length packet < packet_len then abort (Out_of_bounds ''connection_demux.c'' 162)
     else if packet ! off_th_flags AND TH_SYN = 0
     then bind (debug_print_connection peer) (\<lambda>_. ret None)
     else
     bind (get_connection_queue p) (\<lambda>x.
     case x of
       None \<Rightarrow> bind (debug_print_connection peer) (\<lambda>_. ret None)
     | Some q \<Rightarrow>
         if length (connection_queue q) < lq_max_len q then abort (Out_of_bounds ''connection_demux.c'' 177)
         else
         bind (retransmission (host_order E) peer peer_len (take (lq_max_len q) (connection_queue q))) (\<lambda>dup.
         if dup then bind (debug_print_connection peer) (\<lambda>_. ret None)
         else if lq_cur_len q < lq_max_len q
         then bind (the_or (Assertion ''connection_demux.c'' 200)
                     (find_pos (\<lambda>r. req_sd r < 0) (take (lq_max_len q) (connection_queue q)))) (\<lambda>k. ret (Some k))
         else bind (debug_print_connection peer) (\<lambda>_. ret None))))"

definition enqueue_steps ::
    "'os env \<Rightarrow> ptr \<Rightarrow> byte list \<Rightarrow> nat \<Rightarrow> sockaddr \<Rightarrow> nat \<Rightarrow> nat option \<Rightarrow> (bool \<Rightarrow> 'os steps) \<Rightarrow> 'os steps" where
  "enqueue_steps E p packet packet_len peer peer_len user_data k =
     call (bind (get_ctx ''connection_demux.c'' 153 p) (\<lambda>c.
           bind (assert_at ''connection_demux.c'' 153 (listening c \<and> bound c)) (\<lambda>_.
           bind (assert_at ''connection_demux.c'' 155 (peer_len > 0)) (\<lambda>_. ret (my_sd c))))) (\<lambda>sd.
     Rdlock (
     call (find_slot E p packet packet_len peer peer_len) (\<lambda>x.
     case x of
       None \<Rightarrow> Rwunlock (k False)
     | Some j \<Rightarrow>
         call (bind (the_queue p) (\<lambda>q. ret (lq_cur_len q))) (\<lambda>n.
         call (edit_queue p sd (\<lambda>q. q\<lparr>lq_cur_len := Suc n\<rparr>)) (\<lambda>_.
         call (bind (the_queue p) (\<lambda>q. establish_connection E p packet packet_len peer peer_len user_data q j)) (\<lambda>ok.
         Rwunlock (k ok)))))))"

definition find_incomplete :: "ptr \<Rightarrow> ('os sys, (ptr \<times> int \<times> nat) option) prog" where
  "find_incomplete p =
     bind (get_ctx ''connection_demux.c'' 267 p) (\<lambda>c.
     bind (assert_at ''connection_demux.c'' 267 (listen_sd c \<ge> 0)) (\<lambda>_.
     bind (mysock_get_context (listen_sd c)) (\<lambda>y.
     bind (the_or (Assertion ''connection_demux.c'' 403) y) (\<lambda>lp.
     bind (get_connection_queue lp) (\<lambda>x.
     case x of
       None \<Rightarrow> ret None
     | Some q \<Rightarrow>
         if length (connection_queue q) < lq_max_len q then abort (Out_of_bounds ''connection_demux.c'' 277)
         else
         bind (the_or (Assertion ''connection_demux.c'' 281)
                 (find_pos (\<lambda>r. req_sd r = my_sd c) (take (lq_max_len q) (connection_queue q)))) (\<lambda>k.
         ret (Some (lp, listen_sd c, k))))))))"

definition complete_steps :: "ptr \<Rightarrow> 'os steps \<Rightarrow> 'os steps" where
  "complete_steps p k =
     Rdlock (
     call (find_incomplete p) (\<lambda>x.
     case x of
       None \<Rightarrow> Rwunlock k
     | Some (lp, sd, j) \<Rightarrow>
         Mutex_lock sd (\<lambda>_. True) (
         call (edit_queue lp sd (\<lambda>q. q\<lparr>completed_queue := completed_queue q @ [(queue_block q, j)]\<rparr>)) (\<lambda>_.
         Mutex_unlock sd (Rwunlock k)))))"

definition set_backlog_steps :: "'os env \<Rightarrow> ptr \<Rightarrow> 32 word \<Rightarrow> 'os steps \<Rightarrow> 'os steps" where
  "set_backlog_steps E p backlog k =
     call (bind (get_ctx ''connection_demux.c'' 316 p) (\<lambda>c.
           bind (assert_at ''connection_demux.c'' 316 (listening c \<and> bound c)) (\<lambda>_.
           bind (network_get_port E p) (\<lambda>port.
           assert_at ''connection_demux.c'' 319 (unat (ntohs (host_order E) port) > 0))))) (\<lambda>_.
     Wrlock (
     call (mysock_set_backlog E p backlog) (\<lambda>_.
     Rwunlock k)))"

definition close_passive_steps :: "'os env \<Rightarrow> ptr \<Rightarrow> 'os steps \<Rightarrow> 'os steps" where
  "close_passive_steps E p k =
     call (bind (get_ctx ''connection_demux.c'' 364 p) (\<lambda>c.
           assert_at ''connection_demux.c'' 364 (listening c \<and> bound c))) (\<lambda>_.
     Wrlock (
     call (mysock_close_passive_socket (myclose_fuel 1 E) p) (\<lambda>_.
     Rwunlock k)))"

section \<open>Their callers\<close>

text \<open>myclose up to the queue of a listening socket: the context, and whether it listens.\<close>

definition close_begin :: "'os env \<Rightarrow> int \<Rightarrow> ('os sys, ptr \<times> bool) prog" where
  "close_begin E sd =
     bind (mysock_get_context sd) (\<lambda>x.
     bind (the_or (Null_pointer ''mysock_api.c'' 169) x) (\<lambda>p.
     bind (on_ctx ''mysock_api.c'' 170 p (modify (\<lambda>c. c\<lparr>close_requested := True\<rparr>))) (\<lambda>_.
     bind (get_ctx ''mysock_api.c'' 175 p) (\<lambda>c.
     bind (if transport_thread_started c
           then bind (assert_at ''mysock_api.c'' 177 (\<not> listening c)) (\<lambda>_.
                bind (assert_at ''mysock_api.c'' 178 (is_active c \<or> listen_sd c \<noteq> -1)) (\<lambda>_.
                bind (pthread_join (transport_thread c)) (\<lambda>_.
                on_ctx ''mysock_api.c'' 180 p (modify (\<lambda>c. c\<lparr>transport_thread_started := False\<rparr>)))))
           else ret ()) (\<lambda>_.
     bind (network_stop_recv_thread E p) (\<lambda>_.
     bind (get_ctx ''mysock_api.c'' 185 p) (\<lambda>c.
     ret (p, listening c))))))))"

definition myclose_steps :: "'os env \<Rightarrow> int \<Rightarrow> 'os steps \<Rightarrow> 'os steps" where
  "myclose_steps E sd k =
     call (close_begin E sd) (\<lambda>(p, passive).
     if passive then close_passive_steps E p (call (mysock_free_context E p) (\<lambda>_. k))
     else call (mysock_free_context E p) (\<lambda>_. k))"

text \<open>stcp\_unblock\_application, which the transport thread calls when the handshake is over.\<close>

definition unblock_begin :: "errno \<Rightarrow> int \<Rightarrow> ('os sys, ptr \<times> bool) prog" where
  "unblock_begin err sd =
     bind (ctx_of ''stcp_api.c'' 35 sd) (\<lambda>p.
     bind (get_ctx ''stcp_api.c'' 36 p) (\<lambda>c.
     bind (assert_at ''stcp_api.c'' 36 (blocking c)) (\<lambda>_.
     bind (on_ctx ''stcp_api.c'' 37 p (modify (\<lambda>c. c\<lparr>blocking := False,
             stcp_errno := (if err = EINTR then 0 else err)\<rparr>))) (\<lambda>_.
     ret (p, is_active c)))))"

definition unblock_steps :: "errno \<Rightarrow> int \<Rightarrow> 'os steps \<Rightarrow> 'os steps" where
  "unblock_steps err sd k =
     call (unblock_begin err sd) (\<lambda>(p, active). if active then k else complete_steps p k)"

section \<open>Who holds what\<close>

text \<open>What a thread holds: nothing, the read lock and perhaps one connection\_lock, or the write lock.\<close>

datatype holding = Nothing | Reading "int option" | Writing

inductive bracketed :: "holding \<Rightarrow> 'os steps \<Rightarrow> bool" where
  ended: "bracketed Nothing End"
| rdlock: "bracketed (Reading None) k \<Longrightarrow> bracketed Nothing (Rdlock k)"
| wrlock: "bracketed Writing k \<Longrightarrow> bracketed Nothing (Wrlock k)"
| rwunlock: "h = Reading None \<or> h = Writing \<Longrightarrow> bracketed Nothing k \<Longrightarrow> bracketed h (Rwunlock k)"
| mutex_lock: "bracketed (Reading (Some m)) k \<Longrightarrow> bracketed (Reading None) (Mutex_lock m test k)"
| mutex_unlock: "bracketed (Reading None) k \<Longrightarrow> bracketed (Reading (Some m)) (Mutex_unlock m k)"
| acts: "(\<And>s k s'. f s = Done k s' \<Longrightarrow> bracketed h k) \<Longrightarrow> bracketed h (Do f)"

inductive_simps bracketed_simps: "bracketed h End" "bracketed h (Rdlock k)" "bracketed h (Wrlock k)" "bracketed h (Rwunlock k)"
  "bracketed h (Mutex_lock m test k)" "bracketed h (Mutex_unlock m k)" "bracketed h (Do f)"

lemma bracketed_call [intro!]: "(\<And>a. bracketed h (k a)) \<Longrightarrow> bracketed h (call m k)"
  by (auto simp: call_def bracketed_simps bind_Done_iff ret_def)

text \<open>A thread that does anything to the process and calls any of the five functions, one after the other.\<close>

inductive client :: "'os steps \<Rightarrow> bool" where
  ends: "client End"
| acts: "(\<And>s k s'. f s = Done k s' \<Longrightarrow> client k) \<Longrightarrow> client (Do f)"
| dequeue: "(\<And>a. client (k a)) \<Longrightarrow> client (dequeue_steps p k)"
| enqueue: "(\<And>a. client (k a)) \<Longrightarrow> client (enqueue_steps E p packet packet_len peer peer_len user_data k)"
| complete: "client k \<Longrightarrow> client (complete_steps p k)"
| set_backlog: "client k \<Longrightarrow> client (set_backlog_steps E p backlog k)"
| close_passive: "client k \<Longrightarrow> client (close_passive_steps E p k)"

lemma client_call: "(\<And>a. client (k a)) \<Longrightarrow> client (call m k)"
  unfolding call_def by (rule client.acts) (auto simp: bind_Done_iff ret_def)

lemma client_callers:
  "client k \<Longrightarrow> client (myclose_steps E sd k)" "client k \<Longrightarrow> client (unblock_steps err sd k)"
  by (auto simp: myclose_steps_def unblock_steps_def intro!: client_call client.complete client.close_passive split: prod.split)

lemma client_bracketed: "client x \<Longrightarrow> bracketed Nothing x"
  by (induction rule: client.induct)
    (auto simp: dequeue_steps_def enqueue_steps_def complete_steps_def set_backlog_steps_def close_passive_steps_def bracketed_simps
      split: option.split)

definition held_by :: "(nat \<Rightarrow> holding) \<Rightarrow> 'os pool \<Rightarrow> bool" where
  "held_by h P \<longleftrightarrow> (\<forall>t. bracketed (h t) (todo P t)) \<and> (\<forall>t. t \<in> readers P \<longleftrightarrow> (\<exists>x. h t = Reading x))
     \<and> (\<forall>t. writer P = Some t \<longleftrightarrow> h t = Writing) \<and> (\<forall>m t. mutexes P m = Some t \<longleftrightarrow> h t = Reading (Some m))
     \<and> (writer P \<noteq> None \<longrightarrow> readers P = {})"

lemma pstep_held_by:
  assumes "pstep t P Q" "held_by h P"
  shows "\<exists>h'. held_by h' Q"
  using assms(1)
proof cases
  case (rdlock k)
  then show ?thesis using assms(2) by (intro exI [of _ "h(t := Reading None)"]) (auto simp: held_by_def bracketed_simps dest: spec [of _ t])
next
  case (wrlock k)
  then show ?thesis using assms(2) by (intro exI [of _ "h(t := Writing)"]) (auto simp: held_by_def bracketed_simps dest: spec [of _ t])
next
  case (rwunlock k)
  then have "h t = Reading None \<or> h t = Writing" "bracketed Nothing k" using assms(2) unfolding held_by_def
    by (metis bracketed_simps(4))+
  moreover have "x = y" if "h x = Writing" "h y = Writing" for x y
    using that assms(2) unfolding held_by_def by (metis option.inject)
  ultimately show ?thesis using rwunlock assms(2) by (intro exI [of _ "h(t := Nothing)"]) (auto simp: held_by_def)
next
  case (mutex_lock m test k)
  then have "h t = Reading None" "bracketed (Reading (Some m)) k" using assms(2) unfolding held_by_def
    by (metis bracketed_simps(5))+
  moreover have "h x \<noteq> Reading (Some m)" for x
    using mutex_lock(3) assms(2) unfolding held_by_def by (metis option.distinct(1))
  ultimately show ?thesis using mutex_lock assms(2) by (intro exI [of _ "h(t := Reading (Some m))"]) (auto simp: held_by_def)
next
  case (mutex_unlock m k)
  then have "h t = Reading (Some m)" "bracketed (Reading None) k" using assms(2) unfolding held_by_def
    by (metis bracketed_simps(6))+
  moreover have "x = y" if "h x = Reading (Some m)" "h y = Reading (Some m)" for x y
    using that assms(2) unfolding held_by_def by (metis option.inject)
  ultimately show ?thesis using mutex_unlock assms(2) by (intro exI [of _ "h(t := Reading None)"]) (auto simp: held_by_def)
next
  case (acts f k s)
  then have "bracketed (h t) k" using assms(2) unfolding held_by_def by (metis bracketed_simps(7))
  with acts assms(2) show ?thesis by (intro exI [of _ h]) (auto simp: held_by_def)
next
  case (waits f s)
  with assms(2) show ?thesis by (intro exI [of _ h]) (auto simp: held_by_def)
qed

lemma psteps_held_by: "psteps P Q \<Longrightarrow> \<exists>h. held_by h P \<Longrightarrow> \<exists>h. held_by h Q"
  by (induction rule: psteps.induct) (blast intro: pstep_held_by)+

section \<open>Schedules\<close>

abbreviation pool :: "'os sys \<Rightarrow> nat set \<Rightarrow> nat option \<Rightarrow> (int \<Rightarrow> nat option) \<Rightarrow> (nat \<Rightarrow> 'os steps) \<Rightarrow> 'os pool" where
  "pool s R w M T \<equiv> \<lparr>process = s, readers = R, writer = w, mutexes = M, todo = T\<rparr>"

text \<open>Two threads, and no lock taken.\<close>

abbreviation two_threads :: "'os sys \<Rightarrow> nat \<Rightarrow> 'os steps \<Rightarrow> nat \<Rightarrow> 'os steps \<Rightarrow> 'os pool" where
  "two_threads s a x b y \<equiv> pool s {} None (\<lambda>_. None) ((\<lambda>_. End)(a := x, b := y))"

lemma psteps_first: "psteps Q R \<Longrightarrow> pstep t P Q \<Longrightarrow> psteps P R"
  by (induction rule: psteps.induct) (blast intro: psteps.intros)+

text \<open>A schedule, step by step: which thread moves, and where that leads.\<close>

lemma go_call: "T t = call m k \<Longrightarrow> m s = Done a s' \<Longrightarrow> psteps (pool s' R w M (T(t := k a))) Q \<Longrightarrow> psteps (pool s R w M T) Q"
  using pstep.acts [of "pool s R w M T" t "bind m (\<lambda>a. ret (k a))" "k a" s']
  by (auto simp: call_def run_simps intro: psteps_first)

lemma go_rdlock: "T t = Rdlock k \<Longrightarrow> psteps (pool s (insert t R) None M (T(t := k))) Q \<Longrightarrow> psteps (pool s R None M T) Q"
  using pstep.rdlock [of "pool s R None M T" t k] by (auto intro: psteps_first)

lemma go_wrlock: "T t = Wrlock k \<Longrightarrow> psteps (pool s {} (Some t) M (T(t := k))) Q \<Longrightarrow> psteps (pool s {} None M T) Q"
  using pstep.wrlock [of "pool s {} None M T" t k] by (auto intro: psteps_first)

lemma go_rdunlock: "T t = Rwunlock k \<Longrightarrow> psteps (pool s (R - {t}) None M (T(t := k))) Q \<Longrightarrow> psteps (pool s R None M T) Q"
  using pstep.rwunlock [of "pool s R None M T" t k] by (auto intro: psteps_first)

lemma go_wrunlock: "T t = Rwunlock k \<Longrightarrow> psteps (pool s {} None M (T(t := k))) Q \<Longrightarrow> psteps (pool s {} (Some t) M T) Q"
  using pstep.rwunlock [of "pool s {} (Some t) M T" t k] by (auto intro: psteps_first)

lemma go_mutex_lock: "T t = Mutex_lock m test k \<Longrightarrow> M m = None \<Longrightarrow> test s
    \<Longrightarrow> psteps (pool s R w (M(m := Some t)) (T(t := k))) Q \<Longrightarrow> psteps (pool s R w M T) Q"
  using pstep.mutex_lock [of "pool s R w M T" t m test k] by (auto intro: psteps_first)

lemma go_mutex_unlock: "T t = Mutex_unlock m k \<Longrightarrow> psteps (pool s R w (M(m := None)) (T(t := k))) Q \<Longrightarrow> psteps (pool s R w M T) Q"
  using pstep.mutex_unlock [of "pool s R w M T" t m k] by (auto intro: psteps_first)

section \<open>What the calls do in between\<close>

lemma listener_queue_run:
  assumes "listener sd p q s"
  shows "the_queue p s = Done q s" "bind (get_connection_queue p) (the_or e) s = Done q s"
  using get_connection_queue_run [OF assms] by (simp_all add: the_queue_def run_simps)

lemma edit_queue_run:
  assumes "listener sd p q s"
  shows "edit_queue p sd f s = put_queue sd (f q) s"
  using listener_queue_run(1) [OF assms] by (simp add: edit_queue_def run_simps)

lemma listener_checks:
  assumes "listener sd p q s"
  shows "bind (get_ctx f n p) (\<lambda>c. bind (assert_at g m (listening c \<and> bound c)) (\<lambda>_. ret (my_sd c))) s = Done sd s"
    and "bind (get_ctx f n p) (\<lambda>c. assert_at g m (listening c \<and> bound c)) s = Done () s"
  using assms by (auto simp: run_simps elim!: listenerE)

text \<open>myclose on a listening socket, before it takes the lock.\<close>

lemma close_begin_run:
  assumes l: "listener sd p q s" and c: "hload (ctxs s) p = Some c" "threads_done s c" and pipe: "pipe_ok E"
  shows "\<exists>s1. close_begin E sd s = Done (p, True) s1 \<and> listener sd p q s1 \<and> threads s1 = threads s \<and> listen_map s1 = listen_map s
    \<and> (\<forall>x. x \<noteq> p \<longrightarrow> hload (ctxs s1) x = hload (ctxs s) x) \<and> (\<forall>e pe. open_socket e pe s \<longrightarrow> open_socket e pe s1)"
proof -
  from l c(1) have lc: "open_socket sd p s" "listening c" "wf_ctx p c" by (auto elim!: listenerE elim: open_socketE)
  have nt: "\<not> transport_thread_started c" using c(2) lc(2) by (auto simp: threads_done_def)
  let ?c = "c\<lparr>close_requested := True\<rparr>"
  let ?s = "s\<lparr>ctxs := hstore (ctxs s) p ?c\<rparr>"
  have "wf_ctx p ?c" using lc(3) by simp
  then have l1: "listener sd p q ?s" and o1: "\<And>e pe. open_socket e pe s \<Longrightarrow> open_socket e pe ?s"
    using listener_store [OF l c(1), of ?c] open_socket_store [OF _ c(1), of _ _ ?c] by simp_all
  have h1: "hload (ctxs ?s) p = Some ?c" using hload_bound [OF c(1)] by (simp add: heap_simps)
  have "threads_finished ?s ?c" using c(2) by (auto simp: threads_done_iff threads_finished_def split: option.splits)
  from stop_recv_thread_run [OF h1 this pipe] obtain w i where
    st: "network_stop_recv_thread E p ?s
      = Done () (?s\<lparr>os := w, ctxs := hstore (ctxs ?s) p (upd_network (\<lambda>n. n\<lparr>impl_data := Some i\<rparr>) ?c)\<rparr>)"
    and i: "map_option sock_ctx (impl c) = Some (sock_ctx i)" by auto
  let ?c1 = "upd_network (\<lambda>n. n\<lparr>impl_data := Some i\<rparr>) ?c"
  let ?s1 = "?s\<lparr>os := w, ctxs := hstore (ctxs ?s) p ?c1\<rparr>"
  have w1: "wf_ctx p ?c1" using lc(3) i by (simp add: wf_ctx_def upd_network_def)
  have l2: "listener sd p q ?s1" using listener_store [of sd p q "?s\<lparr>os := w\<rparr>" p ?c ?c1] l1 h1 w1 by (simp add: upd_network_def)
  have o2: "open_socket e pe ?s1" if "open_socket e pe s" for e pe
    using open_socket_store [OF o1 [OF that] h1, of ?c1] w1 by (simp add: upd_network_def open_socket_def wf_sys_def)
  have "close_begin E sd s = Done (p, True) ?s1"
    using c(1) lc(2) nt st hload_bound [OF c(1)] open_socket_context(1) [OF lc(1)]
    by (simp add: close_begin_def run_simps heap_simps upd_network_def)
  then show ?thesis using l2 o2 hload_bound [OF c(1)] by (intro exI [of _ ?s1]) (simp add: heap_simps listen_map_def)
qed

lemma close_all_waits:
  "filter (\<lambda>d. d \<noteq> -1) (map req_sd rs) = d # ds \<Longrightarrow> cl d s = Blocked s' \<Longrightarrow> close_all cl rs s = Blocked s'"
  by (induction rs) (auto simp: run_simps split: if_splits)

lemma myclose_waits:
  assumes "open_socket d p s" "hload (ctxs s) p = Some c" "\<not> listening c" "transport_thread_started c" "is_active c \<or> listen_sd c \<noteq> -1"
    and "\<not> thread_exited (threads s) (transport_thread c)"
  shows "myclose_fuel (Suc n) E d s = Blocked (s\<lparr>ctxs := hstore (ctxs s) p (c\<lparr>close_requested := True\<rparr>)\<rparr>)"
  using assms hload_bound [OF assms(2)] open_socket_context(1) [OF assms(1)]
  by (simp add: myclose_fuel.simps run_simps heap_simps pthread_join_def)

text \<open>The queue of a listening socket whose first connection has a transport thread that runs.\<close>

lemma close_passive_waits:
  assumes l: "listener sd p q s" "wf_lq q" "pending q = d # ds" and o: "open_socket d pd s" "hload (ctxs s) pd = Some c"
    and c: "\<not> listening c" "transport_thread_started c" "is_active c \<or> listen_sd c \<noteq> -1" "\<not> thread_exited (threads s) (transport_thread c)"
  defines "s' \<equiv> s\<lparr>ctxs := hstore (ctxs s) pd (c\<lparr>close_requested := True\<rparr>)\<rparr>"
  shows "mysock_close_passive_socket (myclose_fuel 1 E) p s = Blocked s'" and "mysock_close_passive_socket (myclose_fuel 1 E) p s' = Blocked s'"
proof -
  have run: "mysock_close_passive_socket (myclose_fuel 1 E) p t = Blocked s'"
    if "listener sd p q t" "myclose_fuel 1 E d t = Blocked s'" for t
    using that l(2,3) get_connection_queue_run [OF that(1)]
      close_all_waits [of "connection_queue q" d ds "myclose_fuel 1 E" t s']
    by (auto simp: mysock_close_passive_socket_def run_simps wf_lq_def pending_def elim!: listenerE)
  have wf: "wf_ctx pd (c\<lparr>close_requested := True\<rparr>)" using o by (auto elim: open_socketE)
  have l': "listener sd p q s'" using l(1) listener_store [OF l(1) o(2) _ wf] o(2) c(1) unfolding s'_def
    by (cases "pd = p") (auto elim!: listenerE)
  have o': "open_socket d pd s'" unfolding s'_def by (rule open_socket_store [OF o _ wf]) simp
  have h': "hload (ctxs s') pd = Some (c\<lparr>close_requested := True\<rparr>)" using hload_bound [OF o(2)] by (simp add: s'_def heap_simps)
  show "mysock_close_passive_socket (myclose_fuel 1 E) p s = Blocked s'"
    by (rule run [OF l(1)]) (use myclose_waits [OF o c, of 0 E] in \<open>simp add: s'_def\<close>)
  show "mysock_close_passive_socket (myclose_fuel 1 E) p s' = Blocked s'"
    by (rule run [OF l']) (use myclose_waits [OF o' h', of 0 E] c h' in \<open>simp add: s'_def hstore_same\<close>)
qed

section \<open>The table, found and changed\<close>

lemma find_pos_keys: "map fst xs = map fst ys \<Longrightarrow> find_pos (\<lambda>e. P (fst e)) xs = find_pos (\<lambda>e. P (fst e)) ys"
proof (induction xs arbitrary: ys)
  case (Cons x xs)
  then show ?case by (cases ys) auto
qed simp

lemma set_entry_twice:
  assumes e: "hash_get_entry h eq sz key t = Done (Some (ndx, i)) t" "ndx < length t" and t1: "hash_set_entry h eq sz key d1 t = Done () t1"
  shows "hash_set_entry h eq sz key d2 t1 = hash_set_entry h eq sz key d2 t"
proof -
  have t1: "t1 = t[ndx := (t ! ndx)[i := (fst (t ! ndx ! i), d1)]]" using e(1) t1 by (simp add: hash_set_entry_def run_simps)
  have ix: "h key sz < sz" "ndx = h key sz" "find_pos (\<lambda>e. eq (fst e) key) (t ! ndx) = Some i"
    using e(1) by (auto simp: hash_get_entry_def bind_Done_iff run_simps hash_index_def split: if_splits)
  from find_pos_Some [OF ix(3)] have i: "i < length (t ! ndx)" by simp
  have at: "t1 ! ndx = (t ! ndx)[i := (fst (t ! ndx ! i), d1)]" using e(2) by (simp add: t1)
  have "map fst (t1 ! ndx) = map fst (t ! ndx)" using i by (simp add: at map_update list_update_same_conv)
  from find_pos_keys [OF this, of "\<lambda>x. eq x key"] ix(3) have "find_pos (\<lambda>e. eq (fst e) key) (t1 ! ndx) = Some i" by simp
  then have "hash_set_entry h eq sz key d2 t1 = Done () (t1[ndx := (t1 ! ndx)[i := (fst (t1 ! ndx ! i), d2)]])"
    using ix(1,2) by (simp add: hash_set_entry_def hash_get_entry_def hash_index_def run_simps)
  also have "\<dots> = hash_set_entry h eq sz key d2 t"
    using e(1) i by (simp add: hash_set_entry_def run_simps at) (simp add: t1)
  finally show ?thesis .
qed

lemma put_queue_twice:
  assumes "listener sd p q s" "put_queue sd q1 s = Done () s1"
  shows "put_queue sd q2 s1 = put_queue sd q2 s"
proof -
  let ?t = "listen_table s" let ?n = "hash_default_hash_fn sd 64"
  have wf: "wf_table hash_default_hash_fn 64 ?t" "valid_key sd" and m: "table_map hash_default_hash_fn 64 ?t sd = Some q"
    using assms(1) by (auto simp: wf_sys_def valid_key_def listen_map_def elim!: listenerE)
  have "map_of (?t ! ?n) sd = Some q" "?n < length ?t" using m by (simp_all add: table_map_def split: if_splits)
  then obtain i where "hash_get_entry hash_default_hash_fn hash_default_key_equals 64 sd ?t = Done (Some (?n, i)) ?t"
    using lt.get_entry_run [OF wf(2), of ?t] by (auto simp: map_of_find_pos)
  note twice = set_entry_twice [OF this \<open>?n < length ?t\<close>]
  from assms(2) obtain t1 where t1: "hash_set_entry hash_default_hash_fn hash_default_key_equals 64 sd q1 ?t = Done () t1"
    "s1 = s\<lparr>listen_table := t1\<rparr>" by (auto simp: put_queue_def on_listen_table_def zoom_def split: outcome.splits)
  show ?thesis using twice [OF t1(1), of q2] t1(2) by (simp add: put_queue_def on_listen_table_def zoom_def split: outcome.split)
qed

lemma queue_lookup:
  assumes "wf_sys s" "hload (ctxs s) p = Some c" "listening c" "bound c"
  shows "get_connection_queue p s = Done (listen_map s (my_sd c)) s" "listen_map s (my_sd c) = Some q \<Longrightarrow> listener (my_sd c) p q s"
proof -
  have wf: "wf_descriptors (global_ctx s) (ctxs s)" "wf_table hash_default_hash_fn 64 (listen_table s)" using assms(1) by (simp_all add: wf_sys_def)
  note live = wf_descriptors_live [OF wf(1) assms(2)]
  then have "valid_key (my_sd c)" by (simp add: valid_key_def)
  from lt.pm.look_spec [OF wf(2) this] assms(2-4) show "get_connection_queue p s = Done (listen_map s (my_sd c)) s"
    by (simp add: get_connection_queue_def run_simps on_listen_table_def zoom_def listen_map_def)
  show "listen_map s (my_sd c) = Some q \<Longrightarrow> listener (my_sd c) p q s"
    using live assms by (simp add: listener_def open_socket_def)
qed

lemma get_context_found:
  "mysock_get_context sd s = Done (Some p) s' \<Longrightarrow> s' = s \<and> (\<exists>c. hload (ctxs s) p = Some c \<and> my_sd c = sd)"
  by (auto simp: mysock_get_context_def verify_mysocket_descriptor_def run_simps split: option.splits if_splits)

section \<open>The steps against the calls\<close>

text \<open>Without interruption, the steps of a function do to the process what its one-step model does.\<close>

definition performs :: "(('a \<Rightarrow> 'os steps) \<Rightarrow> 'os steps) \<Rightarrow> ('os sys, 'a) prog \<Rightarrow> bool" where
  "performs f m \<longleftrightarrow> (\<forall>s t k a s' T. wf_sys s \<and> T t = f k \<and> m s = Done a s' \<longrightarrow>
     psteps (pool s {} None (\<lambda>_. None) T) (pool s' {} None (\<lambda>_. None) (T(t := k a))))"

lemma performsI:
  assumes "\<And>s t k a s' T Q. wf_sys s \<Longrightarrow> T t = f k \<Longrightarrow> m s = Done a s'
    \<Longrightarrow> psteps (pool s' {} None (\<lambda>_. None) (T(t := k a))) Q \<Longrightarrow> psteps (pool s {} None (\<lambda>_. None) T) Q"
  shows "performs f m"
  using assms psteps.refl unfolding performs_def by blast

lemma get_port_same: "network_get_port E p s = Done port s' \<Longrightarrow> s' = s"
  by (auto simp: network_get_port_def verify_socket_def bind_Done_iff run_simps split: option.splits if_splits)

lemma set_backlog_performs: "performs (\<lambda>k. set_backlog_steps E p backlog (k ())) (mysock_set_backlog E p backlog)"
proof (rule performsI)
  fix s :: "'a sys" and t k a s' T Q
  assume f: "T t = set_backlog_steps E p backlog (k ())" and m: "mysock_set_backlog E p backlog s = Done a s'"
    and q: "psteps (pool s' {} None (\<lambda>_. None) (T(t := k a))) Q"
  from m have "bind (get_ctx ''connection_demux.c'' 316 p) (\<lambda>c.
           bind (assert_at ''connection_demux.c'' 316 (listening c \<and> bound c)) (\<lambda>_.
           bind (network_get_port E p) (\<lambda>port.
           assert_at ''connection_demux.c'' 319 (unat (ntohs (host_order E) port) > 0)))) s = Done () s"
    by (cases "network_get_port E p s")
      (auto simp: mysock_set_backlog_def Let_def run_simps assert_at_def dest: get_port_same split: option.splits if_splits)
  note pre = this
  show "psteps (pool s {} None (\<lambda>_. None) T) Q"
    apply (rule go_call [where t = t], simp add: f set_backlog_steps_def, rule pre)
    apply (rule go_wrlock [where t = t], simp)
    apply (rule go_call [where t = t], simp, rule m)
    apply (rule go_wrunlock [where t = t], simp)
    using q by simp
qed

lemma close_passive_performs:
  "performs (\<lambda>k. close_passive_steps E p (k ())) (mysock_close_passive_socket (myclose_fuel 1 E) p)"
proof (rule performsI)
  fix s :: "'a sys" and t k a s' T Q
  assume f: "T t = close_passive_steps E p (k ())" and m: "mysock_close_passive_socket (myclose_fuel 1 E) p s = Done a s'"
    and q: "psteps (pool s' {} None (\<lambda>_. None) (T(t := k a))) Q"
  from m have "bind (get_ctx ''connection_demux.c'' 364 p) (\<lambda>c.
           assert_at ''connection_demux.c'' 364 (listening c \<and> bound c)) s = Done () s"
    by (auto simp: mysock_close_passive_socket_def bind_Done_iff run_simps split: option.splits if_splits)
  note pre = this
  show "psteps (pool s {} None (\<lambda>_. None) T) Q"
    apply (rule go_call [where t = t], simp add: f close_passive_steps_def, rule pre)
    apply (rule go_wrlock [where t = t], simp)
    apply (rule go_call [where t = t], simp, use m in simp)
    apply (rule go_wrunlock [where t = t], simp)
    using q by simp
qed

lemma complete_cases:
  assumes wf: "wf_sys s" and m: "mysock_passive_connection_complete p s = Done () s'"
  shows "(find_incomplete p s = Done None s \<and> s' = s)
    \<or> (\<exists>lp sd k q. find_incomplete p s = Done (Some (lp, sd, k)) s \<and> listener sd lp q s
        \<and> put_queue sd (q\<lparr>completed_queue := completed_queue q @ [(queue_block q, k)]\<rparr>) s = Done () s')"
proof -
  from m obtain c y lp where c: "hload (ctxs s) p = Some c" "0 \<le> listen_sd c" "mysock_get_context (listen_sd c) s = Done (Some lp) y"
    by (auto simp: mysock_passive_connection_complete_def run_simps split: outcome.splits option.splits if_splits)
  from get_context_found [OF c(3)] obtain lc where lc: "hload (ctxs s) lp = Some lc" "my_sd lc = listen_sd c" "y = s" by blast
  with c m have b: "listening lc" "bound lc"
    by (auto simp: mysock_passive_connection_complete_def get_connection_queue_def run_simps split: if_splits)
  note look = queue_lookup [OF wf lc(1) b, unfolded lc(2)]
  show ?thesis
  proof (cases "listen_map s (listen_sd c)")
    case None
    with c lc m look(1) show ?thesis by (auto simp: mysock_passive_connection_complete_def find_incomplete_def run_simps)
  next
    case (Some q)
    with c lc m look(1) look(2) [OF Some] show ?thesis
      by (auto simp: mysock_passive_connection_complete_def find_incomplete_def run_simps split: option.splits if_splits)
  qed
qed

lemma retransmission_same: "retransmission host peer l rs s = Done x t \<Longrightarrow> t = s"
  by (induction rs) (auto simp: run_simps split: if_splits)

lemma enqueue_cases:
  assumes wf: "wf_sys s" and m: "mysock_enqueue_connection E p packet len peer peer_len ud s = Done ok s'"
    and c: "hload (ctxs s) p = Some c" "listening c" "bound c" "0 < peer_len"
  shows "(find_slot E p packet len peer peer_len s = Done None s \<and> \<not> ok \<and> s' = s)
    \<or> (\<exists>q j s1. find_slot E p packet len peer peer_len s = Done (Some j) s \<and> listener (my_sd c) p q s
        \<and> put_queue (my_sd c) (q\<lparr>lq_cur_len := Suc (lq_cur_len q)\<rparr>) s = Done () s1
        \<and> establish_connection E p packet len peer peer_len ud (q\<lparr>lq_cur_len := Suc (lq_cur_len q)\<rparr>) j s1 = Done ok s')"
proof (cases "listen_map s (my_sd c)")
  case None
  with m c queue_lookup(1) [OF wf c(1-3)] show ?thesis
    by (auto simp: mysock_enqueue_connection_def find_slot_def run_simps debug_print_connection_def split: if_splits)
next
  case (Some q)
  let ?d = "retransmission (host_order E) peer peer_len (take (lq_max_len q) (connection_queue q))"
  have dup: "?d s = Done x t \<Longrightarrow> t = s" for x t by (rule retransmission_same)
  note l = queue_lookup(2) [OF wf c(1-3) Some]
  from listener_put [OF l, of "q\<lparr>lq_cur_len := Suc (lq_cur_len q)\<rparr>"] obtain s1 where
    "put_queue (my_sd c) (q\<lparr>lq_cur_len := Suc (lq_cur_len q)\<rparr>) s = Done () s1" by blast
  then show ?thesis using m c queue_lookup(1) [OF wf c(1-3)] l Some dup
    by (cases "?d s")
      (auto simp: mysock_enqueue_connection_def find_slot_def run_simps debug_print_connection_def Let_def split: if_splits option.splits)
qed

lemma dequeue_cases:
  assumes wf: "wf_sys s" and m: "mysock_dequeue_connection p s = Done n s'"
  shows "\<exists>sd q q1 s1. listener sd p q s \<and> completed_queue q \<noteq> [] \<and> take_completed p sd s = Done n s1 \<and> listener sd p q1 s1
    \<and> 0 < lq_cur_len q1 \<and> put_queue sd (q1\<lparr>lq_cur_len := lq_cur_len q1 - 1\<rparr>) s1 = Done () s'"
proof -
  from m obtain c where c: "hload (ctxs s) p = Some c" "listening c" "bound c"
    by (auto simp: mysock_dequeue_connection_def run_simps split: option.splits if_splits)
  note look = queue_lookup [OF wf c]
  from m c look(1) obtain q where q: "listen_map s (my_sd c) = Some q"
    by (auto simp: mysock_dequeue_connection_def run_simps split: option.splits)
  note l = look(2) [OF q]
  from m c look(1) q obtain b k rest where cq: "completed_queue q = (b, k) # rest" "b = queue_block q" "k < length (connection_queue q)"
    by (auto simp: mysock_dequeue_connection_def run_simps split: list.splits prod.splits if_splits)
  from m c look(1) q cq obtain y where y: "mysock_get_context (req_sd (connection_queue q ! k)) s = Done (Some n) y"
    "0 < lq_cur_len q" "put_queue (my_sd c) (q\<lparr>completed_queue := rest, connection_queue := (connection_queue q)[k := invalid_request],
               lq_cur_len := lq_cur_len q - 1\<rparr>) y = Done () s'"
    by (auto simp: mysock_dequeue_connection_def run_simps split: outcome.splits option.splits if_splits)
  let ?q1 = "q\<lparr>completed_queue := rest, connection_queue := (connection_queue q)[k := invalid_request]\<rparr>"
  from get_context_found [OF y(1)] have "y = s" by simp
  from listener_put [OF l, of ?q1] obtain s1 where s1: "put_queue (my_sd c) ?q1 s = Done () s1" "listener (my_sd c) p ?q1 s1" by blast
  have "take_completed p (my_sd c) s = Done n s1"
    using listener_queue_run(1) [OF l] cq y(1) \<open>y = s\<close> s1(1) by (simp add: take_completed_def run_simps)
  moreover have "put_queue (my_sd c) (?q1\<lparr>lq_cur_len := lq_cur_len q - 1\<rparr>) s1 = Done () s'"
    using y(3) put_queue_twice [OF l s1(1), of "?q1\<lparr>lq_cur_len := lq_cur_len q - 1\<rparr>"] \<open>y = s\<close> by simp
  ultimately show ?thesis using l cq(1) s1(2) y(2)
    by (intro exI [of _ "my_sd c"] exI [of _ q] exI [of _ ?q1] exI [of _ s1]) simp
qed

lemma dequeue_performs: "performs (dequeue_steps p) (mysock_dequeue_connection p)"
proof (rule performsI)
  fix s :: "'a sys" and t k a s' T Q
  assume wf: "wf_sys s" and f: "T t = dequeue_steps p k" and m: "mysock_dequeue_connection p s = Done a s'"
    and q: "psteps (pool s' {} None (\<lambda>_. None) (T(t := k a))) Q"
  from dequeue_cases [OF wf m] obtain sd q q1 s1 where
    l: "listener sd p q s" "completed_queue q \<noteq> []" "take_completed p sd s = Done a s1" "listener sd p q1 s1"
    "0 < lq_cur_len q1" "put_queue sd (q1\<lparr>lq_cur_len := lq_cur_len q1 - 1\<rparr>) s1 = Done () s'" by blast
  show "psteps (pool s {} None (\<lambda>_. None) T) Q"
    apply (rule go_call [where t = t], simp add: f dequeue_steps_def, rule listener_checks(1) [OF l(1)])
    apply (rule go_rdlock [where t = t], simp)
    apply (rule go_call [where t = t], simp, rule listener_queue_run(2) [OF l(1)])
    apply (rule go_mutex_lock [where t = t], simp, simp, use l(1,2) in \<open>force elim: listenerE\<close>)
    apply (rule go_call [where t = t], simp, rule l(3))
    apply (rule go_call [where t = t and a = "lq_cur_len q1"], simp, use listener_queue_run(1) [OF l(4)] l(5) in \<open>simp add: run_simps\<close>)
    apply (rule go_call [where t = t], simp, use edit_queue_run [OF l(4)] l(6) in simp)
    apply (rule go_mutex_unlock [where t = t], simp)
    apply (rule go_rdunlock [where t = t], simp)
    using q by (simp add: fun_upd_idem)
qed

lemma complete_performs: "performs (\<lambda>k. complete_steps p (k ())) (mysock_passive_connection_complete p)"
proof (rule performsI)
  fix s :: "'a sys" and t k a s' T Q
  assume wf: "wf_sys s" and f: "T t = complete_steps p (k ())" and m: "mysock_passive_connection_complete p s = Done a s'"
    and q: "psteps (pool s' {} None (\<lambda>_. None) (T(t := k a))) Q"
  from m have "mysock_passive_connection_complete p s = Done () s'" by simp
  from complete_cases [OF wf this] show "psteps (pool s {} None (\<lambda>_. None) T) Q"
  proof (elim disjE exE conjE)
    assume n: "find_incomplete p s = Done None s" "s' = s"
    show ?thesis
      apply (rule go_rdlock [where t = t], simp add: f complete_steps_def)
      apply (rule go_call [where t = t], simp, rule n(1))
      apply (rule go_rdunlock [where t = t], simp)
      using q n(2) by simp
  next
    fix lp sd j q
    assume n: "find_incomplete p s = Done (Some (lp, sd, j)) s" "listener sd lp q s"
      "put_queue sd (q\<lparr>completed_queue := completed_queue q @ [(queue_block q, j)]\<rparr>) s = Done () s'"
    show ?thesis
      apply (rule go_rdlock [where t = t], simp add: f complete_steps_def)
      apply (rule go_call [where t = t], simp, rule n(1))
      apply (rule go_mutex_lock [where t = t], simp, simp, simp)
      apply (rule go_call [where t = t], simp, use edit_queue_run [OF n(2)] n(3) in simp)
      apply (rule go_mutex_unlock [where t = t], simp)
      apply (rule go_rdunlock [where t = t], simp)
      using \<open>psteps (pool s' _ _ _ _) Q\<close> by (simp add: fun_upd_idem)
  qed
qed

lemma enqueue_performs:
  "performs (enqueue_steps E p packet len peer peer_len ud) (mysock_enqueue_connection E p packet len peer peer_len ud)"
proof (rule performsI)
  fix s :: "'a sys" and t k a s' T Q
  assume wf: "wf_sys s" and f: "T t = enqueue_steps E p packet len peer peer_len ud k"
    and m: "mysock_enqueue_connection E p packet len peer peer_len ud s = Done a s'"
    and q: "psteps (pool s' {} None (\<lambda>_. None) (T(t := k a))) Q"
  from m obtain c where c: "hload (ctxs s) p = Some c" "listening c" "bound c" "0 < peer_len"
    by (auto simp: mysock_enqueue_connection_def run_simps split: option.splits if_splits)
  have pre: "bind (get_ctx ''connection_demux.c'' 153 p) (\<lambda>c.
           bind (assert_at ''connection_demux.c'' 153 (listening c \<and> bound c)) (\<lambda>_.
           bind (assert_at ''connection_demux.c'' 155 (peer_len > 0)) (\<lambda>_. ret (my_sd c)))) s = Done (my_sd c) s"
    using c by (simp add: run_simps)
  from enqueue_cases [OF wf m c] show "psteps (pool s {} None (\<lambda>_. None) T) Q"
  proof (elim disjE exE conjE)
    assume n: "find_slot E p packet len peer peer_len s = Done None s" "\<not> a" "s' = s"
    show ?thesis
      apply (rule go_call [where t = t], simp add: f enqueue_steps_def, rule pre)
      apply (rule go_rdlock [where t = t], simp)
      apply (rule go_call [where t = t], simp, rule n(1))
      apply (rule go_rdunlock [where t = t], simp)
      using q n(2,3) by simp
  next
    fix q j s1
    assume n: "find_slot E p packet len peer peer_len s = Done (Some j) s" "listener (my_sd c) p q s"
      "put_queue (my_sd c) (q\<lparr>lq_cur_len := Suc (lq_cur_len q)\<rparr>) s = Done () s1"
      "establish_connection E p packet len peer peer_len ud (q\<lparr>lq_cur_len := Suc (lq_cur_len q)\<rparr>) j s1 = Done a s'"
    from listener_put [OF n(2), of "q\<lparr>lq_cur_len := Suc (lq_cur_len q)\<rparr>"] n(3)
    have l1: "listener (my_sd c) p (q\<lparr>lq_cur_len := Suc (lq_cur_len q)\<rparr>) s1" by auto
    show ?thesis
      apply (rule go_call [where t = t], simp add: f enqueue_steps_def, rule pre)
      apply (rule go_rdlock [where t = t], simp)
      apply (rule go_call [where t = t], simp, rule n(1))
      apply (rule go_call [where t = t and a = "lq_cur_len q"], simp, use listener_queue_run(1) [OF n(2)] in \<open>simp add: run_simps\<close>)
      apply (rule go_call [where t = t], simp, use edit_queue_run [OF n(2)] n(3) in simp)
      apply (rule go_call [where t = t], simp, use listener_queue_run(1) [OF l1] n(4) in \<open>simp add: run_simps\<close>)
      apply (rule go_rdunlock [where t = t], simp)
      using \<open>psteps (pool s' _ _ _ _) Q\<close> by simp
  qed
qed

lemma psteps_trans: "psteps Q R \<Longrightarrow> psteps P Q \<Longrightarrow> psteps P R"
  by (induction rule: psteps.induct) (blast intro: psteps.intros)+

lemma performsD:
  assumes "performs f m" "wf_sys s" "T t = f k" "m s = Done a s'" "psteps (pool s' {} None (\<lambda>_. None) (T(t := k a))) Q"
  shows "psteps (pool s {} None (\<lambda>_. None) T) Q"
  using assms psteps_trans unfolding performs_def by blast

lemma get_context_some: "mysock_get_context sd s = Done x t \<Longrightarrow> x \<noteq> None"
  by (auto simp: mysock_get_context_def verify_mysocket_descriptor_def run_simps split: option.splits if_splits)
    (metis option.distinct(1))

lemma myclose_begin:
  "myclose E sd s = bind (close_begin E sd) (\<lambda>(p, lis).
     bind (if lis then mysock_close_passive_socket (myclose_fuel 1 E) p else ret ()) (\<lambda>_.
     bind (mysock_free_context E p) (\<lambda>_. ret (Inr 0)))) s"
proof (cases "mysock_get_context sd s")
  case (Done x t)
  with get_context_some [OF Done] obtain p where "mysock_get_context sd s = Done (Some p) t" by auto
  then show ?thesis unfolding One_nat_def
    by (simp add: myclose_def numeral_2_eq_2 myclose_fuel.simps(2) close_begin_def bind_assoc bind_run [of "mysock_get_context sd"]) (simp add: the_or_def bind_assoc)
qed (simp_all add: myclose_def numeral_2_eq_2 myclose_fuel.simps(2) close_begin_def run_simps)

lemma myclose_performs: "performs (\<lambda>k. myclose_steps E sd (k (Inr 0))) (myclose E sd)"
proof (rule performsI)
  fix s :: "'a sys" and t k a s' T Q
  assume wf: "wf_sys s" and f: "T t = myclose_steps E sd (k (Inr 0))" and m: "myclose E sd s = Done a s'"
    and q: "psteps (pool s' {} None (\<lambda>_. None) (T(t := k a))) Q"
  from m obtain p lis s1 s2 where b: "close_begin E sd s = Done (p, lis) s1"
    "(if lis then mysock_close_passive_socket (myclose_fuel 1 E) p else ret ()) s1 = Done () s2"
    "mysock_free_context E p s2 = Done () s'" "a = Inr 0"
    unfolding myclose_begin bind_Done_iff by (auto simp: ret_def bind_Done_iff)
  let ?x = "call (mysock_free_context E p) (\<lambda>_. k (Inr 0))"
  have "keeps wf_sys (close_begin E sd)" unfolding close_begin_def by (intro keeps_intros) (auto simp: wf_ctx_def intro!: keeps_intros)
  with wf b(1) have wf1: "wf_sys s1" by (auto simp: keeps_def dest: spec [of _ s])
  have last: "psteps (pool s2 {} None (\<lambda>_. None) (T(t := ?x))) Q"
    apply (rule go_call [where t = t], simp, rule b(3))
    using q b(4) by simp
  have "psteps (pool s1 {} None (\<lambda>_. None) (T(t := if lis then close_passive_steps E p ?x else ?x))) Q"
  proof (cases lis)
    case True
    show ?thesis by (rule performsD [OF close_passive_performs wf1, where t = t and k = "\<lambda>_. ?x"]) (use True b(2) last in simp_all)
  next
    case False
    with b(2) last show ?thesis by (simp add: ret_def)
  qed
  then show "psteps (pool s {} None (\<lambda>_. None) T) Q"
    by (intro go_call [where T = T and t = t and s' = s1 and a = "(p, lis)", OF f [unfolded myclose_steps_def]]) (simp_all add: b(1))
qed

lemma unblock_performs: "performs (\<lambda>k. unblock_steps err sd (k ())) (stcp_unblock_application err sd)"
proof (rule performsI)
  fix s :: "'a sys" and t k a s' T Q
  assume wf: "wf_sys s" and f: "T t = unblock_steps err sd (k ())" and m: "stcp_unblock_application err sd s = Done a s'"
    and q: "psteps (pool s' {} None (\<lambda>_. None) (T(t := k a))) Q"
  have "stcp_unblock_application err sd s = bind (unblock_begin err sd) (\<lambda>(p, active). if active then ret () else mysock_passive_connection_complete p) s"
    by (simp add: stcp_unblock_application_def unblock_begin_def run_simps split: outcome.split)
  with m obtain p active s1 where b: "unblock_begin err sd s = Done (p, active) s1"
    "(if active then ret () else mysock_passive_connection_complete p) s1 = Done () s'"
    by (auto simp: bind_Done_iff)
  have "keeps wf_sys (unblock_begin err sd)" unfolding unblock_begin_def by (intro keeps_intros) (auto simp: wf_ctx_def intro: keeps_intros)
  with wf b(1) have wf1: "wf_sys s1" by (auto simp: keeps_def dest: spec [of _ s])
  have "psteps (pool s1 {} None (\<lambda>_. None) (T(t := if active then k () else complete_steps p (k ())))) Q"
  proof (cases active)
    case True
    with b(2) q show ?thesis by (simp add: ret_def)
  next
    case False
    show ?thesis by (rule performsD [OF complete_performs wf1, where t = t and k = k]) (use False b(2) q in simp_all)
  qed
  then show "psteps (pool s {} None (\<lambda>_. None) T) Q"
    by (intro go_call [where T = T and t = t and s' = s1 and a = "(p, active)", OF f [unfolded unblock_steps_def]]) (simp_all add: b(1))
qed

section \<open>Properties\<close>

text \<open>C17: The interleaved model refines the one-step model of the other theories: a thread that runs the steps of
  the functions without interruption changes the process as the one-step call does, with the same result, and has every lock
  free again at its end. This covers the five functions that take \<open>listen_lock\<close>, on every way through them on which they
  return, and the two callers of them that do more than call one of them.\<close>

theorem steps_perform_calls:
  "performs (dequeue_steps p) (mysock_dequeue_connection p)
  \<and> performs (enqueue_steps E p packet packet_len peer peer_len ud) (mysock_enqueue_connection E p packet packet_len peer peer_len ud)
  \<and> performs (\<lambda>k. complete_steps p (k ())) (mysock_passive_connection_complete p)
  \<and> performs (\<lambda>k. set_backlog_steps E p backlog (k ())) (mysock_set_backlog E p backlog)
  \<and> performs (\<lambda>k. close_passive_steps E p (k ())) (mysock_close_passive_socket (myclose_fuel 1 E) p)
  \<and> performs (\<lambda>k. myclose_steps E sd (k (Inr 0))) (myclose E sd)
  \<and> performs (\<lambda>k. unblock_steps err sd (k ())) (stcp_unblock_application err sd)"
  by (intro conjI dequeue_performs enqueue_performs complete_performs set_backlog_performs close_passive_performs
    myclose_performs unblock_performs)


text \<open>C21: The discipline of \<open>listen_lock\<close> and \<open>connection_lock\<close>. Any number of threads call the five functions that
  take the locks, in any order, between other steps that may do anything to the process. Then in every state that they
  reach, with every interleaving, no thread reads while another writes, so \<open>_mysock_set_backlog\<close> and
  \<open>_mysock_close_passive_socket\<close> have the queues for themselves; a connection\_lock is held only by a reader; and
  a thread that has ended holds none of the locks, whichever way through the functions it took.\<close>

theorem lock_discipline:
  assumes "psteps P Q" and "\<forall>t. client (todo P t)" and "readers P = {}" and "writer P = None" and "mutexes P = (\<lambda>_. None)"
  shows "(writer Q \<noteq> None \<longrightarrow> readers Q = {}) \<and> (\<forall>m t. mutexes Q m = Some t \<longrightarrow> t \<in> readers Q)
    \<and> (\<forall>t. todo Q t = End \<longrightarrow> t \<notin> readers Q \<and> writer Q \<noteq> Some t \<and> (\<forall>m. mutexes Q m \<noteq> Some t))"
proof -
  have "held_by (\<lambda>_. Nothing) P" using assms(2-5) by (simp add: held_by_def client_bracketed)
  with psteps_held_by [OF assms(1)] obtain h where h: "held_by h Q" by blast
  have "h t = Nothing" if "todo Q t = End" for t
    using h that unfolding held_by_def by (metis bracketed_simps(1))
  with h show ?thesis by (auto simp: held_by_def)
qed

theorem lock_discipline_witness:
  "\<exists>Q. psteps (two_threads (listen_sys sample_queue) 0 (dequeue_steps 0 (\<lambda>_. End)) 1 (set_backlog_steps sample_env 0 1 End)) Q
    \<and> readers Q = {0} \<and> writer Q = None"
proof -
  let ?P = "two_threads (listen_sys sample_queue) 0 (dequeue_steps 0 (\<lambda>_. End)) 1 (set_backlog_steps sample_env 0 1 End)"
  have "\<exists>Q. psteps ?P Q \<and> readers Q = {0}"
    apply (rule exI)
    apply (rule conjI)
     apply (rule go_call [where t = 0], simp add: dequeue_steps_def, rule listener_checks(1) [OF listen_sys_listener])
     apply (rule go_rdlock [where t = 0], simp)
     apply (rule psteps.refl)
    apply simp
    done
  then obtain Q where Q: "psteps ?P Q" "readers Q = {0}" by blast
  have "\<forall>t. client (todo ?P t)" by (auto intro: client.intros)
  with lock_discipline [OF Q(1)] Q show ?thesis by auto
qed

text \<open>No completed connection waits at the listening socket sd, and a thread that adds none, whatever else it does.\<close>

definition none_completed :: "int \<Rightarrow> 'os sys \<Rightarrow> bool" where
  "none_completed sd s \<longleftrightarrow> map_option completed_queue (listen_map s sd) = Some []"

inductive completes_none :: "int \<Rightarrow> 'os steps \<Rightarrow> bool" for sd where
  ended: "completes_none sd End"
| rdlock: "completes_none sd k \<Longrightarrow> completes_none sd (Rdlock k)"
| wrlock: "completes_none sd k \<Longrightarrow> completes_none sd (Wrlock k)"
| rwunlock: "completes_none sd k \<Longrightarrow> completes_none sd (Rwunlock k)"
| mutex_lock: "completes_none sd k \<Longrightarrow> completes_none sd (Mutex_lock m test k)"
| mutex_unlock: "completes_none sd k \<Longrightarrow> completes_none sd (Mutex_unlock m k)"
| acts: "(\<And>s k s'. none_completed sd s \<Longrightarrow> f s = Done k s' \<Longrightarrow> completes_none sd k)
    \<Longrightarrow> (\<And>s k s'. none_completed sd s \<Longrightarrow> f s = Done k s' \<Longrightarrow> none_completed sd s')
    \<Longrightarrow> (\<And>s s'. none_completed sd s \<Longrightarrow> f s = Blocked s' \<Longrightarrow> none_completed sd s') \<Longrightarrow> completes_none sd (Do f)"

inductive_simps completes_none_simps: "completes_none sd (Rdlock k)" "completes_none sd (Wrlock k)" "completes_none sd (Rwunlock k)"
  "completes_none sd (Mutex_lock m test k)" "completes_none sd (Mutex_unlock m k)" "completes_none sd (Do f)"

lemma completes_none_call:
  "keeps (none_completed sd) m \<Longrightarrow> (\<And>a. completes_none sd (k a)) \<Longrightarrow> completes_none sd (call m k)"
proof (unfold call_def, rule completes_none.acts)
  assume m: "keeps (none_completed sd) m" and k: "\<And>a. completes_none sd (k a)"
  fix s :: "'a sys" and s' x assume s: "none_completed sd s"
  show "bind m (\<lambda>a. ret (k a)) s = Done x s' \<Longrightarrow> completes_none sd x"
    using k by (cases "m s") (auto simp: bind_def ret_def)
  show "bind m (\<lambda>a. ret (k a)) s = Done x s' \<Longrightarrow> none_completed sd s'"
    using m s by (cases "m s") (auto simp: bind_def ret_def dest: keeps_Done)
  show "bind m (\<lambda>a. ret (k a)) s = Blocked s' \<Longrightarrow> none_completed sd s'"
    using m s by (cases "m s") (auto simp: bind_def ret_def keeps_def dest: spec [of _ s])
qed

text \<open>The thread a waits for a completed connection with the read lock held, b waits for the write lock.\<close>

definition accept_against_close :: "int \<Rightarrow> nat \<Rightarrow> 'os steps \<Rightarrow> nat \<Rightarrow> 'os steps \<Rightarrow> 'os pool \<Rightarrow> bool" where
  "accept_against_close sd a l b l' P \<longleftrightarrow> todo P a = Mutex_lock sd (\<lambda>s. map_option completed_queue (listen_map s sd) \<noteq> Some []) l
     \<and> todo P b = Wrlock l' \<and> a \<in> readers P \<and> none_completed sd (process P) \<and> (\<forall>t. t \<noteq> a \<and> t \<noteq> b \<longrightarrow> completes_none sd (todo P t))"

lemma asleep: "pstep t P Q \<Longrightarrow> todo P t = Wrlock l \<Longrightarrow> a \<in> readers P \<Longrightarrow> False"
  "pstep t P Q \<Longrightarrow> todo P t = Mutex_lock m test l \<Longrightarrow> \<not> test (process P) \<Longrightarrow> False"
  by (erule pstep.cases; auto)+

lemma completes_none_Do:
  assumes "completes_none sd (Do f)" and "none_completed sd s"
  shows "f s = Done k s' \<Longrightarrow> completes_none sd k \<and> none_completed sd s'" and "f s = Blocked s' \<Longrightarrow> none_completed sd s'"
  using assms unfolding completes_none_simps by blast+

lemma completes_none_step:
  assumes "pstep t P Q" and inv: "completes_none sd (todo P t)" "none_completed sd (process P)"
  shows "(\<exists>x. todo Q = (todo P)(t := x) \<and> completes_none sd x) \<and> readers P - {t} \<subseteq> readers Q \<and> none_completed sd (process Q)"
  using assms(1)
proof cases
  case (acts f k s)
  from inv(1) have f: "completes_none sd (Do f)" unfolding acts(2) .
  from acts(1) completes_none_Do(1) [OF f inv(2) acts(3)] show ?thesis by auto
next
  case (waits f s)
  from inv(1) have f: "completes_none sd (Do f)" unfolding waits(2) .
  from waits(1) completes_none_Do(2) [OF f inv(2) waits(3)] inv(1) show ?thesis
    by (intro conjI exI [of _ "todo P t"]) simp_all
qed (use inv in \<open>auto simp: completes_none_simps\<close>)

lemma accept_against_close_step:
  assumes st: "pstep t P Q" and inv: "accept_against_close sd a l b l' P" and ab: "a \<noteq> b"
  shows "accept_against_close sd a l b l' Q"
proof -
  have "t \<noteq> a" "t \<noteq> b" using asleep [OF st] inv by (auto simp: accept_against_close_def none_completed_def)
  moreover have "completes_none sd (todo P t)" "none_completed sd (process P)"
    using inv calculation by (simp_all add: accept_against_close_def)
  from completes_none_step [OF st this] obtain x where
    "todo Q = (todo P)(t := x)" "completes_none sd x" "readers P - {t} \<subseteq> readers Q" "none_completed sd (process Q)" by blast
  ultimately show ?thesis using inv by (auto simp: accept_against_close_def)
qed

lemma accept_against_close_steps:
  "psteps P Q \<Longrightarrow> accept_against_close sd a l b l' P \<Longrightarrow> a \<noteq> b \<Longrightarrow> accept_against_close sd a l b l' Q"
  by (induction rule: psteps.induct) (auto intro: accept_against_close_step)

text \<open>C31: Closing a listening socket while another thread waits in myaccept hangs both. The receive thread of the socket has
  ended or ends at the first request, and no failed connect holds its connect\_lock (\<open>threads_done\<close>). There is a schedule in which
  myaccept, with no connection ready, waits with the read lock of \<open>listen_lock\<close> held, and myclose, which has by then joined the
  receive thread, waits for the write lock. From there on, whatever steps follow, neither of the two ever moves, and the
  read lock is never released, even if there are any other threads that do anything at all, as long as none of them
  adds to the completed connections of this socket. (Only a connection that was pending before the close could be added; without the
  receive thread there are no new ones.) If there are no other threads, no step is possible at all.\<close>

theorem close_while_accept_waits:
  assumes "listener sd p q s" and "ready q = []" and "hload (ctxs s) p = Some c" and "threads_done s c" and "pipe_ok E" and "a \<noteq> b"
    and "\<And>t. completes_none sd (T t)"
  shows "\<exists>Q. psteps (pool s {} None (\<lambda>_. None) (T(a := dequeue_steps p k, b := myclose_steps E sd k'))) Q
    \<and> (\<exists>m test l. todo Q a = Mutex_lock m test l) \<and> (\<exists>l. todo Q b = Wrlock l)
    \<and> (\<forall>R. psteps Q R \<longrightarrow> todo R a = todo Q a \<and> todo R b = todo Q b \<and> a \<in> readers R)
    \<and> ((\<forall>t. T t = End) \<longrightarrow> (\<forall>t R. \<not> pstep t Q R))"
proof -
  from close_begin_run [OF assms(1,3-5)] obtain s1 where
    s1: "close_begin E sd s = Done (p, True) s1" "listener sd p q s1" "listen_map s1 = listen_map s" by blast
  have empty: "none_completed sd s1"
    using s1(2) assms(2) by (auto simp: ready_def none_completed_def elim!: listenerE)
  obtain l l' where
    d: "dequeue_steps p k = call (bind (get_ctx ''connection_demux.c'' 81 p) (\<lambda>c.
           bind (assert_at ''connection_demux.c'' 81 (listening c \<and> bound c)) (\<lambda>_. ret (my_sd c)))) (\<lambda>sd.
     Rdlock (call (bind (get_connection_queue p) (the_or (Assertion ''connection_demux.c'' 86))) (\<lambda>_.
     Mutex_lock sd (\<lambda>s. map_option completed_queue (listen_map s sd) \<noteq> Some []) (l sd))))"
    and c: "close_passive_steps E p (call (mysock_free_context E p) (\<lambda>_. k')) = call (bind (get_ctx ''connection_demux.c'' 364 p) (\<lambda>c.
           assert_at ''connection_demux.c'' 364 (listening c \<and> bound c))) (\<lambda>_. Wrlock l')"
    by (simp add: dequeue_steps_def close_passive_steps_def)
  let ?T = "T(a := Mutex_lock sd (\<lambda>s. map_option completed_queue (listen_map s sd) \<noteq> Some []) (l sd), b := Wrlock l')"
  let ?Q = "pool s1 {a} None (\<lambda>_. None) ?T"
  have run: "psteps (pool s {} None (\<lambda>_. None) (T(a := dequeue_steps p k, b := myclose_steps E sd k'))) ?Q"
    apply (rule go_call [where t = a], simp add: assms(6) d, rule listener_checks(1) [OF assms(1)])
    apply (rule go_rdlock [where t = a], simp)
    apply (rule go_call [where t = a], simp, rule listener_queue_run(2) [OF assms(1)])
    apply (rule go_call [where t = b], simp add: assms(6) [symmetric] myclose_steps_def, rule s1(1))
    apply (rule go_call [where t = b], simp add: c, rule listener_checks(2) [OF s1(2)])
    apply (simp add: fun_upd_twist [OF assms(6)] psteps.refl)
    done
  have inv: "accept_against_close sd a (l sd) b l' ?Q"
    using empty assms(6,7) by (simp add: accept_against_close_def)
  have stuck: "todo R a = todo ?Q a \<and> todo R b = todo ?Q b \<and> a \<in> readers R" if "psteps ?Q R" for R
    using accept_against_close_steps [OF that inv assms(6)] assms(6) by (simp add: accept_against_close_def)
  have alone: "\<not> pstep t ?Q R" if "\<forall>t. T t = End" for t R
    using that empty assms(6) by (auto simp: none_completed_def elim!: pstep.cases split: if_splits)
  show ?thesis
    by (rule exI [of _ ?Q], intro conjI allI impI) (use run stuck alone assms(6) in \<open>simp_all\<close>)
qed

text \<open>Once alone, and once with a third thread that goes on using descriptors under the lock.\<close>

theorem close_while_accept_waits_witness:
  "(\<exists>Q. psteps (two_threads (listen_sys sample_queue) 0 (dequeue_steps 0 (\<lambda>_. End)) 1 (myclose_steps sample_env 0 End)) Q
    \<and> (\<forall>t R. \<not> pstep t Q R))
  \<and> (\<exists>Q. psteps (pool (listen_sys sample_queue) {} None (\<lambda>_. None)
        ((\<lambda>_. Rdlock (call (mysock_get_context 0) (\<lambda>_. Rwunlock End)))(0 := dequeue_steps 0 (\<lambda>_. End), 1 := myclose_steps sample_env 0 End))) Q
    \<and> (\<forall>R. psteps Q R \<longrightarrow> todo R 0 = todo Q 0 \<and> todo R 1 = todo Q 1 \<and> 0 \<in> readers R))"
proof -
  have c: "ready sample_queue = []" "hload (ctxs (listen_sys sample_queue)) 0 = Some sample_listener"
    "threads_done (listen_sys sample_queue) sample_listener" "(0 :: nat) \<noteq> 1"
    by (simp_all add: hload_def threads_done_def fresh_impl_def ready_def sample_queue_def zero_listen_queue_def)
      (simp add: sample_listener_def upd_impl_def upd_network_def)
  have other: "completes_none 0 (Rdlock (call (mysock_get_context 0) (\<lambda>_. Rwunlock End)))"
    by (intro completes_none.intros(2) completes_none_call completes_none.intros(1,4) keeps_get_context)
  from close_while_accept_waits [OF listen_sys_listener c(1-3) sample_env_pipe c(4), of "\<lambda>_. End", OF completes_none.ended]
    close_while_accept_waits [OF listen_sys_listener c(1-3) sample_env_pipe c(4) other, of "\<lambda>_. End" End] show ?thesis
    by blast
qed

text \<open>C32: Closing a listening socket during a handshake hangs. A connection of the queue has a transport thread that is about
  to call stcp\_unblock\_application. There is a schedule in which myclose of the listening socket takes the write lock of
  \<open>listen_lock\<close> and, with the lock held, waits for this thread, while the thread waits for the read lock: from
  there on, whatever steps follow, neither moves, and the transport thread never ends.\<close>

theorem close_during_handshake_hangs:
  assumes "listener sd p q s" and "wf_lq q" and "pending q = d # ds" and "hload (ctxs s) p = Some c" and "threads_done s c" and "pipe_ok E"
    and "open_socket d pd s" and "hload (ctxs s) pd = Some dc" and "blocking dc" and "\<not> is_active dc" and "\<not> listening dc"
    and "listen_sd dc \<noteq> -1" and "transport_thread_started dc" and "\<not> thread_exited (threads s) (transport_thread dc)" and "a \<noteq> b"
  shows "\<exists>Q. psteps (two_threads s a (myclose_steps E sd k) b (unblock_steps err d k')) Q
    \<and> (\<forall>R. psteps Q R \<longrightarrow> writer R = Some a \<and> (\<exists>f. todo R a = Do f) \<and> todo R a = todo Q a \<and> (\<exists>l. todo R b = Rdlock l)
        \<and> \<not> thread_exited (threads (process R)) (transport_thread dc))"
proof -
  let ?d1 = "dc\<lparr>blocking := False, stcp_errno := (if err = EINTR then 0 else err)\<rparr>"
  let ?s1 = "s\<lparr>ctxs := hstore (ctxs s) pd ?d1\<rparr>"
  have lc: "listening c" "pd \<noteq> p" "wf_ctx pd ?d1" using assms(1,4,7,8,11) by (auto simp: wf_ctx_def elim!: listenerE open_socketE)
  have un: "unblock_begin err d s = Done (pd, False) ?s1"
    using assms(8-10) open_socket_context(2) [OF assms(7)] by (simp add: unblock_begin_def run_simps)
  have l1: "listener sd p q ?s1" and o1: "open_socket d pd ?s1"
    using listener_store [OF assms(1,8) _ lc(3)] open_socket_store [OF assms(7,8) _ lc(3)] lc(2) by simp_all
  have h1: "hload (ctxs ?s1) pd = Some ?d1" "hload (ctxs ?s1) p = Some c" "threads_done ?s1 c"
    using hload_bound [OF assms(8)] assms(4,5) lc(2) by (simp_all add: heap_simps threads_done_def split: option.splits)
  from close_begin_run [OF l1 h1(2,3) assms(6)] obtain s2 where
    s2: "close_begin E sd ?s1 = Done (p, True) s2" "listener sd p q s2" "threads s2 = threads s"
    "hload (ctxs s2) pd = Some ?d1" "open_socket d pd s2" using lc(2) h1(1) o1 by auto
  let ?s3 = "s2\<lparr>ctxs := hstore (ctxs s2) pd (?d1\<lparr>close_requested := True\<rparr>)\<rparr>"
  have "\<not> listening ?d1" "transport_thread_started ?d1" "is_active ?d1 \<or> listen_sd ?d1 \<noteq> -1" "\<not> thread_exited (threads s2) (transport_thread ?d1)"
    using assms(11-14) s2(3) by simp_all
  note w = close_passive_waits [OF s2(2) assms(2,3) s2(5,4) this, of E]
  let ?m = "mysock_close_passive_socket (myclose_fuel 1 E) p"
  let ?x = "call ?m (\<lambda>_. Rwunlock (call (mysock_free_context E p) (\<lambda>_. k)))"
  obtain l where l: "complete_steps pd k' = Rdlock l" by (simp add: complete_steps_def)
  let ?T = "(\<lambda>_. End)(a := ?x, b := Rdlock l)"
  let ?Q = "pool s2 {} (Some a) (\<lambda>_. None) ?T"
  have sched: "psteps (two_threads s a (myclose_steps E sd k) b (unblock_steps err d k')) ?Q"
    apply (rule go_call [where t = b], simp add: unblock_steps_def, rule un)
    apply (rule go_call [where t = a], simp add: assms(15) myclose_steps_def, rule s2(1))
    apply (rule go_call [where t = a], simp add: close_passive_steps_def, rule listener_checks(2) [OF s2(2)])
    apply (rule go_wrlock [where t = a], simp)
    apply (simp add: l fun_upd_twist [OF assms(15)] psteps.refl)
    done
  have stuck: "\<exists>t. R = pool t {} (Some a) (\<lambda>_. None) ?T \<and> ?m t = Blocked ?s3 \<and> threads t = threads s" if "psteps ?Q R" for R
    using that
  proof (induction ?Q R rule: psteps.induct)
    case refl
    then show ?case using w(1) s2(3) by blast
  next
    case (step R t R')
    then obtain u where u: "R = pool u {} (Some a) (\<lambda>_. None) ?T" "?m u = Blocked ?s3" by blast
    have "bind ?m (\<lambda>x. ret (Rwunlock (call (mysock_free_context E p) (\<lambda>_. k)))) u = Blocked ?s3" using u(2) by (simp add: run_simps)
    with step(3) u(1) have "R' = pool ?s3 {} (Some a) (\<lambda>_. None) ?T"
      by (auto simp: call_def assms(15) elim!: pstep.cases split: if_splits)
    then show ?case using w(2) s2(3) by simp
  qed
  have "writer R = Some a \<and> (\<exists>f. todo R a = Do f) \<and> todo R a = todo ?Q a \<and> (\<exists>l. todo R b = Rdlock l)
      \<and> \<not> thread_exited (threads (process R)) (transport_thread dc)" if "psteps ?Q R" for R
  proof -
    from stuck [OF that] obtain t where "R = pool t {} (Some a) (\<lambda>_. None) ?T" "threads t = threads s" by blast
    then show ?thesis using assms(14,15) by (simp add: call_def)
  qed
  then show ?thesis by (intro exI [of _ ?Q] conjI [OF sched] allI impI)
qed

text \<open>The sample connection in its handshake, with its transport thread.\<close>

abbreviation busy_child :: mysock_context where
  "busy_child \<equiv> sample_child\<lparr>transport_thread_started := True\<rparr>"

abbreviation busy_sys :: "nat sys" where
  "busy_sys \<equiv> handshake_sys\<lparr>ctxs := [Some sample_listener, Some busy_child],
     threads := [\<lparr>entry = Transport_thread_func, arg = 1, exited = False\<rparr>]\<rparr>"

lemma busy_sys_ok: "listener 0 0 pending_queue busy_sys" "open_socket 1 1 busy_sys" "wf_lq pending_queue" "child 0 sample_peer 16 [] sample_child"
  "in_handshake sample_child"
proof -
  have l: "listener 0 0 pending_queue handshake_sys" "wf_lq pending_queue" "connection 0 in_handshake handshake_sys 1"
    using handshake_ok by (simp_all add: accept_ok_def)
  then obtain pd where "open_socket 1 pd handshake_sys" by (auto simp: connection_def)
  then have "wf_sys handshake_sys" unfolding open_socket_def by blast
  then have o: "open_socket 1 1 handshake_sys" by (simp add: open_socket_def)
  have h: "hload (ctxs handshake_sys) 1 = Some sample_child" by (simp add: hload_def)
  have wf: "wf_ctx 1 busy_child" using child_context_fresh(2) [of 1 0 sample_peer 16 6 7 8 True 1] by (simp add: wf_ctx_def)
  have fs: "my_sd busy_child = my_sd sample_child" "listening busy_child = listening sample_child" "bound busy_child = bound sample_child"
    by simp_all
  have "listener 0 0 pending_queue (handshake_sys\<lparr>ctxs := hstore (ctxs handshake_sys) 1 busy_child\<rparr>)"
    by (rule listener_store [OF l(1) h _ wf]) (simp_all add: fs)
  moreover have "open_socket 1 1 (handshake_sys\<lparr>ctxs := hstore (ctxs handshake_sys) 1 busy_child\<rparr>)"
    by (rule open_socket_store [OF o h _ wf]) (simp add: fs)
  ultimately show "listener 0 0 pending_queue busy_sys" "open_socket 1 1 busy_sys"
    by (simp_all add: hstore_def listener_def open_socket_def wf_sys_def listen_map_def hload_def)
  show "child 0 sample_peer 16 [] sample_child" by (rule child_context_fresh(4))
  then show "in_handshake sample_child" by (simp add: child_def in_handshake_def)
  show "wf_lq pending_queue" by (rule l(2))
qed

theorem close_during_handshake_hangs_witness:
  "\<exists>Q. psteps (two_threads busy_sys 0 (myclose_steps sample_env 0 End) 1 (unblock_steps 0 1 End)) Q
    \<and> (\<forall>R. psteps Q R \<longrightarrow> writer R = Some 0 \<and> \<not> thread_exited (threads (process R)) 0)"
proof -
  have c: "hload (ctxs busy_sys) 0 = Some sample_listener" "threads_done busy_sys sample_listener"
    by (simp_all add: hload_def threads_done_def fresh_impl_def)
      (simp add: sample_listener_def upd_impl_def upd_network_def)
  have d: "pending pending_queue = [1]" "hload (ctxs busy_sys) 1 = Some busy_child" "blocking busy_child" "\<not> is_active busy_child"
    "\<not> listening busy_child" "listen_sd busy_child \<noteq> -1" "transport_thread_started busy_child" "transport_thread busy_child = 0"
    by (use busy_sys_ok(4) in \<open>simp_all add: hload_def child_def pending_def\<close>)
      (simp add: child_context_def upd_network_def fresh_context_def zero_context_def)
  then have e: "\<not> thread_exited (threads busy_sys) (transport_thread busy_child)" "(0 :: nat) \<noteq> 1"
    by (simp_all add: thread_exited_def)
  from close_during_handshake_hangs [OF busy_sys_ok(1,3) d(1) c sample_env_pipe busy_sys_ok(2) d(2-7) e, of End 0 End] d(8)
  show ?thesis by (simp del: listen_sys_simps) blast
qed

text \<open>The steps of an accept that overlaps with a SYN.\<close>

lemma find_slot_run:
  assumes l: "listener sd p q s" and len: "length (connection_queue q) = lq_max_len q" and pk: "is_syn packet"
    and pe: "sa_family peer = 2" "same_family peer_len q" "\<not> known_peer (host_order E) peer peer_len q"
    and k: "lq_cur_len q < lq_max_len q" "find_pos (\<lambda>r. req_sd r < 0) (take (lq_max_len q) (connection_queue q)) = Some k"
  shows "find_slot E p packet (length packet) peer peer_len s = Done (Some k) s"
proof -
  have "retransmission (host_order E) peer peer_len (take (lq_max_len q) (connection_queue q)) s = Done False s"
    using retransmission_run [of "connection_queue q" peer_len "host_order E" peer s] pe(2,3) len
    by (simp add: same_family_def known_peer_def)
  then show ?thesis using len pk pe(1) k get_connection_queue_run [OF l]
    by (simp add: find_slot_def is_syn_def run_simps)
qed

lemma take_completed_run:
  assumes l: "listener sd p q s" and wf: "wf_lq q" and cq: "completed_queue q = (b, k) # rest"
    and d: "req_sd (connection_queue q ! k) = d" "open_socket d pd s"
  shows "\<exists>s'. take_completed p sd s = Done pd s'
    \<and> listener sd p (q\<lparr>completed_queue := rest, connection_queue := (connection_queue q)[k := invalid_request]\<rparr>) s'
    \<and> ctxs s' = ctxs s \<and> global_ctx s' = global_ctx s \<and> os s' = os s \<and> (\<forall>e pe. open_socket e pe s \<longrightarrow> open_socket e pe s')"
proof -
  note acc = wf_lq_accept [OF wf cq]
  from listener_put [OF l, of "q\<lparr>completed_queue := rest, connection_queue := (connection_queue q)[k := invalid_request]\<rparr>"] obtain s' where
    s': "put_queue sd (q\<lparr>completed_queue := rest, connection_queue := (connection_queue q)[k := invalid_request]\<rparr>) s = Done () s'"
    "listener sd p (q\<lparr>completed_queue := rest, connection_queue := (connection_queue q)[k := invalid_request]\<rparr>) s'"
    "ctxs s' = ctxs s" "global_ctx s' = global_ctx s" "os s' = os s" "\<forall>e pe. open_socket e pe s \<longrightarrow> open_socket e pe s'" by blast
  have "take_completed p sd s = Done pd s'"
    using listener_queue_run(1) [OF l] cq acc(1,2) d open_socket_context(1) [OF d(2)] s'(1) by (simp add: take_completed_def run_simps)
  with s' show ?thesis by blast
qed

text \<open>A connection that completes although cur\_len says that the queue is empty.\<close>

lemma accept_uncounted:
  assumes l: "listener sd p q s" and cq: "completed_queue q = []" "lq_cur_len q = 0" "length (connection_queue q) = lq_max_len q"
    and d: "d \<noteq> -1" "d \<in> set (pending q)" and o: "open_socket d pd s" "hload (ctxs s) pd = Some c" "listen_sd c = sd"
  shows "\<exists>s'. mysock_passive_connection_complete pd s = Done () s'
    \<and> mysock_dequeue_connection p s' = Abort (Assertion ''connection_demux.c'' 113)"
proof -
  have "find_pos (\<lambda>r. req_sd r = d) (connection_queue q) \<noteq> None" using d unfolding find_pos_None pending_def by auto
  then obtain k where k: "find_pos (\<lambda>r. req_sd r = d) (connection_queue q) = Some k" by blast
  let ?q = "q\<lparr>completed_queue := [(queue_block q, k)]\<rparr>"
  from listener_put [OF l, of ?q] obtain s' where
    s': "put_queue sd ?q s = Done () s'" "listener sd p ?q s'" "ctxs s' = ctxs s" "\<forall>e pe. open_socket e pe s \<longrightarrow> open_socket e pe s'" by blast
  from l obtain lc where lc: "hload (ctxs s) p = Some lc" "open_socket sd p s" "0 \<le> sd" "listening lc" "bound lc" by (auto elim: listenerE)
  have "mysock_passive_connection_complete pd s = Done () s'"
    using o lc cq(1,3) k s'(1) get_connection_queue_run [OF l] open_socket_context(1) [OF lc(2)]
    by (auto simp: mysock_passive_connection_complete_def run_simps elim!: open_socketE)
  moreover have "mysock_dequeue_connection p s' = Abort (Assertion ''connection_demux.c'' 113)"
    using lc s'(3,4) o(1) cq(2) find_pos_Some [OF k] get_connection_queue_run [OF s'(2)] open_socket_context(1) [of d pd s']
    by (simp add: mysock_dequeue_connection_def run_simps)
  ultimately show ?thesis by blast
qed

text \<open>The schedule: the store of the receive thread falls between the load and the store of the accepting thread.\<close>

lemma overlap_schedule:
  assumes ab: "a \<noteq> b" and l: "listener sd p q s" "0 < peer_len" and cq: "completed_queue q \<noteq> []"
    and s1: "take_completed p sd s = Done pd s1" "listener sd p q1 s1" "lq_cur_len q1 = Suc n"
    and slot: "find_slot E p packet len peer peer_len s1 = Done (Some j) s1"
    and s2: "put_queue sd (q1\<lparr>lq_cur_len := Suc (Suc n)\<rparr>) s1 = Done () s2" "listener sd p (q1\<lparr>lq_cur_len := Suc (Suc n)\<rparr>) s2"
    and s3: "put_queue sd (q1\<lparr>lq_cur_len := n\<rparr>) s2 = Done () s3" "listener sd p (q1\<lparr>lq_cur_len := n\<rparr>) s3"
    and s4: "establish_connection E p packet len peer peer_len user_data (q1\<lparr>lq_cur_len := n\<rparr>) j s3 = Done ok s4"
  shows "psteps (two_threads s a (dequeue_steps p k) b (enqueue_steps E p packet len peer peer_len user_data k'))
      (two_threads s4 a (k pd) b (k' ok))"
  apply (rule go_call [where t = a], simp add: ab dequeue_steps_def, rule listener_checks(1) [OF l(1)])
  apply (rule go_rdlock [where t = a], simp)
  apply (rule go_call [where t = a], simp, rule listener_queue_run(2) [OF l(1)])
  apply (rule go_mutex_lock [where t = a], simp, simp, use l(1) cq in \<open>force elim: listenerE\<close>)
  apply (rule go_call [where t = a], simp, rule s1(1))
  apply (rule go_call [where t = a and a = "Suc n"], simp, use listener_queue_run(1) [OF s1(2)] s1(3) in \<open>simp add: run_simps\<close>)
  apply (rule go_call [where t = b and a = sd], simp add: ab [symmetric] enqueue_steps_def, use s1(2) l(2) in \<open>force simp: run_simps elim: listenerE\<close>)
  apply (rule go_rdlock [where t = b], simp)
  apply (rule go_call [where t = b], simp, rule slot)
  apply (rule go_call [where t = b and a = "Suc n"], simp, use listener_queue_run(1) [OF s1(2)] s1(3) in \<open>simp add: run_simps\<close>)
  apply (rule go_call [where t = b], simp, use edit_queue_run [OF s1(2)] s2(1) in simp)
  apply (rule go_call [where t = a], simp add: ab, use edit_queue_run [OF s2(2)] s3(1) in simp)
  apply (rule go_mutex_unlock [where t = a], simp)
  apply (rule go_rdunlock [where t = a], simp)
  apply (rule go_call [where t = b], simp add: ab [symmetric], use listener_queue_run(1) [OF s3(2)] s4 in \<open>simp add: run_simps\<close>)
  apply (rule go_rdunlock [where t = b], simp)
  apply (simp add: fun_upd_twist [OF ab] fun_upd_idem insert_Diff_if ab psteps.refl)
  done

text \<open>C33: cur\_len loses an update. A thread accepts the only connection of a queue while the receive thread handles a SYN of
  another peer. Both hold \<open>listen_lock\<close> for reading, and only the first holds connection\_lock. There is a schedule
  in which both calls succeed and every lock is free again, with one connection in the queue and cur\_len 0; when
  this connection has completed its handshake, the next myaccept ends the process at the assertion on cur\_len.\<close>

theorem cur_len_lost_update:
  assumes "listener sd p q s" and "wf_lq q" and "pending q = [d]" and "ready q = [d]" and "1 < lq_max_len q" and "open_socket d pd s"
    and "hload (ctxs s) p = Some c" and "impl c = Some i"
    and "is_syn packet" and "sa_family peer = 2" and "0 < peer_len" and "same_family peer_len q"
    and "\<not> known_peer (host_order E) peer peer_len q" and "free_slot (global_ctx s) 0 = Some j"
    and "os_grants E (os s) fd r u w1" and "os_ignore_sigpipe E (os_close E fd w1) = (True, w2)" and "a \<noteq> b"
  shows "\<exists>s' q'. psteps (two_threads s a (dequeue_steps p k) b (enqueue_steps E p packet (length packet) peer peer_len None k'))
      (two_threads s' a (k pd) b (k' True))
    \<and> listener sd p q' s' \<and> pending q' = [int j] \<and> lq_cur_len q' = 0
    \<and> (\<exists>s''. mysock_passive_connection_complete (length (ctxs s)) s' = Done () s''
        \<and> mysock_dequeue_connection p s'' = Abort (Assertion ''connection_demux.c'' 113))"
proof -
  from assms(4) obtain bk k0 where cq: "completed_queue q = [(bk, k0)]" and k0: "req_sd (connection_queue q ! k0) = d"
    by (auto simp: ready_def map_eq_Cons_conv split: prod.splits)
  note acc = wf_lq_accept [OF assms(2) cq]
  let ?xs = "(connection_queue q)[k0 := invalid_request]"
  let ?q1 = "q\<lparr>completed_queue := [], connection_queue := ?xs\<rparr>" let ?q3 = "?q1\<lparr>lq_cur_len := 0\<rparr>"
  have one: "lq_cur_len q = 1" using wf_lq_cur_len [OF assms(2)] assms(3) by simp
  have wf3: "wf_lq ?q3" "pending ?q3 = []" using acc(5,7) one assms(3) k0 by simp_all
  then have len: "length ?xs = lq_max_len q" by (simp add: wf_lq_def)
  from free_request [OF wf3(1)] assms(5) obtain j0 where
    j0: "find_pos (\<lambda>r. req_sd r < 0) (take (lq_max_len q) ?xs) = Some j0" "j0 < length ?xs" "req_sd (?xs ! j0) = -1" by auto
  from take_completed_run [OF assms(1,2) cq k0 assms(6)] obtain s1 where
    s1: "take_completed p sd s = Done pd s1" "listener sd p ?q1 s1" "ctxs s1 = ctxs s" "global_ctx s1 = global_ctx s" "os s1 = os s" by blast
  have "lq_cur_len q < lq_max_len q" using one assms(5) by simp
  from free_request [OF assms(2) this] obtain m where "m < length (connection_queue q)" "req_sd (connection_queue q ! m) = -1" by blast
  with assms(2) have "invalid_request \<in> set (connection_queue q)" by (fastforce simp: wf_lq_def dest: nth_mem)
  then have "set ?xs \<subseteq> set (connection_queue q)" using set_update_subset_insert [of "connection_queue q" k0 invalid_request] by blast
  then have peer: "same_family peer_len ?q1" "\<not> known_peer (host_order E) peer peer_len ?q1"
    using assms(12,13) by (auto simp: same_family_def known_peer_def)
  from listener_put [OF s1(2), of "?q1\<lparr>lq_cur_len := Suc (Suc 0)\<rparr>"] obtain s2 where
    s2: "put_queue sd (?q1\<lparr>lq_cur_len := Suc (Suc 0)\<rparr>) s1 = Done () s2" "listener sd p (?q1\<lparr>lq_cur_len := Suc (Suc 0)\<rparr>) s2"
    "ctxs s2 = ctxs s" "global_ctx s2 = global_ctx s" "os s2 = os s" using s1(3-5) by auto
  from listener_put [OF s2(2), of ?q3] obtain s3 where
    s3: "put_queue sd ?q3 s2 = Done () s3" "listener sd p ?q3 s3"
    "ctxs s3 = ctxs s" "global_ctx s3 = global_ctx s" "os s3 = os s" using s2(3-5) by auto
  have same: "hload (ctxs s3) p = Some c" "req_sd (connection_queue ?q3 ! j0) = -1" "free_slot (global_ctx s3) 0 = Some j"
    "os_grants E (os s3) fd r u w1" using assms(7,14,15) j0(3) s3(3-5) by simp_all
  from establish_connection_run [OF s3(2) same(1) assms(8) same(2-4) assms(16,10), where peer_len = peer_len and packet = packet] obtain s4 dc where
    s4: "establish_connection E p packet (length packet) peer peer_len None ?q3 j0 s3 = Done True s4"
    "listener sd p (?q3\<lparr>connection_queue := ?xs[j0 := new_request peer peer_len (int j)]\<rparr>) s4"
    "open_socket (int j) (length (ctxs s)) s4" "hload (ctxs s4) (length (ctxs s)) = Some dc" "established sd peer peer_len packet (new_socket i) dc"
    using s3(3) by auto
  let ?q4 = "?q3\<lparr>connection_queue := ?xs[j0 := new_request peer peer_len (int j)]\<rparr>"
  have j: "pending ?q4 = [int j]"
  proof -
    let ?q = "?q3\<lparr>lq_cur_len := Suc 0, connection_queue := ?xs[j0 := new_request peer peer_len (int j)]\<rparr>"
    have "wf_lq ?q" "set (pending ?q) = {int j}"
      using wf_lq_enqueue [OF wf3(1), of j0 "new_request peer peer_len (int j)"] j0(2,3) wf3(2) by simp_all
    moreover have "length (pending ?q) = Suc 0" using wf_lq_cur_len [OF \<open>wf_lq ?q\<close>] by simp
    then obtain x where "pending ?q = [x]" by (auto simp: length_Suc_conv)
    ultimately have "pending ?q = [int j]" by simp
    then show ?thesis by (simp add: pending_def)
  qed
  have "find_slot E p packet (length packet) peer peer_len s1 = Done (Some j0) s1"
    by (rule find_slot_run [OF s1(2) _ assms(9,10) peer]) (use len one assms(5) j0(1) in simp_all)
  then have "psteps (two_threads s a (dequeue_steps p k) b (enqueue_steps E p packet (length packet) peer peer_len None k'))
      (two_threads s4 a (k pd) b (k' True))"
    by (intro overlap_schedule [OF assms(17,1,11)])
      (use cq s1(1,2) s2(1,2) s3(1,2) s4(1) one in simp_all)
  moreover have "\<exists>s''. mysock_passive_connection_complete (length (ctxs s)) s4 = Done () s''
        \<and> mysock_dequeue_connection p s'' = Abort (Assertion ''connection_demux.c'' 113)"
    by (rule accept_uncounted [OF s4(2) _ _ _ _ _ s4(3,4)])
      (use j len s4(5) in \<open>simp_all add: established_def child_def\<close>)
  moreover have "lq_cur_len ?q4 = 0" by simp
  ultimately show ?thesis using s4(2) j by blast
qed

abbreviation other_peer :: sockaddr where
  "other_peer \<equiv> sample_peer\<lparr>sin_port := 99\<rparr>"

theorem cur_len_lost_update_witness:
  "\<exists>s' q'. psteps (two_threads failed_sys 0 (dequeue_steps 0 (\<lambda>_. End)) 1 (enqueue_steps sample_env 0 sample_syn 20 other_peer 16 None (\<lambda>_. End)))
      (two_threads s' 0 End 1 End) \<and> listener 0 0 q' s' \<and> pending q' = [2] \<and> lq_cur_len q' = 0"
proof -
  have q: "wf_lq failed_queue" "pending failed_queue = [1]" "ready failed_queue = [1]" "1 < lq_max_len failed_queue"
    by (simp_all add: wf_lq_def sample_queue_def zero_listen_queue_def ready_def pending_def)
  have c: "hload (ctxs failed_sys) 0 = Some sample_listener" by (simp add: hload_def)
  have sk: "is_syn sample_syn" "sa_family other_peer = 2" "0 < (16 :: nat)" "same_family 16 failed_queue"
    "\<not> known_peer (host_order sample_env) other_peer 16 failed_queue"
    by (simp_all add: is_syn_def nth_append same_family_def known_peer_def sample_queue_def zero_listen_queue_def invalid_request_def zero_request_def
        zero_sockaddr_def sockaddr_bytes_def sample_env_def)
  have "replicate 62 (None :: ptr option) = None # replicate 61 None" by (simp flip: replicate_Suc)
  then have slot: "free_slot (global_ctx failed_sys) 0 = Some 2" by simp
  have g: "os_grants sample_env (os failed_sys) 9 10 11 12" using sample_env_grants [of 9] by simp
  have sp: "os_ignore_sigpipe sample_env (os_close sample_env 9 12) = (True, 12)" "(0 :: nat) \<noteq> 1" by (simp_all add: sample_env_def)
  have "length sample_syn = 20" by simp
  then show ?thesis using cur_len_lost_update [OF failed_sys_ok(1) q failed_sys_ok(2) c sample_listener_fields(1) sk slot g sp, of "\<lambda>_. End" "\<lambda>_. End"]
    by (simp del: listen_sys_simps) blast
qed

end
