(* ===== verification/Context_Threads.thy ===== *)
theory Context_Threads
  imports Mysock_Api
begin

text \<open>
  The threads that share one context, step by step: the application, the transport thread and the receive thread
  meet in the queues, in the request to close and in the flag that holds the application back. Elsewhere a call that
  takes \<open>data_ready_lock\<close> or \<open>blocking_lock\<close> is one step; here it is the sequence of what it does with the
  mutex and its condition variable and of what it does in between, and the calls of all threads interleave.
\<close>

section \<open>Threads and their steps\<close>

datatype monitor = Blocking | Data_ready  \<comment> \<open>blocking\_lock with blocking\_cond, data\_ready\_lock with data\_ready\_cond\<close>

text \<open>
  What a thread has still to do, and what it returns in the end. \<open>Await m f late\<close> is a loop around
  pthread\_cond\_wait: with the mutex held, the body \<open>f\<close> either leaves the loop or finds that it has to wait. If the wait has a
  time limit, \<open>late\<close> is what follows when the time is over, again with the mutex held.
\<close>

datatype 'a code =
    Stop 'a
  | Enter monitor "'a code"
  | Leave monitor "'a code"
  | Await monitor "mysock_context \<Rightarrow> (mysock_context, 'a code option) outcome" "'a code option"
  | Broadcast monitor "'a code"
  | Signal monitor "'a code"
  | Act "mysock_context \<Rightarrow> (mysock_context, 'a code) outcome"

definition act :: "(mysock_context, 'b) prog \<Rightarrow> ('b \<Rightarrow> 'a code) \<Rightarrow> 'a code" where
  "act m k = Act (bind m (\<lambda>a. ret (k a)))"

text \<open>
  A thread in a loop around a wait is awake, has seen that it must wait and is about to call pthread\_cond\_wait, or sleeps there.
\<close>

datatype phase = Awake | Deciding | Asleep

record 'a crew =
  shared :: mysock_context
  owner :: "monitor \<Rightarrow> nat option"
  phase_of :: "nat \<Rightarrow> phase"
  task :: "nat \<Rightarrow> 'a code"

abbreviation goes :: "nat \<Rightarrow> 'a code \<Rightarrow> 'a crew \<Rightarrow> 'a crew" where
  "goes t k P \<equiv> P\<lparr>task := (task P)(t := k)\<rparr>"

definition sleeps_on :: "monitor \<Rightarrow> 'a crew \<Rightarrow> nat \<Rightarrow> bool" where
  "sleeps_on m P t \<longleftrightarrow> phase_of P t = Asleep \<and> (\<exists>f late. task P t = Await m f late)"

text \<open>
  One step of the thread t. The test of a loop and the call of pthread\_cond\_wait are two steps; the release of the mutex
  and the beginning of the sleep are one, as POSIX demands. A sleeper may wake without a reason.
\<close>

inductive cstep :: "nat \<Rightarrow> 'a crew \<Rightarrow> 'a crew \<Rightarrow> bool" for t where
  enter: "task P t = Enter m k \<Longrightarrow> owner P m = None \<Longrightarrow> cstep t P (goes t k (P\<lparr>owner := (owner P)(m := Some t)\<rparr>))"
| leave: "task P t = Leave m k \<Longrightarrow> cstep t P (goes t k (P\<lparr>owner := (owner P)(m := None)\<rparr>))"
| finds: "task P t = Await m f late \<Longrightarrow> phase_of P t = Awake \<Longrightarrow> owner P m = Some t \<Longrightarrow> f (shared P) = Done (Some k) c
    \<Longrightarrow> cstep t P (goes t k (P\<lparr>shared := c\<rparr>))"
| decides: "task P t = Await m f late \<Longrightarrow> phase_of P t = Awake \<Longrightarrow> owner P m = Some t \<Longrightarrow> f (shared P) = Done None c
    \<Longrightarrow> cstep t P (P\<lparr>shared := c, phase_of := (phase_of P)(t := Deciding)\<rparr>)"
| sleeps: "task P t = Await m f late \<Longrightarrow> phase_of P t = Deciding
    \<Longrightarrow> cstep t P (P\<lparr>phase_of := (phase_of P)(t := Asleep), owner := (owner P)(m := None)\<rparr>)"
| wakes: "phase_of P t = Asleep \<Longrightarrow> cstep t P (P\<lparr>phase_of := (phase_of P)(t := Awake)\<rparr>)"
| times_out: "task P t = Await m f (Some k) \<Longrightarrow> phase_of P t = Asleep
    \<Longrightarrow> cstep t P (goes t (Enter m k) (P\<lparr>phase_of := (phase_of P)(t := Awake)\<rparr>))"
| locks_again: "task P t = Await m f late \<Longrightarrow> phase_of P t = Awake \<Longrightarrow> owner P m = None
    \<Longrightarrow> cstep t P (P\<lparr>owner := (owner P)(m := Some t)\<rparr>)"
| broadcast: "task P t = Broadcast m k
    \<Longrightarrow> cstep t P (goes t k (P\<lparr>phase_of := (\<lambda>u. if sleeps_on m P u then Awake else phase_of P u)\<rparr>))"
| signal: "task P t = Signal m k \<Longrightarrow> sleeps_on m P u \<Longrightarrow> cstep t P (goes t k (P\<lparr>phase_of := (phase_of P)(u := Awake)\<rparr>))"
| signal_none: "task P t = Signal m k \<Longrightarrow> \<forall>u. \<not> sleeps_on m P u \<Longrightarrow> cstep t P (goes t k P)"
| acts: "task P t = Act f \<Longrightarrow> f (shared P) = Done k c \<Longrightarrow> cstep t P (goes t k (P\<lparr>shared := c\<rparr>))"

inductive csteps :: "'a crew \<Rightarrow> 'a crew \<Rightarrow> bool" where
  refl: "csteps P P"
| step: "csteps P Q \<Longrightarrow> cstep t Q R \<Longrightarrow> csteps P R"

text \<open>The process ends in a step of the thread t.\<close>

definition faults :: "nat \<Rightarrow> 'a crew \<Rightarrow> fault \<Rightarrow> bool" where
  "faults t P e \<longleftrightarrow> (\<exists>f. task P t = Act f \<and> f (shared P) = Abort e)
     \<or> (\<exists>m f late. task P t = Await m f late \<and> phase_of P t = Awake \<and> owner P m = Some t \<and> f (shared P) = Abort e)"

section \<open>The queues (mysock.c)\<close>

text \<open>The queue that the argument pq of the source points to.\<close>

datatype queue_id = Network_recv_queue | App_recv_queue | App_send_queue

fun queue :: "queue_id \<Rightarrow> mysock_context \<Rightarrow> packet_queue" where
  "queue Network_recv_queue = network_recv_queue"
| "queue App_recv_queue = app_recv_queue"
| "queue App_send_queue = app_send_queue"

fun set_queue :: "queue_id \<Rightarrow> packet_queue \<Rightarrow> mysock_context \<Rightarrow> mysock_context" where
  "set_queue Network_recv_queue q c = c\<lparr>network_recv_queue := q\<rparr>"
| "set_queue App_recv_queue q c = c\<lparr>app_recv_queue := q\<rparr>"
| "set_queue App_send_queue q c = c\<lparr>app_send_queue := q\<rparr>"

definition on_queue :: "queue_id \<Rightarrow> (packet_queue, 'b) prog \<Rightarrow> (mysock_context, 'b) prog" where
  "on_queue pq = zoom (queue pq) (set_queue pq)"

text \<open>The node is made before the lock is taken, where no other thread can see it; here it is made with the lock held.\<close>

definition enqueue_buffer_steps :: "queue_id \<Rightarrow> byte list option \<Rightarrow> nat \<Rightarrow> 'a code \<Rightarrow> 'a code" where
  "enqueue_buffer_steps pq packet packet_len k =
     Enter Data_ready (
     act (on_queue pq (mysock_enqueue_buffer packet packet_len)) (\<lambda>_.
     Leave Data_ready (
     Broadcast Data_ready k)))"

text \<open>With the lock held: the first node, unlinked unless it is only read in part; the result tells which.\<close>

definition take_head :: "nat \<Rightarrow> bool \<Rightarrow> (packet_queue, (ptr \<times> bool) option) prog" where
  "take_head max_len remove_partial =
     bind (gets head) (\<lambda>hd.
     case hd of None \<Rightarrow> ret None
     | Some p \<Rightarrow>
       bind (load_node 197 p) (\<lambda>node.
       if data_len node > max_len \<and> remove_partial then ret (Some (p, True))
       else bind (modify (\<lambda>q. q\<lparr>head := nxt node\<rparr>)) (\<lambda>_.
            bind (if nxt node = None
                  then bind (gets tail) (\<lambda>tl.
                       bind (assert_at ''mysock.c'' 216 (tl = Some p)) (\<lambda>_.
                       modify (\<lambda>q. q\<lparr>tail := None\<rparr>)))
                  else ret ()) (\<lambda>_.
            ret (Some (p, False))))))"

text \<open>
  Without the lock: the two copies and the subtraction of the one branch (in size\_t, so a count below zero wraps around and reaches
  past every block), the copy and the release of the other.
\<close>

definition copy_part :: "ptr \<Rightarrow> nat \<Rightarrow> (packet_queue, byte list) prog" where
  "copy_part p n = bind (load_node 206 p) (\<lambda>node.
     if length (data node) < n then abort (Out_of_bounds ''mysock.c'' 206) else ret (take n (data node)))"

definition shift_rest :: "ptr \<Rightarrow> nat \<Rightarrow> (packet_queue, unit) prog" where
  "shift_rest p n = bind (load_node 207 p) (\<lambda>node.
     if data_len node < n \<or> length (data node) < data_len node then abort (Out_of_bounds ''mysock.c'' 207)
     else store_node p (node\<lparr>data := copy_up (data node) 0 n (data_len node - n)\<rparr>))"

definition shrink :: "ptr \<Rightarrow> nat \<Rightarrow> (packet_queue, unit) prog" where
  "shrink p n = bind (load_node 208 p) (\<lambda>node.
     store_node p (node\<lparr>data_len := (if n \<le> data_len node then data_len node - n else 2 ^ 64 + data_len node - n)\<rparr>))"

definition copy_whole :: "ptr \<Rightarrow> nat \<Rightarrow> (packet_queue, nat \<times> byte list) prog" where
  "copy_whole p n = bind (load_node 221 p) (\<lambda>node.
     if length (data node) < min n (data_len node) then abort (Out_of_bounds ''mysock.c'' 221)
     else ret (data_len node, take (min n (data_len node)) (data node)))"

definition release :: "ptr \<Rightarrow> (packet_queue, unit) prog" where
  "release p = bind (load_node 224 p) (\<lambda>_. modify (\<lambda>q. q\<lparr>nodes := hfree (nodes q) p\<rparr>))"

definition part_steps :: "queue_id \<Rightarrow> ptr \<Rightarrow> nat \<Rightarrow> (nat \<times> byte list \<Rightarrow> 'a code) \<Rightarrow> 'a code" where
  "part_steps pq p n k =
     act (on_queue pq (copy_part p n)) (\<lambda>bs.
     act (on_queue pq (shift_rest p n)) (\<lambda>_.
     act (on_queue pq (shrink p n)) (\<lambda>_.
     k (n, bs))))"

definition whole_steps :: "queue_id \<Rightarrow> ptr \<Rightarrow> nat \<Rightarrow> (nat \<times> byte list \<Rightarrow> 'a code) \<Rightarrow> 'a code" where
  "whole_steps pq p n k =
     act (on_queue pq (copy_whole p n)) (\<lambda>r.
     act (on_queue pq (release p)) (\<lambda>_.
     k r))"

definition dequeue_test ::
    "queue_id \<Rightarrow> nat \<Rightarrow> bool \<Rightarrow> (nat \<times> byte list \<Rightarrow> 'a code) \<Rightarrow> (mysock_context, 'a code option) prog" where
  "dequeue_test pq max_len remove_partial k =
     bind (on_queue pq (take_head max_len remove_partial)) (\<lambda>x.
     ret (case x of
         None \<Rightarrow> None
       | Some (p, part) \<Rightarrow> Some (Leave Data_ready (if part then part_steps pq p max_len k else whole_steps pq p max_len k))))"

definition dequeue_buffer_steps :: "queue_id \<Rightarrow> nat \<Rightarrow> bool \<Rightarrow> (nat \<times> byte list \<Rightarrow> 'a code) \<Rightarrow> 'a code" where
  "dequeue_buffer_steps pq max_len remove_partial k =
     Enter Data_ready (Await Data_ready (dequeue_test pq max_len remove_partial k) None)"

section \<open>The events (stcp\_api.c, mysock\_api.c)\<close>

definition event_test :: "32 word \<Rightarrow> (32 word \<Rightarrow> 'a code) \<Rightarrow> (mysock_context, 'a code option) prog" where
  "event_test flags k = bind (wait_round flags) (\<lambda>rc.
     ret (if rc \<noteq> 0 then Some (Leave Data_ready (k rc)) else None))"

definition wait_for_event_steps :: "32 word \<Rightarrow> bool \<Rightarrow> (32 word \<Rightarrow> 'a code) \<Rightarrow> 'a code" where
  "wait_for_event_steps flags timed k =
     Enter Data_ready (Await Data_ready (event_test flags k) (if timed then Some (Leave Data_ready (k 0)) else None))"

text \<open>How myclose asks for the end of the connection.\<close>

definition close_request_steps :: "'a code \<Rightarrow> 'a code" where
  "close_request_steps k =
     Enter Data_ready (
     act (modify (\<lambda>c. c\<lparr>close_requested := True\<rparr>)) (\<lambda>_.
     Leave Data_ready (
     Broadcast Data_ready k)))"

text \<open>
  mywrite and myread on a context that has been looked up: the two checks, one look at the context each, then the queue; myread then
  sets eof, without a lock.
\<close>

definition mywrite_steps :: "byte list \<Rightarrow> nat \<Rightarrow> (errno + int \<Rightarrow> 'a code) \<Rightarrow> 'a code" where
  "mywrite_steps buf buf_len k =
     act (gets listening) (\<lambda>l.
     if l then k (Inl EINVAL)
     else
     act (bind (gets close_requested) (\<lambda>b. assert_at ''mysock_api.c'' 205 (\<not> b))) (\<lambda>_.
     enqueue_buffer_steps App_recv_queue (Some buf) buf_len (
     k (Inr (int_of_size buf_len)))))"

definition myread_steps :: "nat \<Rightarrow> (errno + int \<times> byte list \<Rightarrow> 'a code) \<Rightarrow> 'a code" where
  "myread_steps buf_len k =
     act (gets listening) (\<lambda>l.
     if l then k (Inl EINVAL)
     else
     act (bind (gets close_requested) (\<lambda>b. assert_at ''mysock_api.c'' 220 (\<not> b))) (\<lambda>_.
     act (gets eof) (\<lambda>e.
     if e then k (Inr (0, []))
     else
     dequeue_buffer_steps App_send_queue buf_len True (\<lambda>r.
     if int_of_size (fst r) = 0
     then act (modify (\<lambda>c. c\<lparr>eof := True\<rparr>)) (\<lambda>_. k (Inr (int_of_size (fst r), snd r)))
     else k (Inr (int_of_size (fst r), snd r))))))"

section \<open>The end of the handshake (mysock.c, stcp\_api.c)\<close>

definition connection_test :: "(errno + int \<Rightarrow> 'a code) \<Rightarrow> (mysock_context, 'a code option) prog" where
  "connection_test k = bind (gets blocking) (\<lambda>b.
     ret (if b then None
          else Some (Leave Blocking (act (gets stcp_errno) (\<lambda>e. k (if e \<noteq> 0 then Inl e else Inr 0))))))"

definition wait_for_connection_steps :: "(errno + int \<Rightarrow> 'a code) \<Rightarrow> 'a code" where
  "wait_for_connection_steps k = Enter Blocking (Await Blocking (connection_test k) None)"

definition announce :: "errno \<Rightarrow> (mysock_context, unit) prog" where
  "announce err =
     bind (gets blocking) (\<lambda>b.
     bind (assert_at ''stcp_api.c'' 36 b) (\<lambda>_.
     modify (\<lambda>c. c\<lparr>blocking := False, stcp_errno := (if err = EINTR then 0 else err)\<rparr>)))"

text \<open>What stcp\_unblock\_application does on the context; that it reports a passive connection to its listener is in Listen\_Lock.\<close>

definition unblock_application_steps :: "errno \<Rightarrow> 'a code \<Rightarrow> 'a code" where
  "unblock_application_steps err k =
     Enter Blocking (
     act (announce err) (\<lambda>_.
     Leave Blocking (
     Signal Blocking k)))"

text \<open>What the transport thread does when the transport layer has returned with err in errno.\<close>

definition transport_end_steps :: "errno \<Rightarrow> 'a code \<Rightarrow> 'a code" where
  "transport_end_steps err k =
     Enter Blocking (
     act (bind (gets blocking) (\<lambda>b. bind (gets is_active) (\<lambda>active. ret (b, active)))) (\<lambda>(b, active).
     Leave Blocking (
     let eof = enqueue_buffer_steps App_send_queue (Some [0]) 0 k in
     if b
     then unblock_application_steps
            (if err = 0 \<or> err = EINTR then (if active then ECONNREFUSED else ECONNABORTED) else err) eof
     else eof)))"

section \<open>Schedules\<close>

abbreviation crew_in :: "mysock_context \<Rightarrow> (monitor \<Rightarrow> nat option) \<Rightarrow> (nat \<Rightarrow> phase) \<Rightarrow> (nat \<Rightarrow> 'a code) \<Rightarrow> 'a crew" where
  "crew_in c ow ph T \<equiv> \<lparr>shared = c, owner = ow, phase_of = ph, task = T\<rparr>"

text \<open>No mutex taken, nobody asleep.\<close>

abbreviation idle_crew :: "mysock_context \<Rightarrow> (nat \<Rightarrow> 'a code) \<Rightarrow> 'a crew" where
  "idle_crew c T \<equiv> crew_in c (\<lambda>_. None) (\<lambda>_. Awake) T"

lemma csteps_first: "csteps Q R \<Longrightarrow> cstep t P Q \<Longrightarrow> csteps P R"
  by (induction rule: csteps.induct) (blast intro: csteps.intros)+

lemma go_act: "T t = act m k \<Longrightarrow> m c = Done a c' \<Longrightarrow> csteps (crew_in c' ow ph (T(t := k a))) Q \<Longrightarrow> csteps (crew_in c ow ph T) Q"
  using cstep.acts [of "crew_in c ow ph T" t "bind m (\<lambda>a. ret (k a))" "k a" c'] by (auto simp: act_def run_simps intro: csteps_first)

lemma go_enter: "T t = Enter m k \<Longrightarrow> ow m = None \<Longrightarrow> csteps (crew_in c (ow(m := Some t)) ph (T(t := k))) Q \<Longrightarrow> csteps (crew_in c ow ph T) Q"
  using cstep.enter [of "crew_in c ow ph T" t m k] by (auto intro: csteps_first)

lemma go_leave: "T t = Leave m k \<Longrightarrow> csteps (crew_in c (ow(m := None)) ph (T(t := k))) Q \<Longrightarrow> csteps (crew_in c ow ph T) Q"
  using cstep.leave [of "crew_in c ow ph T" t m k] by (auto intro: csteps_first)

lemma go_finds: "T t = Await m f late \<Longrightarrow> ph t = Awake \<Longrightarrow> ow m = Some t \<Longrightarrow> f c = Done (Some k) c'
    \<Longrightarrow> csteps (crew_in c' ow ph (T(t := k))) Q \<Longrightarrow> csteps (crew_in c ow ph T) Q"
  using cstep.finds [of "crew_in c ow ph T" t m f late k c'] by (auto intro: csteps_first)

lemma go_broadcast: "T t = Broadcast m k \<Longrightarrow> csteps (crew_in c ow (\<lambda>_. Awake) (T(t := k))) Q \<Longrightarrow> csteps (crew_in c ow (\<lambda>_. Awake) T) Q"
  using cstep.broadcast [of "crew_in c ow (\<lambda>_. Awake) T" t m k] by (auto simp: sleeps_on_def intro: csteps_first)

lemma go_signal: "T t = Signal m k \<Longrightarrow> csteps (crew_in c ow (\<lambda>_. Awake) (T(t := k))) Q \<Longrightarrow> csteps (crew_in c ow (\<lambda>_. Awake) T) Q"
  using cstep.signal_none [of "crew_in c ow (\<lambda>_. Awake) T" t m k] by (auto simp: sleeps_on_def intro: csteps_first)

lemma go_decides: "T t = Await m f late \<Longrightarrow> ph t = Awake \<Longrightarrow> ow m = Some t \<Longrightarrow> f c = Done None c'
    \<Longrightarrow> csteps (crew_in c' ow (ph(t := Deciding)) T) Q \<Longrightarrow> csteps (crew_in c ow ph T) Q"
  using cstep.decides [of "crew_in c ow ph T" t m f late c'] by (auto intro: csteps_first)

lemma go_sleeps: "T t = Await m f late \<Longrightarrow> ph t = Deciding
    \<Longrightarrow> csteps (crew_in c (ow(m := None)) (ph(t := Asleep)) T) Q \<Longrightarrow> csteps (crew_in c ow ph T) Q"
  using cstep.sleeps [of "crew_in c ow ph T" t m f late] by (auto intro: csteps_first)

lemma go_times_out: "T t = Await m f (Some k) \<Longrightarrow> ph t = Asleep
    \<Longrightarrow> csteps (crew_in c ow (ph(t := Awake)) (T(t := Enter m k))) Q \<Longrightarrow> csteps (crew_in c ow ph T) Q"
  using cstep.times_out [of "crew_in c ow ph T" t m f k] by (auto intro: csteps_first)

section \<open>The steps against the calls\<close>

text \<open>Without interruption, the steps of a function do to the context what its one-step model does.\<close>

definition runs_as :: "(('b \<Rightarrow> 'a code) \<Rightarrow> 'a code) \<Rightarrow> (mysock_context, 'b) prog \<Rightarrow> bool" where
  "runs_as f m \<longleftrightarrow> (\<forall>c t k b c' T. (\<forall>pq. wf_queue (queue pq c)) \<and> T t = f k \<and> m c = Done b c' \<longrightarrow>
     csteps (idle_crew c T) (idle_crew c' (T(t := k b))))"

lemma runs_asI:
  assumes "\<And>c t k b c' T Q. (\<And>pq. wf_queue (queue pq c)) \<Longrightarrow> T t = f k \<Longrightarrow> m c = Done b c'
    \<Longrightarrow> csteps (idle_crew c' (T(t := k b))) Q \<Longrightarrow> csteps (idle_crew c T) Q"
  shows "runs_as f m"
  using assms csteps.refl unfolding runs_as_def by blast

lemma runs_asD:
  assumes "runs_as f m" "\<And>pq. wf_queue (queue pq c)" "T t = f k" "m c = Done b c'" "csteps (idle_crew c' (T(t := k b))) Q"
  shows "csteps (idle_crew c T) Q"
proof -
  have "csteps Q R \<Longrightarrow> csteps P Q \<Longrightarrow> csteps P R" for P Q R :: "'b crew"
    by (induction rule: csteps.induct) (blast intro: csteps.intros)+
  with assms show ?thesis unfolding runs_as_def by blast
qed

lemma queue_set [simp]: "queue pq (set_queue pq' q c) = (if pq = pq' then q else queue pq c)"
  by (cases pq; cases pq') simp_all

lemma set_queue_twice [simp]: "set_queue pq q (set_queue pq q' c) = set_queue pq q c"
  and set_queue_same [simp]: "set_queue pq (queue pq c) c = c"
  by (cases pq; simp)+

lemma on_queue_run: "on_queue pq m c = (case m (queue pq c) of
    Done a q \<Rightarrow> Done a (set_queue pq q c) | Blocked q \<Rightarrow> Blocked (set_queue pq q c) | Abort e \<Rightarrow> Abort e)"
  by (simp add: on_queue_def zoom_def)

lemma awake_twice [simp]: "(\<lambda>_. None)(m := Some t, m := None) = (\<lambda>_. None)"
  by auto

lemma enqueue_runs_as: "runs_as (\<lambda>k. enqueue_buffer_steps pq packet n (k ())) (on_queue pq (mysock_enqueue_buffer packet n))"
proof (rule runs_asI)
  fix c t and k :: "unit \<Rightarrow> 'a code" and b c' T Q
  assume T: "T t = enqueue_buffer_steps pq packet n (k ())" and m: "on_queue pq (mysock_enqueue_buffer packet n) c = Done b c'"
    and Q: "csteps (idle_crew c' (T(t := k b))) Q"
  show "csteps (idle_crew c T) Q"
    apply (rule go_enter [where t = t], simp add: T enqueue_buffer_steps_def, simp)
    apply (rule go_act [where t = t], simp, rule m)
    apply (rule go_leave [where t = t], simp)
    apply (rule go_broadcast [where t = t], simp)
    using Q by simp
qed

lemma dequeue_split:
  assumes "wf_queue q" and "mysock_dequeue_buffer n part q = Done r q'"
  shows "(\<exists>p bs q1. take_head n part q = Done (Some (p, True)) q \<and> copy_part p n q = Done bs q \<and> shift_rest p n q = Done () q1
      \<and> shrink p n q1 = Done () q' \<and> r = (n, bs))
    \<or> (\<exists>p q1. take_head n part q = Done (Some (p, False)) q1 \<and> copy_whole p n q1 = Done r q1 \<and> release p q1 = Done () q')"
proof -
  from assms(2) obtain p where p: "head q = Some p" by (cases "head q") (auto simp: mysock_dequeue_buffer_def run_simps)
  with wf_queueE [OF assms(1)] obtain as where "represents q (p # as)"
    by (cases "queue_nodes q") (auto simp: represents_def)
  then obtain nd where nd: "hload (nodes q) p = Some nd" "data_len nd \<le> length (data nd)"
    by (auto simp: represents_def node_ok_live)
  note b = hload_bound [OF nd(1)]
  show ?thesis
  proof (cases "n < data_len nd \<and> part")
    case True
    then show ?thesis using assms(2) p nd b
      by (intro disjI1 exI [of _ p] exI [of _ "take n (data nd)"]
          exI [of _ "q\<lparr>nodes := hstore (nodes q) p (nd\<lparr>data := copy_up (data nd) 0 n (data_len nd - n)\<rparr>)\<rparr>"])
        (auto simp: mysock_dequeue_buffer_def take_head_def copy_part_def shift_rest_def shrink_def load_node_def store_node_def
          run_simps heap_simps)
  next
    case False
    then show ?thesis using assms(2) p nd b
      by (intro disjI2 exI [of _ p] exI [of _ "q\<lparr>head := nxt nd, tail := (if nxt nd = None then None else tail q)\<rparr>"])
        (auto simp: mysock_dequeue_buffer_def take_head_def copy_whole_def release_def load_node_def run_simps heap_simps split: if_splits)
  qed
qed

lemma dequeue_runs_as: "runs_as (dequeue_buffer_steps pq n part) (on_queue pq (mysock_dequeue_buffer n part))"
proof (rule runs_asI)
  fix c t and k :: "nat \<times> byte list \<Rightarrow> 'a code" and r c' T Q
  assume wf: "\<And>pq. wf_queue (queue pq c)" and T: "T t = dequeue_buffer_steps pq n part k"
    and m: "on_queue pq (mysock_dequeue_buffer n part) c = Done r c'" and Q: "csteps (idle_crew c' (T(t := k r))) Q"
  from m obtain q' where q': "mysock_dequeue_buffer n part (queue pq c) = Done r q'" "c' = set_queue pq q' c"
    by (auto simp: on_queue_run split: outcome.splits)
  from dequeue_split [OF wf q'(1)] show "csteps (idle_crew c T) Q"
  proof (elim disjE exE conjE)
    fix p bs q1
    assume d: "take_head n part (queue pq c) = Done (Some (p, True)) (queue pq c)" "copy_part p n (queue pq c) = Done bs (queue pq c)"
      "shift_rest p n (queue pq c) = Done () q1" "shrink p n q1 = Done () q'" "r = (n, bs)"
    show ?thesis
      apply (rule go_enter [where t = t], simp add: T dequeue_buffer_steps_def, simp)
      apply (rule go_finds [where t = t and c' = c], simp, simp, simp, simp add: dequeue_test_def on_queue_run run_simps d(1))
      apply (rule go_leave [where t = t], simp)
      apply (rule go_act [where t = t and c' = c and a = bs], simp add: part_steps_def, simp add: on_queue_run d(2))
      apply (rule go_act [where t = t and c' = "set_queue pq q1 c"], simp, simp add: on_queue_run d(3))
      apply (rule go_act [where t = t and c' = c'], simp, simp add: on_queue_run d(4) q'(2))
      using Q d(5) by simp
  next
    fix p q1
    assume d: "take_head n part (queue pq c) = Done (Some (p, False)) q1" "copy_whole p n q1 = Done r q1" "release p q1 = Done () q'"
    show ?thesis
      apply (rule go_enter [where t = t], simp add: T dequeue_buffer_steps_def, simp)
      apply (rule go_finds [where t = t and c' = "set_queue pq q1 c"], simp, simp, simp, simp add: dequeue_test_def on_queue_run run_simps d(1))
      apply (rule go_leave [where t = t], simp)
      apply (rule go_act [where t = t and c' = "set_queue pq q1 c" and a = r], simp add: whole_steps_def, simp add: on_queue_run d(2))
      apply (rule go_act [where t = t and c' = c'], simp, simp add: on_queue_run d(3) q'(2))
      using Q by simp
  qed
qed

lemma wait_for_event_runs_as:
  "runs_as (wait_for_event_steps flags timed)
     (bind (wait_round flags) (\<lambda>rc. if rc \<noteq> 0 then ret rc else if timed then ret 0 else block))"
proof (rule runs_asI)
  fix c t and k :: "32 word \<Rightarrow> 'a code" and rc c' T Q
  assume T: "T t = wait_for_event_steps flags timed k" and Q: "csteps (idle_crew c' (T(t := k rc))) Q"
    and m: "bind (wait_round flags) (\<lambda>rc. if rc \<noteq> 0 then ret rc else if timed then ret 0 else block) c = Done rc c'"
  then obtain r where r: "wait_round flags c = Done r c'" "rc = r" "r \<noteq> 0 \<or> timed"
    by (auto simp: run_simps split: outcome.splits if_splits)
  show "csteps (idle_crew c T) Q"
  proof (cases "r = 0")
    case False
    show ?thesis
      apply (rule go_enter [where t = t], simp add: T wait_for_event_steps_def, simp)
      apply (rule go_finds [where t = t and c' = c'], simp, simp, simp, simp add: event_test_def run_simps r(1) False)
      apply (rule go_leave [where t = t], simp)
      using Q r(2) by simp
  next
    case True
    show ?thesis
      apply (rule go_enter [where t = t], simp add: T wait_for_event_steps_def, simp)
      apply (rule go_decides [where t = t and c' = c'], simp, simp, simp, simp add: event_test_def run_simps r(1) True)
      apply (rule go_sleeps [where t = t], simp, simp)
      apply (rule go_times_out [where t = t and k = "Leave Data_ready (k 0)"], use r(3) True in simp, simp)
      apply (rule go_enter [where t = t], simp, simp)
      apply (rule go_leave [where t = t], simp)
      using Q r(2) True by (simp add: fun_upd_idem)
  qed
qed

lemma wait_for_connection_runs_as: "runs_as wait_for_connection_steps mysock_wait_for_connection"
proof (rule runs_asI)
  fix c t and k :: "errno + int \<Rightarrow> 'a code" and r c' T Q
  assume T: "T t = wait_for_connection_steps k" and Q: "csteps (idle_crew c' (T(t := k r))) Q"
    and m: "mysock_wait_for_connection c = Done r c'"
  then have r: "\<not> blocking c" "c' = c" "r = (if stcp_errno c \<noteq> 0 then Inl (stcp_errno c) else Inr 0)"
    by (auto simp: mysock_wait_for_connection_def run_simps split: if_splits)
  show "csteps (idle_crew c T) Q"
    apply (rule go_enter [where t = t], simp add: T wait_for_connection_steps_def, simp)
    apply (rule go_finds [where t = t and c' = c], simp, simp, simp, simp add: connection_test_def run_simps r(1))
    apply (rule go_leave [where t = t], simp)
    apply (rule go_act [where t = t and c' = c and a = "stcp_errno c"], simp, simp add: run_simps)
    using Q r(2,3) by simp
qed

lemma close_request_runs_as:
  "runs_as (\<lambda>k. close_request_steps (k ())) (modify (\<lambda>c. c\<lparr>close_requested := True\<rparr>))"
proof (rule runs_asI)
  fix c t and k :: "unit \<Rightarrow> 'a code" and r c' T Q
  assume T: "T t = close_request_steps (k ())" and Q: "csteps (idle_crew c' (T(t := k r))) Q"
    and m: "modify (\<lambda>c. c\<lparr>close_requested := True\<rparr>) c = Done r c'"
  show "csteps (idle_crew c T) Q"
    apply (rule go_enter [where t = t], simp add: T close_request_steps_def, simp)
    apply (rule go_act [where t = t], simp, rule m)
    apply (rule go_leave [where t = t], simp)
    apply (rule go_broadcast [where t = t], simp)
    using Q by simp
qed

lemma unblock_application_runs_as: "runs_as (\<lambda>k. unblock_application_steps err (k ())) (announce err)"
proof (rule runs_asI)
  fix c t and k :: "unit \<Rightarrow> 'a code" and r c' T Q
  assume T: "T t = unblock_application_steps err (k ())" and Q: "csteps (idle_crew c' (T(t := k r))) Q"
    and m: "announce err c = Done r c'"
  show "csteps (idle_crew c T) Q"
    apply (rule go_enter [where t = t], simp add: T unblock_application_steps_def, simp)
    apply (rule go_act [where t = t], simp, rule m)
    apply (rule go_leave [where t = t], simp)
    apply (rule go_signal [where t = t], simp)
    using Q by simp
qed

text \<open>mywrite and myread on their context, as one program each, and that this is what they are on an open mysocket.\<close>

definition mywrite_body :: "byte list \<Rightarrow> nat \<Rightarrow> (mysock_context, errno + int) prog" where
  "mywrite_body buf buf_len =
     bind (gets listening) (\<lambda>l. if l then ret (Inl EINVAL)
     else bind (bind (gets close_requested) (\<lambda>b. assert_at ''mysock_api.c'' 205 (\<not> b))) (\<lambda>_.
          bind (on_queue App_recv_queue (mysock_enqueue_buffer (Some buf) buf_len)) (\<lambda>_. ret (Inr (int_of_size buf_len)))))"

definition myread_body :: "nat \<Rightarrow> (mysock_context, errno + int \<times> byte list) prog" where
  "myread_body buf_len =
     bind (gets listening) (\<lambda>l. if l then ret (Inl EINVAL)
     else bind (bind (gets close_requested) (\<lambda>b. assert_at ''mysock_api.c'' 220 (\<not> b))) (\<lambda>_.
          bind (gets eof) (\<lambda>e. if e then ret (Inr (0, []))
          else bind (on_queue App_send_queue (mysock_dequeue_buffer buf_len True)) (\<lambda>r.
               bind (if int_of_size (fst r) = 0 then modify (\<lambda>c. c\<lparr>eof := True\<rparr>) else ret ()) (\<lambda>_.
               ret (Inr (int_of_size (fst r), snd r)))))))"

lemma mywrite_on_context:
  assumes "open_socket sd p s"
  shows "mywrite sd buf n s = on_ctx ''mysock_api.c'' 203 p (mywrite_body buf n) s"
    and "myread sd n s = on_ctx ''mysock_api.c'' 218 p (myread_body n) s"
proof -
  obtain c where c: "hload (ctxs s) p = Some c" using open_socketE [OF assms] by blast
  note run = open_socket_context(1) [OF assms] c hload_bound [OF c]
  show "mywrite sd buf n s = on_ctx ''mysock_api.c'' 203 p (mywrite_body buf n) s"
    using run by (auto simp: mywrite_def mywrite_body_def run_simps on_app_recv_queue_def zoom_def on_queue_run hstore_same
        split: outcome.splits)
  show "myread sd n s = on_ctx ''mysock_api.c'' 218 p (myread_body n) s"
    using run by (auto simp: myread_def myread_body_def run_simps on_app_send_queue_def zoom_def on_queue_run hstore_same heap_simps
        Let_def split: outcome.splits)
qed

lemma mywrite_runs_as: "runs_as (mywrite_steps buf n) (mywrite_body buf n)"
proof (rule runs_asI)
  fix c t and k :: "errno + int \<Rightarrow> 'a code" and r c' T Q
  assume wf: "\<And>pq. wf_queue (queue pq c)" and T: "T t = mywrite_steps buf n k" and Q: "csteps (idle_crew c' (T(t := k r))) Q"
    and m: "mywrite_body buf n c = Done r c'"
  show "csteps (idle_crew c T) Q"
  proof (cases "listening c")
    case True
    with m have r: "r = Inl EINVAL" "c' = c" by (simp_all add: mywrite_body_def run_simps)
    show ?thesis
      apply (rule go_act [where t = t and c' = c and a = True], simp add: T mywrite_steps_def, simp add: run_simps True)
      using Q r by simp
  next
    case False
    with m have b: "\<not> close_requested c" "on_queue App_recv_queue (mysock_enqueue_buffer (Some buf) n) c = Done () c'" "r = Inr (int_of_size n)"
      by (auto simp: mywrite_body_def run_simps split: outcome.splits if_splits)
    show ?thesis
      apply (rule go_act [where t = t and c' = c and a = False], simp add: T mywrite_steps_def, simp add: run_simps False)
      apply (rule go_act [where t = t and c' = c and a = "()"], simp, simp add: run_simps b(1))
      apply (rule runs_asD [OF enqueue_runs_as wf _ b(2), where t = t and k = "\<lambda>_. k r"], simp add: b(3))
      using Q by simp
  qed
qed

lemma myread_runs_as: "runs_as (myread_steps n) (myread_body n)"
proof (rule runs_asI)
  fix c t and k :: "errno + int \<times> byte list \<Rightarrow> 'a code" and r c' T Q
  assume wf: "\<And>pq. wf_queue (queue pq c)" and T: "T t = myread_steps n k" and Q: "csteps (idle_crew c' (T(t := k r))) Q"
    and m: "myread_body n c = Done r c'"
  show "csteps (idle_crew c T) Q"
  proof (cases "listening c")
    case True
    with m have r: "r = Inl EINVAL" "c' = c" by (simp_all add: myread_body_def run_simps)
    show ?thesis
      apply (rule go_act [where t = t and c' = c and a = True], simp add: T myread_steps_def, simp add: run_simps True)
      using Q r by simp
  next
    case False
    with m have b: "\<not> close_requested c" by (auto simp: myread_body_def run_simps split: if_splits)
    have start: "csteps (idle_crew c T) Q" if "csteps (idle_crew c (T(t := act (gets eof) (\<lambda>e.
        if e then k (Inr (0, [])) else dequeue_buffer_steps App_send_queue n True (\<lambda>r. if int_of_size (fst r) = 0
          then act (modify (\<lambda>c. c\<lparr>eof := True\<rparr>)) (\<lambda>_. k (Inr (int_of_size (fst r), snd r)))
          else k (Inr (int_of_size (fst r), snd r))))))) Q"
      apply (rule go_act [where t = t and c' = c and a = False], simp add: T myread_steps_def, simp add: run_simps False)
      apply (rule go_act [where t = t and c' = c and a = "()"], simp, simp add: run_simps b(1))
      using that by simp
    show ?thesis
    proof (cases "eof c")
      case True
      with m False b have r: "r = Inr (0, [])" "c' = c" by (simp_all add: myread_body_def run_simps)
      show ?thesis
        apply (rule start, rule go_act [where t = t and c' = c and a = True], simp, simp add: run_simps True)
        using Q r by simp
    next
      case eof: False
      with m False b obtain d c1 where d: "on_queue App_send_queue (mysock_dequeue_buffer n True) c = Done d c1"
        "r = Inr (int_of_size (fst d), snd d)" "c' = (if int_of_size (fst d) = 0 then c1\<lparr>eof := True\<rparr> else c1)"
        by (auto simp: myread_body_def run_simps split: outcome.splits if_splits)
      let ?k = "\<lambda>d. if int_of_size (fst d) = 0 then act (modify (\<lambda>c. c\<lparr>eof := True\<rparr>)) (\<lambda>_. k (Inr (int_of_size (fst d), snd d)))
          else k (Inr (int_of_size (fst d), snd d))"
      have rest: "csteps (idle_crew c1 (T(t := ?k d))) Q"
      proof (cases "int_of_size (fst d) = 0")
        case True
        show ?thesis
          apply (rule go_act [where t = t and c' = c' and a = "()"], simp add: True, simp add: run_simps d(3) True)
          using Q d(2) True by simp
      next
        case False
        with Q d(2,3) show ?thesis by simp
      qed
      show ?thesis
        apply (rule start, rule go_act [where t = t and c' = c and a = False], simp, simp add: run_simps eof)
        apply (rule runs_asD [OF dequeue_runs_as wf _ d(1), where t = t and k = ?k], simp)
        using rest by simp
    qed
  qed
qed

text \<open>The end of the transport thread, as one program.\<close>

definition transport_end :: "errno \<Rightarrow> (mysock_context, unit) prog" where
  "transport_end err =
     bind (gets blocking) (\<lambda>b.
     bind (gets is_active) (\<lambda>active.
     bind (if b then announce (if err = 0 \<or> err = EINTR then (if active then ECONNREFUSED else ECONNABORTED) else err)
           else ret ()) (\<lambda>_.
     on_queue App_send_queue (mysock_enqueue_buffer (Some [0]) 0))))"

lemma transport_end_runs_as: "runs_as (\<lambda>k. transport_end_steps err (k ())) (transport_end err)"
proof (rule runs_asI)
  fix c t and k :: "unit \<Rightarrow> 'a code" and r c' T Q
  assume wf: "\<And>pq. wf_queue (queue pq c)" and T: "T t = transport_end_steps err (k ())" and Q: "csteps (idle_crew c' (T(t := k r))) Q"
    and m: "transport_end err c = Done r c'"
  let ?e = "if err = 0 \<or> err = EINTR then (if is_active c then ECONNREFUSED else ECONNABORTED) else err"
  from m obtain c1 where m1: "(if blocking c then announce ?e else ret ()) c = Done () c1"
    "on_queue App_send_queue (mysock_enqueue_buffer (Some [0]) 0) c1 = Done () c'"
    by (auto simp: transport_end_def run_simps split: outcome.splits if_splits)
  have wf1: "wf_queue (queue pq c1)" for pq using m1(1) wf [of pq]
    by (cases pq) (auto simp: announce_def run_simps split: if_splits)
  let ?eof = "enqueue_buffer_steps App_send_queue (Some [0]) 0 (k ())"
  have e: "csteps (idle_crew c1 (T(t := ?eof))) Q"
    by (rule runs_asD [OF enqueue_runs_as wf1 _ m1(2), where k = k and t = t]) (use Q in simp_all)
  have "csteps (idle_crew c (T(t := if blocking c then unblock_application_steps ?e ?eof else ?eof))) Q"
  proof (cases "blocking c")
    case True
    with m1(1) have a: "announce ?e c = Done () c1" by simp
    show ?thesis by (rule runs_asD [OF unblock_application_runs_as wf _ a, where k = "\<lambda>_. ?eof" and t = t]) (use True e in simp_all)
  next
    case False
    with m1(1) e show ?thesis by (simp add: run_simps)
  qed
  note rest = this
  show "csteps (idle_crew c T) Q"
    apply (rule go_enter [where t = t], simp add: T transport_end_steps_def, simp)
    apply (rule go_act [where t = t and c' = c and a = "(blocking c, is_active c)"], simp, simp add: run_simps)
    apply (rule go_leave [where t = t], simp)
    using rest by (simp add: Let_def)
qed

end
