(* ===== verification/Crew_Logic.thy ===== *)
theory Crew_Logic
  imports Context_Threads
begin

text \<open>
  A logic for the threads of a context. The code of a thread is accepted (\<open>ok\<close>) when each of its acts, by
  whomever it is preceded, keeps a common invariant over the context and one ghost value per thread, when
  it uses the mutexes in pairs, and when an act that may end the wait of another thread holds the mutex of that wait
  and is followed by the wake-up. A crew of accepted threads stays sound along every interleaving: no act fails in a
  way that is not allowed, and no sleeper is forgotten.
\<close>

section \<open>Waits and wake-ups\<close>

text \<open>The body of a loop around a wait would wait in this context.\<close>

definition waits :: "(mysock_context \<Rightarrow> (mysock_context, 'a code option) outcome) \<Rightarrow> mysock_context \<Rightarrow> bool" where
  "waits f c \<longleftrightarrow> (\<exists>c'. f c = Done None c')"

text \<open>A thread that wakes the sleepers of m before it does anything else, and needs no mutex for it.\<close>

definition owing :: "monitor \<Rightarrow> 'a code \<Rightarrow> bool" where
  "owing m x \<longleftrightarrow> (\<exists>k. x = Broadcast m k \<or> x = Signal m k \<or> x = Leave m (Broadcast m k) \<or> x = Leave m (Signal m k))"

text \<open>The conditions under which each thread may wait, by monitor and by what is known of the thread (its ghost value, see below).\<close>

type_synonym 'h waiting = "nat \<Rightarrow> monitor \<Rightarrow> 'h \<Rightarrow> (mysock_context \<Rightarrow> bool) set"

text \<open>A change by the thread t ends no wait of another thread.\<close>

definition hushed :: "'h waiting \<Rightarrow> nat \<Rightarrow> monitor \<Rightarrow> mysock_context \<Rightarrow> mysock_context \<Rightarrow> bool" where
  "hushed W t m c c' \<longleftrightarrow> (\<forall>u h w. u \<noteq> t \<and> w \<in> W u m h \<and> w c \<longrightarrow> w c')"

definition told :: "'h waiting \<Rightarrow> nat \<Rightarrow> monitor option \<Rightarrow> mysock_context \<Rightarrow> mysock_context \<Rightarrow> 'a code \<Rightarrow> bool" where
  "told W t l c c' k \<longleftrightarrow> (\<forall>m. hushed W t m c c' \<or> l = Some m \<and> owing m k)"

definition one_waiter :: "'h waiting \<Rightarrow> monitor \<Rightarrow> bool" where
  "one_waiter W m \<longleftrightarrow> (\<forall>u v g h. W u m g \<noteq> {} \<and> W v m h \<noteq> {} \<longrightarrow> u = v)"

section \<open>Accepted code\<close>

text \<open>An act ends, or fails in an allowed way; it never waits.\<close>

definition goes_well :: "(fault \<Rightarrow> bool) \<Rightarrow> (mysock_context, 'b) outcome \<Rightarrow> bool" where
  "goes_well A r \<longleftrightarrow> (case r of Done a c \<Rightarrow> True | Blocked c \<Rightarrow> False | Abort e \<Rightarrow> A e)"

lemma goes_well_simps [simp]: "goes_well A (Done a c)" "\<not> goes_well A (Blocked c)" "goes_well A (Abort e) \<longleftrightarrow> A e"
  by (simp_all add: goes_well_def)

text \<open>
  I is the invariant over the ghost values and the context, W the conditions of the waits, R what a thread may return, A the
  failures that are allowed in a context. The thread t holds the mutex l and has the ghost value h.
\<close>

inductive ok ::
    "((nat \<Rightarrow> 'h) \<Rightarrow> mysock_context \<Rightarrow> bool) \<Rightarrow> 'h waiting \<Rightarrow> (nat \<Rightarrow> 'h \<Rightarrow> 'a \<Rightarrow> bool) \<Rightarrow> (mysock_context \<Rightarrow> fault \<Rightarrow> bool)
      \<Rightarrow> nat \<Rightarrow> monitor option \<Rightarrow> 'h \<Rightarrow> 'a code \<Rightarrow> bool" for I W R A t where
  stop: "R t h a \<Longrightarrow> ok I W R A t None h (Stop a)"
| enter: "ok I W R A t (Some m) h k \<Longrightarrow> ok I W R A t None h (Enter m k)"
| leave: "ok I W R A t None h k \<Longrightarrow> ok I W R A t (Some m) h (Leave m k)"
| await: "W t m g \<noteq> {} \<Longrightarrow> (\<And>hs c c'. I hs c \<Longrightarrow> hs t = h \<Longrightarrow> f c = Done None c' \<Longrightarrow> c' = c \<and> waits f \<in> W t m h)
    \<Longrightarrow> (\<And>hs c k c'. I hs c \<Longrightarrow> hs t = h \<Longrightarrow> f c = Done (Some k) c'
          \<Longrightarrow> \<exists>h'. ok I W R A t (Some m) h' k \<and> I (hs(t := h')) c' \<and> told W t (Some m) c c' k)
    \<Longrightarrow> (\<And>hs c. I hs c \<Longrightarrow> hs t = h \<Longrightarrow> goes_well (A c) (f c))
    \<Longrightarrow> (\<And>k. late = Some k \<Longrightarrow> ok I W R A t (Some m) h k)
    \<Longrightarrow> ok I W R A t (Some m) h (Await m f late)"
| broadcast: "ok I W R A t None h k \<Longrightarrow> ok I W R A t None h (Broadcast m k)"
| signal: "one_waiter W m \<Longrightarrow> ok I W R A t None h k \<Longrightarrow> ok I W R A t None h (Signal m k)"
| acts: "(\<And>hs c k c'. I hs c \<Longrightarrow> hs t = h \<Longrightarrow> f c = Done k c'
          \<Longrightarrow> \<exists>h'. ok I W R A t l h' k \<and> I (hs(t := h')) c' \<and> told W t l c c' k)
    \<Longrightarrow> (\<And>hs c. I hs c \<Longrightarrow> hs t = h \<Longrightarrow> goes_well (A c) (f c))
    \<Longrightarrow> ok I W R A t l h (Act f)"

inductive_simps ok_simps: "ok I W R A t l h (Stop a)" "ok I W R A t l h (Enter m k)" "ok I W R A t l h (Leave m k)"
  "ok I W R A t l h (Await m f late)" "ok I W R A t l h (Broadcast m k)" "ok I W R A t l h (Signal m k)" "ok I W R A t l h (Act f)"

lemma ok_act:
  assumes "\<And>hs c a c'. I hs c \<Longrightarrow> hs t = h \<Longrightarrow> m c = Done a c'
      \<Longrightarrow> \<exists>h'. ok I W R A t l h' (k a) \<and> I (hs(t := h')) c' \<and> told W t l c c' (k a)"
    and "\<And>hs c. I hs c \<Longrightarrow> hs t = h \<Longrightarrow> goes_well (A c) (m c)"
  shows "ok I W R A t l h (act m k)"
  unfolding act_def
proof (rule ok.acts)
  show "goes_well (A c) (bind m (\<lambda>a. ret (k a)) c)" if "I hs c" "hs t = h" for hs c
    using assms(2) [OF that] by (cases "m c") (simp_all add: run_simps)
qed (use assms(1) in \<open>auto simp: run_simps split: outcome.splits\<close>)

section \<open>Sound crews\<close>

text \<open>
  What a thread that holds the mutex l by its code has to do with the mutexes of the crew: it owns l unless it sleeps in a
  wait or has woken there and wants l back.
\<close>

definition awaits :: "monitor \<Rightarrow> 'a code \<Rightarrow> bool" where
  "awaits m x \<longleftrightarrow> (\<exists>f late. x = Await m f late)"

definition lock_state :: "(monitor \<Rightarrow> nat option) \<Rightarrow> nat \<Rightarrow> phase \<Rightarrow> monitor option \<Rightarrow> 'a code \<Rightarrow> bool" where
  "lock_state ow t ph l x \<longleftrightarrow> (\<forall>m. l \<noteq> Some m \<or> ph = Asleep \<longrightarrow> ow m \<noteq> Some t)
     \<and> (case l of None \<Rightarrow> ph = Awake | Some m \<Rightarrow> (ow m = Some t \<or> awaits m x \<and> ph \<noteq> Deciding) \<and> (ph \<noteq> Awake \<longrightarrow> awaits m x))"

definition well_locked :: "(nat \<Rightarrow> monitor option) \<Rightarrow> 'a crew \<Rightarrow> bool" where
  "well_locked ls P \<longleftrightarrow> (\<forall>t. lock_state (owner P) t (phase_of P t) (ls t) (task P t))"

text \<open>Who is about to sleep has reason to; who sleeps has reason to, or the wake-up is on its way.\<close>

definition well_told :: "'a crew \<Rightarrow> bool" where
  "well_told P \<longleftrightarrow> (\<forall>t m f late. task P t = Await m f late \<longrightarrow> (phase_of P t = Deciding \<longrightarrow> waits f (shared P))
     \<and> (phase_of P t = Asleep \<longrightarrow> waits f (shared P) \<or> (\<exists>u. owing m (task P u))))"

definition sound_at where
  "sound_at I W R A hs ls P \<longleftrightarrow> I hs (shared P) \<and> (\<forall>t. ok I W R A t (ls t) (hs t) (task P t)) \<and> well_locked ls P \<and> well_told P"

section \<open>Every step keeps a crew sound\<close>

text \<open>How each step changes the state of the locks.\<close>

lemma awaits_simps [simp]:
  "awaits m (Await m' f late) \<longleftrightarrow> m = m'" "\<not> awaits m (Stop a)" "\<not> awaits m (Enter m' k)" "\<not> awaits m (Leave m' k)"
  "\<not> awaits m (Broadcast m' k)" "\<not> awaits m (Signal m' k)" "\<not> awaits m (Act g)"
  by (auto simp: awaits_def)

lemma lock_owner: "lock_state ow t ph l x \<Longrightarrow> ow m = Some t \<Longrightarrow> l = Some m"
  by (rule ccontr) (simp add: lock_state_def)

lemma lock_idle: "lock_state ow t ph None x \<Longrightarrow> ph = Awake"
  by (simp add: lock_state_def)

lemma lock_none: "lock_state ow t ph None x \<Longrightarrow> lock_state ow t Awake None y"
  by (simp add: lock_state_def)

lemma lock_held: "lock_state ow t ph (Some m) x \<Longrightarrow> ph = Deciding \<or> \<not> awaits m x \<Longrightarrow> ow m = Some t"
  by (auto simp: lock_state_def)

lemma lock_running: "lock_state ow t Awake l x \<Longrightarrow> (\<And>m. l = Some m \<Longrightarrow> ow m = Some t) \<Longrightarrow> lock_state ow t Awake l y"
  by (cases l) (auto simp: lock_state_def)

lemma lock_awake: "lock_state ow t ph (Some m) x \<Longrightarrow> \<not> awaits m x \<Longrightarrow> ph = Awake"
  by (auto simp: lock_state_def)

lemma lock_woken: "lock_state ow t Asleep l x \<Longrightarrow> lock_state ow t Awake l x"
  by (cases l) (auto simp: lock_state_def)

lemma lock_state_cong: "(\<And>m. ow' m = Some t \<longleftrightarrow> ow m = Some t) \<Longrightarrow> lock_state ow t ph l x \<Longrightarrow> lock_state ow' t ph l x"
  by (cases l) (simp_all add: lock_state_def)

lemma lock_taken: "lock_state ow t ph l x \<Longrightarrow> l = None \<or> l = Some m \<Longrightarrow> lock_state (ow(m := Some t)) t Awake (Some m) y"
  by (auto simp: lock_state_def)

lemma lock_freed: "lock_state ow t ph (Some m) x \<Longrightarrow> lock_state (ow(m := None)) t Awake None y"
  by (auto simp: lock_state_def)

lemma lock_slept: "lock_state ow t ph (Some m) x \<Longrightarrow> lock_state (ow(m := None)) t Asleep (Some m) (Await m f late)"
  by (auto simp: lock_state_def)

lemma lock_decided: "lock_state ow t ph (Some m) x \<Longrightarrow> ow m = Some t \<Longrightarrow> lock_state ow t Deciding (Some m) (Await m f late)"
  by (auto simp: lock_state_def)

lemma lock_gone: "lock_state ow t Asleep l x \<Longrightarrow> lock_state ow t Awake None y"
  by (auto simp: lock_state_def)

lemma well_toldD:
  "well_told P \<Longrightarrow> task P u = Await m f late \<Longrightarrow> (phase_of P u = Deciding \<longrightarrow> waits f (shared P))
    \<and> (phase_of P u = Asleep \<longrightarrow> waits f (shared P) \<or> (\<exists>v. owing m (task P v)))"
  unfolding well_told_def by blast

lemma sound_ok: "sound_at I W R A hs ls P \<Longrightarrow> ok I W R A t (ls t) (hs t) (task P t)"
  and sound_inv: "sound_at I W R A hs ls P \<Longrightarrow> I hs (shared P)"
  by (simp_all add: sound_at_def)

text \<open>A loop that would wait, waits for one of the reasons of its thread.\<close>

lemma awaited_reason: "sound_at I W R A hs ls P \<Longrightarrow> task P t = Await m f late \<Longrightarrow> waits f (shared P) \<Longrightarrow> waits f \<in> W t m (hs t)"
  using sound_ok [of I W R A hs ls P t] sound_inv [of I W R A hs ls P] by (auto simp: ok_simps waits_def)

text \<open>An act of the thread t.\<close>

lemma sound_act:
  assumes s: "sound_at I W R A hs ls P" and k: "ok I W R A t (ls t) h' k" and I: "I (hs(t := h')) c'" and told: "told W t (ls t) (shared P) c' k"
    and t: "phase_of P t = Awake" "\<And>m. \<not> owing m (task P t)" "\<And>m. ls t = Some m \<Longrightarrow> owner P m = Some t"
  shows "sound_at I W R A (hs(t := h')) ls (goes t k (P\<lparr>shared := c'\<rparr>))"
proof -
  let ?Q = "goes t k (P\<lparr>shared := c'\<rparr>)"
  have o: "ok I W R A u (ls u) (hs u) (task P u)" for u using s by (simp add: sound_at_def)
  have lock: "well_locked ls P" and calm: "well_told P" using s by (simp_all add: sound_at_def)
  from lock have "lock_state (owner P) t (phase_of P t) (ls t) (task P t)" by (simp add: well_locked_def)
  with t(1,3) have "lock_state (owner P) t Awake (ls t) k" by (auto intro: lock_running)
  then have "well_locked ls ?Q" using lock t(1) by (simp add: well_locked_def)
  moreover have "well_told ?Q" unfolding well_told_def
  proof (intro allI impI)
    fix u m f late assume "task ?Q u = Await m f late"
    show "(phase_of ?Q u = Deciding \<longrightarrow> waits f (shared ?Q)) \<and> (phase_of ?Q u = Asleep \<longrightarrow> waits f (shared ?Q) \<or> (\<exists>u. owing m (task ?Q u)))"
    proof (cases "u = t")
      case True
      with t(1) show ?thesis by simp
    next
      case False
      with \<open>task ?Q u = _\<close> have u: "task P u = Await m f late" by simp
      with o [of u] have "ls u = Some m" by (auto simp: ok_simps)
      note W = awaited_reason [OF s u] this
      have "waits f c'" if "waits f (shared P)" "hushed W t m (shared P) c'" using that W(1) [OF that(1)] False by (auto simp: hushed_def)
      moreover have "ls t = Some m \<and> owing m k" if "\<not> hushed W t m (shared P) c'" using that told by (auto simp: told_def)
      moreover have "ls t \<noteq> Some m" if "phase_of P u = Deciding"
        using that lock t(3) [of m] W(2) False using lock_held [of "owner P" u "phase_of P u" m "task P u"] unfolding well_locked_def by (metis option.inject)
      moreover have "\<exists>v. owing m (task ?Q v)" if "\<exists>v. owing m (task P v)"
      proof -
        from that obtain v where v: "owing m (task P v)" by blast
        with t(2) have "v \<noteq> t" by blast
        with v show ?thesis by (intro exI [of _ v]) simp
      qed
      moreover have "\<exists>v. owing m (task ?Q v)" if "owing m k" using that by (intro exI [of _ t]) simp
      moreover have "phase_of P u = Deciding \<longrightarrow> waits f (shared P)" "phase_of P u = Asleep \<longrightarrow> waits f (shared P) \<or> (\<exists>v. owing m (task P v))"
        using calm u unfolding well_told_def by blast+
      moreover have "phase_of ?Q u = phase_of P u" "shared ?Q = c'" by simp_all
      ultimately show ?thesis by metis
    qed
  qed
  ultimately show ?thesis using o k I by (simp add: sound_at_def)
qed

text \<open>A step of the thread t that changes neither the context nor a ghost value.\<close>

lemma sound_move:
  assumes s: "sound_at I W R A hs ls P" and Q: "shared Q = shared P" "\<And>u. u \<noteq> t \<Longrightarrow> task Q u = task P u"
    and ph: "\<And>u. u \<noteq> t \<Longrightarrow> phase_of Q u = phase_of P u \<or> phase_of P u = Asleep \<and> phase_of Q u = Awake"
    and ow: "\<And>u m. u \<noteq> t \<Longrightarrow> owner Q m = Some u \<longleftrightarrow> owner P m = Some u"
    and k: "ok I W R A t l (hs t) (task Q t)" "lock_state (owner Q) t (phase_of Q t) l (task Q t)"
    and w: "\<And>m f late. task Q t = Await m f late \<Longrightarrow> phase_of Q t \<noteq> Awake \<Longrightarrow> waits f (shared P)"
    and o: "\<And>m. owing m (task P t) \<Longrightarrow> owing m (task Q t) \<or> (\<forall>u f late. task Q u = Await m f late \<longrightarrow> phase_of Q u \<noteq> Asleep)"
  shows "sound_at I W R A hs (ls(t := l)) Q"
proof -
  have "lock_state (owner Q) u (phase_of Q u) ((ls(t := l)) u) (task Q u)" for u
  proof (cases "u = t")
    case False
    have "lock_state (owner P) u (phase_of P u) (ls u) (task P u)" using s by (simp add: sound_at_def well_locked_def)
    with ph [OF False] have "lock_state (owner P) u (phase_of Q u) (ls u) (task P u)" by (auto dest: lock_woken)
    then have "lock_state (owner Q) u (phase_of Q u) (ls u) (task P u)" by (rule lock_state_cong [OF ow [OF False]])
    with False Q(2) [OF False] show ?thesis by simp
  qed (use k in simp)
  moreover have "well_told Q" unfolding well_told_def
  proof (intro allI impI)
    fix u m f late assume u: "task Q u = Await m f late"
    show "(phase_of Q u = Deciding \<longrightarrow> waits f (shared Q)) \<and> (phase_of Q u = Asleep \<longrightarrow> waits f (shared Q) \<or> (\<exists>v. owing m (task Q v)))"
    proof (cases "u = t")
      case True
      with u w Q(1) show ?thesis by simp
    next
      case False
      with u Q(2) have "task P u = Await m f late" by simp
      with s have p: "phase_of P u = Deciding \<longrightarrow> waits f (shared P)" "phase_of P u = Asleep \<longrightarrow> waits f (shared P) \<or> (\<exists>v. owing m (task P v))"
        using well_toldD [of P u m f late] by (simp_all add: sound_at_def)
      have "\<exists>v. owing m (task Q v)" if "owing m (task P v)" "phase_of Q u = Asleep" for v
        using that o [of m] Q(2) [of v] u by metis
      with p ph [OF False] Q(1) show ?thesis by auto
    qed
  qed
  ultimately show ?thesis using s Q k by (simp add: sound_at_def well_locked_def)
qed

lemma sound_step:
  assumes st: "cstep t P Q" and s: "sound_at I W R A hs ls P"
  shows "\<exists>hs' ls'. sound_at I W R A hs' ls' Q"
proof -
  from s have ok: "\<And>t. ok I W R A t (ls t) (hs t) (task P t)" and I: "I hs (shared P)"
    and lock: "lock_state (owner P) t (phase_of P t) (ls t) (task P t)" and calm: "well_told P"
    by (simp_all add: sound_at_def well_locked_def)
  show ?thesis using st
  proof cases
    case (enter m k)
    then have x: "ls t = None" "ok I W R A t (Some m) (hs t) k" using ok [of t] by (simp_all add: ok_simps)
    note lock' = lock [unfolded x(1)]
    have "phase_of P t = Awake" using lock_idle [OF lock'] by simp
    then show ?thesis using enter x lock_taken [OF lock', of m k]
      by (intro exI [of _ hs] exI [of _ "ls(t := Some m)"] sound_move [OF s]) (simp_all add: owing_def)
  next
    case (leave m k)
    then have x: "ls t = Some m" "ok I W R A t None (hs t) k" using ok [of t] by (simp_all add: ok_simps)
    note lock' = lock [unfolded x(1)]
    have "owner P m = Some t" "phase_of P t = Awake" using lock_held [OF lock'] lock_awake [OF lock'] leave by simp_all
    then show ?thesis using leave x lock_freed [OF lock', of k]
      by (intro exI [of _ hs] exI [of _ "ls(t := None)"] sound_move [OF s]) (auto simp: owing_def)
  next
    case (finds m f late k c)
    then have "ls t = Some m" using ok [of t] by (simp add: ok_simps)
    moreover obtain h' where h': "ok I W R A t (ls t) h' k" "I (hs(t := h')) c" "told W t (ls t) (shared P) c k"
      using finds(2,5) ok [of t] I unfolding finds(2) ok_simps by metis
    ultimately have "sound_at I W R A (hs(t := h')) ls (goes t k (P\<lparr>shared := c\<rparr>))"
      using finds by (intro sound_act [OF s h']) (simp_all add: owing_def)
    then show ?thesis using finds(1) by blast
  next
    case (decides m f late c)
    then have x: "ls t = Some m" "c = shared P" "waits f (shared P)" using ok [of t] I by (auto simp: ok_simps waits_def)
    show ?thesis using decides x ok [of t] lock_decided [OF lock [unfolded x(1)]]
      by (intro exI [of _ hs] exI [of _ "ls(t := Some m)"] sound_move [OF s]) (simp_all add: owing_def)
  next
    case (sleeps m f late)
    then have x: "ls t = Some m" "waits f (shared P)" using ok [of t] well_toldD [OF calm, of t m f late] by (simp_all add: ok_simps)
    have "owner P m = Some t" using lock_held [OF lock [unfolded x(1)]] sleeps by simp
    then show ?thesis using sleeps x ok [of t] lock_slept [OF lock [unfolded x(1)], of f late]
      by (intro exI [of _ hs] exI [of _ "ls(t := Some m)"] sound_move [OF s]) (auto simp: owing_def)
  next
    case wakes
    then obtain m where "ls t = Some m" "awaits m (task P t)" using lock by (cases "ls t") (auto simp: lock_state_def)
    then show ?thesis using wakes ok [of t] lock_woken [of "owner P" t "ls t" "task P t"] lock
      by (intro exI [of _ hs] exI [of _ "ls(t := ls t)"] sound_move [OF s]) (auto simp: owing_def awaits_def)
  next
    case (times_out m f k)
    then have x: "ls t = Some m" "ok I W R A t (Some m) (hs t) k" using ok [of t] by (simp_all add: ok_simps)
    show ?thesis using times_out x lock_gone [of "owner P" t "ls t" "task P t" "Enter m k"] lock
      by (intro exI [of _ hs] exI [of _ "ls(t := None)"] sound_move [OF s]) (simp_all add: owing_def ok_simps)
  next
    case (locks_again m f late)
    then have x: "ls t = Some m" using ok [of t] by (simp add: ok_simps)
    show ?thesis using locks_again x ok [of t] lock_taken [OF lock, of m "task P t"]
      by (intro exI [of _ hs] exI [of _ "ls(t := Some m)"] sound_move [OF s]) (simp_all add: owing_def)
  next
    case (broadcast m k)
    then have x: "ls t = None" "ok I W R A t None (hs t) k" using ok [of t] by (simp_all add: ok_simps)
    show ?thesis using broadcast x lock_idle [OF lock [unfolded x(1)]] lock_none [OF lock [unfolded x(1)], of k]
      by (intro exI [of _ hs] exI [of _ "ls(t := None)"] sound_move [OF s]) (auto simp: owing_def sleeps_on_def)
  next
    case (signal m k u)
    then have x: "ls t = None" "ok I W R A t None (hs t) k" and one: "one_waiter W m" using ok [of t] by (simp_all add: ok_simps)
    have same: "v = u" if v: "sleeps_on m P v" for v
    proof -
      obtain f late where "task P v = Await m f late" using v by (auto simp: sleeps_on_def)
      moreover obtain f' late' where "task P u = Await m f' late'" using signal(3) by (auto simp: sleeps_on_def)
      ultimately have "\<exists>g. W v m g \<noteq> {}" "\<exists>g. W u m g \<noteq> {}" using ok [of v] ok [of u] by (simp_all add: ok_simps)
      then show ?thesis using one unfolding one_waiter_def by blast
    qed
    have u: "u \<noteq> t" "phase_of P u = Asleep" using signal by (auto simp: sleeps_on_def)
    have none: "phase_of Q v \<noteq> Asleep" if "task Q v = Await m f late" for v f late
    proof (cases "v = t")
      case True
      with u lock_idle [OF lock [unfolded x(1)]] signal(1) show ?thesis by simp
    next
      case False
      with that signal(1) have "task P v = Await m f late" by simp
      with same [of v] signal(1) show ?thesis by (auto simp: sleeps_on_def)
    qed
    show ?thesis
    proof (intro exI [of _ hs] exI [of _ "ls(t := None)"], rule sound_move [OF s])
      fix m' assume "owing m' (task P t)"
      then have "m' = m" using signal(2) by (simp add: owing_def)
      with none show "owing m' (task Q t) \<or> (\<forall>v f late. task Q v = Await m' f late \<longrightarrow> phase_of Q v \<noteq> Asleep)" by blast
    qed (use signal(1) u x lock_idle [OF lock [unfolded x(1)]] lock_none [OF lock [unfolded x(1)], of k] in simp_all)
  next
    case (signal_none m k)
    then have x: "ls t = None" "ok I W R A t None (hs t) k" using ok [of t] by (simp_all add: ok_simps)
    show ?thesis using signal_none x lock_idle [OF lock [unfolded x(1)]] lock_none [OF lock [unfolded x(1)], of k]
      by (intro exI [of _ hs] exI [of _ "ls(t := None)"] sound_move [OF s]) (auto simp: owing_def sleeps_on_def)
  next
    case (acts f k c)
    then obtain h' where h': "ok I W R A t (ls t) h' k" "I (hs(t := h')) c" "told W t (ls t) (shared P) c k"
      using ok [of t] I unfolding acts(2) ok_simps by metis
    have "phase_of P t = Awake" "\<And>m. ls t = Some m \<Longrightarrow> owner P m = Some t"
      using acts lock lock_idle [of "owner P" t "phase_of P t" "task P t"] lock_awake [of "owner P" t "phase_of P t" _ "task P t"]
        lock_held [of "owner P" t "phase_of P t" _ "task P t"] by (cases "ls t"; simp)+
    then have "sound_at I W R A (hs(t := h')) ls (goes t k (P\<lparr>shared := c\<rparr>))"
      using acts by (intro sound_act [OF s h']) (simp_all add: owing_def)
    then show ?thesis using acts(1) by blast
  qed
qed

lemma sound_steps: "csteps P Q \<Longrightarrow> sound_at I W R A hs ls P \<Longrightarrow> \<exists>hs' ls'. sound_at I W R A hs' ls' Q"
  by (induction rule: csteps.induct) (blast intro: sound_step)+

lemma sound_start: "I hs c \<Longrightarrow> (\<And>t. ok I W R A t None (hs t) (T t)) \<Longrightarrow> sound_at I W R A hs (\<lambda>_. None) (idle_crew c T)"
  by (simp add: sound_at_def well_locked_def lock_state_def well_told_def)

lemma sound_fault: "sound_at I W R A hs ls P \<Longrightarrow> faults t P e \<Longrightarrow> A (shared P) e"
  using sound_ok [of I W R A hs ls P t] sound_inv [of I W R A hs ls P] by (auto simp: faults_def ok_simps goes_well_def split: outcome.splits)

lemma sound_stop: "sound_at I W R A hs ls P \<Longrightarrow> task P t = Stop a \<Longrightarrow> R t (hs t) a"
  using sound_ok [of I W R A hs ls P t] by (simp add: ok_simps)

lemma sound_sleeper:
  "sound_at I W R A hs ls P \<Longrightarrow> task P t = Await m f late \<Longrightarrow> phase_of P t = Asleep \<Longrightarrow> waits f (shared P) \<or> (\<exists>u. owing m (task P u))"
  using well_toldD [of P t m f late] by (simp add: sound_at_def)

section \<open>Progress\<close>

text \<open>A thread that has something to do, the failure of the process included.\<close>

definition able :: "nat \<Rightarrow> 'a crew \<Rightarrow> bool" where
  "able t P \<longleftrightarrow> phase_of P t \<noteq> Asleep \<and> ((\<exists>Q. cstep t P Q) \<or> (\<exists>e. faults t P e))"

lemma able_outcome:
  assumes "goes_well A r" "\<And>a c. r = Done a c \<Longrightarrow> \<exists>Q. cstep t P Q" "\<And>e. r = Abort e \<Longrightarrow> faults t P e" "phase_of P t \<noteq> Asleep"
  shows "able t P"
  using assms by (cases r) (auto simp: able_def)

lemma able_act:
  assumes s: "sound_at I W R A hs ls P" and x: "task P t = Act f" "phase_of P t \<noteq> Asleep"
  shows "able t P"
proof (rule able_outcome [where r = "f (shared P)" and A = "A (shared P)"])
  show "goes_well (A (shared P)) (f (shared P))" using sound_ok [OF s, of t] sound_inv [OF s] x by (auto simp: ok_simps)
qed (use x in \<open>auto simp: faults_def intro: cstep.acts\<close>)

lemma able_await:
  assumes s: "sound_at I W R A hs ls P" and x: "task P t = Await m f late" "phase_of P t = Awake" "owner P m = Some t"
  shows "able t P"
proof (rule able_outcome [where r = "f (shared P)" and A = "A (shared P)"])
  show "goes_well (A (shared P)) (f (shared P))" using sound_ok [OF s, of t] sound_inv [OF s] x by (auto simp: ok_simps)
  show "\<exists>Q. cstep t P Q" if "f (shared P) = Done a c" for a c
    using that x by (cases a) (auto intro: cstep.finds cstep.decides)
qed (use x in \<open>auto simp: faults_def\<close>)

text \<open>Whoever owns a mutex can go on, so a mutex is never in the way for ever.\<close>

lemma able_owner:
  assumes s: "sound_at I W R A hs ls P" and m: "owner P m = Some t"
  shows "able t P"
proof -
  have lock: "lock_state (owner P) t (phase_of P t) (ls t) (task P t)" using s by (simp add: sound_at_def well_locked_def)
  then have l: "ls t = Some m" using m by (rule lock_owner)
  have ph: "phase_of P t \<noteq> Asleep" using lock m by (auto simp: lock_state_def)
  note ok = sound_ok [OF s, of t, unfolded l]
  show ?thesis
  proof (cases "task P t")
    case (Await m' f late)
    with ok have m': "m' = m" by (simp add: ok_simps)
    then show ?thesis using Await m ph able_await [OF s Await] cstep.sleeps [of P t m f late]
      by (cases "phase_of P t") (auto simp: able_def)
  next
    case (Leave m' k)
    with ph cstep.leave [OF Leave] show ?thesis by (auto simp: able_def)
  next
    case (Act f)
    with ph able_act [OF s Act] show ?thesis by simp
  qed (use ok in \<open>simp_all add: ok_simps\<close>)
qed

text \<open>If no thread can go on, each has stopped or sleeps with reason.\<close>

lemma sound_progress:
  assumes s: "sound_at I W R A hs ls P" and none: "\<And>u. \<not> able u P"
  shows "(\<exists>a. task P t = Stop a) \<or> phase_of P t = Asleep
    \<and> (\<exists>m f late. task P t = Await m f late \<and> waits f (shared P) \<and> waits f \<in> W t m (hs t))"
proof -
  have free: "owner P m = None" for m using able_owner [OF s] none by (cases "owner P m") auto
  have lock: "lock_state (owner P) u (phase_of P u) (ls u) (task P u)" for u using s by (simp add: sound_at_def well_locked_def)
  have idle: "ls u = None \<Longrightarrow> phase_of P u = Awake" for u using lock [of u] by (simp add: lock_state_def)
  have held: "ls u = Some m \<Longrightarrow> \<exists>f late. task P u = Await m f late" for u m
    using lock [of u] free [of m] by (auto simp: lock_state_def awaits_def)
  have woken: "\<not> owing m (task P u)" for u m
  proof
    assume o: "owing m (task P u)"
    then have "ls u = None" using held [of u] by (cases "ls u") (auto simp: owing_def)
    with idle none [of u] have stuck: "\<not> (\<exists>Q. cstep u P Q)" by (simp add: able_def)
    from o consider k where "task P u = Broadcast m k" | k where "task P u = Signal m k" | k where "task P u = Leave m k"
      unfolding owing_def by blast
    then show False
      by cases (use stuck cstep.broadcast [of P u] cstep.signal [of P u] cstep.signal_none [of P u] cstep.leave [of P u] in blast)+
  qed
  show ?thesis
  proof (cases "phase_of P t")
    case Asleep
    then obtain m where "ls t = Some m" using idle [of t] by (cases "ls t") auto
    with held obtain f late where "task P t = Await m f late" by blast
    with sound_sleeper [OF s this Asleep] woken Asleep awaited_reason [OF s this] show ?thesis using \<open>task P t = _\<close> by blast
  next
    case Deciding
    then obtain m where "ls t = Some m" using idle [of t] by (cases "ls t") auto
    with lock [of t] free [of m] Deciding show ?thesis by (simp add: lock_state_def)
  next
    case Awake
    show ?thesis
    proof (cases "task P t")
      case (Await m f late)
      with Awake free none [of t] cstep.locks_again [OF Await Awake] show ?thesis by (auto simp: able_def)
    next
      case (Enter m k)
      with Awake free none [of t] cstep.enter [OF Enter] show ?thesis by (auto simp: able_def)
    next
      case (Leave m k)
      with Awake none [of t] cstep.leave [OF Leave] show ?thesis by (auto simp: able_def)
    next
      case (Broadcast m k)
      with woken [of m t] show ?thesis by (simp add: owing_def)
    next
      case (Signal m k)
      with woken [of m t] show ?thesis by (simp add: owing_def)
    next
      case (Act f)
      with able_act [OF s Act] Awake none [of t] show ?thesis by simp
    qed simp
  qed
qed

end
