(* ===== verification/Queue_Sharing.thy ===== *)
theory Queue_Sharing
  imports Context_Threads
begin

text \<open>
  One queue between a reader and its writers, below the level of calls. Once a reader has chosen the first node it goes on without the
  lock, while writers append. What the reader has in hand decides what the queue will be when it is done, and appending
  commutes with being done.
\<close>

section \<open>The reader's hand\<close>

text \<open>Nothing; the first node, read in part, before each of its three steps; or an unlinked node, before each of its two steps.\<close>

datatype hand =
    Free
  | Copying ptr nat "byte list"
  | Shifting ptr nat
  | Shrinking ptr nat
  | Taking ptr nat "nat \<times> byte list"
  | Releasing ptr

fun hand_ok :: "hand \<Rightarrow> packet_queue \<Rightarrow> bool" where
  "hand_ok Free q = True"
| "hand_ok (Copying p n bs) q = (\<exists>nd. hload (nodes q) p = Some nd \<and> head q = Some p \<and> n < data_len nd
     \<and> data_len nd \<le> length (data nd) \<and> bs = take n (data nd))"
| "hand_ok (Shifting p n) q = (\<exists>nd. hload (nodes q) p = Some nd \<and> head q = Some p \<and> n < data_len nd \<and> data_len nd \<le> length (data nd))"
| "hand_ok (Shrinking p n) q = (\<exists>nd. hload (nodes q) p = Some nd \<and> head q = Some p \<and> n < data_len nd \<and> data_len nd \<le> length (data nd))"
| "hand_ok (Taking p n r) q = (\<exists>nd. hload (nodes q) p = Some nd \<and> data_len nd \<le> length (data nd)
     \<and> r = (data_len nd, take (min n (data_len nd)) (data nd)))"
| "hand_ok (Releasing p) q = (\<exists>nd. hload (nodes q) p = Some nd)"

text \<open>The queue as the reader will leave it.\<close>

definition change_node :: "ptr \<Rightarrow> (packet_queue_node \<Rightarrow> packet_queue_node) \<Rightarrow> packet_queue \<Rightarrow> packet_queue" where
  "change_node p f q = q\<lparr>nodes := hstore (nodes q) p (f (the (hload (nodes q) p)))\<rparr>"

abbreviation drop_front :: "nat \<Rightarrow> packet_queue_node \<Rightarrow> packet_queue_node" where
  "drop_front n nd \<equiv> nd\<lparr>data := copy_up (data nd) 0 n (data_len nd - n), data_len := data_len nd - n\<rparr>"

fun settle :: "hand \<Rightarrow> packet_queue \<Rightarrow> packet_queue" where
  "settle Free q = q"
| "settle (Copying p n bs) q = change_node p (drop_front n) q"
| "settle (Shifting p n) q = change_node p (drop_front n) q"
| "settle (Shrinking p n) q = change_node p (\<lambda>nd. nd\<lparr>data_len := data_len nd - n\<rparr>) q"
| "settle (Taking p n r) q = q\<lparr>nodes := hfree (nodes q) p\<rparr>"
| "settle (Releasing p) q = q\<lparr>nodes := hfree (nodes q) p\<rparr>"

definition held_queue :: "hand \<Rightarrow> packet_queue \<Rightarrow> bool" where
  "held_queue h q \<longleftrightarrow> hand_ok h q \<and> wf_queue (settle h q)"

text \<open>The buffers a next call of the reader will find.\<close>

definition stream :: "hand \<Rightarrow> packet_queue \<Rightarrow> byte list list" where
  "stream h q = contents (settle h q)"

section \<open>Appending\<close>

definition append_node :: "byte list \<Rightarrow> packet_queue \<Rightarrow> packet_queue" where
  "append_node b q = (let a = length (nodes q); h = nodes q @ [Some (new_node b)] in
     if head q = None then q\<lparr>nodes := h, head := Some a, tail := Some a\<rparr>
     else q\<lparr>nodes := hstore h (the (tail q)) ((the (hload (nodes q) (the (tail q))))\<lparr>nxt := Some a\<rparr>), tail := Some a\<rparr>)"

definition appendable :: "packet_queue \<Rightarrow> bool" where
  "appendable q \<longleftrightarrow> (if head q = None then tail q = None
     else \<exists>a t. tail q = Some a \<and> hload (nodes q) a = Some t \<and> nxt t = None)"

lemma wf_appendable: "wf_queue q \<Longrightarrow> appendable q"
proof -
  assume "wf_queue q"
  then have r: "represents q (queue_nodes q)" by (rule wf_queueE)
  show ?thesis
  proof (cases "queue_nodes q = []")
    case True
    with r show ?thesis by (simp add: appendable_def represents_def last_ptr_def)
  next
    case False
    then have "head q \<noteq> None" using represents_head [OF r] by (cases "queue_nodes q") auto
    moreover from r linked_last_nxt [of "nodes q" "head q" "queue_nodes q"] False
    have "\<exists>t. hload (nodes q) (last (queue_nodes q)) = Some t \<and> nxt t = None" by (simp add: represents_def)
    ultimately show ?thesis using r False by (auto simp: appendable_def represents_def last_ptr_def)
  qed
qed

lemma enqueue_run:
  assumes "appendable q"
  shows "mysock_enqueue_buffer (Some b) (length b) q = Done () (append_node b q)"
  using assms hload_bound [of "nodes q"]
  by (auto simp: mysock_enqueue_buffer_def append_node_def appendable_def alloc_node_def load_node_def store_node_def run_simps heap_simps
      Let_def split: if_splits dest: hload_bound)

lemma settle_ends [simp]: "head (settle h q) = head q" "tail (settle h q) = tail q" "length (nodes (settle h q)) = length (nodes q)"
  by (cases h; simp add: change_node_def)+

lemma settle_appendable: "hand_ok h q \<Longrightarrow> appendable (settle h q) \<Longrightarrow> appendable q"
  by (cases h) (auto simp: appendable_def change_node_def heap_simps split: if_splits)

lemma change_append:
  assumes "hload (nodes q) p = Some nd" "appendable q" "head q \<noteq> None" "\<And>x. f (nd\<lparr>nxt := x\<rparr>) = (f nd)\<lparr>nxt := x\<rparr>"
  shows "change_node p f (append_node b q) = append_node b (change_node p f q)"
proof -
  from assms(2,3) obtain x a t where a: "tail q = Some a" "hload (nodes q) a = Some t" "head q = Some x" by (auto simp: appendable_def)
  note bounds = hload_bound [OF a(2)] hload_bound [OF assms(1)]
  show ?thesis
  proof (cases "a = p")
    case True
    with a assms(1,4) bounds show ?thesis
      by (simp add: append_node_def change_node_def Let_def heap_simps) (simp add: hstore_def list_update_append)
  next
    case False
    with a assms(1) bounds show ?thesis
      by (simp add: append_node_def change_node_def Let_def heap_simps) (simp add: hstore_def list_update_append list_update_swap)
  qed
qed

lemma free_append:
  assumes "hload (nodes q) p = Some nd" "appendable (q\<lparr>nodes := hfree (nodes q) p\<rparr>)"
  shows "(append_node b q)\<lparr>nodes := hfree (nodes (append_node b q)) p\<rparr> = append_node b (q\<lparr>nodes := hfree (nodes q) p\<rparr>)"
proof (cases "head q = None")
  case True
  with hload_bound [OF assms(1)] show ?thesis by (simp add: append_node_def Let_def hfree_def list_update_append)
next
  case False
  with assms(2) obtain x a t where a: "tail q = Some a" "hload (nodes q) a = Some t" "a \<noteq> p" "head q = Some x"
    by (auto simp: appendable_def heap_simps split: if_splits)
  with hload_bound [OF assms(1)] hload_bound [OF a(2)] show ?thesis
    by (simp add: append_node_def Let_def heap_simps) (simp add: hstore_def hfree_def list_update_append list_update_swap)
qed

lemma load_append:
  assumes "hload (nodes q) p = Some nd" "appendable q"
  shows "\<exists>x. hload (nodes (append_node b q)) p = Some (nd\<lparr>nxt := x\<rparr>)" "head q = Some a \<Longrightarrow> head (append_node b q) = Some a"
  using assms hload_bound [OF assms(1)]
  by (cases nd; auto simp: append_node_def appendable_def Let_def heap_simps split: if_splits)+

lemma settle_append:
  assumes "hand_ok h q" "appendable (settle h q)"
  shows "settle h (append_node b q) = append_node b (settle h q)" "hand_ok h (append_node b q)"
proof -
  note q = settle_appendable [OF assms]
  show "settle h (append_node b q) = append_node b (settle h q)"
    using assms q by (cases h) (auto simp: change_append free_append)
  show "hand_ok h (append_node b q)"
    using assms(1) load_append(1) [OF _ q, where b = b] load_append(2) [OF _ q, where b = b] by (cases h) (auto; force)+
qed

lemma held_enqueue:
  assumes "held_queue h q"
  shows "\<exists>q'. mysock_enqueue_buffer (Some b) (length b) q = Done () q' \<and> held_queue h q' \<and> stream h q' = stream h q @ [b]"
proof -
  from assms have a: "hand_ok h q" "wf_queue (settle h q)" by (simp_all add: held_queue_def)
  note s = settle_append [OF a(1) wf_appendable [OF a(2)], of b]
  from pq.enq_spec [OF a(2), of b] enqueue_run [OF wf_appendable [OF a(2)], of b]
  have "wf_queue (append_node b (settle h q))" "contents (append_node b (settle h q)) = contents (settle h q) @ [b]" by auto
  with s enqueue_run [OF settle_appendable [OF a(1) wf_appendable [OF a(2)]], of b] show ?thesis
    by (simp add: held_queue_def stream_def)
qed

section \<open>Taking\<close>

lemma head_node:
  assumes "wf_queue q" "contents q = b # bs"
  shows "\<exists>p nd. head q = Some p \<and> hload (nodes q) p = Some nd \<and> data_len nd \<le> length (data nd) \<and> b = take (data_len nd) (data nd)
    \<and> length b = data_len nd \<and> (nxt nd = None \<longrightarrow> tail q = Some p)"
proof -
  from assms obtain a as where r: "represents q (a # as)" and b: "b = node_bytes (nodes q) a"
    using wf_queueE [of q] by (auto simp: contents_def)
  then obtain nd where nd: "hload (nodes q) a = Some nd" "data_len nd \<le> length (data nd)" "head q = Some a" "linked (nodes q) (nxt nd) as"
    by (auto simp: represents_def node_ok_live)
  then have "nxt nd = None \<longrightarrow> as = []" by (cases as) auto
  with r nd b show ?thesis by (intro exI [of _ a] exI [of _ nd]) (auto simp: represents_def last_ptr_def node_bytes_def)
qed

lemma take_nothing: "wf_queue q \<Longrightarrow> contents q = [] \<Longrightarrow> take_head n part q = Done None q"
  using enqueue_head [of q] by (simp add: take_head_def run_simps)

lemma take_part:
  assumes q: "wf_queue q" "contents q = b # bs" and n: "n < length b"
  shows "\<exists>p. take_head n True q = Done (Some (p, True)) q \<and> held_queue (Copying p n (take n b)) q
    \<and> stream (Copying p n (take n b)) q = drop n b # bs"
proof -
  from head_node [OF q] obtain p nd where nd: "head q = Some p" "hload (nodes q) p = Some nd" "data_len nd \<le> length (data nd)"
    "b = take (data_len nd) (data nd)" "length b = data_len nd" by blast
  have "mysock_dequeue_buffer n True q = Done (n, take n (data nd)) (change_node p (drop_front n) q)"
    using nd n by (simp add: mysock_dequeue_buffer_def load_node_def store_node_def change_node_def run_simps)
  with pq.deq_part [OF q n] have "wf_queue (change_node p (drop_front n) q)" "contents (change_node p (drop_front n) q) = drop n b # bs" by auto
  with nd n show ?thesis
    by (intro exI [of _ p]) (simp add: take_head_def load_node_def run_simps held_queue_def stream_def min_def)
qed

lemma take_whole:
  assumes q: "wf_queue q" "contents q = b # bs" and n: "length b \<le> n \<or> \<not> part"
  shows "\<exists>p q'. take_head n part q = Done (Some (p, False)) q' \<and> held_queue (Taking p n (length b, take n b)) q'
    \<and> stream (Taking p n (length b, take n b)) q' = bs"
proof -
  from head_node [OF q] obtain p nd where nd: "head q = Some p" "hload (nodes q) p = Some nd" "data_len nd \<le> length (data nd)"
    "b = take (data_len nd) (data nd)" "length b = data_len nd" "nxt nd = None \<longrightarrow> tail q = Some p" by (elim exE conjE) (rule that)
  let ?q = "q\<lparr>head := nxt nd, tail := (if nxt nd = None then None else tail q)\<rparr>"
  have "mysock_dequeue_buffer n part q = Done (data_len nd, take (min n (data_len nd)) (data nd)) (settle (Releasing p) ?q)"
    using nd n by (auto simp: mysock_dequeue_buffer_def load_node_def run_simps)
  with pq.deq_whole [OF q n] have "wf_queue (settle (Releasing p) ?q)" "contents (settle (Releasing p) ?q) = bs" by auto
  moreover have "take_head n part q = Done (Some (p, False)) ?q"
    using nd n by (auto simp: take_head_def load_node_def run_simps)
  ultimately show ?thesis using nd
    by (intro exI [of _ p] exI [of _ ?q]) (simp add: held_queue_def stream_def min.commute)
qed

lemma held_copy:
  assumes "held_queue (Copying p n bs) q"
  shows "copy_part p n q = Done bs q" "held_queue (Shifting p n) q" "stream (Shifting p n) q = stream (Copying p n bs) q"
  using assms by (auto simp: held_queue_def stream_def copy_part_def load_node_def run_simps)

lemma held_shift:
  assumes "held_queue (Shifting p n) q"
  shows "\<exists>q'. shift_rest p n q = Done () q' \<and> held_queue (Shrinking p n) q' \<and> stream (Shrinking p n) q' = stream (Shifting p n) q"
proof -
  from assms obtain nd where nd: "hload (nodes q) p = Some nd" "head q = Some p" "n < data_len nd" "data_len nd \<le> length (data nd)"
    by (auto simp: held_queue_def)
  let ?q = "q\<lparr>nodes := hstore (nodes q) p (nd\<lparr>data := copy_up (data nd) 0 n (data_len nd - n)\<rparr>)\<rparr>"
  have "settle (Shrinking p n) ?q = settle (Shifting p n) q"
    using nd hload_bound [OF nd(1)] by (simp add: change_node_def heap_simps)
  with assms nd hload_bound [OF nd(1)] show ?thesis
    by (intro exI [of _ ?q]) (simp add: shift_rest_def load_node_def store_node_def run_simps held_queue_def stream_def heap_simps)
qed

lemma held_shrink:
  assumes "held_queue (Shrinking p n) q"
  shows "\<exists>q'. shrink p n q = Done () q' \<and> wf_queue q' \<and> contents q' = stream (Shrinking p n) q"
  using assms by (auto simp: held_queue_def stream_def shrink_def load_node_def store_node_def run_simps change_node_def)

lemma held_take:
  assumes "held_queue (Taking p n r) q"
  shows "copy_whole p n q = Done r q" "held_queue (Releasing p) q" "stream (Releasing p) q = stream (Taking p n r) q"
  using assms by (auto simp: held_queue_def stream_def copy_whole_def load_node_def run_simps)

lemma held_release:
  assumes "held_queue (Releasing p) q"
  shows "\<exists>q'. release p q = Done () q' \<and> wf_queue q' \<and> contents q' = stream (Releasing p) q"
  using assms by (auto simp: held_queue_def stream_def release_def load_node_def run_simps)

lemma held_free [simp]: "held_queue Free q \<longleftrightarrow> wf_queue q" "stream Free q = contents q"
  by (simp_all add: held_queue_def stream_def)

text \<open>Whether there is anything to read shows in the head pointer, whatever the reader has in hand.\<close>

lemma stream_head: "held_queue h q \<Longrightarrow> stream h q = [] \<longleftrightarrow> head q = None"
  using enqueue_head [of "settle h q"] by (simp add: held_queue_def stream_def)

end
