(* ===== verification/Queue_Logic.thy ===== *)
theory Queue_Logic
  imports Crew_Logic Queue_Sharing
begin

text \<open>
  The queue operations in the logic of \<open>Crew_Logic\<close>, once for all invariants. An invariant that follows a queue
  need only say what a change of the buffers still to be read does to it: the locales \<open>queue_reader\<close> and
  \<open>queue_writer\<close> are that interface, and under it the steps of a read and of a write are accepted.
\<close>

section \<open>Writing\<close>

lemma enqueue_any:
  assumes "case packet of None \<Rightarrow> n = 0 | Some b \<Rightarrow> n \<le> length b"
  shows "\<exists>b. b = take n (case packet of None \<Rightarrow> [] | Some b \<Rightarrow> b)
    \<and> mysock_enqueue_buffer packet n = mysock_enqueue_buffer (Some b) (length b)"
proof (cases packet)
  case None
  with assms show ?thesis using enqueue_null by simp
next
  case (Some b)
  with assms show ?thesis using enqueue_take [of n b] by simp
qed

text \<open>The writer t of pq; by its ghost value it may write a buffer, and put adds the buffer to it.\<close>

locale queue_writer =
  fixes I :: "(nat \<Rightarrow> 'h) \<Rightarrow> mysock_context \<Rightarrow> bool" and W :: "'h waiting" and t :: nat and pq :: queue_id
    and may :: "byte list \<Rightarrow> 'h \<Rightarrow> bool" and put :: "byte list \<Rightarrow> 'h \<Rightarrow> 'h"
  assumes writes: "I hs c \<Longrightarrow> \<exists>h. held_queue h (queue pq c)
      \<and> (\<forall>q b. may b (hs t) \<and> held_queue h q \<and> stream h q = stream h (queue pq c) @ [b] \<longrightarrow> I (hs(t := put b (hs t))) (set_queue pq q c))"
    and others: "m \<noteq> Data_ready \<Longrightarrow> hushed W t m c (set_queue pq q c)"
begin

lemma write_run:
  assumes "I hs c" "may b (hs t)" "b = take n (case packet of None \<Rightarrow> [] | Some b \<Rightarrow> b)" "case packet of None \<Rightarrow> n = 0 | Some b \<Rightarrow> n \<le> length b"
  shows "\<exists>q. on_queue pq (mysock_enqueue_buffer packet n) c = Done () (set_queue pq q c) \<and> I (hs(t := put b (hs t))) (set_queue pq q c)"
proof -
  from writes [OF assms(1)] obtain h where h: "held_queue h (queue pq c)"
    "\<forall>q b. may b (hs t) \<and> held_queue h q \<and> stream h q = stream h (queue pq c) @ [b] \<longrightarrow> I (hs(t := put b (hs t))) (set_queue pq q c)" by blast
  from held_enqueue [OF h(1), of b] obtain q where q: "mysock_enqueue_buffer (Some b) (length b) (queue pq c) = Done () q"
    "held_queue h q" "stream h q = stream h (queue pq c) @ [b]" by blast
  with h(2) assms(2) have "I (hs(t := put b (hs t))) (set_queue pq q c)" by blast
  with q(1) enqueue_any [OF assms(4)] assms(3) show ?thesis by (intro exI [of _ q]) (simp add: on_queue_run)
qed

lemma write_ok:
  assumes n: "case packet of None \<Rightarrow> n = 0 | Some b \<Rightarrow> n \<le> length b"
    and may: "may (take n (case packet of None \<Rightarrow> [] | Some b \<Rightarrow> b)) g"
    and k: "ok I W R A t None (put (take n (case packet of None \<Rightarrow> [] | Some b \<Rightarrow> b)) g) k"
  shows "ok I W R A t None g (enqueue_buffer_steps pq packet n k)"
  unfolding enqueue_buffer_steps_def
proof (intro ok.enter ok_act)
  fix hs c a c' assume I: "I hs c" "hs t = g" and r: "on_queue pq (mysock_enqueue_buffer packet n) c = Done a c'"
  from write_run [OF I(1) may [folded I(2)] HOL.refl n] r I(2)
  obtain q where "c' = set_queue pq q c" "I (hs(t := put (take n (case packet of None \<Rightarrow> [] | Some b \<Rightarrow> b)) g)) c'" by auto
  moreover have "told W t (Some Data_ready) c (set_queue pq q c) (Leave Data_ready (Broadcast Data_ready k))" for q
    using others by (auto simp: told_def owing_def)
  ultimately show "\<exists>h'. ok I W R A t (Some Data_ready) h' (Leave Data_ready (Broadcast Data_ready k))
      \<and> I (hs(t := h')) c' \<and> told W t (Some Data_ready) c c' (Leave Data_ready (Broadcast Data_ready k))"
    using k by (intro exI [of _ "put (take n (case packet of None \<Rightarrow> [] | Some b \<Rightarrow> b)) g"]) (simp add: ok_simps)
next
  fix hs c assume "I hs c" "hs t = g"
  with write_run [OF _ _ HOL.refl n] may show "goes_well (A c) (on_queue pq (mysock_enqueue_buffer packet n) c)" by fastforce
qed

end

section \<open>Reading\<close>

text \<open>
  The reader t of pq, which may read in part or not; its ghost value is made from what it has in hand and from a log of what it got,
  which also tells when it may read.
\<close>

locale queue_reader =
  fixes I :: "(nat \<Rightarrow> 'h) \<Rightarrow> mysock_context \<Rightarrow> bool" and W :: "'h waiting" and t :: nat and pq :: queue_id and part :: bool
    and ghost :: "hand \<Rightarrow> 'l \<Rightarrow> 'h" and got :: "byte list \<Rightarrow> 'l \<Rightarrow> 'l" and may :: "nat \<Rightarrow> 'l \<Rightarrow> bool"
  assumes holds: "I hs c \<Longrightarrow> hs t = ghost h l \<Longrightarrow> held_queue h (queue pq c)"
    and goes_on: "I hs c \<Longrightarrow> hs t = ghost h l \<Longrightarrow> held_queue h' q \<Longrightarrow> stream h' q = stream h (queue pq c)
      \<Longrightarrow> I (hs(t := ghost h' l)) (set_queue pq q c)"
    and takes: "I hs c \<Longrightarrow> hs t = ghost Free l \<Longrightarrow> may n l \<Longrightarrow> contents (queue pq c) = b # bs \<Longrightarrow> held_queue h q
      \<Longrightarrow> stream h q = (if part \<and> n < length b then drop n b # bs else bs) \<Longrightarrow> I (hs(t := ghost h (got (take n b) l))) (set_queue pq q c)"
    and own: "hushed W t m c (set_queue pq q c)"
    and waiter: "\<exists>g. W t Data_ready g \<noteq> {}"
    and waits_here: "I hs c \<Longrightarrow> hs t = ghost Free l \<Longrightarrow> may n l \<Longrightarrow> head (queue pq c) = None \<Longrightarrow> (\<lambda>c. head (queue pq c) = None) \<in> W t Data_ready (ghost Free l)"
begin

lemma told_here: "told W t lk c (set_queue pq q c) x"
  using own by (simp add: told_def)

text \<open>An act of the reader on the queue after which the buffers still to be read are the same.\<close>

lemma act_ok:
  assumes run: "\<And>q. held_queue h q \<Longrightarrow> \<exists>a q'. m q = Done a q' \<and> P a \<and> held_queue h' q' \<and> stream h' q' = stream h q"
    and k: "\<And>a. P a \<Longrightarrow> ok I W R A t None (ghost h' l) (k a)"
  shows "ok I W R A t None (ghost h l) (act (on_queue pq m) k)"
proof (rule ok_act)
  fix hs c a c' assume I: "I hs c" "hs t = ghost h l" and r: "on_queue pq m c = Done a c'"
  from run [OF holds [OF I]] r obtain q' where q': "c' = set_queue pq q' c" "P a" "held_queue h' q'" "stream h' q' = stream h (queue pq c)"
    by (auto simp: on_queue_run)
  with k [OF q'(2)] goes_on [OF I q'(3,4)] told_here
  show "\<exists>g'. ok I W R A t None g' (k a) \<and> I (hs(t := g')) c' \<and> told W t None c c' (k a)" by blast
next
  fix hs c assume "I hs c" "hs t = ghost h l"
  with run [OF holds] show "goes_well (A c) (on_queue pq m c)" by (fastforce simp: on_queue_run)
qed

lemma part_ok:
  assumes "ok I W R A t None (ghost Free l) (k (n, bs))"
  shows "ok I W R A t None (ghost (Copying p n bs) l) (part_steps pq p n k)"
  unfolding part_steps_def
proof (rule act_ok [where h' = "Shifting p n" and P = "\<lambda>x. x = bs"])
  show "\<exists>x q'. copy_part p n q = Done x q' \<and> x = bs \<and> held_queue (Shifting p n) q' \<and> stream (Shifting p n) q' = stream (Copying p n bs) q"
    if "held_queue (Copying p n bs) q" for q
    using held_copy [OF that] by blast
  fix x assume "x = bs"
  show "ok I W R A t None (ghost (Shifting p n) l) (act (on_queue pq (shift_rest p n)) (\<lambda>_. act (on_queue pq (shrink p n)) (\<lambda>_. k (n, x))))"
  proof (rule act_ok [where h' = "Shrinking p n" and P = "\<lambda>_. True"])
    show "\<exists>a q'. shift_rest p n q = Done a q' \<and> True \<and> held_queue (Shrinking p n) q' \<and> stream (Shrinking p n) q' = stream (Shifting p n) q"
      if "held_queue (Shifting p n) q" for q using held_shift [OF that] by blast
    show "ok I W R A t None (ghost (Shrinking p n) l) (act (on_queue pq (shrink p n)) (\<lambda>_. k (n, x)))"
    proof (rule act_ok [where h' = Free and P = "\<lambda>_. True"])
      show "\<exists>a q'. shrink p n q = Done a q' \<and> True \<and> held_queue Free q' \<and> stream Free q' = stream (Shrinking p n) q"
        if "held_queue (Shrinking p n) q" for q using held_shrink [OF that] by auto
    qed (use assms \<open>x = bs\<close> in simp)
  qed
qed

lemma whole_ok:
  assumes "ok I W R A t None (ghost Free l) (k r)"
  shows "ok I W R A t None (ghost (Taking p n r) l) (whole_steps pq p n k)"
  unfolding whole_steps_def
proof (rule act_ok [where h' = "Releasing p" and P = "\<lambda>x. x = r"])
  show "\<exists>x q'. copy_whole p n q = Done x q' \<and> x = r \<and> held_queue (Releasing p) q' \<and> stream (Releasing p) q' = stream (Taking p n r) q"
    if "held_queue (Taking p n r) q" for q using held_take [OF that] by blast
  fix x assume "x = r"
  show "ok I W R A t None (ghost (Releasing p) l) (act (on_queue pq (release p)) (\<lambda>_. k x))"
  proof (rule act_ok [where h' = Free and P = "\<lambda>_. True"])
    show "\<exists>a q'. release p q = Done a q' \<and> True \<and> held_queue Free q' \<and> stream Free q' = stream (Releasing p) q"
      if "held_queue (Releasing p) q" for q using held_release [OF that] by auto
  qed (use assms \<open>x = r\<close> in simp)
qed

text \<open>The choice of the first node, with the lock held.\<close>

lemma take_cases:
  assumes I: "I hs c" "hs t = ghost Free l" and may: "may n l"
  shows "dequeue_test pq n part k c = Done None c \<and> head (queue pq c) = None
    \<or> (\<exists>p b q. dequeue_test pq n part k c = Done (Some (Leave Data_ready (part_steps pq p n k))) (set_queue pq q c)
        \<and> head (queue pq c) \<noteq> None \<and> I (hs(t := ghost (Copying p n (take n b)) (got (take n b) l))) (set_queue pq q c))
    \<or> (\<exists>p b q. dequeue_test pq n part k c = Done (Some (Leave Data_ready (whole_steps pq p n k))) (set_queue pq q c)
        \<and> head (queue pq c) \<noteq> None \<and> I (hs(t := ghost (Taking p n (length b, take n b)) (got (take n b) l))) (set_queue pq q c))"
proof (cases "contents (queue pq c)")
  case Nil
  with holds [OF I] take_nothing [of "queue pq c" n part] enqueue_head [of "queue pq c"] show ?thesis
    by (simp add: dequeue_test_def on_queue_run run_simps)
next
  case (Cons b bs)
  note wf = holds [OF I, unfolded held_free]
  have hd: "head (queue pq c) \<noteq> None" using enqueue_head [OF wf] Cons by simp
  show ?thesis
  proof (cases "part \<and> n < length b")
    case True
    with take_part [OF wf Cons, of n] obtain p where p: "take_head n part (queue pq c) = Done (Some (p, True)) (queue pq c)"
      "held_queue (Copying p n (take n b)) (queue pq c)" "stream (Copying p n (take n b)) (queue pq c) = drop n b # bs" by auto
    from takes [OF I may Cons p(2)] p(3) True
    have "I (hs(t := ghost (Copying p n (take n b)) (got (take n b) l))) (set_queue pq (queue pq c) c)" by simp
    moreover have "dequeue_test pq n part k c = Done (Some (Leave Data_ready (part_steps pq p n k))) (set_queue pq (queue pq c) c)"
      using p(1) by (simp add: dequeue_test_def on_queue_run run_simps)
    ultimately show ?thesis using hd by blast
  next
    case False
    with take_whole [OF wf Cons, of n part] obtain p q where p: "take_head n part (queue pq c) = Done (Some (p, False)) q"
      "held_queue (Taking p n (length b, take n b)) q" "stream (Taking p n (length b, take n b)) q = bs" by (meson not_less)
    from takes [OF I may Cons p(2)] p(3) False
    have "I (hs(t := ghost (Taking p n (length b, take n b)) (got (take n b) l))) (set_queue pq q c)" by simp
    moreover have "dequeue_test pq n part k c = Done (Some (Leave Data_ready (whole_steps pq p n k))) (set_queue pq q c)"
      using p(1) by (simp add: dequeue_test_def on_queue_run run_simps)
    ultimately show ?thesis using hd by blast
  qed
qed

lemma dequeue_waits: "waits (dequeue_test pq n part k) = (\<lambda>c. head (queue pq c) = None)"
  by (rule ext) (auto simp: waits_def dequeue_test_def take_head_def on_queue_run run_simps load_node_def split: outcome.splits option.splits if_splits)

lemma read_ok:
  assumes may: "may n l" and k: "\<And>m bs. ok I W R A t None (ghost Free (got bs l)) (k (m, bs))"
  shows "ok I W R A t None (ghost Free l) (dequeue_buffer_steps pq n part k)"
  unfolding dequeue_buffer_steps_def
proof (rule ok.enter, rule exE [OF waiter], rule ok.await)
  show "W t Data_ready g \<noteq> {}" if "W t Data_ready g \<noteq> {}" for g using that .
next
  fix hs c c' assume I: "I hs c" "hs t = ghost Free l" and "dequeue_test pq n part k c = Done None c'"
  then have "c' = c" "head (queue pq c) = None" using take_cases [OF I may, of k] by auto
  then show "c' = c \<and> waits (dequeue_test pq n part k) \<in> W t Data_ready (ghost Free l)" using waits_here [OF I may] by (simp add: dequeue_waits)
next
  fix hs c x c' assume I: "I hs c" "hs t = ghost Free l" and r: "dequeue_test pq n part k c = Done (Some x) c'"
  from take_cases [OF I may, of k] r
  consider (in_part) p b q where "x = Leave Data_ready (part_steps pq p n k)" "c' = set_queue pq q c"
      "I (hs(t := ghost (Copying p n (take n b)) (got (take n b) l))) (set_queue pq q c)"
    | (whole) p b q where "x = Leave Data_ready (whole_steps pq p n k)" "c' = set_queue pq q c"
      "I (hs(t := ghost (Taking p n (length b, take n b)) (got (take n b) l))) (set_queue pq q c)" by auto
  then show "\<exists>g'. ok I W R A t (Some Data_ready) g' x \<and> I (hs(t := g')) c' \<and> told W t (Some Data_ready) c c' x"
  proof cases
    case in_part
    then show ?thesis using k told_here by (blast intro: ok.leave part_ok)
  next
    case whole
    then show ?thesis using k told_here by (blast intro: ok.leave whole_ok)
  qed
next
  fix hs c assume "I hs c" "hs t = ghost Free l"
  then show "goes_well (A c) (dequeue_test pq n part k c)" using take_cases [of hs c l n k] may by auto
qed simp

end

end
