(* ===== verification/Context_Safety.thy ===== *)
theory Context_Safety
  imports Queue_Logic
begin

text \<open>
  Any number of threads on one context. Each queue has one thread that reads it, one thread waits for events and reads
  both queues of the transport layer, one thread waits for the connection; who writes, closes or announces is free.
  Then no step of any thread touches memory that is not there, and no wake-up is lost. With two readers of one
  queue this fails.
\<close>

section \<open>Roles\<close>

text \<open>A thread that makes any calls within its role, one after the other: who reads a queue (by myread or by a call of the transport layer),
  who waits for events and who waits for the connection is fixed, writing, closing and announcing is free. rd tells who reads which queue, cn who waits for the connection.\<close>

inductive client :: "(queue_id \<Rightarrow> nat) \<Rightarrow> nat \<Rightarrow> nat \<Rightarrow> 'a code \<Rightarrow> bool" for rd cn t where
  stop: "client rd cn t (Stop a)"
| enqueue: "(case packet of None \<Rightarrow> n = 0 | Some b \<Rightarrow> n \<le> length b) \<Longrightarrow> client rd cn t k \<Longrightarrow> client rd cn t (enqueue_buffer_steps pq packet n k)"
| dequeue: "rd pq = t \<Longrightarrow> (\<And>r. client rd cn t (k r)) \<Longrightarrow> client rd cn t (dequeue_buffer_steps pq n part k)"
| wait_for_event: "rd App_recv_queue = t \<Longrightarrow> rd Network_recv_queue = t \<Longrightarrow> (\<And>rc. client rd cn t (k rc))
    \<Longrightarrow> client rd cn t (wait_for_event_steps flags timed k)"
| app_write: "n \<le> length buf \<Longrightarrow> (\<And>r. client rd cn t (k r)) \<Longrightarrow> client rd cn t (mywrite_steps buf n k)"
| app_read: "rd App_send_queue = t \<Longrightarrow> (\<And>r. client rd cn t (k r)) \<Longrightarrow> client rd cn t (myread_steps n k)"
| close_request: "client rd cn t k \<Longrightarrow> client rd cn t (close_request_steps k)"
| wait_for_connection: "cn = t \<Longrightarrow> (\<And>r. client rd cn t (k r)) \<Longrightarrow> client rd cn t (wait_for_connection_steps k)"
| unblock_application: "client rd cn t k \<Longrightarrow> client rd cn t (unblock_application_steps err k)"
| transport_end: "client rd cn t k \<Longrightarrow> client rd cn t (transport_end_steps err k)"

text \<open>The ghost value of a thread: what it has in hand of which queue.\<close>

type_synonym hands = "nat \<Rightarrow> (queue_id \<times> hand) option"

definition hand_for :: "(queue_id \<Rightarrow> nat) \<Rightarrow> hands \<Rightarrow> queue_id \<Rightarrow> hand" where
  "hand_for rd hs pq = (case hs (rd pq) of None \<Rightarrow> Free | Some (pq', h) \<Rightarrow> if pq' = pq then h else Free)"

definition queues_held :: "(queue_id \<Rightarrow> nat) \<Rightarrow> hands \<Rightarrow> mysock_context \<Rightarrow> bool" where
  "queues_held rd hs c \<longleftrightarrow> (\<forall>pq. held_queue (hand_for rd hs pq) (queue pq c))"

text \<open>The conditions under which the threads wait.\<close>

definition no_event :: "32 word \<Rightarrow> mysock_context \<Rightarrow> bool" where
  "no_event flags c \<longleftrightarrow> (\<exists>c'. wait_round flags c = Done 0 c')"

fun role_waits :: "(queue_id \<Rightarrow> nat) \<Rightarrow> nat \<Rightarrow> (queue_id \<times> hand) option waiting" where
  "role_waits rd cn t Data_ready h = {\<lambda>c. head (queue pq c) = None |pq. rd pq = t}
     \<union> {no_event flags |flags. rd App_recv_queue = t \<and> rd Network_recv_queue = t}"
| "role_waits rd cn t Blocking h = (if t = cn then {blocking} else {})"

text \<open>The failures that are left, and when: the end of the handshake is announced although it has been announced, or the
  application writes or reads although the close has been requested.\<close>

definition tolerated :: "mysock_context \<Rightarrow> fault \<Rightarrow> bool" where
  "tolerated c e \<longleftrightarrow> e = Assertion ''stcp_api.c'' 36 \<and> \<not> blocking c
     \<or> (e = Assertion ''mysock_api.c'' 205 \<or> e = Assertion ''mysock_api.c'' 220) \<and> close_requested c"

abbreviation fit :: "(queue_id \<Rightarrow> nat) \<Rightarrow> nat \<Rightarrow> nat \<Rightarrow> monitor option \<Rightarrow> (queue_id \<times> hand) option \<Rightarrow> 'a code \<Rightarrow> bool" where
  "fit rd cn \<equiv> ok (queues_held rd) (role_waits rd cn) (\<lambda>t h a. h = None) tolerated"

section \<open>Changes that end no wait\<close>

lemma wait_round_cases:
  obtains "no_event flags c" "wait_round flags c = Done 0 c"
  | rc c' where "wait_round flags c = Done rc c'" "rc \<noteq> 0" "c' = c \<or> c' = c\<lparr>close_requested := False\<rparr>"
proof -
  obtain rc c' where w: "wait_round flags c = Done rc c'" "c' = c \<or> c' = c\<lparr>close_requested := False\<rparr>"
    "rc = 0 \<longrightarrow> c' = c"
    by (cases "close_requested c \<and> head (app_recv_queue c) = None") (auto simp: wait_round_def Let_def)
  then show thesis using that by (cases "rc = 0") (auto simp: no_event_def)
qed

lemma no_event_iff:
  "no_event flags c \<longleftrightarrow> (flags AND APP_DATA \<noteq> 0 \<longrightarrow> head (app_recv_queue c) = None)
     \<and> (flags AND NETWORK_DATA \<noteq> 0 \<longrightarrow> head (network_recv_queue c) = None)
     \<and> (head (app_recv_queue c) = None \<longrightarrow> \<not> close_requested c)"
  by (auto simp: no_event_def wait_round_def Let_def)

lemma hushed_own:
  assumes "\<And>pq. rd pq \<noteq> t \<Longrightarrow> queue pq c' = queue pq c" "close_requested c' \<longrightarrow> close_requested c" "blocking c' = blocking c"
  shows "hushed (role_waits rd cn) t m c c'"
  using assms(1) [of App_recv_queue] assms(1) [of Network_recv_queue] assms
  by (cases m) (auto simp: hushed_def no_event_iff)

lemma told_own:
  assumes "\<And>pq. rd pq \<noteq> t \<Longrightarrow> queue pq c' = queue pq c" "close_requested c' \<longrightarrow> close_requested c" "blocking c' = blocking c"
  shows "told (role_waits rd cn) t l c c' k"
  using hushed_own [OF assms] by (simp add: told_def)

lemma told_wake:
  assumes "\<And>m'. m' \<noteq> m \<Longrightarrow> hushed W t m' c c'" "owing m k"
  shows "told W t (Some m) c c' k"
  unfolding told_def
proof
  fix m'
  show "hushed W t m' c c' \<or> Some m = Some m' \<and> owing m' k" using assms by (cases "m' = m") simp_all
qed

lemma hushed_blocking: "blocking c' = blocking c \<Longrightarrow> hushed (role_waits rd cn) t Blocking c c'"
  by (simp add: hushed_def)

lemma hushed_data_ready:
  assumes "\<And>pq. queue pq c' = queue pq c" "close_requested c' = close_requested c"
  shows "hushed (role_waits rd cn) t Data_ready c c'"
proof -
  have "app_recv_queue c' = app_recv_queue c" "network_recv_queue c' = network_recv_queue c"
    using assms(1) [of App_recv_queue] assms(1) [of Network_recv_queue] by simp_all
  with assms show ?thesis by (auto simp: hushed_def no_event_iff)
qed

lemma set_queue_keeps [simp]:
  "blocking (set_queue pq q c) = blocking c" "close_requested (set_queue pq q c) = close_requested c"
  "is_active (set_queue pq q c) = is_active c" "stcp_errno (set_queue pq q c) = stcp_errno c"
  by (cases pq; simp)+

lemma told_own_queue: "rd pq = t \<Longrightarrow> told (role_waits rd cn) t l c (set_queue pq q c) k"
  by (rule told_own) auto

lemma told_broadcast: "told (role_waits rd cn) t (Some Data_ready) c (set_queue pq q c) (Leave Data_ready (Broadcast Data_ready k))"
  by (rule told_wake, metis hushed_blocking monitor.exhaust set_queue_keeps(1)) (simp add: owing_def)

section \<open>The calls are accepted\<close>

lemma one_waiter_blocking: "one_waiter (role_waits rd cn) Blocking"
  by (simp add: one_waiter_def)

lemma queues_held_own:
  assumes "queues_held rd hs c" "rd pq = t" "hs t = None \<or> (\<exists>h. hs t = Some (pq, h))"
    and "h' = Some (pq, h) \<and> held_queue h q \<or> h' = None \<and> wf_queue q"
  shows "queues_held rd (hs(t := h')) (set_queue pq q c)"
  unfolding queues_held_def
proof
  fix pq'
  have old: "held_queue (hand_for rd hs pq') (queue pq' c)" using assms(1) by (simp add: queues_held_def)
  show "held_queue (hand_for rd (hs(t := h')) pq') (queue pq' (set_queue pq q c))"
  proof (cases "pq' = pq")
    case True
    with assms(2,4) show ?thesis by (auto simp: hand_for_def)
  next
    case False
    then have "hand_for rd (hs(t := h')) pq' = hand_for rd hs pq'"
      using assms(2,3,4) by (cases "rd pq' = t") (auto simp: hand_for_def)
    with old False show ?thesis by simp
  qed
qed

lemma queues_held_other:
  "queues_held rd hs c \<Longrightarrow> held_queue (hand_for rd hs pq) q \<Longrightarrow> queues_held rd hs (set_queue pq q c)"
  by (simp add: queues_held_def)

lemma queues_heldD: "queues_held rd hs c \<Longrightarrow> held_queue (hand_for rd hs pq) (queue pq c)"
  by (simp add: queues_held_def)

lemma queues_held_cong: "(\<And>pq. queue pq c' = queue pq c) \<Longrightarrow> queues_held rd hs c \<Longrightarrow> queues_held rd hs c'"
  by (simp add: queues_held_def)

lemma hand_here: "hs (rd pq) = Some (pq, h) \<Longrightarrow> hand_for rd hs pq = h"
  and hand_none: "hs (rd pq) = None \<Longrightarrow> hand_for rd hs pq = Free"
  by (simp_all add: hand_for_def)

interpretation safe_writer: queue_writer "queues_held rd" "role_waits rd cn" t pq "\<lambda>_ _. True" "\<lambda>_ g. g" for rd cn t pq
proof
  fix hs :: hands and c assume "queues_held rd hs c"
  then show "\<exists>h. held_queue h (queue pq c) \<and> (\<forall>q b. True \<and> held_queue h q \<and> stream h q = stream h (queue pq c) @ [b]
      \<longrightarrow> queues_held rd (hs(t := hs t)) (set_queue pq q c))"
    using queues_heldD [of rd hs c pq] queues_held_other [of rd hs c pq] by auto
qed (metis hushed_blocking monitor.exhaust set_queue_keeps(1))

interpretation safe_reader: queue_reader "queues_held rd" "role_waits rd cn" "rd pq" pq part
    "\<lambda>h _. if h = Free then None else Some (pq, h)" "\<lambda>_ l :: unit. l" "\<lambda>_ _. True" for rd cn pq part
proof
  fix hs c h q and l :: unit
  assume I: "queues_held rd hs c" and g: "hs (rd pq) = (if h = Free then None else Some (pq, h))"
  then have h: "hand_for rd hs pq = h" by (auto simp: hand_for_def split: if_splits)
  with I show "held_queue h (queue pq c)" using queues_heldD by blast
  fix h' assume "held_queue h' q"
  with I g show "queues_held rd (hs(rd pq := if h' = Free then None else Some (pq, h'))) (set_queue pq q c)"
    by (intro queues_held_own) (auto split: if_splits)
next
  fix hs c h q b bs n and l :: unit
  assume "queues_held rd hs c" "hs (rd pq) = (if Free = Free then None else Some (pq, Free))" "held_queue h q"
  then show "queues_held rd (hs(rd pq := if h = Free then None else Some (pq, h))) (set_queue pq q c)"
    by (intro queues_held_own) (auto split: if_splits)
qed (auto intro: hushed_own)

lemma event_waits: "waits (event_test flags k) = no_event flags"
  by (rule ext) (auto simp: waits_def no_event_def event_test_def run_simps split: outcome.splits)

lemma connection_waits: "waits (connection_test k) = blocking"
  by (rule ext) (auto simp: waits_def connection_test_def run_simps)

lemma event_fit:
  assumes rd: "rd App_recv_queue = t" "rd Network_recv_queue = t" and k: "\<And>rc. fit rd cn t None None (k rc)"
  shows "fit rd cn t None None (wait_for_event_steps flags timed k)"
  unfolding wait_for_event_steps_def
proof (intro ok.enter ok.await)
  have W: "waits (event_test flags k) \<in> role_waits rd cn t Data_ready None" unfolding event_waits using rd by auto
  then show "role_waits rd cn t Data_ready None \<noteq> {}" by blast
  fix hs c c' assume "event_test flags k c = Done None c'"
  then have "c' = c" by (cases rule: wait_round_cases [of flags c]) (auto simp: event_test_def run_simps)
  with W show "c' = c \<and> waits (event_test flags k) \<in> role_waits rd cn t Data_ready None" by blast
next
  fix hs c x c' assume I: "queues_held rd hs c" "hs t = None" and "event_test flags k c = Done (Some x) c'"
  then obtain rc where x: "x = Leave Data_ready (k rc)" "c' = c \<or> c' = c\<lparr>close_requested := False\<rparr>"
    by (cases rule: wait_round_cases [of flags c]) (auto simp: event_test_def run_simps)
  have q: "queue pq c' = queue pq c" for pq using x(2) by (cases pq) auto
  have "told (role_waits rd cn) t (Some Data_ready) c c' x" using x(2) q by (intro told_own) auto
  with x(1) k I q show "\<exists>h'. fit rd cn t (Some Data_ready) h' x \<and> queues_held rd (hs(t := h')) c' \<and> told (role_waits rd cn) t (Some Data_ready) c c' x"
    by (intro exI [of _ None]) (simp add: fun_upd_idem ok_simps queues_held_cong [of c' c])
next
  fix c
  show "goes_well (tolerated c) (event_test flags k c)" by (cases rule: wait_round_cases [of flags c]) (auto simp: event_test_def run_simps)
next
  fix x assume "(if timed then Some (Leave Data_ready (k 0)) else None) = Some x"
  with k show "fit rd cn t (Some Data_ready) None x" by (auto simp: ok_simps split: if_splits)
qed

lemma close_request_fit:
  assumes k: "fit rd cn t None None k"
  shows "fit rd cn t None None (close_request_steps k)"
  unfolding close_request_steps_def
proof (intro ok.enter ok_act)
  fix hs c a c' assume I: "queues_held rd hs c" "hs t = None" and "modify (\<lambda>c. c\<lparr>close_requested := True\<rparr>) c = Done a c'"
  then have c': "c' = c\<lparr>close_requested := True\<rparr>" by (simp add: run_simps)
  have q: "queue pq c' = queue pq c" for pq unfolding c' by (cases pq) simp_all
  have "told (role_waits rd cn) t (Some Data_ready) c c' (Leave Data_ready (Broadcast Data_ready k))"
  proof (rule told_wake)
    fix m assume "m \<noteq> Data_ready"
    then show "hushed (role_waits rd cn) t m c c'" using hushed_blocking [of c' c] by (cases m) (simp_all add: c')
  qed (simp add: owing_def)
  with I k q show "\<exists>h'. fit rd cn t (Some Data_ready) h' (Leave Data_ready (Broadcast Data_ready k))
      \<and> queues_held rd (hs(t := h')) c' \<and> told (role_waits rd cn) t (Some Data_ready) c c' (Leave Data_ready (Broadcast Data_ready k))"
    by (intro exI [of _ None]) (simp add: fun_upd_idem ok_simps queues_held_cong [of c' c])
qed (simp add: run_simps)

lemma announce_fit:
  assumes k: "fit rd cn t None None k"
  shows "fit rd cn t None None (unblock_application_steps err k)"
  unfolding unblock_application_steps_def
proof (intro ok.enter ok_act)
  fix hs c a c' assume I: "queues_held rd hs c" "hs t = None" and "announce err c = Done a c'"
  then have c': "c' = c\<lparr>blocking := False, stcp_errno := (if err = EINTR then 0 else err)\<rparr>"
    by (simp add: announce_def run_simps split: if_splits)
  have q: "queue pq c' = queue pq c" for pq unfolding c' by (cases pq) simp_all
  have "told (role_waits rd cn) t (Some Blocking) c c' (Leave Blocking (Signal Blocking k))"
  proof (rule told_wake)
    fix m assume "m \<noteq> Blocking"
    then show "hushed (role_waits rd cn) t m c c'" using hushed_data_ready [of c' c] q by (cases m) (simp_all add: c')
  qed (simp add: owing_def)
  with I k q show "\<exists>h'. fit rd cn t (Some Blocking) h' (Leave Blocking (Signal Blocking k))
      \<and> queues_held rd (hs(t := h')) c' \<and> told (role_waits rd cn) t (Some Blocking) c c' (Leave Blocking (Signal Blocking k))"
    by (intro exI [of _ None]) (simp add: fun_upd_idem ok_simps queues_held_cong [of c' c] one_waiter_blocking)
next
  fix c
  show "goes_well (tolerated c) (announce err c)" by (simp add: announce_def tolerated_def run_simps)
qed

text \<open>An act that touches neither the queues nor what the threads wait for, and fails only as tolerated.\<close>

lemma side_fit:
  assumes m: "\<And>c a c'. m c = Done a c' \<Longrightarrow> (\<forall>pq. queue pq c' = queue pq c) \<and> close_requested c' = close_requested c \<and> blocking c' = blocking c"
    and A: "\<And>c. goes_well (tolerated c) (m c)" and k: "\<And>a. fit rd cn t l None (k a)"
  shows "fit rd cn t l None (act m k)"
proof (rule ok_act)
  fix hs c a c' assume I: "queues_held rd hs c" "hs t = None" "m c = Done a c'"
  note same = m [OF I(3)]
  then have "queues_held rd hs c'" using I(1) queues_held_cong by blast
  moreover have "told (role_waits rd cn) t l c c' (k a)" using same by (intro told_own) simp_all
  ultimately show "\<exists>h'. fit rd cn t l h' (k a) \<and> queues_held rd (hs(t := h')) c' \<and> told (role_waits rd cn) t l c c' (k a)"
    using k I(2) by (intro exI [of _ None]) (simp add: fun_upd_idem)
qed (rule A)

lemma look_fit:
  assumes "\<And>c. m c = Done (r c) c" "\<And>a. fit rd cn t l None (k a)"
  shows "fit rd cn t l None (act m k)"
  by (rule side_fit) (simp_all add: assms)

lemma connection_fit:
  assumes k: "\<And>r. fit rd cn cn None None (k r)"
  shows "fit rd cn cn None None (wait_for_connection_steps k)"
  unfolding wait_for_connection_steps_def
proof (intro ok.enter ok.await)
  show "c' = c \<and> waits (connection_test k) \<in> role_waits rd cn cn Blocking None" if "connection_test k c = Done None c'" for c c'
    using that by (simp add: connection_waits) (simp add: connection_test_def run_simps split: if_splits)
next
  fix hs c x c' assume I: "queues_held rd hs c" "hs cn = None" and "connection_test k c = Done (Some x) c'"
  then have x: "x = Leave Blocking (act (gets stcp_errno) (\<lambda>e. k (if e \<noteq> 0 then Inl e else Inr 0)))" "c' = c"
    by (auto simp: connection_test_def run_simps split: if_splits)
  have "fit rd cn cn None None (act (gets stcp_errno) (\<lambda>e. k (if e \<noteq> 0 then Inl e else Inr 0)))"
    by (rule look_fit [where r = stcp_errno]) (use k in \<open>simp_all add: run_simps\<close>)
  with x I show "\<exists>h'. fit rd cn cn (Some Blocking) h' x \<and> queues_held rd (hs(cn := h')) c' \<and> told (role_waits rd cn) cn (Some Blocking) c c' x"
    by (intro exI [of _ None]) (auto simp: fun_upd_idem ok_simps intro: told_own)
qed (auto simp: connection_test_def run_simps split: if_splits)

lemma enqueue_fit:
  "(case packet of None \<Rightarrow> n = 0 | Some b \<Rightarrow> n \<le> length b) \<Longrightarrow> fit rd cn t None None k
    \<Longrightarrow> fit rd cn t None None (enqueue_buffer_steps pq packet n k)"
  by (rule safe_writer.write_ok [OF _ TrueI])

lemma dequeue_fit:
  "(\<And>r. fit rd cn (rd pq) None None (k r)) \<Longrightarrow> fit rd cn (rd pq) None None (dequeue_buffer_steps pq n part k)"
  by (rule safe_reader.read_ok [OF TrueI, simplified])

lemma write_fit:
  assumes "n \<le> length buf" "\<And>r. fit rd cn t None None (k r)"
  shows "fit rd cn t None None (mywrite_steps buf n k)"
  unfolding mywrite_steps_def
proof (rule look_fit [where r = listening])
  have "fit rd cn t None None (act (bind (gets close_requested) (\<lambda>b. assert_at ''mysock_api.c'' 205 (\<not> b)))
      (\<lambda>_. enqueue_buffer_steps App_recv_queue (Some buf) n (k (Inr (int_of_size n)))))"
    by (rule side_fit) (use assms in \<open>auto simp: run_simps tolerated_def assert_at_def intro!: enqueue_fit split: if_splits\<close>)
  with assms(2) show "fit rd cn t None None (if l then k (Inl EINVAL) else act (bind (gets close_requested)
      (\<lambda>b. assert_at ''mysock_api.c'' 205 (\<not> b))) (\<lambda>_. enqueue_buffer_steps App_recv_queue (Some buf) n (k (Inr (int_of_size n)))))" for l
    by simp
qed (simp add: run_simps)

lemma read_fit:
  assumes "rd App_send_queue = t" "\<And>r. fit rd cn t None None (k r)"
  shows "fit rd cn t None None (myread_steps n k)"
  unfolding myread_steps_def
proof (rule look_fit [where r = listening])
  let ?done = "\<lambda>r :: nat \<times> byte list. if int_of_size (fst r) = 0
      then act (modify (\<lambda>c. c\<lparr>eof := True\<rparr>)) (\<lambda>_. k (Inr (int_of_size (fst r), snd r))) else k (Inr (int_of_size (fst r), snd r))"
  let ?data = "\<lambda>e. if e then k (Inr (0, [])) else dequeue_buffer_steps App_send_queue n True ?done"
  have mark: "queue pq (c\<lparr>eof := True\<rparr>) = queue pq c" for pq c by (cases pq) simp_all
  have "fit rd cn t None None (act (modify (\<lambda>c. c\<lparr>eof := True\<rparr>)) (\<lambda>_. k x))" for x
    by (rule side_fit) (use assms(2) mark in \<open>auto simp: run_simps\<close>)
  then have "fit rd cn t None None (?done r)" for r using assms(2) by simp
  then have "fit rd cn t None None (dequeue_buffer_steps App_send_queue n True ?done)" using dequeue_fit [of rd cn App_send_queue ?done] assms(1) by simp
  then have "fit rd cn t None None (?data e)" for e using assms(2) by simp
  then have "fit rd cn t None None (act (gets eof) ?data)" by (intro look_fit [where r = eof]) (simp_all add: run_simps)
  then have "fit rd cn t None None (act (bind (gets close_requested) (\<lambda>b. assert_at ''mysock_api.c'' 220 (\<not> b))) (\<lambda>_. act (gets eof) ?data))"
    by (rule side_fit [rotated 2]) (auto simp: run_simps tolerated_def assert_at_def split: if_splits)
  with assms(2) show "fit rd cn t None None (if l then k (Inl EINVAL) else act (bind (gets close_requested)
      (\<lambda>b. assert_at ''mysock_api.c'' 220 (\<not> b))) (\<lambda>_. act (gets eof) ?data))" for l by simp
qed (simp add: run_simps)

lemma transport_end_fit:
  assumes k: "fit rd cn t None None k"
  shows "fit rd cn t None None (transport_end_steps err k)"
  unfolding transport_end_steps_def
proof (intro ok.enter, rule look_fit [where r = "\<lambda>c. (blocking c, is_active c)"])
  have e: "fit rd cn t None None (enqueue_buffer_steps App_send_queue (Some [0]) 0 k)" by (rule enqueue_fit) (use k in simp_all)
  show "fit rd cn t (Some Blocking) None (case x of (b, active) \<Rightarrow> Leave Blocking (
      let eof = enqueue_buffer_steps App_send_queue (Some [0]) 0 k in if b then unblock_application_steps
        (if err = 0 \<or> err = EINTR then (if active then ECONNREFUSED else ECONNABORTED) else err) eof else eof))" for x
    using e announce_fit [OF e] by (cases x) (simp add: Let_def ok_simps)
qed (simp add: run_simps)

lemma client_fit: "client rd cn t k \<Longrightarrow> fit rd cn t None None k"
proof (induction rule: client.induct)
  case (stop a)
  show ?case by (simp add: ok_simps)
qed (auto intro: enqueue_fit dequeue_fit event_fit close_request_fit connection_fit announce_fit transport_end_fit write_fit read_fit)

text \<open>A run of clients stays sound.\<close>

lemma clients_sound:
  assumes "\<And>t. client rd cn t (T t)" "\<And>pq. wf_queue (queue pq c)" "csteps (idle_crew c T) Q"
  shows "\<exists>hs ls. sound_at (queues_held rd) (role_waits rd cn) (\<lambda>t h a. h = None) tolerated hs ls Q"
proof (rule sound_steps [OF assms(3)], rule sound_start)
  show "queues_held rd (\<lambda>_. None) c" using assms(2) by (simp add: queues_held_def hand_for_def)
qed (use client_fit [OF assms(1)] in simp)

section \<open>Properties\<close>

text \<open>Run without interruption, the steps of each function do to a context what its one-step model does: the enqueue and
  dequeue of mysock.c, mywrite and myread (\<open>mywrite_on_context\<close>), the wait of stcp\_wait\_for\_event (with a time limit that is over, or without
  one) and the wait for the connection; the acts of the rest are the ones of the calls they come from.\<close>

lemma context_steps_run_as_calls:
  "runs_as (\<lambda>k. enqueue_buffer_steps pq packet n (k ())) (on_queue pq (mysock_enqueue_buffer packet n))
   \<and> runs_as (dequeue_buffer_steps pq n part) (on_queue pq (mysock_dequeue_buffer n part))
   \<and> runs_as (mywrite_steps buf n) (mywrite_body buf n) \<and> runs_as (myread_steps n) (myread_body n)
   \<and> runs_as (wait_for_event_steps flags timed) (bind (wait_round flags) (\<lambda>rc. if rc \<noteq> 0 then ret rc else if timed then ret 0 else block))
   \<and> runs_as wait_for_connection_steps mysock_wait_for_connection"
  by (intro conjI enqueue_runs_as dequeue_runs_as mywrite_runs_as myread_runs_as wait_for_event_runs_as wait_for_connection_runs_as)

text \<open>C7: The calls of any number of threads on one context interleave in any way, each thread within its role: for each queue there is one thread
  that reads it, myread being a reader of the queue towards the application; the thread that waits for events is the reader of
  both queues towards the transport layer; one thread waits for the connection; and whoever wants to may write, enqueue, ask for the close, announce the
  end of the handshake or end the transport thread. Then no step touches memory that is not there, and only
  three assertions can fail: the one of stcp\_unblock\_application, when the end of the handshake has already been announced, and those of mywrite
  and myread, when the close has already been requested. When all threads are done the three queues are
  well formed again.\<close>

theorem context_threads_safe:
  assumes "\<And>t. client rd cn t (T t)" and "\<And>pq. wf_queue (queue pq c)" and "csteps (idle_crew c T) Q"
  shows "(faults t Q e \<longrightarrow> e = Assertion ''stcp_api.c'' 36 \<and> \<not> blocking (shared Q)
      \<or> (e = Assertion ''mysock_api.c'' 205 \<or> e = Assertion ''mysock_api.c'' 220) \<and> close_requested (shared Q))
    \<and> ((\<forall>u. \<exists>a. task Q u = Stop a) \<longrightarrow> wf_queue (queue pq (shared Q)))"
proof -
  obtain hs ls where s: "sound_at (queues_held rd) (role_waits rd cn) (\<lambda>t h a. h = None) tolerated hs ls Q"
    using clients_sound [OF assms] by blast
  have "wf_queue (queue pq (shared Q))" if stopped: "\<forall>u. \<exists>a. task Q u = Stop a"
  proof -
    have "hs (rd pq) = None" using stopped sound_stop [OF s] by blast
    then show ?thesis using queues_heldD [OF sound_inv [OF s], of pq] by (simp add: hand_none)
  qed
  then show ?thesis using sound_fault [OF s] by (auto simp: tolerated_def)
qed

text \<open>The crew of the examples: an application that reads one buffer, a transport thread that hands one over.\<close>

definition sample_crew :: "nat \<Rightarrow> (nat \<times> byte list) code" where
  "sample_crew t = (if t = 0 then dequeue_buffer_steps App_send_queue 10 True Stop
     else if t = 1 then enqueue_buffer_steps App_send_queue (Some [65]) 1 (Stop (0, [])) else Stop (0, []))"

lemma sample_crew_clients: "client (\<lambda>pq. if pq = App_send_queue then 0 else 1) 0 t (sample_crew t)"
  by (auto simp: sample_crew_def intro!: client.intros)

lemma sample_context_wf: "wf_queue (queue pq zero_context)"
  by (cases pq) (simp_all add: zero_context_def)

lemma sample_test:
  "dequeue_test App_send_queue 10 True Stop zero_context = Done None zero_context"
  "on_queue App_send_queue (mysock_enqueue_buffer (Some [65]) 1) zero_context = Done () (zero_context\<lparr>app_send_queue := append_node [65] empty_queue\<rparr>)"
  using enqueue_run [of empty_queue "[65]"]
  by (simp_all add: dequeue_test_def on_queue_run take_head_def run_simps zero_context_def empty_queue_def appendable_def)

text \<open>The reader sleeps, the writer has put a buffer into the queue and holds the lock.\<close>

definition sample_moment :: "(nat \<times> byte list) crew" where
  "sample_moment = crew_in (zero_context\<lparr>app_send_queue := append_node [65] empty_queue\<rparr>) ((\<lambda>_. None)(Data_ready := Some 1))
     ((\<lambda>_. Awake)(0 := Asleep)) (sample_crew(0 := Await Data_ready (dequeue_test App_send_queue 10 True Stop) None,
       1 := Leave Data_ready (Broadcast Data_ready (Stop (0, [])))))"

lemma sample_moment_reached: "csteps (idle_crew zero_context sample_crew) sample_moment"
  apply (rule go_enter [where t = 0], simp add: sample_crew_def dequeue_buffer_steps_def, simp)
  apply (rule go_decides [where t = 0], simp, simp, simp, rule sample_test(1))
  apply (rule go_sleeps [where t = 0], simp, simp)
  apply (rule go_enter [where t = 1], simp add: sample_crew_def enqueue_buffer_steps_def, simp)
  apply (rule go_act [where t = 1 and a = "()" and c' = "zero_context\<lparr>app_send_queue := append_node [65] empty_queue\<rparr>"], simp, use sample_test(2) in simp)
  apply (simp add: sample_moment_def fun_upd_twist csteps.refl)
  done

theorem context_threads_safe_witness: "csteps (idle_crew zero_context sample_crew) sample_moment \<and> \<not> faults 1 sample_moment (Dangling ''mysock.c'' 206)"
  using context_threads_safe [OF sample_crew_clients sample_context_wf sample_moment_reached, of 1 "Dangling ''mysock.c'' 206"] sample_moment_reached
  by auto

text \<open>C5: No wake-up is lost, as long as each thread keeps to its role: one thread reads each queue, the thread that waits
  for events is the reader of both queues towards the transport layer, and at most one thread waits for the connection (stcp\_unblock\_application wakes
  only one; with two, the other would sleep on). Any number of threads may write, close, announce and end. Then in every reachable state, if a thread sleeps in a wait
  that is over, some thread is on its way to wake the sleepers of this monitor: the wake-up is its next step, or the one after the
  unlocking of the mutex that it holds.\<close>

theorem no_lost_wakeup:
  assumes "\<And>t. client rd cn t (T t)" and "\<And>pq. wf_queue (queue pq c)" and "csteps (idle_crew c T) Q"
    and "task Q t = Await m f late" and "phase_of Q t = Asleep" and "\<not> waits f (shared Q)"
  shows "\<exists>u. owing m (task Q u)"
proof -
  obtain hs ls where "sound_at (queues_held rd) (role_waits rd cn) (\<lambda>t h a. h = None) tolerated hs ls Q"
    using clients_sound [OF assms(1-3)] by blast
  from sound_sleeper [OF this assms(4,5)] assms(6) show ?thesis by blast
qed

theorem no_lost_wakeup_witness: "phase_of sample_moment 0 = Asleep \<and> (\<exists>u. owing Data_ready (task sample_moment u))"
proof -
  have "\<not> waits (dequeue_test App_send_queue 10 True Stop) (shared sample_moment)"
    by (auto simp: sample_moment_def waits_def dequeue_test_def take_head_def on_queue_run run_simps append_node_def empty_queue_def
        load_node_def Let_def split: outcome.splits if_splits)
  with no_lost_wakeup [OF sample_crew_clients sample_context_wf sample_moment_reached, of 0 Data_ready "dequeue_test App_send_queue 10 True Stop" None]
  show ?thesis by (simp add: sample_moment_def)
qed

text \<open>C19: Threads of a context that keep to their roles never deadlock: with one reader for each queue, the same thread for the events and both queues
  towards the transport layer, and at most one thread that waits for the connection. As long as some thread has not stopped and does
  not sleep, some thread can take a step; when no thread can, each has returned or sleeps in a wait whose condition still holds. Threads that
  break a role are not covered: of two that wait for the connection, one can sleep for ever.\<close>

theorem context_never_deadlocks:
  assumes "\<And>t. client rd cn t (T t)" and "\<And>pq. wf_queue (queue pq c)" and "csteps (idle_crew c T) Q" and "\<And>u. \<not> able u Q"
  shows "(\<exists>a. task Q t = Stop a) \<or> phase_of Q t = Asleep \<and> (\<exists>m f late. task Q t = Await m f late \<and> waits f (shared Q))"
proof -
  obtain hs ls where "sound_at (queues_held rd) (role_waits rd cn) (\<lambda>t h a. h = None) tolerated hs ls Q"
    using clients_sound [OF assms(1-3)] by blast
  from sound_progress [OF this assms(4), of t] show ?thesis by blast
qed

text \<open>The reader alone sleeps for ever.\<close>

definition sample_end :: "(nat \<times> byte list) crew" where
  "sample_end = crew_in zero_context (\<lambda>_. None) ((\<lambda>_. Awake)(0 := Asleep))
     ((\<lambda>_. Stop (0, []))(0 := Await Data_ready (dequeue_test App_send_queue 10 True Stop) None))"

theorem context_never_deadlocks_witness:
  "csteps (idle_crew zero_context ((\<lambda>_. Stop (0, []))(0 := dequeue_buffer_steps App_send_queue 10 True Stop))) sample_end
    \<and> waits (dequeue_test App_send_queue 10 True Stop) (shared sample_end)"
proof -
  let ?T = "(\<lambda>_. Stop (0, []))(0 := dequeue_buffer_steps App_send_queue 10 True Stop)"
  have reached: "csteps (idle_crew zero_context ?T) sample_end"
    apply (rule go_enter [where t = 0], simp add: dequeue_buffer_steps_def, simp)
    apply (rule go_decides [where t = 0], simp, simp, simp, rule sample_test(1))
    apply (rule go_sleeps [where t = 0], simp, simp)
    apply (simp add: sample_end_def fun_upd_idem csteps.refl)
    done
  have clients: "client (\<lambda>pq. if pq = App_send_queue then 0 else 1) 0 t (?T t)" for t
    by (auto intro!: client.intros)
  have "\<not> able u sample_end" for u
    by (auto simp: able_def sample_end_def faults_def elim!: cstep.cases)
  from context_never_deadlocks [OF clients sample_context_wf reached this, of 0] reached
  show ?thesis by (simp add: sample_end_def)
qed

end
