(* ===== verification/Context_Streams.thy ===== *)
theory Context_Streams
  imports Context_Safety
begin

text \<open>
  The bytes that pass through a queue from one thread to another. With one reader and one writer
  every interleaving delivers them complete and in order, although the reader copies and shifts without the lock; with two
  readers it does not.
\<close>

section \<open>A reader and a writer\<close>

text \<open>A thread that reads with the given capacities, one call after the other, and returns all it got; one that writes buffers and goes on with k.\<close>

fun reads :: "queue_id \<Rightarrow> nat list \<Rightarrow> byte list \<Rightarrow> byte list code" where
  "reads pq [] acc = Stop acc"
| "reads pq (n # ns) acc = dequeue_buffer_steps pq n True (\<lambda>r. reads pq ns (acc @ snd r))"

fun writes :: "queue_id \<Rightarrow> byte list list \<Rightarrow> 'a code \<Rightarrow> 'a code" where
  "writes pq [] k = k"
| "writes pq (b # bs) k = enqueue_buffer_steps pq (Some b) (length b) (writes pq bs k)"

text \<open>The ghost values: what the reader has in hand and got, what the writer wrote and has still to write.\<close>

datatype flow = Reading hand "byte list" | Writing "byte list" "byte list" | Apart

definition flows :: "queue_id \<Rightarrow> byte list \<Rightarrow> byte list \<Rightarrow> (nat \<Rightarrow> flow) \<Rightarrow> mysock_context \<Rightarrow> bool" where
  "flows pq before wrote fs c \<longleftrightarrow> (\<exists>h got put rest. fs 0 = Reading h got \<and> fs 1 = Writing put rest \<and> put @ rest = wrote
     \<and> held_queue h (queue pq c) \<and> got @ concat (stream h (queue pq c)) = before @ put)"

fun may_put :: "byte list \<Rightarrow> flow \<Rightarrow> bool" where
  "may_put b (Writing put rest) \<longleftrightarrow> b = take (length b) rest"
| "may_put b f \<longleftrightarrow> False"

fun add_put :: "byte list \<Rightarrow> flow \<Rightarrow> flow" where
  "add_put b (Writing put rest) = Writing (put @ b) (drop (length b) rest)"
| "add_put b f = f"

definition one_reader :: "queue_id \<Rightarrow> flow waiting" where
  "one_reader pq t m h = (if t = 0 \<and> m = Data_ready then {\<lambda>c. head (queue pq c) = None} else {})"

interpretation flow_writer: queue_writer "flows pq before wrote" "one_reader pq" 1 pq may_put add_put for pq before wrote
proof
  fix fs c assume "flows pq before wrote fs c"
  then obtain h got put rest where f: "fs 0 = Reading h got" "fs 1 = Writing put rest" "put @ rest = wrote" "held_queue h (queue pq c)"
    "got @ concat (stream h (queue pq c)) = before @ put" by (auto simp: flows_def)
  have "flows pq before wrote (fs(1 := add_put b (fs 1))) (set_queue pq q c)"
    if b: "may_put b (fs 1)" "held_queue h q" "stream h q = stream h (queue pq c) @ [b]" for q b
  proof -
    have "b @ drop (length b) rest = rest" using b(1) f(2) by simp (metis append_take_drop_id)
    then have "(put @ b) @ drop (length b) rest = wrote" using f(3) by simp
    moreover have "got @ concat (stream h q) = before @ put @ b" using b(3) f(5) append.assoc [of got "concat (stream h (queue pq c))" b] by simp
    ultimately show ?thesis using f(1,2) b(2) by (simp add: flows_def)
  qed
  with f(4) show "\<exists>h. held_queue h (queue pq c) \<and> (\<forall>q b. may_put b (fs 1) \<and> held_queue h q \<and> stream h q = stream h (queue pq c) @ [b]
      \<longrightarrow> flows pq before wrote (fs(1 := add_put b (fs 1))) (set_queue pq q c))" by blast
qed (simp add: hushed_def one_reader_def)

interpretation flow_reader: queue_reader "flows pq before wrote" "one_reader pq" 0 pq True Reading "\<lambda>b got. got @ b" "\<lambda>_ _. True" for pq before wrote
proof
  fix fs c h q b bs n and got :: "byte list"
  assume "flows pq before wrote fs c" "fs 0 = Reading Free got" "contents (queue pq c) = b # bs" "held_queue h q"
    "stream h q = (if True \<and> n < length b then drop n b # bs else bs)"
  then show "flows pq before wrote (fs(0 := Reading h (got @ take n b))) (set_queue pq q c)"
    by (auto simp: flows_def split: if_splits) (metis append.assoc append_take_drop_id)
qed (auto simp: flows_def hushed_def one_reader_def)

definition flow_result :: "byte list \<Rightarrow> nat \<Rightarrow> flow \<Rightarrow> byte list \<Rightarrow> bool" where
  "flow_result wrote t f a \<longleftrightarrow> (t = 0 \<longrightarrow> f = Reading Free a) \<and> (t = 1 \<longrightarrow> f = Writing wrote [])"

abbreviation flow_ok :: "queue_id \<Rightarrow> byte list \<Rightarrow> byte list \<Rightarrow> nat \<Rightarrow> monitor option \<Rightarrow> flow \<Rightarrow> byte list code \<Rightarrow> bool" where
  "flow_ok pq before wrote \<equiv> ok (flows pq before wrote) (one_reader pq) (flow_result wrote) (\<lambda>_ _. False)"

lemma reads_ok: "flow_ok pq before wrote 0 None (Reading Free got) (reads pq ns got)"
proof (induction ns arbitrary: got)
  case (Cons n ns)
  show ?case unfolding reads.simps by (rule flow_reader.read_ok [OF TrueI]) (use Cons.IH in simp)
qed (simp add: ok_simps flow_result_def)

lemma writes_ok: "put @ concat bs = wrote \<Longrightarrow> flow_ok pq before wrote 1 None (Writing put (concat bs)) (writes pq bs (Stop []))"
proof (induction bs arbitrary: put)
  case (Cons b bs)
  show ?case unfolding writes.simps by (rule flow_writer.write_ok) (use Cons in simp_all)
qed (simp add: ok_simps flow_result_def)

abbreviation reader_and_writer :: "queue_id \<Rightarrow> nat list \<Rightarrow> byte list list \<Rightarrow> nat \<Rightarrow> byte list code" where
  "reader_and_writer pq ns bs \<equiv> (\<lambda>_. Stop [])(0 := reads pq ns [], 1 := writes pq bs (Stop []))"

lemma flow_sound:
  assumes "wf_queue (queue pq c)" "csteps (idle_crew c (reader_and_writer pq ns bs)) Q"
  shows "\<exists>fs ls. sound_at (flows pq (concat (contents (queue pq c))) (concat bs)) (one_reader pq) (flow_result (concat bs)) (\<lambda>_ _. False) fs ls Q"
proof (rule sound_steps [OF assms(2)], rule sound_start)
  let ?fs = "(\<lambda>_. Apart)(0 := Reading Free [], 1 := Writing [] (concat bs))"
  show "flows pq (concat (contents (queue pq c))) (concat bs) ?fs c" using assms(1) by (simp add: flows_def)
  show "flow_ok pq (concat (contents (queue pq c))) (concat bs) t None (?fs t) (reader_and_writer pq ns bs t)" for t
    using reads_ok [of pq _ _ "[]" ns] writes_ok [of "[]" bs _ pq] by (simp add: ok_simps flow_result_def)
qed

section \<open>Two readers\<close>

text \<open>The choice of the first node, in part and whole, and the steps that follow.\<close>

lemma go_choose_part:
  assumes q: "wf_queue (queue pq c)" "contents (queue pq c) = b # bs" "n < length b" and T: "T t = dequeue_buffer_steps pq n True k"
  shows "\<exists>p. held_queue (Copying p n (take n b)) (queue pq c) \<and> stream (Copying p n (take n b)) (queue pq c) = drop n b # bs
    \<and> head (queue pq c) = Some p \<and> (\<forall>Q. csteps (idle_crew c (T(t := part_steps pq p n k))) Q \<longrightarrow> csteps (idle_crew c T) Q)"
proof -
  from take_part [OF q] obtain p where p: "take_head n True (queue pq c) = Done (Some (p, True)) (queue pq c)"
    "held_queue (Copying p n (take n b)) (queue pq c)" "stream (Copying p n (take n b)) (queue pq c) = drop n b # bs" by blast
  have "csteps (idle_crew c T) Q" if Q: "csteps (idle_crew c (T(t := part_steps pq p n k))) Q" for Q
    apply (rule go_enter [where t = t], simp add: T dequeue_buffer_steps_def, simp)
    apply (rule go_finds [where t = t and c' = c], simp, simp, simp, simp add: dequeue_test_def on_queue_run run_simps p(1))
    apply (rule go_leave [where t = t], simp)
    using Q by simp
  moreover have "head (queue pq c) = Some p" using p(2) by (auto simp: held_queue_def)
  ultimately show ?thesis using p by blast
qed

lemma go_whole:
  assumes wf: "\<And>pq. wf_queue (queue pq c)" and q: "contents (queue pq c) = b # bs" "length b \<le> n"
    and T: "T t = dequeue_buffer_steps pq n True k" and p: "head (queue pq c) = Some p"
  shows "\<exists>q. hload (nodes q) p = None
    \<and> (\<forall>Q. csteps (idle_crew (set_queue pq q c) (T(t := k (length b, b)))) Q \<longrightarrow> csteps (idle_crew c T) Q)"
proof -
  from pq.deq_whole [OF wf q(1), of n True] q(2) obtain q' where q': "mysock_dequeue_buffer n True (queue pq c) = Done (length b, b) q'" by auto
  then have on: "on_queue pq (mysock_dequeue_buffer n True) c = Done (length b, b) (set_queue pq q' c)" by (simp add: on_queue_run)
  have run: "csteps (idle_crew c T) Q" if "csteps (idle_crew (set_queue pq q' c) (T(t := k (length b, b)))) Q" for Q
    by (rule runs_asD [OF dequeue_runs_as wf _ on, where k = k and t = t]) (use T that in simp_all)
  obtain p' nd where "head (queue pq c) = Some p'" "hload (nodes (queue pq c)) p' = Some nd" "length b = data_len nd"
    using head_node [OF wf q(1)] by (elim exE conjE) (rule that)
  with p q' q(2) hload_bound [of "nodes (queue pq c)" p] have "hload (nodes q') p = None"
    by (auto simp: mysock_dequeue_buffer_def load_node_def run_simps heap_simps split: if_splits)
  with run show ?thesis by blast
qed

lemma go_copy:
  assumes q: "held_queue (Copying p n bs) (queue pq c)" and T: "T t = part_steps pq p n k"
    and Q: "csteps (idle_crew c (T(t := act (on_queue pq (shift_rest p n)) (\<lambda>_. act (on_queue pq (shrink p n)) (\<lambda>_. k (n, bs)))))) Q"
  shows "csteps (idle_crew c T) Q"
  apply (rule go_act [where t = t and a = bs and c' = c], simp add: T part_steps_def, simp add: on_queue_run held_copy(1) [OF q])
  using Q by simp

lemma go_rest:
  assumes q: "held_queue (Shifting p n) (queue pq c)" and T: "T t = act (on_queue pq (shift_rest p n)) (\<lambda>_. act (on_queue pq (shrink p n)) (\<lambda>_. x))"
  shows "\<exists>q. wf_queue q \<and> contents q = stream (Shifting p n) (queue pq c) \<and> head q = Some p
    \<and> (\<forall>Q. csteps (idle_crew (set_queue pq q c) (T(t := x))) Q \<longrightarrow> csteps (idle_crew c T) Q)"
proof -
  from held_shift [OF q] obtain q1 where q1: "shift_rest p n (queue pq c) = Done () q1" "held_queue (Shrinking p n) q1"
    "stream (Shrinking p n) q1 = stream (Shifting p n) (queue pq c)" by auto
  from held_shrink [OF q1(2)] obtain q2 where q2: "shrink p n q1 = Done () q2" "wf_queue q2"
    "contents q2 = stream (Shifting p n) (queue pq c)" using q1(3) by auto
  have "head q2 = Some p" using q1(2) q2(1)
    by (auto simp: held_queue_def shrink_def load_node_def store_node_def run_simps)
  moreover have "csteps (idle_crew c T) Q" if Q: "csteps (idle_crew (set_queue pq q2 c) (T(t := x))) Q" for Q
    apply (rule go_act [where t = t and c' = "set_queue pq q1 c"], simp add: T, simp add: on_queue_run q1(1))
    apply (rule go_act [where t = t and c' = "set_queue pq q2 c"], simp, simp add: on_queue_run q2(1))
    using Q by simp
  ultimately show ?thesis using q2 by blast
qed

lemma second_reader_repeats:
  assumes q: "wf_queue (queue pq c)" "contents (queue pq c) = (x # y # z # xs) # bs"
  shows "\<exists>Q. csteps (idle_crew c ((\<lambda>_. Stop [])(0 := reads pq [1] [], 1 := reads pq [1] []))) Q \<and> task Q 0 = Stop [x] \<and> task Q 1 = Stop [x]
    \<and> contents (queue pq (shared Q)) = (z # xs) # bs"
proof -
  let ?T = "(\<lambda>_. Stop [])(0 := reads pq [1] [], 1 := reads pq [1] [])"
  let ?k = "\<lambda>r :: nat \<times> byte list. Stop (snd r)"
  let ?r = "\<lambda>p. act (on_queue pq (shift_rest p 1)) (\<lambda>_. act (on_queue pq (shrink p 1)) (\<lambda>_. Stop [x]))"
  obtain p where p: "held_queue (Copying p 1 [x]) (queue pq c)" "stream (Copying p 1 [x]) (queue pq c) = (y # z # xs) # bs"
    "head (queue pq c) = Some p" "\<And>Q. csteps (idle_crew c (?T(0 := part_steps pq p 1 ?k))) Q \<Longrightarrow> csteps (idle_crew c ?T) Q"
    using go_choose_part [OF q, of 1 ?T 0 ?k] by auto
  let ?T1 = "?T(0 := part_steps pq p 1 ?k)"
  have p1: "csteps (idle_crew c (?T1(1 := part_steps pq p 1 ?k))) Q \<Longrightarrow> csteps (idle_crew c ?T1) Q" for Q
    using go_choose_part [OF q, of 1 ?T1 1 ?k] p(3) by auto
  let ?T2 = "(\<lambda>_. Stop [])(0 := ?r p, 1 := ?r p)"
  obtain q1 where q1: "wf_queue q1" "contents q1 = (y # z # xs) # bs" "head q1 = Some p"
    "\<And>Q. csteps (idle_crew (set_queue pq q1 c) (?T2(0 := Stop [x]))) Q \<Longrightarrow> csteps (idle_crew c ?T2) Q"
    using go_rest [OF held_copy(2) [OF p(1)], of ?T2 0 "Stop [x]"] held_copy(3) [OF p(1)] p(2) by auto
  let ?c1 = "set_queue pq q1 c"
  have "wf_queue (queue pq ?c1)" "contents (queue pq ?c1) = (y # z # xs) # bs" using q1 by simp_all
  from take_part [OF this, of 1] obtain p' where "held_queue (Copying p' 1 [y]) (queue pq ?c1)" "stream (Copying p' 1 [y]) (queue pq ?c1) = (z # xs) # bs" by auto
  moreover from this(1) have "p' = p" using q1(3) by (auto simp: held_queue_def)
  ultimately have h: "held_queue (Shifting p 1) (queue pq ?c1)" "stream (Shifting p 1) (queue pq ?c1) = (z # xs) # bs"
    using held_copy [of p 1 "[y]" "queue pq ?c1"] by auto
  let ?T3 = "?T2(0 := Stop [x])"
  obtain q2 where q2: "contents q2 = (z # xs) # bs"
    "\<And>Q. csteps (idle_crew (set_queue pq q2 ?c1) (?T3(1 := Stop [x]))) Q \<Longrightarrow> csteps (idle_crew ?c1 ?T3) Q"
    using go_rest [OF h(1), of ?T3 1 "Stop [x]"] h(2) by auto
  let ?Q = "idle_crew (set_queue pq q2 ?c1) (?T3(1 := Stop [x]))"
  have T2: "?T1(1 := part_steps pq p 1 ?k, 0 := ?r p, 1 := ?r p) = ?T2" by (rule ext) simp
  have "csteps (idle_crew c (?T1(1 := part_steps pq p 1 ?k))) ?Q"
    apply (rule go_copy [OF p(1), where t = 0 and k = ?k], simp)
    apply (rule go_copy [OF p(1), where t = 1 and k = ?k], simp)
    unfolding snd_conv T2 by (intro q1(4) q2(2) csteps.refl)
  then have "csteps (idle_crew c ?T) ?Q" by (rule p(4) [OF p1])
  with q2(1) show ?thesis by (intro exI [of _ ?Q]) simp
qed

lemma second_reader_frees:
  assumes wf: "\<And>pq. wf_queue (queue pq c)" and q: "contents (queue pq c) = (x # y # xs) # bs" and n: "length xs + 2 \<le> n"
  shows "\<exists>Q. csteps (idle_crew c ((\<lambda>_. Stop [])(0 := reads pq [1] [], 1 := reads pq [n] []))) Q \<and> task Q 1 = Stop (x # y # xs)
    \<and> faults 0 Q (Dangling ''mysock.c'' 206)"
proof -
  let ?T = "(\<lambda>_. Stop [])(0 := reads pq [1] [], 1 := reads pq [n] [])"
  let ?k = "\<lambda>r :: nat \<times> byte list. Stop (snd r)"
  obtain p where p: "head (queue pq c) = Some p" "\<And>Q. csteps (idle_crew c (?T(0 := part_steps pq p 1 ?k))) Q \<Longrightarrow> csteps (idle_crew c ?T) Q"
    using go_choose_part [OF wf q, of 1 ?T 0 ?k] by auto
  let ?T1 = "?T(0 := part_steps pq p 1 ?k)"
  obtain q1 where q1: "hload (nodes q1) p = None"
    "\<And>Q. csteps (idle_crew (set_queue pq q1 c) (?T1(1 := Stop (x # y # xs)))) Q \<Longrightarrow> csteps (idle_crew c ?T1) Q"
    using go_whole [OF wf q, of n ?T1 1 ?k p] n p(1) by auto
  let ?Q = "idle_crew (set_queue pq q1 c) (?T1(1 := Stop (x # y # xs)))"
  have "csteps (idle_crew c ?T) ?Q" by (intro p(2) q1(2) csteps.refl)
  moreover have "faults 0 ?Q (Dangling ''mysock.c'' 206)"
    using q1(1) by (simp add: faults_def part_steps_def act_def copy_part_def load_node_def on_queue_run run_simps)
  ultimately show ?thesis by (intro exI [of _ ?Q]) simp
qed

section \<open>Properties\<close>

text \<open>C4: Bytes cross from one thread to another. Whatever the capacities of the reads, the sizes of the buffers and the interleaving of
  the two threads: nothing fails; what the reader has got when it stops are the first bytes of what the queue held and the writer writes; when both have
  stopped, what the reader got and what is left in the queue are exactly these bytes, in order; and if neither can go on, the writer is
  done, and the reader has stopped or waits at an empty queue.\<close>

theorem bytes_cross_threads:
  assumes "wf_queue (queue pq c)" and "csteps (idle_crew c (reader_and_writer pq ns bs)) Q"
  shows "\<not> faults t Q e
    \<and> (\<forall>got. task Q 0 = Stop got \<longrightarrow> (\<exists>rest. got @ rest = concat (contents (queue pq c)) @ concat bs))
    \<and> (\<forall>got a. task Q 0 = Stop got \<and> task Q 1 = Stop a \<longrightarrow> wf_queue (queue pq (shared Q))
        \<and> got @ concat (contents (queue pq (shared Q))) = concat (contents (queue pq c)) @ concat bs)
    \<and> ((\<forall>u. \<not> able u Q) \<longrightarrow> (\<exists>a. task Q 1 = Stop a) \<and> ((\<exists>got. task Q 0 = Stop got) \<or> head (queue pq (shared Q)) = None))"
proof -
  obtain fs ls where s: "sound_at (flows pq (concat (contents (queue pq c))) (concat bs)) (one_reader pq) (flow_result (concat bs)) (\<lambda>_ _. False) fs ls Q"
    using flow_sound [OF assms] by blast
  note stop = sound_stop [OF s, unfolded flow_result_def]
  from sound_inv [OF s] obtain h got put rest where f: "fs 0 = Reading h got" "fs 1 = Writing put rest" "put @ rest = concat bs"
    "held_queue h (queue pq (shared Q))" "got @ concat (stream h (queue pq (shared Q))) = concat (contents (queue pq c)) @ put"
    by (auto simp: flows_def)
  have r: "h = Free \<and> got = g" if "task Q 0 = Stop g" for g using stop [OF that] f(1) by simp
  have w: "put = concat bs" if "task Q 1 = Stop a" for a using stop [OF that] f(2) by simp
  have "got @ concat (stream h (queue pq (shared Q))) @ rest = concat (contents (queue pq c)) @ concat bs"
    using f(3,5) by (metis append.assoc)
  then have one: "\<exists>rest. g @ rest = concat (contents (queue pq c)) @ concat bs" if "task Q 0 = Stop g" for g using r [OF that] by blast
  have both: "wf_queue (queue pq (shared Q)) \<and> g @ concat (contents (queue pq (shared Q))) = concat (contents (queue pq c)) @ concat bs"
    if "task Q 0 = Stop g" "task Q 1 = Stop a" for g a using r [OF that(1)] w [OF that(2)] f(4,5) by simp
  have last: "(\<exists>a. task Q 1 = Stop a) \<and> ((\<exists>g. task Q 0 = Stop g) \<or> head (queue pq (shared Q)) = None)" if none: "\<And>u. \<not> able u Q"
  proof (rule conjI)
    show "\<exists>a. task Q 1 = Stop a" using sound_progress [OF s none, of 1] by (auto simp: one_reader_def)
    show "(\<exists>g. task Q 0 = Stop g) \<or> head (queue pq (shared Q)) = None"
    proof (rule disjE [OF sound_progress [OF s none, of 0]])
      assume "phase_of Q 0 = Asleep \<and> (\<exists>m f late. task Q 0 = Await m f late \<and> waits f (shared Q) \<and> waits f \<in> one_reader pq 0 m (fs 0))"
      then show ?thesis by (auto simp: one_reader_def split: if_splits)
    qed blast
  qed
  show ?thesis using sound_fault [OF s] one both last by blast
qed

theorem bytes_cross_threads_witness:
  "\<exists>Q. csteps (idle_crew zero_context (reader_and_writer App_send_queue [3] [[65, 66]])) Q \<and> task Q 0 = Stop [65, 66]
    \<and> concat (contents (queue App_send_queue (shared Q))) = []"
proof -
  let ?T = "reader_and_writer App_send_queue [3] [[65, 66]]"
  obtain q1 where q1: "mysock_enqueue_buffer (Some [65, 66]) 2 empty_queue = Done () q1" "wf_queue q1" "contents q1 = [[65, 66]]"
    using pq.enq_spec [of empty_queue "[65, 66]"] by (auto simp: numeral_2_eq_2)
  let ?c1 = "zero_context\<lparr>app_send_queue := q1\<rparr>"
  have c1: "on_queue App_send_queue (mysock_enqueue_buffer (Some [65, 66]) 2) zero_context = Done () ?c1"
    using q1(1) by (simp add: on_queue_run zero_context_def)
  have wf: "wf_queue (queue pq ?c1)" for pq using sample_context_wf [of pq] q1(2) by (cases pq) simp_all
  from pq.deq_whole [OF q1(2,3), of 3 True] obtain q2 where "mysock_dequeue_buffer 3 True q1 = Done (2, [65, 66]) q2" by auto
  then have c2: "on_queue App_send_queue (mysock_dequeue_buffer 3 True) ?c1 = Done (2, [65, 66]) (set_queue App_send_queue q2 ?c1)"
    by (simp add: on_queue_run)
  have "\<exists>Q. csteps (idle_crew zero_context ?T) Q \<and> task Q 0 = Stop [65, 66] \<and> task Q 1 = Stop []"
    apply (intro exI conjI)
      apply (rule runs_asD [OF enqueue_runs_as sample_context_wf _ c1, where t = 1 and k = "\<lambda>_. Stop []"], simp add: numeral_2_eq_2)
      apply (rule runs_asD [OF dequeue_runs_as wf _ c2, where t = 0 and k = "\<lambda>r. Stop (snd r)"], simp)
      apply (rule csteps.refl)
     apply simp_all
    done
  then obtain Q where Q: "csteps (idle_crew zero_context ?T) Q" "task Q 0 = Stop [65, 66]" "task Q 1 = Stop []" by blast
  from bytes_cross_threads [OF sample_context_wf Q(1), of 0 undefined] Q show ?thesis
    by (intro exI [of _ Q]) (simp add: zero_context_def)
qed

text \<open>C34: A queue with two readers is broken, because the lock is released before the buffer is copied and shifted (mysock.c:204).
  When both read one byte of the same buffer, there is a schedule in which both return the first byte and the second byte is lost; when one of
  them takes the whole buffer, there is a schedule in which the other then reads the node that was freed.\<close>

theorem second_reader_breaks_queue:
  assumes "\<And>pq. wf_queue (queue pq c)" and "contents (queue pq c) = (x # y # z # xs) # bs"
  shows "(\<exists>Q. csteps (idle_crew c ((\<lambda>_. Stop [])(0 := reads pq [1] [], 1 := reads pq [1] []))) Q \<and> task Q 0 = Stop [x] \<and> task Q 1 = Stop [x]
      \<and> contents (queue pq (shared Q)) = (z # xs) # bs)
    \<and> (\<exists>Q. csteps (idle_crew c ((\<lambda>_. Stop [])(0 := reads pq [1] [], 1 := reads pq [length xs + 3] []))) Q \<and> task Q 1 = Stop (x # y # z # xs)
      \<and> faults 0 Q (Dangling ''mysock.c'' 206))"
  using second_reader_repeats [OF assms] second_reader_frees [OF assms, of "length xs + 3"] by simp

theorem second_reader_breaks_queue_witness:
  "\<exists>c Q. contents (app_send_queue c) = [[65, 66, 67]] \<and> csteps (idle_crew c ((\<lambda>_. Stop [])(0 := reads App_send_queue [1] [], 1 := reads App_send_queue [1] []))) Q
    \<and> task Q 0 = Stop [65] \<and> task Q 1 = Stop [65] \<and> contents (app_send_queue (shared Q)) = [[67]]"
proof -
  obtain q where q: "wf_queue q" "contents q = [[65, 66, 67]]" using pq.enq_spec [of empty_queue "[65, 66, 67]"] by auto
  let ?c = "zero_context\<lparr>app_send_queue := q\<rparr>"
  have wf: "wf_queue (queue pq ?c)" for pq using sample_context_wf [of pq] q(1) by (cases pq) simp_all
  have "contents (queue App_send_queue ?c) = [[65, 66, 67]]" using q(2) by simp
  from conjunct1 [OF second_reader_breaks_queue [OF wf this]] this show ?thesis by (intro exI [of _ ?c]) simp
qed

end
