(* ===== verification/Context_Closing.thy ===== *)
theory Context_Closing
  imports Context_Streams
begin

text \<open>
  The beginning and the end of a connection between the application and the transport thread, under every interleaving: the
  application learns how the handshake ended, and the transport layer learns of the close after all the data.
\<close>

section \<open>The handshake\<close>

text \<open>
  The transport thread: the transport layer announces the end of the handshake with an error, or does not, and returns
  with an error. What the application must get, in a connection that is active or not.
\<close>

fun transport_side :: "errno option \<Rightarrow> errno \<Rightarrow> (errno + int) option code" where
  "transport_side (Some e) err = unblock_application_steps e (transport_end_steps err (Stop None))"
| "transport_side None err = transport_end_steps err (Stop None)"

definition reported :: "errno \<Rightarrow> errno + int" where
  "reported e = (if e = EINTR \<or> e = 0 then Inr 0 else Inl e)"

fun handshake_result :: "bool \<Rightarrow> errno option \<Rightarrow> errno \<Rightarrow> errno + int" where
  "handshake_result active (Some e) err = reported e"
| "handshake_result active None err =
     reported (if err = 0 \<or> err = EINTR then (if active then ECONNREFUSED else ECONNABORTED) else err)"

text \<open>The ghost value: whether the thread knows that the end of the handshake is announced.\<close>

datatype stage = Before | After

definition handshake :: "bool \<Rightarrow> errno + int \<Rightarrow> (nat \<Rightarrow> stage) \<Rightarrow> mysock_context \<Rightarrow> bool" where
  "handshake active r fs c \<longleftrightarrow> is_active c = active \<and> wf_queue (app_send_queue c) \<and> (fs 0 = After \<longrightarrow> fs 1 = After)
     \<and> (blocking c \<longleftrightarrow> fs 1 = Before) \<and> (fs 1 = After \<longrightarrow> (if stcp_errno c \<noteq> 0 then Inl (stcp_errno c) else Inr 0) = r)"

definition connection_waiter :: "stage waiting" where
  "connection_waiter t m h = (if t = 0 \<and> m = Blocking then {blocking} else {})"

abbreviation handshake_ok :: "bool \<Rightarrow> errno + int \<Rightarrow> nat \<Rightarrow> monitor option \<Rightarrow> stage \<Rightarrow> (errno + int) option code \<Rightarrow> bool" where
  "handshake_ok active r \<equiv> ok (handshake active r) connection_waiter
     (\<lambda>t h a. (t = 0 \<longrightarrow> a = Some r) \<and> (t = 1 \<longrightarrow> h = After \<and> a = None)) (\<lambda>_ _. False)"

interpretation handshake_writer: queue_writer "handshake active r" connection_waiter 1 App_send_queue "\<lambda>_ _. True" "\<lambda>_ g. g" for active r
proof
  fix fs c assume h: "handshake active r fs c"
  then show "\<exists>h. held_queue h (queue App_send_queue c) \<and> (\<forall>q b. True \<and> held_queue h q \<and> stream h q = stream h (queue App_send_queue c) @ [b]
      \<longrightarrow> handshake active r (fs(1 := fs 1)) (set_queue App_send_queue q c))"
    by (intro exI [of _ Free]) (auto simp: handshake_def)
qed (simp add: hushed_def connection_waiter_def)

lemma waiting_ok: "handshake_ok active r 0 None Before (wait_for_connection_steps (\<lambda>x. Stop (Some x)))"
  unfolding wait_for_connection_steps_def
proof (intro ok.enter ok.await)
  show "connection_waiter 0 Blocking Before \<noteq> {}" by (simp add: connection_waiter_def)
  show "c' = c \<and> waits (connection_test k) \<in> connection_waiter 0 Blocking Before" if "connection_test k c = Done None c'"
    for k :: "errno + int \<Rightarrow> (errno + int) option code" and c c'
    using that by (simp add: connection_waits connection_waiter_def) (simp add: connection_test_def run_simps split: if_splits)
next
  fix fs c x c' assume I: "handshake active r fs c" "fs 0 = Before" and "connection_test (\<lambda>x. Stop (Some x)) c = Done (Some x) c'"
  then have x: "x = Leave Blocking (act (gets stcp_errno) (\<lambda>e. Stop (Some (if e \<noteq> 0 then Inl e else Inr 0))))" "c' = c" "fs 1 = After"
    using stage.exhaust [of "fs 1"] by (auto simp: connection_test_def run_simps handshake_def split: if_splits)
  have "handshake_ok active r 0 None After (act (gets stcp_errno) (\<lambda>e. Stop (Some (if e \<noteq> 0 then Inl e else Inr 0))))"
  proof (rule ok_act)
    fix fs c a c' assume h: "handshake active r fs c" "fs 0 = After" "gets stcp_errno c = Done a c'"
    then have "(if a \<noteq> 0 then Inl a else Inr 0) = r" "c' = c" by (auto simp: handshake_def run_simps)
    with h show "\<exists>h'. handshake_ok active r 0 None h' (Stop (Some (if a \<noteq> 0 then Inl a else Inr 0))) \<and> handshake active r (fs(0 := h')) c'
        \<and> told connection_waiter 0 None c c' (Stop (Some (if a \<noteq> 0 then Inl a else Inr 0)))"
      by (intro exI [of _ After]) (simp add: ok_simps fun_upd_idem told_def hushed_def connection_waiter_def)
  qed (simp add: run_simps)
  with x I show "\<exists>h'. handshake_ok active r 0 (Some Blocking) h' x \<and> handshake active r (fs(0 := h')) c'
      \<and> told connection_waiter 0 (Some Blocking) c c' x"
    by (intro exI [of _ After]) (simp add: ok_simps told_def hushed_def connection_waiter_def handshake_def)
qed (auto simp: connection_test_def run_simps split: if_splits)

lemma announcing_ok:
  assumes e: "reported e = r" and k: "handshake_ok active r 1 None After k"
  shows "handshake_ok active r 1 None Before (unblock_application_steps e k)"
  unfolding unblock_application_steps_def
proof (intro ok.enter ok_act)
  fix fs c a c' assume h: "handshake active r fs c" "fs 1 = Before" and "announce e c = Done a c'"
  then have c': "c' = c\<lparr>blocking := False, stcp_errno := (if e = EINTR then 0 else e)\<rparr>"
    by (simp add: announce_def run_simps split: if_splits)
  have "handshake active r (fs(1 := After)) c'" using h e by (auto simp: handshake_def c' reported_def)
  moreover have "one_waiter connection_waiter Blocking" by (simp add: one_waiter_def connection_waiter_def)
  moreover have "told connection_waiter 1 (Some Blocking) c c' (Leave Blocking (Signal Blocking k))"
    by (rule told_wake) (simp_all add: hushed_def connection_waiter_def owing_def)
  ultimately show "\<exists>h'. handshake_ok active r 1 (Some Blocking) h' (Leave Blocking (Signal Blocking k)) \<and> handshake active r (fs(1 := h')) c'
      \<and> told connection_waiter 1 (Some Blocking) c c' (Leave Blocking (Signal Blocking k))"
    using k by (intro exI [of _ After]) (simp add: ok_simps)
next
  fix fs c assume "handshake active r fs c" "fs 1 = Before"
  then show "goes_well (\<lambda>_. False) (announce e c)" by (simp add: announce_def handshake_def run_simps)
qed

lemma ending_ok:
  assumes "h = After \<or> handshake_result active None err = r"
  shows "handshake_ok active r 1 None h (transport_end_steps err (Stop None))"
  unfolding transport_end_steps_def
proof (intro ok.enter ok_act)
  let ?e = "\<lambda>active. if err = 0 \<or> err = EINTR then (if active then ECONNREFUSED else ECONNABORTED) else err"
  let ?eof = "enqueue_buffer_steps App_send_queue (Some [0]) 0 (Stop None)"
  fix fs c a c' assume I: "handshake active r fs c" "fs 1 = h"
    and "bind (gets blocking) (\<lambda>b. bind (gets is_active) (\<lambda>active. ret (b, active))) c = Done a c'"
  then have a: "a = (blocking c, active)" "c' = c" "blocking c \<longleftrightarrow> h = Before" by (auto simp: run_simps handshake_def)
  have eof: "handshake_ok active r 1 None After ?eof"
    by (rule handshake_writer.write_ok [OF _ TrueI]) (simp_all add: ok_simps)
  have "handshake_ok active r 1 None h (let eof = ?eof in if blocking c then unblock_application_steps (?e active) eof else eof)"
  proof (cases h)
    case Before
    with assms have "reported (?e active) = r" by simp
    from announcing_ok [OF this eof] show ?thesis using a(3) Before by (simp add: Let_def)
  next
    case After
    with eof a(3) show ?thesis by (simp add: Let_def)
  qed
  with a(1,2) I show "\<exists>h'. handshake_ok active r 1 (Some Blocking) h' (case a of (b, active) \<Rightarrow>
      Leave Blocking (let eof = ?eof in if b then unblock_application_steps (?e active) eof else eof))
    \<and> handshake active r (fs(1 := h')) c' \<and> told connection_waiter 1 (Some Blocking) c c' (case a of (b, active) \<Rightarrow>
      Leave Blocking (let eof = ?eof in if b then unblock_application_steps (?e active) eof else eof))"
    by (intro exI [of _ h]) (simp add: ok_simps fun_upd_idem told_def hushed_def)
qed (simp add: run_simps)

lemma transport_side_ok: "handshake_ok active (handshake_result active announced err) 1 None Before (transport_side announced err)"
proof (cases announced)
  case None
  show ?thesis unfolding None transport_side.simps by (rule ending_ok) simp
next
  case (Some e)
  show ?thesis unfolding Some transport_side.simps handshake_result.simps by (intro announcing_ok ending_ok) simp_all
qed

section \<open>Properties of the handshake\<close>

text \<open>C20: The application learns how the handshake ended. One thread waits for the connection; the transport layer announces the end of the
  handshake, or returns without a word, and the transport thread ends. In every interleaving: no assertion fails, so the end is announced
  exactly once; if the application gets a result it is the right one, the error that was announced, none, or the one that the thread
  makes up; and the two never get stuck before both are done.\<close>

theorem handshake_outcome_delivered:
  assumes "blocking c" and "wf_queue (app_send_queue c)"
    and "csteps (idle_crew c ((\<lambda>_. Stop None)(0 := wait_for_connection_steps (\<lambda>x. Stop (Some x)), 1 := transport_side announced err))) Q"
  shows "\<not> faults t Q e \<and> (\<forall>a. task Q 0 = Stop a \<longrightarrow> a = Some (handshake_result (is_active c) announced err))
    \<and> ((\<forall>u. \<not> able u Q) \<longrightarrow> task Q 0 = Stop (Some (handshake_result (is_active c) announced err)) \<and> task Q 1 = Stop None)"
proof -
  let ?T = "(\<lambda>_. Stop None)(0 := wait_for_connection_steps (\<lambda>x. Stop (Some x)), 1 := transport_side announced err)"
  let ?r = "handshake_result (is_active c) announced err"
  have "sound_at (handshake (is_active c) ?r) connection_waiter (\<lambda>t h a. (t = 0 \<longrightarrow> a = Some ?r) \<and> (t = 1 \<longrightarrow> h = After \<and> a = None)) (\<lambda>_ _. False)
      (\<lambda>_. Before) (\<lambda>_. None) (idle_crew c ?T)"
  proof (rule sound_start)
    show "handshake (is_active c) ?r (\<lambda>_. Before) c" using assms(1,2) by (simp add: handshake_def)
    show "handshake_ok (is_active c) ?r t None Before (?T t)" for t
      using waiting_ok transport_side_ok [of "is_active c" announced err] by (simp add: ok_simps)
  qed
  from sound_steps [OF assms(3) this] obtain fs ls where s: "sound_at (handshake (is_active c) ?r) connection_waiter
    (\<lambda>t h a. (t = 0 \<longrightarrow> a = Some ?r) \<and> (t = 1 \<longrightarrow> h = After \<and> a = None)) (\<lambda>_ _. False) fs ls Q" by blast
  have "task Q 0 = Stop (Some ?r) \<and> task Q 1 = Stop None" if none: "\<And>u. \<not> able u Q"
  proof (rule conjI)
    obtain a where a: "task Q 1 = Stop a" using sound_progress [OF s none, of 1] by (auto simp: connection_waiter_def)
    then show "task Q 1 = Stop None" using sound_stop [OF s a] by simp
    have "\<not> blocking (shared Q)" using sound_stop [OF s a] sound_inv [OF s] by (simp add: handshake_def)
    then obtain b where b: "task Q 0 = Stop b" using sound_progress [OF s none, of 0] by (auto simp: connection_waiter_def split: if_splits)
    then show "task Q 0 = Stop (Some ?r)" using sound_stop [OF s b] by simp
  qed
  moreover have "a = Some ?r" if "task Q 0 = Stop a" for a using sound_stop [OF s that] by simp
  ultimately show ?thesis using sound_fault [OF s] by blast
qed

theorem handshake_outcome_delivered_witness:
  "\<exists>c Q. blocking c \<and> csteps (idle_crew c ((\<lambda>_. Stop None)(0 := wait_for_connection_steps (\<lambda>x. Stop (Some x)), 1 := transport_side None 0))) Q
    \<and> task Q 0 = Stop (Some (Inl ECONNREFUSED)) \<and> handshake_result True None 0 = Inl ECONNREFUSED"
proof -
  let ?c = "zero_context\<lparr>blocking := True, is_active := True\<rparr>"
  let ?c1 = "?c\<lparr>blocking := False, stcp_errno := ECONNREFUSED\<rparr>"
  let ?T = "(\<lambda>_. Stop None)(0 := wait_for_connection_steps (\<lambda>x. Stop (Some x)), 1 := transport_side None 0)"
  have wf: "wf_queue (queue pq ?c)" for pq using sample_context_wf [of pq] by (cases pq) simp_all
  obtain q where q: "mysock_enqueue_buffer (Some [0]) 0 empty_queue = Done () q" "wf_queue q"
    using pq.enq_spec [of empty_queue "[]"] enqueue_take [of 0 "[0]"] by auto
  let ?c2 = "?c1\<lparr>app_send_queue := q\<rparr>"
  have "transport_end 0 ?c = Done () ?c2" using q(1) by (simp add: transport_end_def announce_def on_queue_run run_simps zero_context_def)
  note first = runs_asD [OF transport_end_runs_as wf _ this, of ?T 1 "\<lambda>_. Stop None"]
  have wf2: "wf_queue (queue pq ?c2)" for pq using sample_context_wf [of pq] q(2) by (cases pq) simp_all
  have "mysock_wait_for_connection ?c2 = Done (Inl ECONNREFUSED) ?c2" by (simp add: mysock_wait_for_connection_def run_simps)
  note second = runs_asD [OF wait_for_connection_runs_as wf2 _ this, of "?T(1 := Stop None)" 0 "\<lambda>x. Stop (Some x)"]
  let ?Q = "idle_crew ?c2 (?T(1 := Stop None, 0 := Stop (Some (Inl ECONNREFUSED))))"
  have run: "csteps (idle_crew ?c ?T) ?Q" by (intro first second) (simp_all add: csteps.refl)
  have "Some (Inl ECONNREFUSED) = Some (handshake_result True None 0)"
    using handshake_outcome_delivered [OF _ _ run] wf [of App_send_queue] by simp
  moreover have "task ?Q 0 = Stop (Some (Inl ECONNREFUSED))" "blocking ?c" by simp_all
  ultimately show ?thesis using run by (metis option.inject)
qed

section \<open>The close\<close>

text \<open>
  A transport layer that takes the application's data as it comes, at most n bytes at a time, until it is told to close; k bounds its
  rounds, and it returns None when they are used up.
\<close>

fun collect :: "32 word \<Rightarrow> nat \<Rightarrow> nat \<Rightarrow> byte list \<Rightarrow> byte list option code" where
  "collect flags n 0 got = Stop None"
| "collect flags n (Suc k) got = wait_for_event_steps flags False (\<lambda>rc.
     if rc AND APP_DATA \<noteq> 0 then dequeue_buffer_steps App_recv_queue n True (\<lambda>r. collect flags n k (got @ snd r))
     else if rc AND APP_CLOSE_REQUESTED \<noteq> 0 then Stop (Some got)
     else collect flags n k got)"

text \<open>The rounds that buffers can take.\<close>

definition effort :: "byte list list \<Rightarrow> nat" where
  "effort bs = length (concat bs) + length bs"

lemma effort_simps [simp]: "effort [] = 0" "effort (b # bs) = length b + 1 + effort bs" "effort (as @ bs) = effort as + effort bs"
  by (simp_all add: effort_def)

text \<open>
  The ghost values: the application with what it wrote and has still to write, and whether it has asked for the close; the transport
  layer with what it has in hand, what it got, the rounds left, and whether it knows that there are data; or told to close.
\<close>

datatype part = Sender "byte list" "byte list list" bool | Collector hand "byte list" nat bool | Closed "byte list"

fun collected :: "byte list \<Rightarrow> byte list list \<Rightarrow> bool \<Rightarrow> part \<Rightarrow> mysock_context \<Rightarrow> bool" where
  "collected put rest closed (Collector h got k seen) c \<longleftrightarrow> held_queue h (app_recv_queue c) \<and> got @ concat (stream h (app_recv_queue c)) = put
     \<and> effort (stream h (app_recv_queue c) @ rest) + (if seen then 0 else 1) \<le> k \<and> (seen \<longrightarrow> stream h (app_recv_queue c) \<noteq> [])
     \<and> (close_requested c \<longleftrightarrow> closed)"
| "collected put rest closed (Closed got) c \<longleftrightarrow> closed \<and> got = put \<and> wf_queue (app_recv_queue c)"
| "collected put rest closed (Sender p r cl) c \<longleftrightarrow> False"

definition closing :: "byte list \<Rightarrow> (nat \<Rightarrow> part) \<Rightarrow> mysock_context \<Rightarrow> bool" where
  "closing wrote fs c \<longleftrightarrow> (\<exists>put rest closed. fs 0 = Sender put rest closed \<and> put @ concat rest = wrote \<and> (closed \<longrightarrow> rest = [])
     \<and> collected put rest closed (fs 1) c)"

fun close_waiter :: "32 word \<Rightarrow> part waiting" where
  "close_waiter flags t m (Collector h got k seen) = (if t = 1 \<and> m = Data_ready \<and> \<not> seen then {no_event flags} else {})"
| "close_waiter flags t m x = {}"

definition close_result :: "byte list \<Rightarrow> nat \<Rightarrow> part \<Rightarrow> byte list option \<Rightarrow> bool" where
  "close_result wrote t x a \<longleftrightarrow> (t = 0 \<longrightarrow> a = None \<and> x = Sender wrote [] True)
     \<and> (t = 1 \<longrightarrow> (\<exists>got. a = Some got \<and> x = Closed got \<or> x = Collector Free got 0 False))"

abbreviation close_ok :: "32 word \<Rightarrow> byte list \<Rightarrow> nat \<Rightarrow> monitor option \<Rightarrow> part \<Rightarrow> byte list option code \<Rightarrow> bool" where
  "close_ok flags wrote \<equiv> ok (closing wrote) (close_waiter flags) (close_result wrote) (\<lambda>_ _. False)"

lemma close_waiter_other: "t \<noteq> 1 \<or> m \<noteq> Data_ready \<Longrightarrow> close_waiter flags t m x = {}"
  by (cases x) auto

text \<open>The application's side.\<close>

fun may_send :: "byte list \<Rightarrow> part \<Rightarrow> bool" where
  "may_send b (Sender put rest closed) \<longleftrightarrow> \<not> closed \<and> (\<exists>r. rest = b # r)"
| "may_send b x \<longleftrightarrow> False"

fun send :: "byte list \<Rightarrow> part \<Rightarrow> part" where
  "send b (Sender put rest closed) = Sender (put @ b) (tl rest) closed"
| "send b x = x"

interpretation close_writer: queue_writer "closing wrote" "close_waiter flags" 0 App_recv_queue may_send send for wrote flags
proof
  fix fs c assume "closing wrote fs c"
  then obtain put rest closed where f: "fs 0 = Sender put rest closed" "put @ concat rest = wrote" "closed \<longrightarrow> rest = []"
    "collected put rest closed (fs 1) c" by (auto simp: closing_def)
  show "\<exists>h. held_queue h (queue App_recv_queue c) \<and> (\<forall>q b. may_send b (fs 0) \<and> held_queue h q \<and> stream h q = stream h (queue App_recv_queue c) @ [b]
      \<longrightarrow> closing wrote (fs(0 := send b (fs 0))) (set_queue App_recv_queue q c))"
  proof (cases "fs 1")
    case (Collector h got k seen)
    have "closing wrote (fs(0 := send b (fs 0))) (set_queue App_recv_queue q c)"
      if b: "may_send b (fs 0)" "held_queue h q" "stream h q = stream h (queue App_recv_queue c) @ [b]" for q b
    proof -
      obtain r where r: "rest = b # r" "\<not> closed" using b(1) f(1) by auto
      have "collected (put @ b) r closed (fs 1) (set_queue App_recv_queue q c)"
        using f(4) b(2,3) r Collector by (auto simp flip: append.assoc)
      with f(1,2) r show ?thesis by (auto simp: closing_def)
    qed
    then show ?thesis using f(4) Collector by auto
  next
    case (Closed got)
    then show ?thesis using f by (intro exI [of _ Free]) auto
  qed (use f(4) in simp)
qed (simp add: hushed_def close_waiter_other)

lemma sending_ok: "put @ concat bs = wrote
  \<Longrightarrow> close_ok flags wrote 0 None (Sender put bs False) (writes App_recv_queue bs (close_request_steps (Stop None)))"
proof (induction bs arbitrary: put)
  case Nil
  show ?case unfolding writes.simps close_request_steps_def
  proof (intro ok.enter ok_act)
    fix fs c a c' assume I: "closing wrote fs c" "fs 0 = Sender put [] False" and "modify (\<lambda>c. c\<lparr>close_requested := True\<rparr>) c = Done a c'"
    then have c': "c' = c\<lparr>close_requested := True\<rparr>" by (simp add: run_simps)
    have "closing wrote (fs(0 := Sender put [] True)) c'" using I by (cases "fs 1") (auto simp: closing_def c')
    moreover have "told (close_waiter flags) 0 (Some Data_ready) c c' (Leave Data_ready (Broadcast Data_ready (Stop (None :: byte list option))))"
      by (rule told_wake) (simp_all add: hushed_def close_waiter_other owing_def)
    ultimately show "\<exists>h'. close_ok flags wrote 0 (Some Data_ready) h' (Leave Data_ready (Broadcast Data_ready (Stop None)))
        \<and> closing wrote (fs(0 := h')) c' \<and> told (close_waiter flags) 0 (Some Data_ready) c c' (Leave Data_ready (Broadcast Data_ready (Stop (None :: byte list option))))"
      using Nil by (intro exI [of _ "Sender put [] True"]) (simp add: ok_simps close_result_def)
  qed (simp add: run_simps)
next
  case (Cons b bs)
  show ?case unfolding writes.simps by (rule close_writer.write_ok) (use Cons in simp_all)
qed

text \<open>The transport layer's side.\<close>

interpretation close_reader: queue_reader "closing wrote" "close_waiter flags" 1 App_recv_queue True
    "\<lambda>h (got, k, seen). Collector h got k seen" "\<lambda>b (got, k, seen). (got @ b, k, False)" "\<lambda>n (got, k, seen). 0 < n \<and> seen" for wrote flags
proof
  fix fs c h and l :: "byte list \<times> nat \<times> bool"
  assume I: "closing wrote fs c" "fs 1 = (case l of (got, k, seen) \<Rightarrow> Collector h got k seen)"
  then show "held_queue h (queue App_recv_queue c)" by (cases l) (auto simp: closing_def)
  fix h' q assume "held_queue h' q" "stream h' q = stream h (queue App_recv_queue c)"
  with I show "closing wrote (fs(1 := (case l of (got, k, seen) \<Rightarrow> Collector h' got k seen))) (set_queue App_recv_queue q c)"
    by (cases l) (auto simp: closing_def)
next
  fix fs c h q b bs n and l :: "byte list \<times> nat \<times> bool"
  assume I: "closing wrote fs c" "fs 1 = (case l of (got, k, seen) \<Rightarrow> Collector Free got k seen)" "case l of (got, k, seen) \<Rightarrow> 0 < n \<and> seen"
    "contents (queue App_recv_queue c) = b # bs" "held_queue h q" "stream h q = (if True \<and> n < length b then drop n b # bs else bs)"
  obtain got k where l: "l = (got, k, True)" "0 < n" using I(3) by (cases l) auto
  obtain put rest closed where f: "fs 0 = Sender put rest closed" "put @ concat rest = wrote" "closed \<longrightarrow> rest = []"
    "collected put rest closed (Collector Free got k True) c" using I(1,2) l by (auto simp: closing_def)
  have "take n b @ concat (stream h q) = b @ concat bs" using I(6) by (auto split: if_splits simp flip: append.assoc)
  then have "(got @ take n b) @ concat (stream h q) = put" using f(4) I(4) by simp
  moreover have "effort (stream h q @ rest) + 1 \<le> k" using f(4) I(4,6) l(2) by (auto split: if_splits)
  ultimately have "collected put rest closed (Collector h (got @ take n b) k False) (set_queue App_recv_queue q c)" using f(4) I(5) by simp
  with f show "closing wrote (fs(1 := (case case l of (got, k, seen) \<Rightarrow> (got @ take n b, k, False) of (got, k, seen) \<Rightarrow> Collector h got k seen)))
      (set_queue App_recv_queue q c)" by (simp add: closing_def l)
next
  fix fs c n and l :: "byte list \<times> nat \<times> bool"
  assume "closing wrote fs c" "fs 1 = (case l of (got, k, seen) \<Rightarrow> Collector Free got k seen)" "case l of (got, k, seen) \<Rightarrow> 0 < n \<and> seen"
    "head (queue App_recv_queue c) = None"
  then have False using enqueue_head [of "app_recv_queue c"] by (cases l) (auto simp: closing_def)
  then show "(\<lambda>c. head (queue App_recv_queue c) = None) \<in> close_waiter flags 1 Data_ready (case l of (got, k, seen) \<Rightarrow> Collector Free got k seen)" ..
next
  show "\<exists>g. close_waiter flags 1 Data_ready g \<noteq> {}" by (rule exI [of _ "Collector Free [] 0 False"]) simp
qed (auto simp: hushed_def close_waiter_other)

lemma wait_round_app:
  assumes "flags AND APP_DATA \<noteq> 0" "flags AND NETWORK_DATA = 0"
  shows "wait_round flags c = (if head (app_recv_queue c) \<noteq> None then Done APP_DATA c
    else if close_requested c then Done APP_CLOSE_REQUESTED (c\<lparr>close_requested := False\<rparr>) else Done 0 c)"
  using assms by (simp add: wait_round_def Let_def)

lemma collecting_ok:
  assumes flags: "flags AND APP_DATA \<noteq> 0" "flags AND NETWORK_DATA = 0" and n: "0 < n"
  shows "close_ok flags wrote 1 None (Collector Free got k False) (collect flags n k got)"
proof (induction k arbitrary: got)
  case 0
  show ?case by (simp add: ok_simps close_result_def)
next
  case (Suc k)
  let ?next = "\<lambda>rc. if rc AND APP_DATA \<noteq> 0 then dequeue_buffer_steps App_recv_queue n True (\<lambda>r. collect flags n k (got @ snd r))
     else if rc AND APP_CLOSE_REQUESTED \<noteq> 0 then Stop (Some got) else collect flags n k got"
  have data: "close_ok flags wrote 1 None (Collector Free got k True) (dequeue_buffer_steps App_recv_queue n True (\<lambda>r. collect flags n k (got @ snd r)))"
    using close_reader.read_ok [where l = "(got, k, True)" and n = n and wrote = wrote and flags = flags and R = "close_result wrote"
      and A = "\<lambda>_ _. False" and k = "\<lambda>r. collect flags n k (got @ snd r)"] Suc.IH n by simp
  show ?case unfolding collect.simps wait_for_event_steps_def
  proof (intro ok.enter ok.await)
    show "close_waiter flags 1 Data_ready (Collector Free got (Suc k) False) \<noteq> {}" by simp
    show "c' = c \<and> waits (event_test flags ?next) \<in> close_waiter flags 1 Data_ready (Collector Free got (Suc k) False)"
      if "event_test flags ?next c = Done None c'" for c c'
      using that by (simp add: event_waits) (auto simp: event_test_def wait_round_app [OF flags] run_simps split: if_splits)
  next
    fix fs c x c' assume I: "closing wrote fs c" "fs 1 = Collector Free got (Suc k) False" and x: "event_test flags ?next c = Done (Some x) c'"
    have empty: "head (app_recv_queue c) = None \<longleftrightarrow> contents (app_recv_queue c) = []"
      using I enqueue_head [of "app_recv_queue c"] by (auto simp: closing_def)
    have quiet: "told (close_waiter flags) 1 (Some Data_ready) c c' x" by (auto simp: told_def hushed_def close_waiter_other)
    show "\<exists>h'. close_ok flags wrote 1 (Some Data_ready) h' x \<and> closing wrote (fs(1 := h')) c' \<and> told (close_waiter flags) 1 (Some Data_ready) c c' x"
    proof (cases "head (app_recv_queue c) = None")
      case False
      with x have "x = Leave Data_ready (?next APP_DATA)" "c' = c" by (simp_all add: event_test_def wait_round_app [OF flags] run_simps)
      moreover from this I False empty have "closing wrote (fs(1 := Collector Free got k True)) c'" by (auto simp: closing_def)
      ultimately show ?thesis using data quiet by (intro exI [of _ "Collector Free got k True"]) (simp add: ok_simps)
    next
      case True
      with x have "x = Leave Data_ready (Stop (Some got))" "c' = c\<lparr>close_requested := False\<rparr>" "close_requested c"
        by (simp_all add: event_test_def wait_round_app [OF flags] run_simps split: if_splits)
      moreover from this I True empty have "closing wrote (fs(1 := Closed got)) c'" by (auto simp: closing_def)
      ultimately show ?thesis using quiet by (intro exI [of _ "Closed got"]) (simp add: ok_simps close_result_def)
    qed
  qed (simp_all add: event_test_def wait_round_app [OF flags] run_simps)
qed

section \<open>Properties of the close\<close>

text \<open>C6: All data before the close. The application writes buffers and asks for the close (what mywrite does once its checks have passed, and what myclose does first); the
  transport layer waits for events, without being told of network data, and takes what there is in pieces of any size, with as many rounds
  as there are bytes and buffers, and one more. In every interleaving: nothing fails; the transport layer sees the request to close only after
  it has got every byte, in order; and the two never get stuck before both are done, so the close is always seen.\<close>

theorem close_follows_all_data:
  assumes "flags AND APP_DATA \<noteq> 0" and "flags AND NETWORK_DATA = 0" and "0 < n" and "length (concat bs) + length bs < k"
    and "wf_queue (app_recv_queue c)" and "contents (app_recv_queue c) = []" and "\<not> close_requested c"
    and "csteps (idle_crew c ((\<lambda>_. Stop None)(0 := writes App_recv_queue bs (close_request_steps (Stop None)), 1 := collect flags n k []))) Q"
  shows "\<not> faults t Q e \<and> (\<forall>a. task Q 1 = Stop a \<longrightarrow> a = Some (concat bs))
    \<and> ((\<forall>u. \<not> able u Q) \<longrightarrow> task Q 0 = Stop None \<and> task Q 1 = Stop (Some (concat bs)))"
proof -
  let ?T = "(\<lambda>_. Stop None)(0 := writes App_recv_queue bs (close_request_steps (Stop None)), 1 := collect flags n k [])"
  let ?fs = "(\<lambda>_. Closed [])(0 := Sender [] bs False, 1 := Collector Free [] k False)"
  have "sound_at (closing (concat bs)) (close_waiter flags) (close_result (concat bs)) (\<lambda>_ _. False) ?fs (\<lambda>_. None) (idle_crew c ?T)"
  proof (rule sound_start)
    show "closing (concat bs) ?fs c" using assms(4-7) by (auto simp: closing_def effort_def)
    show "close_ok flags (concat bs) t None (?fs t) (?T t)" for t
      using sending_ok [of "[]" bs "concat bs" flags] collecting_ok [OF assms(1-3), of "concat bs" "[]" k] by (simp add: ok_simps close_result_def)
  qed
  from sound_steps [OF assms(8) this] obtain fs ls where
    s: "sound_at (closing (concat bs)) (close_waiter flags) (close_result (concat bs)) (\<lambda>_ _. False) fs ls Q" by blast
  note I = sound_inv [OF s, unfolded closing_def] and stop = sound_stop [OF s, unfolded close_result_def]
  have one: "a = Some (concat bs)" if "task Q 1 = Stop a" for a using stop [OF that] I by auto
  have "task Q 0 = Stop None \<and> task Q 1 = Stop (Some (concat bs))" if none: "\<And>u. \<not> able u Q"
  proof (rule conjI)
    obtain a where a: "task Q 0 = Stop a" using sound_progress [OF s none, of 0] by (auto simp: close_waiter_other)
    then show "task Q 0 = Stop None" using stop [OF a] by simp
    have "\<not> (waits f (shared Q) \<and> waits f \<in> close_waiter flags 1 m (fs 1))" for f :: "mysock_context \<Rightarrow> (mysock_context, byte list option code option) outcome" and m
      using stop [OF a] I assms(1) by (cases "fs 1") (auto simp: no_event_iff stream_head split: if_splits)
    then show "task Q 1 = Stop (Some (concat bs))" using sound_progress [OF s none, of 1] one by blast
  qed
  with one show ?thesis using sound_fault [OF s] by blast
qed

text \<open>The rounds of the transport layer, as calls.\<close>

lemma collect_round:
  assumes flags: "flags AND APP_DATA \<noteq> 0" "flags AND NETWORK_DATA = 0" and wf: "\<And>pq. wf_queue (queue pq c)" and T: "T t = collect flags n (Suc k) got"
  shows "contents (app_recv_queue c) = b # bs \<Longrightarrow> length b \<le> n
      \<Longrightarrow> \<exists>q. wf_queue q \<and> contents q = bs \<and> (\<forall>Q. csteps (idle_crew (c\<lparr>app_recv_queue := q\<rparr>) (T(t := collect flags n k (got @ b)))) Q \<longrightarrow> csteps (idle_crew c T) Q)"
    and "contents (app_recv_queue c) = [] \<Longrightarrow> close_requested c
      \<Longrightarrow> csteps (idle_crew c T) (idle_crew (c\<lparr>close_requested := False\<rparr>) (T(t := Stop (Some got))))"
proof -
  let ?next = "\<lambda>rc. if rc AND APP_DATA \<noteq> 0 then dequeue_buffer_steps App_recv_queue n True (\<lambda>r. collect flags n k (got @ snd r))
     else if rc AND APP_CLOSE_REQUESTED \<noteq> 0 then Stop (Some got) else collect flags n k got"
  let ?wait = "bind (wait_round flags) (\<lambda>rc. if rc \<noteq> 0 then ret rc else if False then ret 0 else block)"
  have head: "head (app_recv_queue c) = None \<longleftrightarrow> contents (app_recv_queue c) = []" using enqueue_head [of "app_recv_queue c"] wf [of App_recv_queue] by simp
  have wait: "csteps (idle_crew c T) Q" if "?wait c = Done rc c'" "csteps (idle_crew c' (T(t := ?next rc))) Q" for rc c' Q
    using runs_asD [OF wait_for_event_runs_as wf _ that(1), of T t ?next Q] that(2) T by simp
  show "\<exists>q. wf_queue q \<and> contents q = bs \<and> (\<forall>Q. csteps (idle_crew (c\<lparr>app_recv_queue := q\<rparr>) (T(t := collect flags n k (got @ b)))) Q \<longrightarrow> csteps (idle_crew c T) Q)"
    if b: "contents (app_recv_queue c) = b # bs" "length b \<le> n"
  proof -
    have w: "?wait c = Done APP_DATA c" using head b by (simp add: wait_round_app [OF flags] run_simps)
    from pq.deq_whole [OF _ b(1), of n True] wf [of App_recv_queue] b(2) obtain q where
      q: "mysock_dequeue_buffer n True (app_recv_queue c) = Done (length b, b) q" "wf_queue q" "contents q = bs" by auto
    then have d: "on_queue App_recv_queue (mysock_dequeue_buffer n True) c = Done (length b, b) (c\<lparr>app_recv_queue := q\<rparr>)" by (simp add: on_queue_run)
    have "csteps (idle_crew c T) Q" if Q: "csteps (idle_crew (c\<lparr>app_recv_queue := q\<rparr>) (T(t := collect flags n k (got @ b)))) Q" for Q
    proof (rule wait [OF w])
      show "csteps (idle_crew c (T(t := ?next APP_DATA))) Q"
        using runs_asD [OF dequeue_runs_as wf _ d, of "T(t := ?next APP_DATA)" t "\<lambda>r. collect flags n k (got @ snd r)" Q] Q by simp
    qed
    with q show ?thesis by blast
  qed
  show "csteps (idle_crew c T) (idle_crew (c\<lparr>close_requested := False\<rparr>) (T(t := Stop (Some got))))"
    if "contents (app_recv_queue c) = []" "close_requested c"
  proof (rule wait)
    show "?wait c = Done APP_CLOSE_REQUESTED (c\<lparr>close_requested := False\<rparr>)" using head that by (simp add: wait_round_app [OF flags] run_simps)
  qed (simp add: csteps.refl)
qed

theorem close_follows_all_data_witness:
  "\<exists>Q. csteps (idle_crew zero_context ((\<lambda>_. Stop None)(0 := writes App_recv_queue [[7, 8]] (close_request_steps (Stop None)), 1 := collect APP_DATA 5 4 []))) Q
    \<and> task Q 1 = Stop (Some [7, 8])"
proof -
  let ?T = "(\<lambda>_ :: nat. Stop None)(0 := writes App_recv_queue [[7, 8]] (close_request_steps (Stop None)), 1 := collect APP_DATA 5 4 [])"
  let ?T2 = "?T(0 := Stop None)"
  obtain q1 where q1: "mysock_enqueue_buffer (Some [7, 8]) (length [7, 8 :: byte]) empty_queue = Done () q1" "wf_queue q1" "contents q1 = [[7, 8]]"
    using pq.enq_spec [of empty_queue "[7, 8]"] by auto
  let ?c1 = "zero_context\<lparr>app_recv_queue := q1\<rparr>" and ?c2 = "zero_context\<lparr>app_recv_queue := q1, close_requested := True\<rparr>"
  have wf1: "wf_queue (queue pq ?c1)" and wf2: "wf_queue (queue pq ?c2)" for pq using sample_context_wf [of pq] q1(2) by (cases pq; simp)+
  have e: "on_queue App_recv_queue (mysock_enqueue_buffer (Some [7, 8]) (length [7, 8 :: byte])) zero_context = Done () ?c1"
    using q1(1) by (simp add: on_queue_run zero_context_def)
  have r: "modify (\<lambda>c. c\<lparr>close_requested := True\<rparr>) ?c1 = Done () ?c2" by (simp add: run_simps)
  have sent: "csteps (idle_crew zero_context ?T) Q" if "csteps (idle_crew ?c2 ?T2) Q" for Q
    by (rule runs_asD [OF enqueue_runs_as sample_context_wf _ e, of ?T 0 "\<lambda>_. close_request_steps (Stop None)"], simp)
      (rule runs_asD [OF close_request_runs_as wf1 _ r, of _ 0 "\<lambda>_. Stop None"], use that in simp_all)
  have "?T2 1 = collect APP_DATA 5 (Suc 3) []" by (simp add: eval_nat_numeral)
  from collect_round(1) [where T = ?T2 and t = 1 and c = ?c2, OF _ _ wf2 this] q1(3) obtain q2 where q2: "wf_queue q2" "contents q2 = []"
    "\<And>Q. csteps (idle_crew (?c2\<lparr>app_recv_queue := q2\<rparr>) (?T2(1 := collect APP_DATA 5 3 ([] @ [7, 8])))) Q \<Longrightarrow> csteps (idle_crew ?c2 ?T2) Q" by auto
  let ?c3 = "?c2\<lparr>app_recv_queue := q2\<rparr>" and ?T3 = "?T2(1 := collect APP_DATA 5 3 ([] @ [7, 8]))"
  have wf3: "wf_queue (queue pq ?c3)" for pq using sample_context_wf [of pq] q2(1) by (cases pq) simp_all
  have "?T3 1 = collect APP_DATA 5 (Suc 2) [7, 8]" by (simp add: eval_nat_numeral)
  from collect_round(2) [where T = ?T3 and t = 1 and c = ?c3, OF _ _ wf3 this] q2(2)
  have run: "csteps (idle_crew zero_context ?T) (idle_crew (?c3\<lparr>close_requested := False\<rparr>) (?T3(1 := Stop (Some [7, 8]))))" by (intro sent q2(3)) simp
  have "(7 # [8 :: byte]) = concat [[7, 8]]"
    using close_follows_all_data [OF _ _ _ _ _ _ _ run, of undefined undefined] sample_context_wf [of App_recv_queue] by (simp add: zero_context_def)
  with run show ?thesis by (intro exI conjI) (assumption, simp)
qed

end
