(* ===== verification/Tcp_Header.thy ===== *)
theory Tcp_Header
  imports Tcp_Checksum
begin

text \<open>
  The segment header of transport.h: tcphdr, a packed structure with two bit fields whose order
  depends on the host, and the macros TCP\_DATA\_START and TCP\_OPTIONS\_LEN. \<open>header_bytes\<close> is the object
  in memory, \<open>load_header\<close> reads it back; both exist on the two host byte orders.
\<close>

section \<open>The structure\<close>

record tcphdr =
  th_sport :: "16 word"
  th_dport :: "16 word"
  th_seq :: "32 word"
  th_ack :: "32 word"
  th_x2 :: "4 word"
  th_off :: "4 word"
  th_flags :: byte
  th_win :: "16 word"
  th_sum :: "16 word"
  th_urp :: "16 word"

text \<open>
  Two bit fields of four bits in the order of their declaration: from the low end of the byte on
  a little-endian host, from the high end on a big-endian one.
\<close>

fun bit_fields :: "endian \<Rightarrow> 4 word \<Rightarrow> 4 word \<Rightarrow> byte" where
  "bit_fields Little f g = ucast f OR push_bit 4 (ucast g)"
| "bit_fields Big f g = push_bit 4 (ucast f) OR ucast g"

fun first_field :: "endian \<Rightarrow> byte \<Rightarrow> 4 word" where
  "first_field Little b = ucast b"
| "first_field Big b = ucast (drop_bit 4 b)"

fun second_field :: "endian \<Rightarrow> byte \<Rightarrow> 4 word" where
  "second_field Little b = ucast (drop_bit 4 b)"
| "second_field Big b = ucast b"

definition offset_byte :: "endian \<Rightarrow> tcphdr \<Rightarrow> byte" where
  "offset_byte host h = (case host of
       Little \<Rightarrow> bit_fields Little (th_x2 h) (th_off h)
     | Big \<Rightarrow> bit_fields Big (th_off h) (th_x2 h))"

definition header_bytes :: "endian \<Rightarrow> tcphdr \<Rightarrow> byte list" where
  "header_bytes host h = store16 host (th_sport h) @ store16 host (th_dport h)
     @ store32 host (th_seq h) @ store32 host (th_ack h) @ [offset_byte host h, th_flags h]
     @ store16 host (th_win h) @ store16 host (th_sum h) @ store16 host (th_urp h)"

fun load32 :: "endian \<Rightarrow> byte list \<Rightarrow> nat \<Rightarrow> 32 word" where
  "load32 Little bs i = ucast (bs ! i) OR push_bit 8 (ucast (bs ! (i + 1)))
     OR push_bit 16 (ucast (bs ! (i + 2))) OR push_bit 24 (ucast (bs ! (i + 3)))"
| "load32 Big bs i = push_bit 24 (ucast (bs ! i)) OR push_bit 16 (ucast (bs ! (i + 1)))
     OR push_bit 8 (ucast (bs ! (i + 2))) OR ucast (bs ! (i + 3))"

definition load_header :: "endian \<Rightarrow> byte list \<Rightarrow> tcphdr" where
  "load_header host bs = \<lparr>th_sport = load16_at host bs 0, th_dport = load16_at host bs 2,
     th_seq = load32 host bs 4, th_ack = load32 host bs 8,
     th_x2 = (case host of Little \<Rightarrow> first_field Little (bs ! 12) | Big \<Rightarrow> second_field Big (bs ! 12)),
     th_off = (case host of Little \<Rightarrow> second_field Little (bs ! 12) | Big \<Rightarrow> first_field Big (bs ! 12)),
     th_flags = bs ! 13, th_win = load16_at host bs 14, th_sum = load16_at host bs 16, th_urp = load16_at host bs 18\<rparr>"

text \<open>The macros: th_off is promoted to int and multiplied in size_t.\<close>

definition tcp_data_start :: "endian \<Rightarrow> byte list \<Rightarrow> 64 word" where
  "tcp_data_start host p = ucast (th_off (load_header host p)) * 4"

definition tcp_options_len :: "endian \<Rightarrow> byte list \<Rightarrow> 64 word" where
  "tcp_options_len host p = tcp_data_start host p - of_nat sizeof_tcphdr"

text \<open>What a transport layer does before it sends: htons and htonl on the multi-byte fields.\<close>

definition htonl :: "endian \<Rightarrow> 32 word \<Rightarrow> 32 word" where
  "htonl host w = load32 host (store32 Big w) 0"

definition network_order :: "endian \<Rightarrow> tcphdr \<Rightarrow> tcphdr" where
  "network_order host h = h\<lparr>th_sport := htons host (th_sport h), th_dport := htons host (th_dport h),
     th_seq := htonl host (th_seq h), th_ack := htonl host (th_ack h), th_win := htons host (th_win h),
     th_sum := htons host (th_sum h), th_urp := htons host (th_urp h)\<rparr>"

section \<open>Loads and stores\<close>

lemma word32_bytes:
  "ucast (ucast w :: byte) OR push_bit 8 (ucast (ucast (drop_bit 8 w) :: byte))
     OR push_bit 16 (ucast (ucast (drop_bit 16 w) :: byte)) OR push_bit 24 (ucast (ucast (drop_bit 24 w) :: byte)) = (w :: 32 word)"
proof (rule bit_word_eqI)
  fix n assume "n < LENGTH(32)"
  then consider "n < 8" | "8 \<le> n" "n < 16" | "16 \<le> n" "n < 24" | "24 \<le> n" "n < 32" by force
  then show "bit (ucast (ucast w :: byte) OR push_bit 8 (ucast (ucast (drop_bit 8 w) :: byte))
     OR push_bit 16 (ucast (ucast (drop_bit 16 w) :: byte)) OR push_bit 24 (ucast (ucast (drop_bit 24 w) :: byte)) :: 32 word) n = bit w n"
    by cases (auto simp: bit_simps)
qed

lemma load32_store32: "load32 host (xs @ store32 host w @ ys) (length xs) = w"
  using word32_bytes [of w] by (cases host) (simp_all add: nth_append or.assoc or.commute or.left_commute)

lemma load16_store16_in: "load16_at host (xs @ store16 host w @ ys) (length xs) = w"
  using load16_store16 [of host w] by (cases host) (simp_all add: load16_at_def nth_append)

lemma fields_round_trip: "first_field host (bit_fields host f g) = f" "second_field host (bit_fields host f g) = g"
  by (cases host; simp; rule bit_word_eqI; auto simp: bit_simps dest: bit_imp_le_length)+

text \<open>The place of every field in memory.\<close>

lemma length_store32 [simp]: "length (store32 host v) = 4"
  by (cases host) simp_all

lemma header_length [simp]: "length (header_bytes host h) = 20"
  by (simp add: header_bytes_def)


lemma split_header:
  "header_bytes host h @ p = [] @ store16 host (th_sport h) @ (drop 2 (header_bytes host h) @ p)"
  "header_bytes host h @ p = take 2 (header_bytes host h) @ store16 host (th_dport h) @ (drop 4 (header_bytes host h) @ p)"
  "header_bytes host h @ p = take 4 (header_bytes host h) @ store32 host (th_seq h) @ (drop 8 (header_bytes host h) @ p)"
  "header_bytes host h @ p = take 8 (header_bytes host h) @ store32 host (th_ack h) @ (drop 12 (header_bytes host h) @ p)"
  "header_bytes host h @ p = take 14 (header_bytes host h) @ store16 host (th_win h) @ (drop 16 (header_bytes host h) @ p)"
  "header_bytes host h @ p = take 16 (header_bytes host h) @ store16 host (th_sum h) @ (drop 18 (header_bytes host h) @ p)"
  "header_bytes host h @ p = take 18 (header_bytes host h) @ store16 host (th_urp h) @ p"
  by (simp_all add: header_bytes_def)

lemma offset_fields: "(header_bytes host h @ p) ! 12 = offset_byte host h" "(header_bytes host h @ p) ! 13 = th_flags h"
  by (simp_all add: header_bytes_def nth_append)

lemma load_header_bytes: "load_header host (header_bytes host h @ p) = h"
proof -
  have "load16_at host (header_bytes host h @ p) 0 = th_sport h" using load16_store16_in [of host "[]"] by (subst split_header(1)) simp
  moreover have "load16_at host (header_bytes host h @ p) 2 = th_dport h"
    using load16_store16_in [of host "take 2 (header_bytes host h)"] by (subst split_header(2)) simp
  moreover have "load32 host (header_bytes host h @ p) 4 = th_seq h"
    using load32_store32 [of host "take 4 (header_bytes host h)"] by (subst split_header(3)) simp
  moreover have "load32 host (header_bytes host h @ p) 8 = th_ack h"
    using load32_store32 [of host "take 8 (header_bytes host h)"] by (subst split_header(4)) simp
  moreover have "load16_at host (header_bytes host h @ p) 14 = th_win h"
    using load16_store16_in [of host "take 14 (header_bytes host h)"] by (subst split_header(5)) simp
  moreover have "load16_at host (header_bytes host h @ p) 16 = th_sum h"
    using load16_store16_in [of host "take 16 (header_bytes host h)"] by (subst split_header(6)) simp
  moreover have "load16_at host (header_bytes host h @ p) 18 = th_urp h"
    using load16_store16_in [of host "take 18 (header_bytes host h)"] by (subst split_header(7)) simp
  ultimately show ?thesis using offset_fields [of host h p]
    by (cases host) (simp_all add: load_header_def offset_byte_def fields_round_trip del: bit_fields.simps first_field.simps second_field.simps)
qed

lemma htonl_bytes: "store32 host (htonl host w) = store32 Big w"
proof (cases host)
  case Little
  show ?thesis unfolding Little htonl_def by simp (intro conjI; rule bit_word_eqI; auto simp: bit_simps dest: bit_imp_le_length)
next
  case Big
  then show ?thesis using load32_store32 [of Big "[]" w "[]"] by (simp add: htonl_def del: store32.simps load32.simps)
qed

text \<open>The offset byte has the same value on both hosts, although the declarations differ.\<close>

lemma offset_byte_same: "offset_byte host h = offset_byte Big h"
  by (cases host) (simp_all add: offset_byte_def or.commute)

lemma header_on_the_wire: "header_bytes host (network_order host h) = header_bytes Big h"
proof -
  have "offset_byte host (network_order host h) = offset_byte Big h"
    unfolding offset_byte_same [of host] by (simp add: offset_byte_def network_order_def)
  then show ?thesis unfolding header_bytes_def by (simp add: network_order_def htons_bytes htonl_bytes del: store16.simps store32.simps htons.simps)
qed


section \<open>Properties\<close>

lemma data_start_header: "unat (tcp_data_start host (header_bytes host h @ p)) = 4 * unat (th_off h)"
proof -
  have "unat (th_off h) < 16" using unsigned_less [of "th_off h"] by simp
  then have u: "unat (ucast (th_off h) :: 64 word) = unat (th_off h)" by (simp add: unsigned_ucast_eq take_bit_nat_eq_self)
  with \<open>unat (th_off h) < 16\<close> show ?thesis by (simp add: tcp_data_start_def load_header_bytes unat_word_ariths)
qed

text \<open>C28: The segment header of transport.h. On either host byte order, the 20 bytes of a header are read
  back field by field, whatever payload follows; the two checksum and flag offsets that the rest of the
  program uses are those of the fields; a header whose fields are in network order has the same bytes on
  both hosts, bit fields included; TCP\_DATA\_START is four times the data offset, between 0 and 60, and
  TCP\_OPTIONS\_LEN is what it exceeds 20 by, or, for a data offset below 5, wraps around to a number above
  2 to the 64 minus 21.\<close>

theorem segment_header_round_trip:
  "load_header host (header_bytes host h @ payload) = h
   \<and> length (header_bytes host h) = sizeof_tcphdr
   \<and> load16_at host (header_bytes host h @ payload) off_th_sum = th_sum h
   \<and> (header_bytes host h @ payload) ! off_th_flags = th_flags h
   \<and> header_bytes Little (network_order Little h) = header_bytes Big (network_order Big h)
   \<and> unat (tcp_data_start host (header_bytes host h @ payload)) = 4 * unat (th_off h)
   \<and> unat (tcp_options_len host (header_bytes host h @ payload))
       = (if 5 \<le> unat (th_off h) then 4 * unat (th_off h) - 20 else 2 ^ 64 - 20 + 4 * unat (th_off h))"
proof -
  let ?p = "header_bytes host h @ payload"
  have s: "load16_at host ?p 16 = th_sum h"
    using arg_cong [OF load_header_bytes [of host h payload], of th_sum] by (simp add: load_header_def)
  have o: "unat (th_off h) < 16" using unsigned_less [of "th_off h"] by simp
  have "unat (tcp_options_len host ?p) = (if 5 \<le> unat (th_off h) then 4 * unat (th_off h) - 20 else 2 ^ 64 - 20 + 4 * unat (th_off h))"
    using data_start_header [of host h payload] o unfolding tcp_options_len_def by (auto simp: unat_sub_if_size word_size)
  with s show ?thesis by (simp add: load_header_bytes offset_fields header_on_the_wire data_start_header)
qed

end
