(* ===== verification/Descriptor_Race.thy ===== *)
theory Descriptor_Race
  imports Mysock_Core
begin

text \<open>
  The search for a free descriptor in \<open>_mysock_new_mysocket\<close> (mysock.c), step by step. Mysock\_Core has it as
  one step; but no lock protects global\_ctx, and mysocket and the receive thread of a listening socket, which opens
  a mysocket for each new connection, may search at the same time. Here every test of an entry, the store into the table and
  the store of my\_sd are steps of their own, and any number of threads take them in any order.
\<close>

section \<open>The search\<close>

text \<open>How far a thread is: at the test of entry k, before its store, after its store, at return k, past the loop.\<close>

datatype claim = Looking nat | Storing nat | Stored nat | Claimed nat | Table_full

text \<open>The next step of the thread whose new context is p.\<close>

fun claim_step :: "ptr \<Rightarrow> claim \<Rightarrow> ('os sys, claim) prog" where
  "claim_step p (Looking k) =
     (if k < MAX_NUM_CONNECTIONS
     then bind (gets (\<lambda>s. global_ctx s ! k)) (\<lambda>x. ret (if x = None then Storing k else Looking (Suc k)))
     else ret Table_full)"
| "claim_step p (Storing k) = bind (modify (\<lambda>s. s\<lparr>global_ctx := (global_ctx s)[k := Some p]\<rparr>)) (\<lambda>_. ret (Stored k))"
| "claim_step p (Stored k) = bind (on_ctx ''mysock.c'' 59 p (modify (\<lambda>c. c\<lparr>my_sd := int k\<rparr>))) (\<lambda>_. ret (Claimed k))"
| "claim_step p (Claimed k) = ret (Claimed k)"
| "claim_step p Table_full = ret Table_full"

text \<open>A schedule names the thread that moves, by its context; C says how far every thread is.\<close>

fun claim_run :: "ptr list \<Rightarrow> (ptr \<Rightarrow> claim) \<Rightarrow> ('os sys, ptr \<Rightarrow> claim) prog" where
  "claim_run [] C = ret C"
| "claim_run (p # ps) C = bind (claim_step p (C p)) (\<lambda>x. claim_run ps (C(p := x)))"

lemma claim_run_append: "claim_run (ps @ qs) C = bind (claim_run ps C) (claim_run qs)"
  by (induction ps arbitrary: C) (simp_all add: bind_assoc)

section \<open>Without interference\<close>

text \<open>A thread passes the entries in use.\<close>

lemma looking_run:
  "k + n \<le> MAX_NUM_CONNECTIONS \<Longrightarrow> \<forall>i < n. global_ctx s ! (k + i) \<noteq> None \<Longrightarrow> C p = Looking k
    \<Longrightarrow> claim_run (replicate n p) C s = Done (C(p := Looking (k + n))) s"
proof (induction n arbitrary: k C)
  case 0
  then show ?case by (simp add: ret_def fun_upd_idem)
next
  case (Suc n)
  from Suc.prems(2) have "global_ctx s ! k \<noteq> None" "\<forall>i < n. global_ctx s ! (Suc k + i) \<noteq> None" by (force, force)
  then have "claim_run (replicate n p) (C(p := Looking (Suc k))) s = Done ((C(p := Looking (Suc k)))(p := Looking (Suc k + n))) s"
    using Suc.prems(1) by (intro Suc.IH) simp_all
  moreover obtain y where "global_ctx s ! k = Some y" using \<open>global_ctx s ! k \<noteq> None\<close> by blast
  ultimately show ?case using Suc.prems(1,3) by (simp add: bind_def gets_def ret_def) (simp add: fun_upd_def)
qed

lemma search_run:
  assumes "length (global_ctx s) = 64" and "free_slot (global_ctx s) 0 = Some j" and "C p = Looking 0"
  shows "claim_run (replicate (Suc j) p) C s = Done (C(p := Storing j)) s" and "j < 64" and "global_ctx s ! j = None"
proof -
  from free_slot_Some [OF assms(2)] assms(1) have j: "j < 64" "global_ctx s ! j = None" "\<forall>m < j. global_ctx s ! m \<noteq> None" by auto
  have "replicate (Suc j) p = replicate j p @ [p]" by (simp add: replicate_append_same)
  then show "claim_run (replicate (Suc j) p) C s = Done (C(p := Storing j)) s"
    using looking_run [of 0 j s C p] j assms(3) by (simp add: claim_run_append run_simps del: replicate_Suc)
  show "j < 64" and "global_ctx s ! j = None" by (fact j)+
qed

lemma replicate_plus_3: "replicate (j + 3) p = replicate (Suc j) p @ [p, p]"
  using replicate_add [of "Suc j" 2 p] by (simp add: numeral_2_eq_2 numeral_3_eq_3)

text \<open>Run alone, the steps do what \<open>_mysock_new_mysocket\<close> does in one step, after the allocation of the context p.\<close>

lemma claim_performs_new_mysocket:
  fixes reliable :: bool
  assumes "length (global_ctx s) = 64" and "os_grants E (os s) fd r u w'" and "C p = Looking 0" and "p = length (ctxs s)"
  defines "s0 \<equiv> s\<lparr>os := w', ctxs := ctxs s @ [Some (fresh_context p fd r u reliable 0)]\<rparr>"
  shows "free_slot (global_ctx s) 0 = Some j \<Longrightarrow> mysock_new_mysocket E reliable s
      = bind (claim_run (replicate (j + 3) p) C) (\<lambda>C'. ret (case C' p of Claimed k \<Rightarrow> Inr (int k) | _ \<Rightarrow> Inl EMFILE)) s0"
    and "free_slot (global_ctx s) 0 = None \<Longrightarrow> claim_run (replicate 65 p) C s0 = Done (C(p := Table_full)) s0"
proof -
  have g: "length (global_ctx s0) = 64" "global_ctx s0 = global_ctx s" using assms(1) by (simp_all add: s0_def)
  show "mysock_new_mysocket E reliable s
      = bind (claim_run (replicate (j + 3) p) C) (\<lambda>C'. ret (case C' p of Claimed k \<Rightarrow> Inr (int k) | _ \<Rightarrow> Inl EMFILE)) s0"
    if j: "free_slot (global_ctx s) 0 = Some j"
  proof -
    have "claim_run (replicate (Suc j) p) C s0 = Done (C(p := Storing j)) s0"
      by (rule search_run(1)) (use g j assms(3) in simp_all)
    then show ?thesis
      unfolding replicate_plus_3 using new_mysocket_free [OF assms(2) j, of reliable]
      by (simp add: claim_run_append run_simps s0_def heap_simps hstore_def assms(4) fresh_context_def del: replicate_Suc)
  qed
  show "claim_run (replicate 65 p) C s0 = Done (C(p := Table_full)) s0" if "free_slot (global_ctx s) 0 = None"
  proof -
    from that g assms(1) have "\<forall>i < 64. global_ctx s0 ! (0 + i) \<noteq> None" by (auto simp: free_slot_None)
    from looking_run [of 0 64 s0 C p, OF _ this assms(3)] have "claim_run (replicate 64 p) C s0 = Done (C(p := Looking 64)) s0" by simp
    moreover have "replicate 65 p = replicate 64 p @ [p]" by (simp add: replicate_append_same flip: replicate_Suc)
    ultimately show ?thesis by (simp add: claim_run_append run_simps)
  qed
qed

section \<open>With interference\<close>

text \<open>Once entry j is taken, a thread that has not yet found it free never gets it.\<close>

lemma claim_step_taken:
  assumes "claim_step q y s = Done x s'" and "j < length (global_ctx s)" and "global_ctx s ! j \<noteq> None"
    and "y \<noteq> Storing j \<and> y \<noteq> Stored j \<and> y \<noteq> Claimed j"
  shows "global_ctx s' ! j \<noteq> None \<and> length (global_ctx s') = length (global_ctx s) \<and> x \<noteq> Storing j \<and> x \<noteq> Stored j \<and> x \<noteq> Claimed j"
proof (cases y)
  case (Looking k)
  with assms show ?thesis by (auto simp: run_simps split: if_splits)
next
  case (Storing k)
  with assms show ?thesis by (auto simp: run_simps nth_list_update split: if_splits)
next
  case (Stored k)
  with assms show ?thesis by (auto simp: run_simps split: option.splits)
qed (use assms in \<open>auto simp: run_simps\<close>)

lemma claim_run_taken:
  assumes "claim_run (replicate n q) C s = Done C' s'" and "j < length (global_ctx s)" and "global_ctx s ! j \<noteq> None"
    and "C q \<noteq> Storing j \<and> C q \<noteq> Stored j \<and> C q \<noteq> Claimed j"
  shows "C' q \<noteq> Claimed j"
  using assms
proof (induction n arbitrary: C s)
  case (Suc n)
  from Suc.prems(1) obtain x t where x: "claim_step q (C q) s = Done x t" "claim_run (replicate n q) (C(q := x)) t = Done C' s'"
    by (auto simp: bind_Done_iff)
  from claim_step_taken [OF x(1) Suc.prems(2-4)] Suc.prems(2) Suc.IH [OF x(2)] show ?case by simp
qed (simp add: ret_def)

text \<open>One call that is not interrupted, and two that both find the entry free before either stores.\<close>

lemma one_claims:
  assumes "length (global_ctx s) = 64" and "free_slot (global_ctx s) 0 = Some j" and "hload (ctxs s) p = Some c"
  shows "\<exists>s'. claim_run (replicate (j + 3) p) (\<lambda>_. Looking 0) s = Done ((\<lambda>_. Looking 0)(p := Claimed j)) s'
    \<and> global_ctx s' = (global_ctx s)[j := Some p]"
  unfolding replicate_plus_3
  using search_run(1) [OF assms(1,2), of "\<lambda>_. Looking 0" p] assms(3) by (simp add: claim_run_append run_simps del: replicate_Suc)

lemma both_claim:
  assumes "length (global_ctx s) = 64" and "free_slot (global_ctx s) 0 = Some j" and "p \<noteq> q"
    and "hload (ctxs s) p = Some c" and "hload (ctxs s) q = Some d"
  shows "\<exists>ps C s'. claim_run ps (\<lambda>_. Looking 0) s = Done C s' \<and> C p = Claimed j \<and> C q = Claimed j
    \<and> hload (ctxs s') p = Some (c\<lparr>my_sd := int j\<rparr>) \<and> hload (ctxs s') q = Some (d\<lparr>my_sd := int j\<rparr>)
    \<and> global_ctx s' = (global_ctx s)[j := Some q]"
proof -
  let ?C = "(\<lambda>_. Looking 0)(p := Storing j)"
  have "claim_run ((replicate (Suc j) p @ replicate (Suc j) q) @ [p, q, p, q]) (\<lambda>_. Looking 0) s = claim_run [p, q, p, q] (?C(q := Storing j)) s"
    unfolding claim_run_append bind_def
    using search_run(1) [OF assms(1,2), of "\<lambda>_. Looking 0" p] search_run(1) [OF assms(1,2), of ?C q] assms(3) by simp
  moreover have "\<exists>C s'. claim_run [p, q, p, q] (?C(q := Storing j)) s = Done C s' \<and> C p = Claimed j \<and> C q = Claimed j
    \<and> hload (ctxs s') p = Some (c\<lparr>my_sd := int j\<rparr>) \<and> hload (ctxs s') q = Some (d\<lparr>my_sd := int j\<rparr>)
    \<and> global_ctx s' = (global_ctx s)[j := Some q]"
    using assms(3-5) hload_bound [OF assms(4)] hload_bound [OF assms(5)] by (simp add: run_simps heap_simps)
  ultimately show ?thesis by metis
qed

text \<open>C18: Two calls of \<open>_mysock_new_mysocket\<close> that overlap can return the same descriptor. With entry j the lowest free
  one and two threads that have just allocated the contexts p and q, there is a schedule of their tests and stores after
  which both calls return j, both contexts carry j as my\_sd, and entry j holds q: p is in no entry of the table, so its
  connection is lost, every use of descriptor j works on q instead, and the process is no longer well-formed.
  If the two do not overlap, and p's call ends first, q never gets j, however far it runs.\<close>

theorem descriptor_claimed_twice:
  assumes "length (global_ctx s) = 64" and "free_slot (global_ctx s) 0 = Some j" and "p \<noteq> q"
    and "hload (ctxs s) p = Some c" and "hload (ctxs s) q = Some d" and "Some p \<notin> set (global_ctx s)"
  shows "(\<exists>ps C s'. claim_run ps (\<lambda>_. Looking 0) s = Done C s' \<and> C p = Claimed j \<and> C q = Claimed j
      \<and> hload (ctxs s') p = Some (c\<lparr>my_sd := int j\<rparr>) \<and> hload (ctxs s') q = Some (d\<lparr>my_sd := int j\<rparr>)
      \<and> global_ctx s' = (global_ctx s)[j := Some q] \<and> Some p \<notin> set (global_ctx s')
      \<and> mysock_get_context (int j) s' = Done (Some q) s' \<and> \<not> wf_sys s')
    \<and> (\<exists>C s'. claim_run (replicate (j + 3) p) (\<lambda>_. Looking 0) s = Done C s' \<and> C p = Claimed j
      \<and> (\<forall>n C' s''. claim_run (replicate n q) C s' = Done C' s'' \<longrightarrow> C' q \<noteq> Claimed j))"
proof
  note j = search_run(2,3) [OF assms(1,2), of "\<lambda>_. Looking 0", simplified]
  have "Some p \<notin> set ((global_ctx s)[j := Some q])" using assms(3,6) by (auto dest: set_update_subset_insert [THEN subsetD])
  moreover have "\<not> wf_sys s'" if "global_ctx s' = (global_ctx s)[j := Some q]" "hload (ctxs s') p = Some (c\<lparr>my_sd := int j\<rparr>)" for s' :: "'a sys"
    using wf_descriptors_live [of "global_ctx s'" "ctxs s'" p "c\<lparr>my_sd := int j\<rparr>"] that assms(1,3) j by (auto simp: wf_sys_def)
  moreover from both_claim [OF assms(1-5)] obtain ps C s' where s': "claim_run ps (\<lambda>_. Looking 0) s = Done C s'" "C p = Claimed j"
    "C q = Claimed j" "hload (ctxs s') p = Some (c\<lparr>my_sd := int j\<rparr>)" "hload (ctxs s') q = Some (d\<lparr>my_sd := int j\<rparr>)"
    "global_ctx s' = (global_ctx s)[j := Some q]" by blast
  moreover from this have "mysock_get_context (int j) s' = Done (Some q) s'"
    using j(1) assms(1) by (simp add: mysock_get_context_def verify_mysocket_descriptor_def run_simps)
  ultimately show "\<exists>ps C s'. claim_run ps (\<lambda>_. Looking 0) s = Done C s' \<and> C p = Claimed j \<and> C q = Claimed j
      \<and> hload (ctxs s') p = Some (c\<lparr>my_sd := int j\<rparr>) \<and> hload (ctxs s') q = Some (d\<lparr>my_sd := int j\<rparr>)
      \<and> global_ctx s' = (global_ctx s)[j := Some q] \<and> Some p \<notin> set (global_ctx s')
      \<and> mysock_get_context (int j) s' = Done (Some q) s' \<and> \<not> wf_sys s'"
    by (intro exI [of _ ps] exI [of _ C] exI [of _ s']) simp
next
  note j = search_run(2,3) [OF assms(1,2), of "\<lambda>_. Looking 0", simplified]
  from one_claims [OF assms(1,2,4)] obtain s' where
    s': "claim_run (replicate (j + 3) p) (\<lambda>_. Looking 0) s = Done ((\<lambda>_. Looking 0)(p := Claimed j)) s'" "global_ctx s' = (global_ctx s)[j := Some p]"
    by blast
  have "C' q \<noteq> Claimed j" if "claim_run (replicate n q) ((\<lambda>_. Looking 0)(p := Claimed j)) s' = Done C' s''" for n C' and s'' :: "'a sys"
    by (rule claim_run_taken [OF that]) (use s'(2) j assms(1,3) in simp_all)
  with s'(1) show "\<exists>C s'. claim_run (replicate (j + 3) p) (\<lambda>_. Looking 0) s = Done C s' \<and> C p = Claimed j
      \<and> (\<forall>n C' s''. claim_run (replicate n q) C s' = Done C' s'' \<longrightarrow> C' q \<noteq> Claimed j)"
    by (intro exI [of _ "(\<lambda>_. Looking 0)(p := Claimed j)"] exI [of _ s']) simp
qed

theorem descriptor_claimed_twice_witness:
  "\<exists>ps C (s' :: nat sys). claim_run ps (\<lambda>_. Looking 0) ((init_sys 0)\<lparr>ctxs := [Some zero_context, Some zero_context]\<rparr>) = Done C s'
    \<and> C 0 = Claimed 0 \<and> C 1 = Claimed 0 \<and> mysock_get_context 0 s' = Done (Some 1) s'"
proof -
  let ?s = "(init_sys (0 :: nat))\<lparr>ctxs := [Some zero_context, Some zero_context]\<rparr>"
  have s: "length (global_ctx ?s) = 64" "free_slot (global_ctx ?s) 0 = Some 0" "(0 :: ptr) \<noteq> 1"
    "hload (ctxs ?s) 0 = Some zero_context" "hload (ctxs ?s) 1 = Some zero_context" "Some 0 \<notin> set (global_ctx ?s)"
    by (simp_all add: init_sys_def replicate_64 hload_def)
  from descriptor_claimed_twice [OF s, THEN conjunct1] show ?thesis by auto
qed

end
