(* ===== verification/Spec2Isabelle.thy ===== *)
theory Spec2Isabelle
  imports File_Client Server_Session Memory_Safety Segment_Path Listen_Lock Context_Closing Tcp_Header Descriptor_Race
begin

text \<open>
  \<^bold>\<open>STCP\<close> is the mysocket library of a networking course: a socket interface whose transport layer
  (transport.c) is left to be written, with all that is around it, and a file client and a file server
  that use it. This development models the C code under src/ and proves what makes it correct, and
  where it is not, what it does instead.

  \<^bold>\<open>The program.\<close> An application calls the mysocket functions (mysock\_api.c). Each mysocket has a context
  (mysock.c, mysock\_impl.h) with three queues of buffers: bytes the application wrote, bytes it can read,
  packets from the network. A transport thread per connection runs the transport layer, which sees the
  queues through the transport interface (stcp\_api.c). Segments carry a checksum (tcp\_sum.c), pass a
  simulated unreliable network (network.c), and travel as frames on a TCP connection (network\_io\_tcp.c,
  network\_io\_socket.c, network\_io.c), from which a receive thread per context takes them. A listening
  mysocket keeps its pending connections in a queue (connection\_demux.c) found through a hash table
  (mysock\_hash.h). client.c asks for files, server.c sends them.

  \<^bold>\<open>The theories.\<close>

  \<^item> Stcp\_Prelude: programs as functions from a state to an outcome (return, wait, end of the process),
    loops watched for a number of rounds (\<open>iterate\<close>), invariant preservation (\<open>keeps\<close>), heaps of objects
    obtained from malloc, byte order.
  \<^item> Packet\_Queue: the queues of mysock.c as linked nodes in a heap. The locales \<open>byte_stream\<close> and
    \<open>packet_fifo\<close> are what readers and writers rely on; the interpretation \<open>pq\<close> proves them for the code.
    Every history of writes and reads conserves the bytes and their order, repeated reads drain the queue,
    a release frees every node.
  \<^item> Tcp\_Checksum: tcp\_sum.c on words at their width; the result is the Internet checksum of RFC 1071 and
    does not depend on the host byte order.
  \<^item> Tcp\_Header: the packed header structure of transport.h with its bit fields, and its macros.
  \<^item> Mysock\_Hash: the hash table macros. The locale \<open>pointer_map\<close> is the map interface, \<open>hash_params\<close> what a use
    of the macro must satisfy; a sublocale proof gives the first from the second, and the interpretation
    \<open>lt\<close> is listen\_table.
  \<^item> Mysock\_State: the records of the process: contexts, descriptor table, listening sockets, threads, and the
    operating system as a record of functions over a state the model does not look into.
  \<^item> Mysock\_Core: contexts, descriptors and threads (mysock.c, parts of network\_io\_socket.c); the invariant
    \<open>wf_sys\<close>; creation takes the lowest free descriptor, release gives it back.
  \<^item> Descriptor\_Race: the search for a free descriptor step by step, as threads take it at the same time without a lock;
    two of them can claim the same descriptor.
  \<^item> Network\_IO\_Tcp: frames on a stream socket; packets survive any splitting of reads and writes.
  \<^item> Network\_Unreliable: the drops, duplicates and reorderings of network.c refine an abstract channel,
    which invents nothing.
  \<^item> Connection\_Demux: the queue of a listening socket, from the SYN to accept.
  \<^item> Stcp\_Api: the transport interface; segments verify at the peer, a single corrupted byte is detected, the
    request to close is delivered once and after all data.
  \<^item> Mysock\_Api: the application interface; mywrite and myread convert a size to int as the code does. No call of a run of
    mywrites, myreads or myaccepts fails (the runs stop at a failure, they do not skip it): bytes written reach the transport layer, reads deliver the stream
    and then its end, connections are accepted in the order they completed.
  \<^item> Mysock\_Close: myclose on connections and on listening sockets.
  \<^item> Stcp\_Threads: the receive thread, the transport thread, and the skeleton of transport.c.
  \<^item> App\_Lines: strings, decimal numbers and \<open>get_nvt_line\<close>, which both programs define. The locale
    \<open>line_source\<close> states what reading lines needs; the interpretation \<open>ms\<close> is myread on an open mysocket.
  \<^item> File\_Server, File\_Client: server.c and client.c from main down. The client understands what the server
    says, and a transfer that is cut short is detected.
  \<^item> Server\_Session: a connection of the server, all requests answered in their order.
  \<^item> Process\_Invariant: all calls of both interfaces, the thread rounds and the system as one transition
    relation; every state reached by calls that do not overlap satisfies \<open>wf_sys\<close>.
  \<^item> Safety\_Logic, Safety\_Calls, Safety\_Threads, Safety\_Sockets: a program logic for memory safety (\<open>safe\<close>) over
    the invariant \<open>safe_inv\<close> and claims about single contexts (\<open>given\<close>), with a rule for every operation.
  \<^item> Memory\_Safety: the contract of each call (\<open>valid_call\<close>); as long as the callers keep it and calls do not overlap, no call in any
    reachable state uses NULL, a freed object or memory outside a buffer. A second mylisten, which breaks the
    contract, leaves a thread with a freed context.
  \<^item> Segment\_Path: a segment from stcp\_network\_send through the unreliable channel, the stream and the receive
    thread to stcp\_network\_recv of the peer, where each host resolves its name to the address its peer knows; and all that stcp\_network\_recv does with what it finds.
  \<^item> Listen\_Lock: the functions that take listen\_lock and connection\_lock, and their callers, as sequences of lock
    operations and acts (\<open>steps\<close>), which the threads of a process interleave (\<open>pstep\<close>). Run alone they do what the
    one-step models do; the locks exclude what they are there to exclude; two deadlocks and a lost update.
  \<^item> Context\_Threads: the functions that take data\_ready\_lock and blocking\_lock (mysock.c, stcp\_api.c, mysock\_api.c), as
    sequences of lock operations, waits, wake-ups and acts on one context (\<open>code\<close>), which any number of threads interleave
    (\<open>cstep\<close>): the test of a wait and the beginning of the sleep are two steps, sleepers may wake without a reason, and a read goes
    on without the lock once it has chosen the first node. mywrite and myread are here with their checks and assertions
    (\<open>mywrite_steps\<close>, \<open>myread_steps\<close>). Run alone these steps do what the one-step models do.
  \<^item> Queue\_Sharing: what a reader has in hand of a queue (\<open>hand\<close>), the queue it will leave, and why appending commutes with it.
  \<^item> Crew\_Logic: a logic for such threads (\<open>ok\<close>) over an invariant with one ghost value per thread: no act fails, no
    wake-up is lost, no deadlock on the mutexes.
  \<^item> Queue\_Logic: the locales \<open>queue_writer\<close> and \<open>queue_reader\<close>, what an invariant has to say about a queue for its
    operations to be accepted.
  \<^item> Context\_Safety: any threads that call the functions in any order, with one reader for each queue, one thread that
    waits for the connection and one that waits for events, which reads both queues of the transport layer, stay safe, lose no
    wake-up and never deadlock. The only assertion that can fail is that of mywrite and myread after myclose.
  \<^item> Context\_Streams: bytes cross a queue complete and in order; with two readers they do not, and a freed node is read.
  \<^item> Context\_Closing: between the application and the transport thread, the outcome of the handshake is delivered once, and
    the request to close after all the data; neither side is left waiting.
  \<^item> This theory: the transfer of a file through both programs.

  \<^bold>\<open>Correspondence.\<close> A definition has the name of the C function it models without a leading underscore, and
  its branches are those of the function in their order; records have the fields of the structures. A failed
  assertion, an access through NULL or to a freed object, an access outside an array, a use of a variable
  that was never set and a call of exit are \<open>Abort\<close> with the file and the line: the Makefile leaves assertions
  enabled. Failures that the code reports are errno values. Arrays that a function declares without
  initialising are arguments of its model.

  \<^bold>\<open>Threads.\<close> Outside Listen\_Lock, Context\_Threads with its clients, and Descriptor\_Race, calls do not overlap: a call runs
  to its end or to its wait before another begins. The mutexes blocking\_lock, data\_ready\_lock, connection\_lock and listen\_lock bracket whole calls or
  their loops; in the theories of the calls such a call is one step. A wait on a condition or for a thread is then the outcome
  \<open>Blocked\<close> with the state the other threads see; the call is made again from there. Listen\_Lock (for listen\_lock and
  connection\_lock) and Context\_Threads (for data\_ready\_lock and blocking\_lock) split the calls at every lock operation. global\_ctx has no lock at all; Descriptor\_Race shows what
  overlapping searches for a descriptor do. connect\_lock,
  which the code can leave held, is part of the state. In Context\_Threads each act between two lock operations, and each of
  the copies and changes that a read makes without the lock, is one step; a thread is a finite tree of calls, so a loop of
  the program stands for its runs of any length.

  \<^bold>\<open>Bounds.\<close> A loop that may run for ever is \<open>iterate n\<close>; theorems that it ends give a bound from which every
  \<open>n\<close> yields the same value. myclose calls itself through \<open>mysock_close_passive_socket\<close>; the depth 2 of \<open>myclose\<close> is
  enough, since a connection in the queue of a listening socket is not itself listening, which
  \<open>myclose_listening_socket\<close> shows. Sizes are natural numbers where the code cannot reach their wrap-around, as in the sum of the
  lengths of the buffers of stcp\_network\_send, which are lengths of objects in memory; they are converted to 32 bits where the
  code stores them in an int (\<open>int_of_size\<close>). The descriptors are 64, payloads 1500 bytes, as in the source.

  \<^bold>\<open>Assumed of other code.\<close> The system calls, rand\_r, getopt, the streams of the C library, inet\_addr and
  the resolver are arguments. Theorems that need them to behave name it: a stream socket that delivers some of the
  bytes (\<open>writes_to\<close>, \<open>reads_from\<close>), a system that grants sockets (\<open>os_grants\<close>), a file that can be read
  in pieces of at most the size asked for (\<open>serves\<close>) or written (\<open>stores\<close>), a poll that reports data (\<open>data_polled\<close>).

  \<^bold>\<open>Not modelled.\<close> Failure of malloc. Interleavings that involve the locks of several contexts and those of a listening socket at
  once. Outside Listen\_Lock and Context\_Threads a call that waits starts again from its beginning, so a myclose of a descriptor on
  which another thread waits, and a listening socket whose close waits with part of its queue closed, are seen only in this form. What an act without the
  lock does when another act overlaps with it in memory (Context\_Threads orders them). The node of an enqueue is made together with
  its insertion. A writer that waits keeps no
  reader out of listen\_lock, which POSIX leaves open. What is printed; the debugging functions; the Wireshark dissector (Lua) and the build files. The transport layer itself is an exercise: the development
  has its interface and its skeleton, and the theorem on the file transfer takes the agreement of the two byte
  streams, which a transport layer has to establish, as a premise.
\<close>

section \<open>A file transfer\<close>

text \<open>The server's half: a request that arrives is read and answered with the file.\<close>

lemma request_answered:
  assumes "session sd p (name @ [CR, LF]) cl s" "app_buffers p s = []" "serves F E name content (os s) w'"
    and name: "name \<noteq> []" "length name \<le> 255" "0 \<notin> set name" "crlf_free 0 name" and len: "length line = 256" "length resp = 5000"
  shows "\<exists>M line' s1 s2. (\<forall>n \<ge> M. get_nvt_line n server_sites sd line s = Done (Some (0, line')) s1
      \<and> process_line n F E resp sd line' s1 = Done (Some 0) s2)
    \<and> concat (app_buffers p s2) = response_ok name (of_nat (length content)) @ content"
proof -
  let ?line = "name @ 0 # drop (Suc (length name)) line"
  from get_nvt_line_run [of sd p name "[]" cl s line server_sites] assms(1) name len(1) obtain s1 where
    s1: "\<forall>n \<ge> length name + 2. get_nvt_line n server_sites sd line s = Done (Some (0, ?line)) s1" "session sd p [] cl s1"
    "os s1 = os s" "app_buffers p s1 = []" using assms(2) by auto
  from process_file [OF s1(2) name(1) c_string_end [OF name(3), of "drop (Suc (length name)) line"] name(2) len(2), of F E content w'] assms(3) s1(3,4) obtain N s2 where
    s2: "\<forall>n \<ge> N. process_line n F E resp sd ?line s1 = Done (Some 0) s2"
    "concat (app_buffers p s2) = response_ok name (of_nat (length content)) @ content" by auto
  show ?thesis
    by (intro exI [of _ "max N (length name + 2)"] exI [of _ ?line] exI [of _ s1] exI [of _ s2]) (use s1(1) s2 in auto)
qed

text \<open>C1: A file travels from the server to the client. The client is asked on the command line for a file
  whose name (at most 255 characters, no NUL, no CR LF) the server can read, with fewer than 2 to the 31
  bytes. The client writes the request. Whenever the bytes the client's application wrote are the stream
  that the server's application reads, the server reads the request, finds the file, and returns from
  \<open>process_line\<close>. Whenever the bytes the server's application wrote are the stream that the client's
  application reads, followed by anything, the client returns from its loop and the file it
  stored is, byte for byte, the file of the server. Every loop ends after finitely many rounds, and none of
  the calls fails, however the streams and the reads of the file are cut.\<close>

theorem file_transfer:
  assumes name: "name \<noteq> []" "length name \<le> 255" "0 \<notin> set name" "crlf_free 0 name"
    and client: "session sd p st cl s" "app_buffers p s = []" "length line = 1000" "stores S rcvd"
    and server: "length line' = 256" "length resp = 5000" and len: "length content < 2 ^ 31"
  shows "\<exists>line1 k s1. client_request S (Some name) line s = Done (Ask line1 k) s \<and> mywrite sd line1 k s = Done (Inr (int k)) s1
    \<and> (\<forall>t w'. session sd' p' (concat (app_buffers p s1)) cl' t \<and> app_buffers p' t = [] \<and> serves F E' name content (os t) w' \<longrightarrow>
        (\<exists>M line2 t1 t2. (\<forall>n \<ge> M. get_nvt_line n server_sites sd' line' t = Done (Some (0, line2)) t1
            \<and> process_line n F E' resp sd' line2 t1 = Done (Some 0) t2)
          \<and> (\<forall>rest s2. session sd p (concat (app_buffers p' t2) @ rest) cl s2 \<longrightarrow>
              (\<exists>N s3. (\<forall>n \<ge> N. client_answer n S E (Some name) False sd line1 None s2 = Done (Some (Inr ())) s3)
                \<and> rcvd (os s3) = content \<and> session sd p rest cl s3))))"
proof -
  have "length name + 2 < length line" "length name + 2 < 2 ^ 31" using name(2) client(3) by simp_all
  from request_sent [OF client(1) name(3) this, of S] obtain line1 s1 where
    s1: "client_request S (Some name) line s = Done (Ask line1 (length name + 2)) s" "length line1 = 1000"
    "mywrite sd line1 (length name + 2) s = Done (Inr (int (length name + 2))) s1" "concat (app_buffers p s1) = name @ [CR, LF]"
    using client(2,3) by auto
  have ans: "\<exists>N s3. (\<forall>n \<ge> N. client_answer n S E (Some name) False sd line1 None s2 = Done (Some (Inr ())) s3)
      \<and> rcvd (os s3) = content \<and> session sd p rest cl s3"
    if "session sd p ((response_ok name (of_nat (length content)) @ content) @ rest) cl s2" for rest s2
    using client_answer_run [OF client(4) _ name(3,4,2) len s1(2), of sd p rest cl s2 E "Some name" None] that by auto
  have both: "\<exists>M line2 t1 t2. (\<forall>n \<ge> M. get_nvt_line n server_sites sd' line' t = Done (Some (0, line2)) t1
            \<and> process_line n F E' resp sd' line2 t1 = Done (Some 0) t2)
          \<and> (\<forall>rest s2. session sd p (concat (app_buffers p' t2) @ rest) cl s2 \<longrightarrow>
              (\<exists>N s3. (\<forall>n \<ge> N. client_answer n S E (Some name) False sd line1 None s2 = Done (Some (Inr ())) s3)
                \<and> rcvd (os s3) = content \<and> session sd p rest cl s3))"
    if t: "session sd' p' (concat (app_buffers p s1)) cl' t \<and> app_buffers p' t = [] \<and> serves F E' name content (os t) w'" for t w'
  proof -
    have t0: "session sd' p' (name @ [CR, LF]) cl' t" "app_buffers p' t = []" "serves F E' name content (os t) w'" using t s1(4) by simp_all
    from request_answered [OF t0 name server] obtain M line2 t1 t2 where t2: "\<forall>n \<ge> M. get_nvt_line n server_sites sd' line' t = Done (Some (0, line2)) t1
        \<and> process_line n F E' resp sd' line2 t1 = Done (Some 0) t2"
      "concat (app_buffers p' t2) = response_ok name (of_nat (length content)) @ content" by blast
    show ?thesis
      by (rule exI [of _ M], rule exI [of _ line2], rule exI [of _ t1], rule exI [of _ t2], rule conjI [OF t2(1)], unfold t2(2))
        (intro allI impI, erule ans)
  qed
  show ?thesis by (rule exI [of _ line1], rule exI [of _ "length name + 2"], rule exI [of _ s1])
      (rule conjI [OF s1(1) conjI [OF s1(3)]], intro allI impI, rule both)
qed

theorem file_transfer_witness:
  "\<exists>line1 s2 N s3. (\<forall>n \<ge> N. client_answer n (typed []) loop_env (Some [102]) False 0 line1 None s2 = Done (Some (Inr ())) s3)
    \<and> os s3 = [7, 8]"
proof -
  let ?r = "replicate 1000 0 :: byte list" and ?l = "replicate 256 0 :: byte list" and ?b = "replicate 5000 0 :: byte list"
  let ?got = "\<lambda>rest line1 s2. \<exists>N s3. (\<forall>n \<ge> N. client_answer n (typed []) loop_env (Some [102]) False 0 line1 None s2 = Done (Some (Inr ())) s3)
                \<and> os s3 = [7, 8] \<and> session 0 0 rest False s3"
  have stream: "\<exists>t :: byte list sys. session 0 0 xs False t \<and> os t = w \<and> app_buffers 0 t = []" for xs w
  proof (cases "xs = []")
    case True
    then show ?thesis using sample_session [of "[]" w] by simp
  next
    case False
    then show ?thesis using sample_session [of "[xs]" w] by simp
  qed
  obtain s :: "byte list sys" where s: "session 0 0 [] False s" "app_buffers 0 s = []" using stream by blast
  have l: "[102 :: byte] \<noteq> []" "length [102 :: byte] \<le> 255" "0 \<notin> set [102 :: byte]" "crlf_free 0 [102]" "length ?r = 1000" "length ?l = 256" "length ?b = 5000"
    "length [7, 8 :: byte] < 2 ^ 31" by simp_all
  from file_transfer [OF l(1-4) s l(5) typed_stores [of "[]"] l(6-8), of 0 0 False one_file loop_env loop_env]
  obtain line1 and s1 :: "byte list sys" where srv: "\<forall>t w'. session 0 0 (concat (app_buffers 0 s1)) False t \<and> app_buffers 0 t = [] \<and> serves one_file loop_env [102] [7, 8] (os t) w' \<longrightarrow>
        (\<exists>M line2 t1 t2. (\<forall>n \<ge> M. get_nvt_line n server_sites 0 ?l t = Done (Some (0, line2)) t1
            \<and> process_line n one_file loop_env ?b 0 line2 t1 = Done (Some 0) t2)
          \<and> (\<forall>rest s2. session 0 0 (concat (app_buffers 0 t2) @ rest) False s2 \<longrightarrow> ?got rest line1 s2))"
    by (elim exE conjE) (rule that, assumption)
  obtain t :: "byte list sys" where t: "session 0 0 (concat (app_buffers 0 s1)) False t" "os t = [7, 8]" "app_buffers 0 t = []" using stream by blast
  have "serves one_file loop_env [102] [7, 8] (os t) []" using one_file_serves [of "[102]" "[7, 8]"] t(2) by simp
  with srv [THEN spec [of _ t], THEN spec [of _ "[]"]] t obtain t2 :: "byte list sys" where
    t2: "\<forall>rest s2. session 0 0 (concat (app_buffers 0 t2) @ rest) False s2 \<longrightarrow> ?got rest line1 s2" by (elim impE exE conjE) simp_all
  obtain s2 :: "byte list sys" where "session 0 0 (concat (app_buffers 0 t2) @ []) False s2" using stream by blast
  with t2 have "?got [] line1 s2" by blast
  then show ?thesis by blast
qed

end
